(* ===== verification/Prelude.thy ===== *)
theory Prelude
  imports Complex_Main "HOL-Library.Multiset"
begin

text \<open>
  Shared vocabulary of the development: the matrix record that stands for
  \<^verbatim>\<open>arma::Mat\<close>, equivalence closures, and the small list lemmas the
  components use.

  \<^verbatim>\<open>real_t\<close> (\<^verbatim>\<open>src/src/stp/types.h\<close>) is modelled by the type of
  mathematical reals: rounding is not part of the model.
\<close>

named_theorems mat_simps
named_theorems ccl_simps

type_synonym real_t = real
type_synonym cx_real_t = complex

section \<open>Matrices\<close>

text \<open>
  An armadillo matrix: its two dimensions and its elements by row and column. The storage
  is column-major, so the linear index \<open>i\<close> is row \<open>i mod n_rows\<close> of column
  \<open>i div n_rows\<close>.
\<close>

record 'a mat =
  n_rows :: nat
  n_cols :: nat
  elt :: "nat \<Rightarrow> nat \<Rightarrow> 'a"

definition n_elem :: "'a mat \<Rightarrow> nat" where
  "n_elem m = n_rows m * n_cols m"

definition at_lin :: "'a mat \<Rightarrow> nat \<Rightarrow> 'a" where
  "at_lin m i = elt m (i mod n_rows m) (i div n_rows m)"

definition mat_of_rows :: "'a list list \<Rightarrow> 'a mat" where
  "mat_of_rows rs = \<lparr>n_rows = length rs, n_cols = (case rs of [] \<Rightarrow> 0 | r # _ \<Rightarrow> length r),
     elt = (\<lambda>i j. rs ! i ! j)\<rparr>"

definition upd2 :: "(nat \<Rightarrow> nat \<Rightarrow> 'a) \<Rightarrow> nat \<Rightarrow> nat \<Rightarrow> 'a \<Rightarrow> nat \<Rightarrow> nat \<Rightarrow> 'a" where
  "upd2 f i j v = f(i := (f i)(j := v))"

lemma upd2_apply [simp]: "upd2 f i j v k l = (if k = i \<and> l = j then v else f k l)"
  by (simp add: upd2_def)

lemma n_elem_mat_of_rows [mat_simps]:
  "n_elem (mat_of_rows (r # rs)) = Suc (length rs) * length r"
  by (simp add: n_elem_def mat_of_rows_def)

section \<open>The equivalence generated by a set of edges\<close>

definition eqv :: "('p \<times> 'p) set \<Rightarrow> ('p \<times> 'p) set" where
  "eqv E = (E \<union> E\<inverse>)\<^sup>*"

lemma eqv_refl [simp, intro]: "(x, x) \<in> eqv E"
  by (simp add: eqv_def)

lemma eqv_sym: "(x, y) \<in> eqv E \<Longrightarrow> (y, x) \<in> eqv E"
proof -
  have "sym (E \<union> E\<inverse>)"
    by (auto simp: sym_def)
  then have "sym (eqv E)"
    unfolding eqv_def by (rule sym_rtrancl)
  then show "(x, y) \<in> eqv E \<Longrightarrow> (y, x) \<in> eqv E"
    by (rule symD)
qed

lemma eqv_trans [trans]: "(x, y) \<in> eqv E \<Longrightarrow> (y, z) \<in> eqv E \<Longrightarrow> (x, z) \<in> eqv E"
  unfolding eqv_def by (rule rtrancl_trans)

lemma eqv_edge: "(x, y) \<in> E \<Longrightarrow> (x, y) \<in> eqv E"
  by (auto simp: eqv_def)

lemma eqv_mono: "E \<subseteq> F \<Longrightarrow> eqv E \<subseteq> eqv F"
  unfolding eqv_def by (rule rtrancl_mono) auto

lemma eqv_least:
  assumes "E \<subseteq> eqv F"
  shows "eqv E \<subseteq> eqv F"
proof -
  have "E \<union> E\<inverse> \<subseteq> eqv F"
    using assms by (auto intro: eqv_sym)
  then have "(E \<union> E\<inverse>)\<^sup>* \<subseteq> (eqv F)\<^sup>*"
    by (rule rtrancl_mono)
  also have "(eqv F)\<^sup>* = eqv F"
    by (simp add: eqv_def)
  finally show ?thesis
    by (simp add: eqv_def)
qed

text \<open>A relation that is an equivalence and holds the edges holds their closure.\<close>

lemma eqv_subset_kernel:
  assumes "\<And>x y. (x, y) \<in> E \<Longrightarrow> f x = f y" and "(x, y) \<in> eqv E"
  shows "f x = f y"
proof -
  from assms(2) have "(x, y) \<in> (E \<union> E\<inverse>)\<^sup>*"
    by (simp add: eqv_def)
  then show ?thesis
    by (induction rule: rtrancl_induct) (auto dest: assms(1))
qed

lemma eqv_outside:
  assumes "(x, y) \<in> eqv E" and "E \<subseteq> V \<times> V" and "x \<notin> V"
  shows "x = y"
proof -
  from assms(1) have "(x, y) \<in> (E \<union> E\<inverse>)\<^sup>*"
    by (simp add: eqv_def)
  then show ?thesis
  proof (cases rule: converse_rtranclE)
    case base
    then show ?thesis .
  next
    case (step z)
    with assms(2,3) show ?thesis by auto
  qed
qed

text \<open>Adding one edge joins the two classes of its ends and nothing else.\<close>

lemma eqv_insert:
  "(x, y) \<in> eqv (insert (p, q) E) \<longleftrightarrow>
     (x, y) \<in> eqv E \<or> (x, p) \<in> eqv E \<and> (q, y) \<in> eqv E \<or> (x, q) \<in> eqv E \<and> (p, y) \<in> eqv E"
  (is "?l \<longleftrightarrow> ?r x y")
proof
  assume ?l
  then have "(x, y) \<in> (insert (p, q) E \<union> (insert (p, q) E)\<inverse>)\<^sup>*"
    by (simp add: eqv_def)
  then show "?r x y"
  proof (induction rule: rtrancl_induct)
    case base
    show ?case by simp
  next
    case (step y z)
    then consider "(y, z) = (p, q)" | "(y, z) = (q, p)" | "(y, z) \<in> eqv E"
      by (auto intro: eqv_edge eqv_sym)
    then show ?case
      using step.IH by cases (auto intro: eqv_trans eqv_sym)
  qed
next
  have E: "(a, b) \<in> eqv E \<Longrightarrow> (a, b) \<in> eqv (insert (p, q) E)" for a b
    using eqv_mono [of E "insert (p, q) E"] by blast
  have pq: "(p, q) \<in> eqv (insert (p, q) E)" "(q, p) \<in> eqv (insert (p, q) E)"
    by (auto intro: eqv_edge eqv_sym)
  assume "?r x y"
  then show ?l
    using E pq by (blast intro: eqv_trans)
qed

section \<open>Loops over an interval\<close>

text \<open>
  A \<^verbatim>\<open>for\<close> loop over \<open>[lo, hi)\<close> is a fold over \<open>[lo..<hi]\<close>; its invariant
  is indexed by the loop variable.
\<close>

lemma fold_upt_invariant:
  assumes "lo \<le> hi" and "P lo s"
    and "\<And>i s. lo \<le> i \<Longrightarrow> i < hi \<Longrightarrow> P i s \<Longrightarrow> P (Suc i) (f i s)"
  shows "P hi (fold f [lo..<hi] s)"
  using assms
proof (induction hi)
  case 0
  then show ?case by simp
next
  case (Suc hi)
  show ?case
  proof (cases "lo \<le> hi")
    case True
    then have "P hi (fold f [lo..<hi] s)"
      using Suc by simp
    with Suc.prems True show ?thesis by simp
  next
    case False
    with Suc.prems show ?thesis by (simp add: le_Suc_eq)
  qed
qed

end
