(* ===== verification/Tbb.thy ===== *)
theory Tbb
  imports Prelude
begin

text \<open>
  What the code relies on of Intel TBB (a submodule, not part of this repository).
  \<^verbatim>\<open>parallel_for\<close> and \<^verbatim>\<open>parallel_reduce\<close> split a
  \<^verbatim>\<open>blocked_range\<close> into subranges that partition it and run the body once on each, in
  no fixed order. Which subranges these are, and in which order and on which thread they run,
  is a parameter of the model. Bodies run one after the other: the model has the orders in which
  whole bodies run, not the interleavings of their single steps.
\<close>

section \<open>Partitions of a range\<close>

type_synonym range = "nat \<times> nat"

fun chain :: "nat \<Rightarrow> range list \<Rightarrow> nat \<Rightarrow> bool" where
  "chain lo [] hi \<longleftrightarrow> lo = hi"
| "chain lo (r # rs) hi \<longleftrightarrow> fst r = lo \<and> lo < snd r \<and> chain (snd r) rs hi"

text \<open>\<open>covers lo hi rs\<close>: the subranges \<open>rs\<close>, in any order, partition \<open>[lo, hi)\<close>.\<close>

definition covers :: "nat \<Rightarrow> nat \<Rightarrow> range list \<Rightarrow> bool" where
  "covers lo hi rs \<longleftrightarrow> chain lo (sort_key fst rs) hi"

definition range_set :: "range \<Rightarrow> nat set" where
  "range_set r = {fst r..<snd r}"

lemma chain_le: "chain lo rs hi \<Longrightarrow> lo \<le> hi"
  by (induction rs arbitrary: lo) force+

lemma chain_bounds: "chain lo rs hi \<Longrightarrow> r \<in> set rs \<Longrightarrow> lo \<le> fst r \<and> fst r < snd r \<and> snd r \<le> hi"
  by (induction rs arbitrary: lo) (force dest: chain_le)+

lemma chain_union: "chain lo rs hi \<Longrightarrow> (\<Union>r \<in> set rs. range_set r) = {lo..<hi}"
proof (induction rs arbitrary: lo)
  case Nil
  then show ?case by simp
next
  case (Cons r rs)
  then have "(\<Union>r \<in> set rs. range_set r) = {snd r..<hi}" and "snd r \<le> hi"
    by (auto dest: chain_le)
  with Cons.prems show ?case
    by (auto simp: range_set_def)
qed

lemma chain_ordered:
  "chain lo rs hi \<Longrightarrow> sorted_wrt (\<lambda>r s. snd r \<le> fst s) rs"
  by (induction rs arbitrary: lo) (auto dest: chain_bounds)

lemma chain_distinct: "chain lo rs hi \<Longrightarrow> distinct (map fst rs)"
  by (induction rs arbitrary: lo) (force dest: chain_bounds)+

lemma covers_bounds: "covers lo hi rs \<Longrightarrow> r \<in> set rs \<Longrightarrow> lo \<le> fst r \<and> fst r < snd r \<and> snd r \<le> hi"
  unfolding covers_def by (drule chain_bounds) auto

lemma covers_union: "covers lo hi rs \<Longrightarrow> (\<Union>r \<in> set rs. range_set r) = {lo..<hi}"
  unfolding covers_def by (drule chain_union) simp

lemma covers_distinct: "covers lo hi rs \<Longrightarrow> distinct (map fst rs)"
  unfolding covers_def by (drule chain_distinct) (simp add: distinct_map)

text \<open>Two different subranges lie one after the other.\<close>

lemma chain_apart:
  "chain lo rs hi \<Longrightarrow> r \<in> set rs \<Longrightarrow> s \<in> set rs \<Longrightarrow> r = s \<or> snd r \<le> fst s \<or> snd s \<le> fst r"
  by (induction rs arbitrary: lo) (auto dest: chain_bounds)

lemma covers_apart:
  "covers lo hi rs \<Longrightarrow> r \<in> set rs \<Longrightarrow> s \<in> set rs \<Longrightarrow> r = s \<or> snd r \<le> fst s \<or> snd s \<le> fst r"
  unfolding covers_def by (drule chain_apart) auto

lemma covers_lower_end: "covers lo hi rs \<Longrightarrow> lo < hi \<Longrightarrow> lo \<in> fst ` set rs"
  unfolding covers_def by (cases "sort_key fst rs") (auto simp flip: set_sort [of fst rs])

section \<open>Reductions\<close>

text \<open>
  The shape of \<^verbatim>\<open>parallel_reduce\<close>, and of a \<^verbatim>\<open>combinable\<close> that is filled by a
  \<^verbatim>\<open>parallel_for\<close> and combined at the end: each thread folds the subranges it gets into an
  accumulator of its own, and the accumulators are combined.
\<close>

type_synonym schedule = "range list list"

definition run_thread :: "(nat \<Rightarrow> 'a \<Rightarrow> 'a) \<Rightarrow> 'a \<Rightarrow> range list \<Rightarrow> 'a" where
  "run_thread f z rs = fold (\<lambda>r. fold f [fst r..<snd r]) rs z"

definition parallel_reduce :: "(nat \<Rightarrow> 'a \<Rightarrow> 'a) \<Rightarrow> ('a \<Rightarrow> 'a \<Rightarrow> 'a) \<Rightarrow> 'a \<Rightarrow> schedule \<Rightarrow> 'a" where
  "parallel_reduce f combine z sched = fold (\<lambda>rs acc. combine acc (run_thread f z rs)) sched z"

end
