(* ===== verification/Union_Find.thy ===== *)
theory Union_Find
  imports Prelude
begin

text \<open>
  The label equivalence array of the connected component labelling
  (\<^verbatim>\<open>src/src/stp/common/ccl.h\<close>): \<^verbatim>\<open>find_root\<close>, \<^verbatim>\<open>set_root\<close> and
  \<^verbatim>\<open>set_union\<close>. A column of the array \<^verbatim>\<open>P\<close> is a function from index to
  value; each operation returns the array it leaves behind.
\<close>

type_synonym tree = "nat \<Rightarrow> nat"

fun find_root :: "tree \<Rightarrow> nat \<Rightarrow> nat" where
  "find_root P r = (if P r < r then find_root P (P r) else r)"

fun set_root :: "tree \<Rightarrow> nat \<Rightarrow> nat \<Rightarrow> tree" where
  "set_root P i r = (if P i < i then let j = P i in set_root (P(i := r)) j r else P(i := r))"

definition set_union :: "tree \<Rightarrow> nat \<Rightarrow> nat \<Rightarrow> nat \<times> tree" where
  "set_union P i j =
     (let r = find_root P i in
      if i \<noteq> j then
        let rj = find_root P j;
            r = (if r > rj then rj else r);
            P = set_root P j r
        in (r, set_root P i r)
      else (r, set_root P i r))"

declare find_root.simps [simp del] set_root.simps [simp del]

section \<open>Representatives\<close>

lemma find_root_le: "find_root P x \<le> x"
proof (induction P x rule: find_root.induct)
  case (1 P x)
  then show ?case by (subst find_root.simps) force
qed

lemma find_root_is_root: "\<not> P (find_root P x) < find_root P x"
proof (induction P x rule: find_root.induct)
  case (1 P x)
  then show ?case
    by (cases "P x < x") (simp_all add: find_root.simps [of P x])
qed

lemma find_root_step: "P x < x \<Longrightarrow> find_root P x = find_root P (P x)"
  by (simp add: find_root.simps [of P x])

lemma find_root_fix: "\<not> P x < x \<Longrightarrow> find_root P x = x"
  by (simp add: find_root.simps [of P x])

lemma find_root_idem [simp]: "find_root P (find_root P x) = find_root P x"
  by (rule find_root_fix) (rule find_root_is_root)

text \<open>The representative of \<open>x\<close> depends on the entries up to \<open>x\<close> only.\<close>

lemma find_root_cong: "(\<And>k. k \<le> x \<Longrightarrow> P k = Q k) \<Longrightarrow> find_root P x = find_root Q x"
proof (induction x rule: less_induct)
  case (less x)
  show ?case
  proof (cases "P x < x")
    case True
    with less have "find_root P (P x) = find_root Q (P x)" by simp
    with True less.prems show ?thesis by (simp add: find_root_step)
  next
    case False
    with less.prems show ?thesis by (simp add: find_root_fix)
  qed
qed

text \<open>Redirecting one node to a smaller root moves the nodes above it, or nothing.\<close>

lemma find_root_redirect:
  assumes "r < i" and "\<not> P r < r"
  shows "find_root (P(i := r)) x = find_root P x \<or>
    find_root (P(i := r)) x = r \<and> find_root P x = find_root P i"
proof (induction x rule: less_induct)
  case (less x)
  let ?Q = "P(i := r)"
  have r: "find_root ?Q r = r"
    using assms by (intro find_root_fix) simp
  consider "x = i" | "x \<noteq> i" "P x < x" | "x \<noteq> i" "\<not> P x < x" by blast
  then show ?case
  proof cases
    case 1
    with assms r have "find_root ?Q x = r" by (simp add: find_root_step [of ?Q i])
    with 1 show ?thesis by (simp only:) simp
  next
    case 2
    with less.IH [of "P x"] show ?thesis by (simp add: find_root_step)
  next
    case 3
    then show ?thesis by (simp add: find_root_fix)
  qed
qed

lemma find_root_self_loop:
  assumes "\<not> P i < i"
  shows "find_root (P(i := i)) x = find_root P x"
proof (induction x rule: less_induct)
  case (less x)
  show ?case
  proof (cases "x \<noteq> i \<and> P x < x")
    case True
    with less.IH [of "P x"] show ?thesis by (simp add: find_root_step)
  next
    case False
    with assms show ?thesis by (auto simp: find_root_fix)
  qed
qed

section \<open>Path compression\<close>

text \<open>
  \<open>set_root\<close> with a root \<open>r\<close> at or below the root of \<open>i\<close> gives every node of
  \<open>i\<close>'s tree the representative \<open>r\<close> and leaves the other trees alone.
\<close>

lemma find_root_set_root:
  assumes "r \<le> find_root P i" and "\<not> P r < r"
  shows "find_root (set_root P i r) x =
    (if find_root P x = find_root P i then r else find_root P x)"
  using assms
proof (induction P i r rule: set_root.induct)
  case (1 P i r)
  show ?case
  proof (cases "P i < i")
    case True
    let ?Q = "P(i := r)" and ?j = "P i"
    have ri: "r < i"
      using True "1.prems"(1) find_root_le [of P ?j] by (simp add: find_root_step)
    have j: "find_root ?Q ?j = find_root P i"
      using True by (subst find_root_cong [of ?j ?Q P]) (auto simp: find_root_step)
    have "find_root (set_root ?Q ?j r) x =
        (if find_root ?Q x = find_root ?Q ?j then r else find_root ?Q x)"
      using True "1.prems" ri j by (intro "1.IH") (simp_all only: fun_upd_other, simp_all)
    moreover have "set_root P i r = set_root ?Q ?j r"
      using True by (simp add: set_root.simps [of P i] Let_def)
    ultimately show ?thesis
      using find_root_redirect [of r i P x] ri "1.prems"(2) j by auto
  next
    case False
    then have i: "find_root P i = i" and upd: "set_root P i r = P(i := r)"
      by (simp_all add: find_root_fix set_root.simps [of P i])
    show ?thesis
    proof (cases "r = i")
      case True
      with False upd i find_root_self_loop [of P i x] show ?thesis by metis
    next
      case neq: False
      with "1.prems" i have ri: "r < i" by simp
      then have "find_root (P(i := r)) x \<noteq> i"
        using find_root_is_root [of "P(i := r)" x] by force
      with find_root_redirect [of r i P x] ri "1.prems"(2) i show ?thesis
        unfolding upd by metis
    qed
  qed
qed

lemma set_root_entry:
  assumes "r \<le> find_root P i"
  shows "set_root P i r k = P k \<or> set_root P i r k = r \<and> r \<le> k \<and> k \<le> i"
  using assms
proof (induction P i r rule: set_root.induct)
  case (1 P i r)
  show ?case
  proof (cases "P i < i")
    case True
    let ?Q = "P(i := r)" and ?j = "P i"
    have j: "find_root ?Q ?j = find_root P i"
      using True by (subst find_root_cong [of ?j ?Q P]) (auto simp: find_root_step)
    have "set_root ?Q ?j r k = ?Q k \<or> set_root ?Q ?j r k = r \<and> r \<le> k \<and> k \<le> ?j"
      using True "1.prems" j by (intro "1.IH") (simp_all only:)
    moreover have "r \<le> i"
      using "1.prems" find_root_le [of P i] by simp
    ultimately show ?thesis
      using True by (auto simp: set_root.simps [of P i] Let_def split: if_splits)
  next
    case False
    with "1.prems" show ?thesis
      by (auto simp: set_root.simps [of P i] find_root_fix)
  qed
qed

section \<open>Forests over a set of allocated labels\<close>

text \<open>
  \<open>forest P A\<close>: label 0 is not allocated, and the parent of an allocated label is an
  allocated label that is not larger. This is the invariant of the columns of \<^verbatim>\<open>P\<close>
  between operations.
\<close>

definition forest :: "tree \<Rightarrow> nat set \<Rightarrow> bool" where
  "forest P A \<longleftrightarrow> 0 \<notin> A \<and> (\<forall>a \<in> A. P a \<in> A \<and> P a \<le> a)"

lemma forest_parent: "forest P A \<Longrightarrow> a \<in> A \<Longrightarrow> P a \<in> A \<and> P a \<le> a"
  by (simp add: forest_def)

lemma forest_pos: "forest P A \<Longrightarrow> a \<in> A \<Longrightarrow> 0 < a"
  by (auto simp: forest_def intro: gr0I)

lemma forest_find_root: "forest P A \<Longrightarrow> a \<in> A \<Longrightarrow> find_root P a \<in> A"
proof (induction a rule: less_induct)
  case (less a)
  then show ?case
    by (cases "P a < a") (auto simp: find_root_step find_root_fix dest: forest_parent)
qed

lemma forest_root_fix: "forest P A \<Longrightarrow> a \<in> A \<Longrightarrow> P (find_root P a) = find_root P a"
  using forest_find_root forest_parent find_root_is_root le_neq_implies_less by metis

lemma forest_set_root:
  assumes "forest P A" and "i \<in> A" and "r \<in> A" and "r \<le> find_root P i"
  shows "forest (set_root P i r) A"
proof -
  have "set_root P i r a \<in> A \<and> set_root P i r a \<le> a" if "a \<in> A" for a
    using set_root_entry [OF assms(4), of a] forest_parent [OF assms(1) that] assms(3) by auto
  with assms(1) show ?thesis by (auto simp: forest_def)
qed

text \<open>Path compression writes inside a set that holds the start and is closed under parents.\<close>

lemma set_root_frame:
  "(\<And>a. a \<in> A \<Longrightarrow> P a \<in> A) \<Longrightarrow> i \<in> A \<Longrightarrow> r \<in> A \<Longrightarrow> k \<notin> A \<Longrightarrow> set_root P i r k = P k"
proof (induction P i r rule: set_root.induct)
  case (1 P i r)
  show ?case
  proof (cases "P i < i")
    case True
    then have "set_root (P(i := r)) (P i) r k = (P(i := r)) k"
      using "1.prems" by (intro "1.IH") auto
    with True "1.prems" show ?thesis
      by (auto simp: set_root.simps [of P i] Let_def)
  next
    case False
    with "1.prems" show ?thesis
      by (auto simp: set_root.simps [of P i])
  qed
qed

section \<open>Union\<close>

text \<open>
  The contract of \<open>set_union\<close> on a forest: it returns the smaller of the two
  representatives, which becomes the representative of both trees; every other tree keeps
  its own, and no entry outside the allocated labels is written.
\<close>

lemma set_union_spec:
  assumes "forest P A" and "i \<in> A" and "j \<in> A" and "set_union P i j = (r, Q)"
  shows "r = min (find_root P i) (find_root P j)" and "forest Q A"
    and "find_root Q x =
      (if find_root P x = find_root P i \<or> find_root P x = find_root P j then r else find_root P x)"
    and "k \<notin> A \<Longrightarrow> Q k = P k"
proof -
  let ?ri = "find_root P i" and ?rj = "find_root P j"
  have rA: "?ri \<in> A" "?rj \<in> A"
    using assms(1-3) by (auto intro: forest_find_root)
  have closed: "\<And>a. a \<in> A \<Longrightarrow> P a \<in> A"
    using assms(1) by (auto dest: forest_parent)
  have "r = min ?ri ?rj \<and> forest Q A \<and> find_root Q x =
      (if find_root P x = ?ri \<or> find_root P x = ?rj then r else find_root P x) \<and>
      (k \<notin> A \<longrightarrow> Q k = P k)"
  proof (cases "i = j")
    case True
    with assms(4) have "r = ?ri \<and> Q = set_root P i ?ri"
      by (auto simp: set_union_def Let_def)
    with True assms(1,2) rA show ?thesis
      by (auto simp: find_root_set_root find_root_is_root set_root_frame [OF closed]
          intro: forest_set_root)
  next
    case False
    define m where "m = min ?ri ?rj"
    define R where "R = set_root P j m"
    from False assms(4) have r: "r = m" and Q: "Q = set_root R i m"
      by (auto simp: set_union_def Let_def m_def R_def min_def split: if_splits)
    have mA: "m \<in> A" and m_root: "\<not> P m < m"
      using rA find_root_is_root [of P i] find_root_is_root [of P j] by (auto simp: m_def min_def)
    have R_root: "find_root R y = (if find_root P y = ?rj then m else find_root P y)" for y
      unfolding R_def using m_root by (intro find_root_set_root) (simp_all add: m_def)
    have R_forest: "forest R A"
      unfolding R_def using assms(1,3) mA by (intro forest_set_root) (simp_all add: m_def)
    have R_frame: "k \<notin> A \<Longrightarrow> R k = P k"
      unfolding R_def using closed assms(3) mA by (intro set_root_frame) auto
    have "find_root R m = m"
      using m_root find_root_fix [of P m] by (auto simp: R_root)
    then have mR: "\<not> R m < m"
      by (metis find_root_is_root)
    have le: "m \<le> find_root R i"
      by (simp add: R_root) (simp add: m_def)
    have "find_root Q x = (if find_root R x = find_root R i then m else find_root R x)"
      unfolding Q using le mR by (rule find_root_set_root)
    moreover have "forest Q A"
      unfolding Q using R_forest assms(2) mA le by (rule forest_set_root)
    moreover have "k \<notin> A \<Longrightarrow> Q k = P k"
      unfolding Q using R_frame set_root_frame [of A R i m k] forest_parent [OF R_forest] assms(2) mA
      by auto
    ultimately show ?thesis
      using r by (auto simp: R_root m_def)
  qed
  then show "r = min ?ri ?rj" and "forest Q A"
    and "find_root Q x = (if find_root P x = ?ri \<or> find_root P x = ?rj then r else find_root P x)"
    and "k \<notin> A \<Longrightarrow> Q k = P k"
    by blast+
qed

end
