(* ===== verification/Ccl.thy ===== *)
theory Ccl
  imports Tbb Union_Find
begin

text \<open>
  The connected component labelling of \<^verbatim>\<open>src/src/stp/common/ccl.h\<close>: the scanning phase
  over column slices, the merging of the row border and of the slice borders, and the analysis
  of the label equivalences, for 4- and for 8-connectivity.

  The parameter \<open>fs\<close> is the macro \<^verbatim>\<open>FFTSHIFT\<close> and \<open>neg\<close> the template
  parameter \<^verbatim>\<open>findNegative\<close>. The code repeats each step for positive and for negative
  sources with the comparison and the sign of the label turned round; here a step takes the
  sign as its first argument. The label map is a function of row and column, the
  two columns of \<^verbatim>\<open>P\<close> are functions of the index. The list of subranges is given in the
  order in which the bodies of the parallel loop run.
\<close>

section \<open>Signs, state and coordinates\<close>

datatype sign = Pos | Neg

definition hit :: "sign \<Rightarrow> int \<Rightarrow> bool" where
  "hit s v = (case s of Pos \<Rightarrow> v > 0 | Neg \<Rightarrow> v < 0)"

text \<open>The label stored in the map for a node of the tree, and back.\<close>

definition to_label :: "sign \<Rightarrow> nat \<Rightarrow> int" where
  "to_label s n = (case s of Pos \<Rightarrow> int n | Neg \<Rightarrow> - int n)"

definition to_node :: "sign \<Rightarrow> int \<Rightarrow> nat" where
  "to_node s v = (case s of Pos \<Rightarrow> nat v | Neg \<Rightarrow> nat (- v))"

record label_data_thread =
  col_start :: nat
  lunique_start :: nat
  lunique_p :: nat
  lunique_n :: nat

text \<open>The shared label map and trees, with the next unused label of either sign of the slice.\<close>

record scan_state =
  lmap :: "nat \<Rightarrow> nat \<Rightarrow> int"
  Pp :: tree
  Pn :: tree
  next_p :: nat
  next_n :: nat

definition init_state :: scan_state where
  "init_state = \<lparr>lmap = (\<lambda>r c. 0), Pp = (\<lambda>i. 0), Pn = (\<lambda>i. 0), next_p = 0, next_n = 0\<rparr>"

definition tree_of :: "sign \<Rightarrow> scan_state \<Rightarrow> tree" where
  "tree_of s st = (case s of Pos \<Rightarrow> Pp st | Neg \<Rightarrow> Pn st)"

definition next_of :: "sign \<Rightarrow> scan_state \<Rightarrow> nat" where
  "next_of s st = (case s of Pos \<Rightarrow> next_p st | Neg \<Rightarrow> next_n st)"

definition set_tree :: "sign \<Rightarrow> tree \<Rightarrow> scan_state \<Rightarrow> scan_state" where
  "set_tree s P st = (case s of Pos \<Rightarrow> st\<lparr>Pp := P\<rparr> | Neg \<Rightarrow> st\<lparr>Pn := P\<rparr>)"

definition set_next :: "sign \<Rightarrow> nat \<Rightarrow> scan_state \<Rightarrow> scan_state" where
  "set_next s n st = (case s of Pos \<Rightarrow> st\<lparr>next_p := n\<rparr> | Neg \<Rightarrow> st\<lparr>next_n := n\<rparr>)"

definition set_label :: "nat \<Rightarrow> nat \<Rightarrow> int \<Rightarrow> scan_state \<Rightarrow> scan_state" where
  "set_label r c v st = st\<lparr>lmap := upd2 (lmap st) r c v\<rparr>"

text \<open>\<^verbatim>\<open>m_c_i\<close> and \<^verbatim>\<open>m_c_i_prev\<close>: the column of the matrix visited for \<^verbatim>\<open>c_i\<close>.\<close>

definition m_col :: "bool \<Rightarrow> nat \<Rightarrow> nat \<Rightarrow> nat" where
  "m_col fs cols c =
     (if fs then c else if c \<ge> cols div 2 then c - cols div 2 else c + cols div 2)"

definition m_col_prev :: "bool \<Rightarrow> nat \<Rightarrow> nat \<Rightarrow> nat" where
  "m_col_prev fs cols m = (if m = 0 then (if fs then m else cols - 1) else m - 1)"

text \<open>The rows at which the scan does not look up, or down to the left.\<close>

definition top_blocked :: "bool \<Rightarrow> nat \<Rightarrow> nat \<Rightarrow> bool" where
  "top_blocked fs rows r = (if fs then r = 0 else r = rows div 2 \<or> r = 0)"

definition bottom_blocked :: "bool \<Rightarrow> nat \<Rightarrow> nat \<Rightarrow> bool" where
  "bottom_blocked fs rows r = (if fs then r = rows - 1 else r = rows div 2 - 1 \<or> r = rows - 1)"

section \<open>Steps of the scan\<close>

definition copy_label :: "nat \<Rightarrow> nat \<Rightarrow> int \<Rightarrow> scan_state \<Rightarrow> scan_state" where
  "copy_label r m v st = set_label r m v st"

definition union_labels :: "sign \<Rightarrow> nat \<Rightarrow> nat \<Rightarrow> int \<Rightarrow> int \<Rightarrow> scan_state \<Rightarrow> scan_state" where
  "union_labels s r m v w st =
     (let (x, Q) = set_union (tree_of s st) (to_node s v) (to_node s w)
      in set_label r m (to_label s x) (set_tree s Q st))"

definition new_label :: "sign \<Rightarrow> nat \<Rightarrow> nat \<Rightarrow> scan_state \<Rightarrow> scan_state" where
  "new_label s r m st =
     (let l = next_of s st
      in set_next s (l + 1) (set_tree s ((tree_of s st)(l := l)) (set_label r m (to_label s l) st)))"

text \<open>One pixel of the 8-connected scan: \<open>m\<close> is its column, \<open>mp\<close> the previous one.\<close>

definition scan_pixel_8con :: "sign \<Rightarrow> bool \<Rightarrow> nat \<Rightarrow> bool \<Rightarrow> nat \<Rightarrow> nat \<Rightarrow> nat \<Rightarrow> scan_state \<Rightarrow> scan_state" where
  "scan_pixel_8con s fs rows left_valid m mp r st =
     (let L = lmap st;
          r_prev = (if r = 0 then r else r - 1);
          top = L r_prev m;
          left = L r mp;
          topleft = L r_prev mp;
          r_next = (if r = rows - 1 then r else r + 1);
          bottomleft = L r_next mp;
          T_left = (left_valid \<and> hit s left);
          T_top = (if top_blocked fs rows r then False else hit s top);
          T_topleft = (if top_blocked fs rows r then False else left_valid \<and> hit s topleft);
          T_bottomleft = (if bottom_blocked fs rows r then False else left_valid \<and> hit s bottomleft)
      in if T_left then copy_label r m left st
         else if T_bottomleft then
           if T_topleft then union_labels s r m topleft bottomleft st
           else if T_top then union_labels s r m top bottomleft st
           else copy_label r m bottomleft st
         else if T_topleft then copy_label r m topleft st
         else if T_top then copy_label r m top st
         else new_label s r m st)"

definition scan_pixel_4con :: "sign \<Rightarrow> bool \<Rightarrow> nat \<Rightarrow> bool \<Rightarrow> nat \<Rightarrow> nat \<Rightarrow> nat \<Rightarrow> scan_state \<Rightarrow> scan_state" where
  "scan_pixel_4con s fs rows left_valid m mp r st =
     (let L = lmap st;
          r_prev = (if r = 0 then r else r - 1);
          top = L r_prev m;
          left = L r mp;
          T_left = (left_valid \<and> hit s left);
          T_top = (if top_blocked fs rows r then False else hit s top)
      in if T_left then
           if T_top then union_labels s r m top left st else copy_label r m left st
         else if T_top then copy_label r m top st
         else new_label s r m st)"

text \<open>
  A step applied to the pixels above the positive threshold and, if negative sources are
  wanted, to those below the negative one.
\<close>

definition by_threshold ::
  "bool \<Rightarrow> real_t mat \<Rightarrow> real_t \<Rightarrow> real_t \<Rightarrow> (sign \<Rightarrow> scan_state \<Rightarrow> scan_state) \<Rightarrow> nat \<Rightarrow> nat \<Rightarrow> scan_state \<Rightarrow> scan_state"
where
  "by_threshold neg I tp tn step r m st =
     (if elt I r m > tp then step Pos st
      else if neg \<and> elt I r m < tn then step Neg st
      else st)"

text \<open>A step applied to a pixel that has a label, by the sign of the label.\<close>

definition by_label ::
  "bool \<Rightarrow> (sign \<Rightarrow> scan_state \<Rightarrow> scan_state) \<Rightarrow> nat \<Rightarrow> nat \<Rightarrow> scan_state \<Rightarrow> scan_state"
where
  "by_label neg step r m st =
     (if lmap st r m > 0 then step Pos st
      else if neg \<and> lmap st r m < 0 then step Neg st
      else st)"

text \<open>Merging of the first and the last row of the matrix within one column.\<close>

definition row_border_8con :: "nat \<Rightarrow> nat \<Rightarrow> nat \<Rightarrow> sign \<Rightarrow> scan_state \<Rightarrow> scan_state" where
  "row_border_8con rows m mp s st =
     (let top = lmap st (rows - 1) m;
          topleft = lmap st (rows - 1) mp;
          st = (if hit s top then union_labels s 0 m (lmap st 0 m) top st else st)
      in if hit s topleft \<and> top \<noteq> topleft then union_labels s 0 m (lmap st 0 m) topleft st else st)"

definition row_border_4con :: "nat \<Rightarrow> nat \<Rightarrow> nat \<Rightarrow> sign \<Rightarrow> scan_state \<Rightarrow> scan_state" where
  "row_border_4con rows m mp s st =
     (let top = lmap st (rows - 1) m
      in if hit s top then union_labels s 0 m (lmap st 0 m) top st else st)"

text \<open>
  Merging of a pixel of the first column of a slice with the last column of the slice before.
\<close>

definition row_prev :: "bool \<Rightarrow> nat \<Rightarrow> nat \<Rightarrow> nat" where
  "row_prev fs rows r =
     (if fs then (if r = 0 then r else r - 1)
      else if r = 0 then rows - 1 else if r = rows div 2 then r else r - 1)"

definition row_next :: "bool \<Rightarrow> nat \<Rightarrow> nat \<Rightarrow> nat" where
  "row_next fs rows r =
     (if fs then (if r = rows - 1 then r else r + 1)
      else if r = rows - 1 then 0 else if r = rows div 2 - 1 then r else r + 1)"

definition col_border_8con :: "bool \<Rightarrow> nat \<Rightarrow> bool \<Rightarrow> nat \<Rightarrow> nat \<Rightarrow> nat \<Rightarrow> sign \<Rightarrow> scan_state \<Rightarrow> scan_state" where
  "col_border_8con fs rows left_valid m mp r s st =
     (let cur = lmap st r m;
          topleft = lmap st (row_prev fs rows r) mp;
          left = lmap st r mp;
          bottomleft = lmap st (row_next fs rows r) mp;
          T_left = (left_valid \<and> hit s left);
          T_topleft = (if r = (if fs then 0 else rows div 2) then False else left_valid \<and> hit s topleft);
          T_bottomleft = (if r = (if fs then rows - 1 else rows div 2 - 1) then False
            else left_valid \<and> hit s bottomleft);
          st = (if T_topleft then union_labels s r m cur topleft st else st);
          st = (if T_left then union_labels s r m cur left st else st)
      in if T_bottomleft then union_labels s r m cur bottomleft st else st)"

definition col_border_4con :: "bool \<Rightarrow> nat \<Rightarrow> bool \<Rightarrow> nat \<Rightarrow> nat \<Rightarrow> nat \<Rightarrow> sign \<Rightarrow> scan_state \<Rightarrow> scan_state" where
  "col_border_4con fs rows left_valid m mp r s st =
     (let cur = lmap st r m;
          left = lmap st r mp
      in if left_valid \<and> hit s left then union_labels s r m cur left st else st)"

section \<open>The loops\<close>

text \<open>
  \<open>pixel\<close>, \<open>row_border\<close> and \<open>col_border\<close> are the steps above of one connectivity.
\<close>

definition scan_column ::
  "(sign \<Rightarrow> bool \<Rightarrow> nat \<Rightarrow> bool \<Rightarrow> nat \<Rightarrow> nat \<Rightarrow> nat \<Rightarrow> scan_state \<Rightarrow> scan_state) \<Rightarrow>
   (nat \<Rightarrow> nat \<Rightarrow> nat \<Rightarrow> sign \<Rightarrow> scan_state \<Rightarrow> scan_state) \<Rightarrow>
   bool \<Rightarrow> bool \<Rightarrow> real_t mat \<Rightarrow> real_t \<Rightarrow> real_t \<Rightarrow> nat \<Rightarrow> nat \<Rightarrow> scan_state \<Rightarrow> scan_state"
where
  "scan_column pixel row_border neg fs I tp tn begin c st =
     (let rows = n_rows I;
          m = m_col fs (n_cols I) c;
          mp = m_col_prev fs (n_cols I) m;
          left_valid = (c \<noteq> begin);
          st = fold (\<lambda>r. by_threshold neg I tp tn (\<lambda>s. pixel s fs rows left_valid m mp r) r m)
            [0..<rows] st
      in if fs then st else by_label neg (row_border rows m mp) 0 m st)"

definition start_slice :: "nat \<Rightarrow> scan_state \<Rightarrow> scan_state" where
  "start_slice ls st = st\<lparr>Pp := (Pp st)(ls := 0), Pn := (Pn st)(ls := 0),
     next_p := ls + 1, next_n := ls + 1\<rparr>"

definition scan_slice ::
  "(sign \<Rightarrow> bool \<Rightarrow> nat \<Rightarrow> bool \<Rightarrow> nat \<Rightarrow> nat \<Rightarrow> nat \<Rightarrow> scan_state \<Rightarrow> scan_state) \<Rightarrow>
   (nat \<Rightarrow> nat \<Rightarrow> nat \<Rightarrow> sign \<Rightarrow> scan_state \<Rightarrow> scan_state) \<Rightarrow>
   bool \<Rightarrow> bool \<Rightarrow> real_t mat \<Rightarrow> real_t \<Rightarrow> real_t \<Rightarrow> range \<Rightarrow>
   scan_state \<times> label_data_thread list \<Rightarrow> scan_state \<times> label_data_thread list"
where
  "scan_slice pixel row_border neg fs I tp tn r = (\<lambda>(st, data).
     let ls = fst r * (n_rows I div 2);
         st = fold (scan_column pixel row_border neg fs I tp tn (fst r)) [fst r..<snd r] (start_slice ls st)
     in (st, data @ [\<lparr>col_start = fst r, lunique_start = ls, lunique_p = next_p st, lunique_n = next_n st\<rparr>]))"

definition merge_slice ::
  "(bool \<Rightarrow> nat \<Rightarrow> bool \<Rightarrow> nat \<Rightarrow> nat \<Rightarrow> nat \<Rightarrow> sign \<Rightarrow> scan_state \<Rightarrow> scan_state) \<Rightarrow>
   bool \<Rightarrow> bool \<Rightarrow> nat \<Rightarrow> nat \<Rightarrow> nat \<Rightarrow> scan_state \<Rightarrow> scan_state"
where
  "merge_slice col_border neg fs rows cols c st =
     (let m = m_col fs cols c;
          mp = m_col_prev fs cols m;
          left_valid = (c \<noteq> 0)
      in fold (\<lambda>r. by_label neg (col_border fs rows left_valid m mp r) r m) [0..<rows] st)"

definition scan_and_merge ::
  "(sign \<Rightarrow> bool \<Rightarrow> nat \<Rightarrow> bool \<Rightarrow> nat \<Rightarrow> nat \<Rightarrow> nat \<Rightarrow> scan_state \<Rightarrow> scan_state) \<Rightarrow>
   (nat \<Rightarrow> nat \<Rightarrow> nat \<Rightarrow> sign \<Rightarrow> scan_state \<Rightarrow> scan_state) \<Rightarrow>
   (bool \<Rightarrow> nat \<Rightarrow> bool \<Rightarrow> nat \<Rightarrow> nat \<Rightarrow> nat \<Rightarrow> sign \<Rightarrow> scan_state \<Rightarrow> scan_state) \<Rightarrow>
   bool \<Rightarrow> bool \<Rightarrow> real_t mat \<Rightarrow> real_t \<Rightarrow> real_t \<Rightarrow> range list \<Rightarrow>
   scan_state \<times> label_data_thread list"
where
  "scan_and_merge pixel row_border col_border neg fs I tp tn rs =
     (let (st, data) = fold (scan_slice pixel row_border neg fs I tp tn) rs (init_state, []);
          data = sort_key col_start data;
          st = fold (\<lambda>d. merge_slice col_border neg fs (n_rows I) (n_cols I) (col_start d)) data st
      in (st, data))"

text \<open>The analysis phase: roots are numbered from 1 on, other labels take their parent's number.\<close>

definition analyse_label :: "nat \<Rightarrow> tree \<times> nat \<Rightarrow> tree \<times> nat" where
  "analyse_label i = (\<lambda>(P, k). if P i < i then (P(i := P (P i)), k) else (P(i := k), k + 1))"

definition analyse :: "(label_data_thread \<Rightarrow> nat) \<Rightarrow> label_data_thread list \<Rightarrow> tree \<Rightarrow> tree \<times> nat" where
  "analyse lunique data P =
     fold (\<lambda>d. fold analyse_label [lunique_start d + 1..<lunique d]) data (P, 1)"

definition finish :: "bool \<Rightarrow> scan_state \<times> label_data_thread list \<Rightarrow>
  (nat \<Rightarrow> nat \<Rightarrow> int) \<times> tree \<times> tree \<times> nat \<times> nat" where
  "finish neg = (\<lambda>(st, data).
     let (P, k) = analyse lunique_p data (Pp st);
         num_l_pos = k - 1;
         (N, k) = (if neg then analyse lunique_n data (Pn st) else (Pn st, 1));
         num_l_neg = k - 1
     in (lmap st, P, N, num_l_pos, num_l_neg))"

definition scan_8con :: "bool \<Rightarrow> bool \<Rightarrow> real_t mat \<Rightarrow> real_t \<Rightarrow> real_t \<Rightarrow> range list \<Rightarrow>
  scan_state \<times> label_data_thread list" where
  "scan_8con = scan_and_merge scan_pixel_8con row_border_8con col_border_8con"

definition scan_4con :: "bool \<Rightarrow> bool \<Rightarrow> real_t mat \<Rightarrow> real_t \<Rightarrow> real_t \<Rightarrow> range list \<Rightarrow>
  scan_state \<times> label_data_thread list" where
  "scan_4con = scan_and_merge scan_pixel_4con row_border_4con col_border_4con"

definition labeling_8con :: "bool \<Rightarrow> bool \<Rightarrow> real_t mat \<Rightarrow> real_t \<Rightarrow> real_t \<Rightarrow> range list \<Rightarrow>
  (nat \<Rightarrow> nat \<Rightarrow> int) \<times> tree \<times> tree \<times> nat \<times> nat" where
  "labeling_8con neg fs I tp tn rs = finish neg (scan_8con neg fs I tp tn rs)"

definition labeling_4con :: "bool \<Rightarrow> bool \<Rightarrow> real_t mat \<Rightarrow> real_t \<Rightarrow> real_t \<Rightarrow> range list \<Rightarrow>
  (nat \<Rightarrow> nat \<Rightarrow> int) \<times> tree \<times> tree \<times> nat \<times> nat" where
  "labeling_4con neg fs I tp tn rs = finish neg (scan_4con neg fs I tp tn rs)"

end
