(* ===== verification/Labelling.thy ===== *)
theory Labelling
  imports Union_Find
begin

text \<open>
  The contract between the scan of an image and its label equivalence array, as a locale:
  what the scan relies on when it copies a label, allocates one or unites two. The lemmas of
  the locale say that each of these steps keeps the labelling invariant \<open>labels_ok\<close>; the
  interpretation at the end instantiates them with \<open>find_root\<close> and \<open>set_union\<close>.
\<close>

locale equivalence_table =
  fixes rep :: "'t \<Rightarrow> nat \<Rightarrow> nat"
    and unite :: "'t \<Rightarrow> nat \<Rightarrow> nat \<Rightarrow> nat \<times> 't"
    and fresh :: "'t \<Rightarrow> nat \<Rightarrow> 't"
    and ok :: "'t \<Rightarrow> nat set \<Rightarrow> bool"
  assumes ok_zero: "ok t A \<Longrightarrow> 0 \<notin> A"
    and rep_closed: "ok t A \<Longrightarrow> a \<in> A \<Longrightarrow> rep t a \<in> A"
    and rep_idem: "rep t (rep t x) = rep t x"
    and unite_ok: "ok t A \<Longrightarrow> i \<in> A \<Longrightarrow> j \<in> A \<Longrightarrow> unite t i j = (r, u) \<Longrightarrow> ok u A"
    and unite_result: "ok t A \<Longrightarrow> i \<in> A \<Longrightarrow> j \<in> A \<Longrightarrow> unite t i j = (r, u) \<Longrightarrow> r = rep t i \<or> r = rep t j"
    and unite_rep: "ok t A \<Longrightarrow> i \<in> A \<Longrightarrow> j \<in> A \<Longrightarrow> unite t i j = (r, u) \<Longrightarrow>
      rep u x = (if rep t x = rep t i \<or> rep t x = rep t j then r else rep t x)"
    and fresh_ok: "ok t A \<Longrightarrow> a \<notin> A \<Longrightarrow> a \<noteq> 0 \<Longrightarrow> ok (fresh t a) (insert a A)"
    and fresh_rep: "ok t A \<Longrightarrow> a \<notin> A \<Longrightarrow> a \<noteq> 0 \<Longrightarrow> x \<in> A \<Longrightarrow> rep (fresh t a) x = rep t x"
    and fresh_rep_self: "rep (fresh t a) a = a"
begin

text \<open>
  \<open>labels_ok lab t A E\<close>: the labels in use are allocated (\<open>0\<close> means none), every class of
  allocated labels is in use, the edges \<open>E\<close> join labelled points, and two labelled points have
  equivalent labels exactly when they are connected through \<open>E\<close>.
\<close>

definition labels_ok :: "('p \<Rightarrow> nat) \<Rightarrow> 't \<Rightarrow> nat set \<Rightarrow> ('p \<times> 'p) set \<Rightarrow> bool" where
  "labels_ok lab t A E \<longleftrightarrow> ok t A \<and> (\<forall>p. lab p \<noteq> 0 \<longrightarrow> lab p \<in> A) \<and>
     (\<forall>a \<in> A. \<exists>p. lab p \<noteq> 0 \<and> rep t (lab p) = rep t a) \<and>
     (\<forall>p q. (p, q) \<in> E \<longrightarrow> lab p \<noteq> 0 \<and> lab q \<noteq> 0) \<and>
     (\<forall>p q. lab p \<noteq> 0 \<longrightarrow> lab q \<noteq> 0 \<longrightarrow>
       (rep t (lab p) = rep t (lab q) \<longleftrightarrow> (p, q) \<in> eqv E))"

lemma labels_okD:
  assumes "labels_ok lab t A E"
  shows "ok t A" and "lab p \<noteq> 0 \<Longrightarrow> lab p \<in> A"
    and "a \<in> A \<Longrightarrow> \<exists>p. lab p \<noteq> 0 \<and> rep t (lab p) = rep t a"
    and "(p, q) \<in> E \<Longrightarrow> lab p \<noteq> 0 \<and> lab q \<noteq> 0"
    and "lab p \<noteq> 0 \<Longrightarrow> lab q \<noteq> 0 \<Longrightarrow> rep t (lab p) = rep t (lab q) \<longleftrightarrow> (p, q) \<in> eqv E"
  using assms unfolding labels_ok_def by blast+

lemma labels_empty: "ok t {} \<Longrightarrow> (\<And>p. lab p = 0) \<Longrightarrow> labels_ok lab t {} {}"
  by (simp add: labels_ok_def)

lemma unlabelled_isolated:
  assumes "labels_ok lab t A E" and "lab p = 0" and "(p, q) \<in> eqv E \<or> (q, p) \<in> eqv E"
  shows "p = q"
proof -
  have "(p, q) \<in> eqv E"
    using assms(3) by (auto intro: eqv_sym)
  moreover have "E \<subseteq> {p. lab p \<noteq> 0} \<times> {p. lab p \<noteq> 0}"
    using labels_okD(4) [OF assms(1)] by auto
  ultimately show ?thesis
    using assms(2) by (intro eqv_outside) auto
qed

text \<open>The edges matter up to the equivalence they generate.\<close>

lemma labels_edges:
  assumes ok: "labels_ok lab t A E" and eqv: "eqv E = eqv F"
    and F: "\<And>p q. (p, q) \<in> F \<Longrightarrow> lab p \<noteq> 0 \<and> lab q \<noteq> 0"
  shows "labels_ok lab t A F"
  unfolding labels_ok_def
proof (intro conjI allI impI ballI)
  show "ok t A"
    by (rule labels_okD(1) [OF ok])
  show "\<And>p. lab p \<noteq> 0 \<Longrightarrow> lab p \<in> A"
    by (rule labels_okD(2) [OF ok])
  show "\<And>a. a \<in> A \<Longrightarrow> \<exists>p. lab p \<noteq> 0 \<and> rep t (lab p) = rep t a"
    by (rule labels_okD(3) [OF ok])
  show "\<And>p q. (p, q) \<in> F \<Longrightarrow> lab p \<noteq> 0" and "\<And>p q. (p, q) \<in> F \<Longrightarrow> lab q \<noteq> 0"
    using F by blast+
  show "\<And>p q. lab p \<noteq> 0 \<Longrightarrow> lab q \<noteq> 0 \<Longrightarrow>
      rep t (lab p) = rep t (lab q) \<longleftrightarrow> (p, q) \<in> eqv F"
    unfolding eqv [symmetric] by (rule labels_okD(5) [OF ok])
qed

text \<open>A label may be replaced by an equivalent one.\<close>

lemma labels_relabel:
  assumes "labels_ok lab t A E" and "lab p \<noteq> 0" and "r \<in> A" and "rep t r = rep t (lab p)"
  shows "labels_ok (lab(p := r)) t A E"
proof -
  have r0: "r \<noteq> 0"
    using ok_zero labels_okD(1) [OF assms(1)] assms(3) by metis
  define l where "l = lab(p := r)"
  have l: "l q \<noteq> 0 \<longleftrightarrow> lab q \<noteq> 0" "rep t (l q) = rep t (lab q)"
    "l q \<noteq> 0 \<Longrightarrow> lab q \<in> A \<Longrightarrow> l q \<in> A" for q
    using assms(2-4) r0 by (auto simp: l_def)
  have "labels_ok l t A E"
    using assms(1) unfolding labels_ok_def l(1,2) by (metis l(1,3))
  then show ?thesis
    by (simp only: l_def)
qed

text \<open>A new label for an unlabelled point.\<close>

lemma labels_new:
  assumes "labels_ok lab t A E" and "lab p = 0" and "a \<notin> A" and "a \<noteq> 0"
  shows "labels_ok (lab(p := a)) (fresh t a) (insert a A) E"
proof -
  let ?l = "lab(p := a)" and ?t = "fresh t a"
  note ok = labels_okD(1) [OF assms(1)]
  have old: "lab q \<noteq> 0 \<Longrightarrow> ?l q = lab q \<and> rep ?t (lab q) = rep t (lab q) \<and> rep t (lab q) \<in> A" for q
    using assms(2) fresh_rep [OF ok assms(3,4)] labels_okD(2) [OF assms(1)] rep_closed [OF ok] by auto
  have used: "\<exists>q. ?l q \<noteq> 0 \<and> rep ?t (?l q) = rep ?t b" if "b \<in> insert a A" for b
  proof (cases "b = a")
    case True
    with assms(4) show ?thesis by (intro exI [of _ p]) simp
  next
    case False
    with that labels_okD(3) [OF assms(1), of b] obtain q
      where "lab q \<noteq> 0" "rep t (lab q) = rep t b" by auto
    with False that old [of q] fresh_rep [OF ok assms(3,4), of b] show ?thesis
      by (intro exI [of _ q]) auto
  qed
  have iso: "(p, q) \<in> eqv E \<longleftrightarrow> p = q" "(q, p) \<in> eqv E \<longleftrightarrow> p = q" for q
    using unlabelled_isolated [OF assms(1,2)] by auto
  have conn: "rep ?t (?l x) = rep ?t (?l y) \<longleftrightarrow> (x, y) \<in> eqv E" if "?l x \<noteq> 0" "?l y \<noteq> 0" for x y
  proof -
    have "z \<noteq> p \<Longrightarrow> ?l z \<noteq> 0 \<Longrightarrow> rep ?t (?l z) \<noteq> a" for z
      using old [of z] assms(3) by auto
    moreover have "rep ?t (?l p) = a"
      by (simp add: fresh_rep_self)
    ultimately show ?thesis
      using that old [of x] old [of y] labels_okD(5) [OF assms(1), of x y] iso
      by (cases "x = p"; cases "y = p") auto
  qed
  show ?thesis
    unfolding labels_ok_def
    using fresh_ok [OF ok assms(3,4)] labels_okD(2,4) [OF assms(1)] used conn assms(4)
    by (auto split: if_splits)
qed

text \<open>A point takes over the label of a labelled point.\<close>

lemma labels_copy:
  assumes "labels_ok lab t A E" and "lab p = 0" and "lab q \<noteq> 0"
  shows "labels_ok (lab(p := lab q)) t A (insert (p, q) E)"
proof -
  let ?l = "lab(p := lab q)" and ?E = "insert (p, q) E"
  have pq: "p \<noteq> q"
    using assms(2,3) by auto
  have lp: "?l z = lab (if z = p then q else z)" for z
    by simp
  have iso: "(p, z) \<in> eqv E \<longleftrightarrow> p = z" "(z, p) \<in> eqv E \<longleftrightarrow> p = z" for z
    using unlabelled_isolated [OF assms(1,2)] by auto
  have conn: "rep t (?l x) = rep t (?l y) \<longleftrightarrow> (x, y) \<in> eqv ?E" if "?l x \<noteq> 0" "?l y \<noteq> 0" for x y
  proof -
    have "rep t (?l x) = rep t (?l y) \<longleftrightarrow> ((if x = p then q else x), (if y = p then q else y)) \<in> eqv E"
      using labels_okD(5) [OF assms(1), of "if x = p then q else x" "if y = p then q else y"] that
        assms(3) by (auto split: if_splits)
    also have "\<dots> \<longleftrightarrow> (x, y) \<in> eqv ?E"
      using pq iso by (auto simp: eqv_insert)
    finally show ?thesis .
  qed
  have used: "\<exists>z. ?l z \<noteq> 0 \<and> rep t (?l z) = rep t b" if "b \<in> A" for b
  proof -
    from labels_okD(3) [OF assms(1) that] obtain z where "lab z \<noteq> 0" "rep t (lab z) = rep t b"
      by auto
    with assms(2) show ?thesis by (intro exI [of _ z]) auto
  qed
  show ?thesis
    unfolding labels_ok_def
    using labels_okD(1,2,4) [OF assms(1)] used conn assms(3) by auto
qed

text \<open>Uniting the labels of two labelled points.\<close>

lemma labels_unite:
  assumes "labels_ok lab t A E" and "lab p \<noteq> 0" and "lab q \<noteq> 0"
    and "unite t (lab p) (lab q) = (r, u)"
  shows "labels_ok lab u A (insert (p, q) E)" and "r \<in> A"
    and "rep u r = rep u (lab p)" and "rep u r = rep u (lab q)"
proof -
  note ok = labels_okD(1) [OF assms(1)]
  have pA: "lab p \<in> A" and qA: "lab q \<in> A"
    using labels_okD(2) [OF assms(1)] assms(2,3) by auto
  note rep = unite_rep [OF ok pA qA assms(4)]
  have r: "r = rep t (lab p) \<or> r = rep t (lab q)"
    by (rule unite_result [OF ok pA qA assms(4)])
  show "r \<in> A" and "rep u r = rep u (lab p)" and "rep u r = rep u (lab q)"
    using r pA qA rep_closed [OF ok] rep_idem by (auto simp: rep)
  have "rep u (lab x) = rep u (lab y) \<longleftrightarrow> (x, y) \<in> eqv (insert (p, q) E)"
    if "lab x \<noteq> 0" "lab y \<noteq> 0" for x y
  proof -
    have c: "lab a \<noteq> 0 \<Longrightarrow> lab b \<noteq> 0 \<Longrightarrow> (a, b) \<in> eqv E \<longleftrightarrow> rep t (lab a) = rep t (lab b)" for a b
      using labels_okD(5) [OF assms(1)] by blast
    show ?thesis
      using r by (auto simp: eqv_insert c that assms(2,3) rep)
  qed
  moreover have "\<exists>z. lab z \<noteq> 0 \<and> rep u (lab z) = rep u b" if "b \<in> A" for b
  proof -
    from labels_okD(3) [OF assms(1) that] obtain z where "lab z \<noteq> 0" "rep t (lab z) = rep t b"
      by auto
    then show ?thesis by (intro exI [of _ z]) (auto simp: rep)
  qed
  ultimately show "labels_ok lab u A (insert (p, q) E)"
    unfolding labels_ok_def
    using unite_ok [OF ok pA qA assms(4)] labels_okD(2,4) [OF assms(1)] assms(2,3) by auto
qed

lemma labels_merge:
  assumes "labels_ok lab t A E" and "lab p \<noteq> 0" and "lab q \<noteq> 0"
    and "unite t (lab p) (lab q) = (r, u)"
  shows "labels_ok (lab(p := r)) u A (insert (p, q) E)"
  using labels_unite [OF assms] assms(2) by (intro labels_relabel) simp_all

lemma labels_join:
  assumes "labels_ok lab t A E" and "lab p = 0" and "lab q \<noteq> 0" and "lab s \<noteq> 0"
    and "unite t (lab q) (lab s) = (r, u)"
  shows "labels_ok (lab(p := r)) u A (insert (p, q) (insert (p, s) E))"
proof -
  let ?F = "insert (p, q) (insert (q, s) E)"
  note un = labels_unite [OF assms(1,3,4,5)]
  have "labels_ok (lab(p := lab q)) u A ?F"
    using un(1) assms(2,3) by (rule labels_copy)
  then have "labels_ok ((lab(p := lab q))(p := r)) u A ?F"
    by (rule labels_relabel) (use un assms(3) in auto)
  then have F: "labels_ok (lab(p := r)) u A ?F"
    by simp
  have "eqv ?F = eqv (insert (p, q) (insert (p, s) E))"
    by (intro equalityI eqv_least) (auto intro: eqv_edge simp: eqv_insert)
  with F show ?thesis
  proof (rule labels_edges)
    show "(lab(p := r)) x \<noteq> 0 \<and> (lab(p := r)) y \<noteq> 0"
      if "(x, y) \<in> insert (p, q) (insert (p, s) E)" for x y
      using labels_okD(4) [OF F, of x y] labels_okD(4) [OF F, of p q] labels_okD(4) [OF F, of q s] that
      by auto
  qed
qed

end

section \<open>The label equivalence array provides the contract\<close>

interpretation uf: equivalence_table find_root set_union "\<lambda>P a. P(a := a)" forest
proof
  fix P :: tree and A :: "nat set" and a i j r x :: nat and u :: tree
  show "forest P A \<Longrightarrow> 0 \<notin> A"
    by (simp add: forest_def)
  show "forest P A \<Longrightarrow> a \<in> A \<Longrightarrow> find_root P a \<in> A"
    by (rule forest_find_root)
  show "find_root P (find_root P x) = find_root P x"
    by simp
  show "forest P A \<Longrightarrow> i \<in> A \<Longrightarrow> j \<in> A \<Longrightarrow> set_union P i j = (r, u) \<Longrightarrow> forest u A"
    by (rule set_union_spec(2))
  show "forest P A \<Longrightarrow> i \<in> A \<Longrightarrow> j \<in> A \<Longrightarrow> set_union P i j = (r, u) \<Longrightarrow>
      r = find_root P i \<or> r = find_root P j"
    by (drule (3) set_union_spec(1)) (auto simp: min_def)
  show "forest P A \<Longrightarrow> i \<in> A \<Longrightarrow> j \<in> A \<Longrightarrow> set_union P i j = (r, u) \<Longrightarrow> find_root u x =
      (if find_root P x = find_root P i \<or> find_root P x = find_root P j then r else find_root P x)"
    by (rule set_union_spec(3))
  show "find_root (P(a := a)) a = a"
    by (rule find_root_fix) simp
  assume P: "forest P A" and a: "a \<notin> A" "a \<noteq> 0"
  then show "forest (P(a := a)) (insert a A)"
    by (auto simp: forest_def)
  show "x \<in> A \<Longrightarrow> find_root (P(a := a)) x = find_root P x"
  proof (induction x rule: less_induct)
    case (less x)
    with a have "x \<noteq> a" by auto
    with less show ?case
      using forest_parent [OF P less.prems]
      by (cases "P x < x") (simp_all add: find_root_step find_root_fix)
  qed
qed

end
