(* ===== verification/Ccl_View.thy ===== *)
theory Ccl_View
  imports Ccl Labelling
begin

text \<open>
  The scan state seen through one sign: pixels are addressed by matrix row and by the column
  counter \<^verbatim>\<open>c_i\<close> of the code, and labels are tree nodes. \<open>sign_inv\<close> is the invariant
  of the scan; the lemmas say how the elementary steps of the scan keep it.
\<close>

section \<open>Scenes\<close>

text \<open>The inputs of a labelling run.\<close>

record scene =
  sc_neg :: bool
  sc_fs :: bool
  sc_img :: "real_t mat"
  sc_tp :: real_t
  sc_tn :: real_t

type_synonym pixel = "nat \<times> nat"

definition rows :: "scene \<Rightarrow> nat" where
  "rows X = n_rows (sc_img X)"

definition cols :: "scene \<Rightarrow> nat" where
  "cols X = n_cols (sc_img X)"

definition mc :: "scene \<Rightarrow> nat \<Rightarrow> nat" where
  "mc X c = m_col (sc_fs X) (cols X) c"

text \<open>The assertions at the head of the labelling functions.\<close>

definition scene_ok :: "scene \<Rightarrow> bool" where
  "scene_ok X \<longleftrightarrow> even (cols X) \<and> even (rows X) \<and> 0 < cols X \<and> 0 < rows X"

text \<open>The pixels the scan labels with sign \<open>s\<close>.\<close>

definition fg :: "scene \<Rightarrow> sign \<Rightarrow> pixel \<Rightarrow> bool" where
  "fg X s p \<longleftrightarrow> fst p < rows X \<and> snd p < cols X \<and>
     (let v = elt (sc_img X) (fst p) (mc X (snd p)) in
      case s of Pos \<Rightarrow> v > sc_tp X | Neg \<Rightarrow> \<not> v > sc_tp X \<and> sc_neg X \<and> v < sc_tn X)"

lemma fg_range: "fg X s (r, c) \<Longrightarrow> r < rows X \<and> c < cols X"
  by (simp add: fg_def)

lemma fg_sign: "fg X s p \<Longrightarrow> s' \<noteq> s \<Longrightarrow> \<not> fg X s' p"
  by (cases s; cases s') (auto simp: fg_def Let_def)

section \<open>Columns\<close>

lemma mc_less: "scene_ok X \<Longrightarrow> c < cols X \<Longrightarrow> mc X c < cols X"
  by (auto simp: mc_def m_col_def scene_ok_def)

lemma mc_inj: "scene_ok X \<Longrightarrow> c < cols X \<Longrightarrow> d < cols X \<Longrightarrow> mc X c = mc X d \<longleftrightarrow> c = d"
  by (auto simp: mc_def m_col_def scene_ok_def elim!: evenE split: if_splits)

lemma mc_prev: "scene_ok X \<Longrightarrow> 0 < c \<Longrightarrow> c < cols X \<Longrightarrow>
    m_col_prev (sc_fs X) (cols X) (mc X c) = mc X (c - 1)"
  by (auto simp: mc_def m_col_def m_col_prev_def scene_ok_def elim!: evenE split: if_splits)

lemma mc_prev_first: "scene_ok X \<Longrightarrow> \<not> sc_fs X \<Longrightarrow>
    m_col_prev (sc_fs X) (cols X) (mc X 0) = mc X (cols X - 1)"
  by (auto simp: mc_def m_col_def m_col_prev_def scene_ok_def elim!: evenE split: if_splits)

section \<open>Views\<close>

definition view :: "scene \<Rightarrow> sign \<Rightarrow> scan_state \<Rightarrow> pixel \<Rightarrow> nat" where
  "view X s st p = (let v = lmap st (fst p) (mc X (snd p)) in
     if fst p < rows X \<and> snd p < cols X \<and> hit s v then to_node s v else 0)"

lemma to_node_label [simp]: "to_node s (to_label s n) = n"
  by (cases s) (simp_all add: to_node_def to_label_def)

lemma hit_label [simp]: "hit s (to_label s n) \<longleftrightarrow> 0 < n"
  by (cases s) (simp_all add: hit_def to_label_def)

lemma hit_node: "hit s v \<Longrightarrow> 0 < to_node s v"
  by (cases s) (simp_all add: hit_def to_node_def)

lemma label_of_node: "hit s v \<Longrightarrow> to_label s (to_node s v) = v"
  by (cases s) (simp_all add: hit_def to_node_def to_label_def)

lemma hit_unique: "hit s v \<Longrightarrow> s' \<noteq> s \<Longrightarrow> \<not> hit s' v"
  by (cases s; cases s') (simp_all add: hit_def)

lemma view_pos: "r < rows X \<Longrightarrow> c < cols X \<Longrightarrow>
    view X s st (r, c) \<noteq> 0 \<longleftrightarrow> hit s (lmap st r (mc X c))"
  using hit_node by (auto simp: view_def Let_def)

lemma view_node: "r < rows X \<Longrightarrow> c < cols X \<Longrightarrow> hit s (lmap st r (mc X c)) \<Longrightarrow>
    to_node s (lmap st r (mc X c)) = view X s st (r, c)"
  by (simp add: view_def)

lemma tree_of_simps [simp]:
  "tree_of s (set_label r m v st) = tree_of s st"
  "tree_of s (set_next s' n st) = tree_of s st"
  "tree_of s (set_tree s' P st) = (if s = s' then P else tree_of s st)"
  by (cases s; cases s'; simp add: tree_of_def set_label_def set_next_def set_tree_def)+

lemma next_of_simps [simp]:
  "next_of s (set_label r m v st) = next_of s st"
  "next_of s (set_tree s' P st) = next_of s st"
  "next_of s (set_next s' n st) = (if s = s' then n else next_of s st)"
  by (cases s; cases s'; simp add: next_of_def set_label_def set_next_def set_tree_def)+

lemma lmap_simps [simp]:
  "lmap (set_label r m v st) = upd2 (lmap st) r m v"
  "lmap (set_tree s P st) = lmap st"
  "lmap (set_next s n st) = lmap st"
  by (cases s; simp add: set_label_def set_next_def set_tree_def)+

lemma view_simps [simp]:
  "view X s (set_tree s' P st) = view X s st"
  "view X s (set_next s' n st) = view X s st"
  by (simp_all add: view_def fun_eq_iff)

lemma view_set_label:
  assumes "scene_ok X" and "r < rows X" and "c < cols X"
  shows "view X s (set_label r (mc X c) v st) =
    (view X s st)((r, c) := if hit s v then to_node s v else 0)"
proof
  fix p
  show "view X s (set_label r (mc X c) v st) p =
      ((view X s st)((r, c) := if hit s v then to_node s v else 0)) p"
    using assms mc_inj [OF assms(1), of "snd p" c]
    by (cases p) (auto simp: view_def Let_def)
qed

section \<open>The invariant of the scan\<close>

text \<open>
  \<open>sign_inv X N s st S A D\<close>: after the pixels \<open>S\<close> have been scanned, those of sign \<open>s\<close> are
  labelled with labels from \<open>A\<close>, and equivalence of labels is connectivity through some set
  \<open>E\<close> of edges from \<open>N\<close> which connects the ends of every edge of \<open>D\<close> between pixels of the sign.
\<close>

definition sign_inv ::
  "scene \<Rightarrow> (pixel \<times> pixel) set \<Rightarrow> sign \<Rightarrow> scan_state \<Rightarrow> pixel set \<Rightarrow> nat set \<Rightarrow> (pixel \<times> pixel) set \<Rightarrow> bool"
where
  "sign_inv X N s st S A D \<longleftrightarrow>
     (\<exists>E. uf.labels_ok (view X s st) (tree_of s st) A E \<and> E \<subseteq> N \<and>
       (\<forall>p. view X s st p \<noteq> 0 \<longleftrightarrow> p \<in> S \<and> fg X s p) \<and>
       (\<forall>p q. (p, q) \<in> D \<longrightarrow> fg X s p \<longrightarrow> fg X s q \<longrightarrow> (p, q) \<in> eqv E))"

lemma sign_invI:
  assumes "uf.labels_ok (view X s st) (tree_of s st) A E" and "E \<subseteq> N"
    and "\<And>p. view X s st p \<noteq> 0 \<longleftrightarrow> p \<in> S \<and> fg X s p"
    and "\<And>p q. (p, q) \<in> D \<Longrightarrow> fg X s p \<Longrightarrow> fg X s q \<Longrightarrow> (p, q) \<in> eqv E"
  shows "sign_inv X N s st S A D"
  using assms unfolding sign_inv_def by blast

lemma sign_invE:
  assumes "sign_inv X N s st S A D"
  obtains E where "uf.labels_ok (view X s st) (tree_of s st) A E" and "E \<subseteq> N"
    and "\<And>p. view X s st p \<noteq> 0 \<longleftrightarrow> p \<in> S \<and> fg X s p"
    and "\<And>p q. (p, q) \<in> D \<Longrightarrow> fg X s p \<Longrightarrow> fg X s q \<Longrightarrow> (p, q) \<in> eqv E"
  using assms unfolding sign_inv_def by blast

lemma sign_inv_labelled: "sign_inv X N s st S A D \<Longrightarrow> view X s st p \<noteq> 0 \<longleftrightarrow> p \<in> S \<and> fg X s p"
  unfolding sign_inv_def by blast

lemma sign_inv_hit:
  "sign_inv X N s st S A D \<Longrightarrow> r < rows X \<Longrightarrow> c < cols X \<Longrightarrow>
    hit s (lmap st r (mc X c)) \<longleftrightarrow> (r, c) \<in> S \<and> fg X s (r, c)"
  using sign_inv_labelled view_pos by metis

lemma sign_inv_forest: "sign_inv X N s st S A D \<Longrightarrow> forest (tree_of s st) A"
  unfolding sign_inv_def by (auto dest: uf.labels_okD(1))

lemma sign_inv_alloc: "sign_inv X N s st S A D \<Longrightarrow> view X s st p \<noteq> 0 \<Longrightarrow> view X s st p \<in> A"
  unfolding sign_inv_def by (auto dest: uf.labels_okD(2))

text \<open>More edges are covered when the covered ones already connect their ends.\<close>

lemma sign_inv_cover:
  assumes "sign_inv X N s st S A D"
    and "\<And>p q. (p, q) \<in> D' \<Longrightarrow> fg X s p \<Longrightarrow> fg X s q \<Longrightarrow>
      (p, q) \<in> eqv {(x, y). (x, y) \<in> D \<and> fg X s x \<and> fg X s y}"
  shows "sign_inv X N s st S A (D \<union> D')"
proof -
  from assms(1) obtain E where E: "uf.labels_ok (view X s st) (tree_of s st) A E" "E \<subseteq> N"
    "\<And>p. view X s st p \<noteq> 0 \<longleftrightarrow> p \<in> S \<and> fg X s p"
    "\<And>p q. (p, q) \<in> D \<Longrightarrow> fg X s p \<Longrightarrow> fg X s q \<Longrightarrow> (p, q) \<in> eqv E"
    unfolding sign_inv_def by blast
  have "{(x, y). (x, y) \<in> D \<and> fg X s x \<and> fg X s y} \<subseteq> eqv E"
    using E(4) by auto
  then have "eqv {(x, y). (x, y) \<in> D \<and> fg X s x \<and> fg X s y} \<subseteq> eqv E"
    by (rule eqv_least)
  with E assms(2) show ?thesis
    by (intro sign_invI [OF E(1,2,3)]) auto
qed

lemma sign_inv_cover_vacuous:
  assumes "sign_inv X N s st S A D" and "\<And>p q. (p, q) \<in> D' \<Longrightarrow> \<not> (fg X s p \<and> fg X s q)"
  shows "sign_inv X N s st S A (D \<union> D')"
  using assms(1) by (rule sign_inv_cover) (use assms(2) in auto)

lemma sign_inv_mono: "sign_inv X N s st S A D \<Longrightarrow> D' \<subseteq> D \<Longrightarrow> sign_inv X N s st S A D'"
  unfolding sign_inv_def by blast

lemma sign_inv_skip:
  "sign_inv X N s st S A D \<Longrightarrow> (\<And>p. p \<in> T \<Longrightarrow> \<not> fg X s p) \<Longrightarrow> sign_inv X N s st (S \<union> T) A D"
  unfolding sign_inv_def by blast

text \<open>The invariant speaks of the view and of the tree over the allocated labels only.\<close>

lemma sign_inv_cong:
  assumes "sign_inv X N s st S A D" and "view X s st' = view X s st"
    and "\<And>a. a \<in> A \<Longrightarrow> tree_of s st' a = tree_of s st a"
  shows "sign_inv X N s st' S A D"
proof -
  let ?P = "tree_of s st" and ?Q = "tree_of s st'"
  have P: "forest ?P A"
    using assms(1) by (rule sign_inv_forest)
  then have Q: "forest ?Q A"
    using assms(3) by (auto simp: forest_def)
  have root: "a \<in> A \<Longrightarrow> find_root ?Q a = find_root ?P a" for a
  proof (induction a rule: less_induct)
    case (less a)
    then show ?case
      using forest_parent [OF P less.prems] assms(3) [OF less.prems]
      by (cases "?P a < a") (simp_all add: find_root_step find_root_fix)
  qed
  from assms(1) obtain E where E: "uf.labels_ok (view X s st) ?P A E" "E \<subseteq> N"
    "\<And>p. view X s st p \<noteq> 0 \<longleftrightarrow> p \<in> S \<and> fg X s p"
    "\<And>p q. (p, q) \<in> D \<Longrightarrow> fg X s p \<Longrightarrow> fg X s q \<Longrightarrow> (p, q) \<in> eqv E"
    unfolding sign_inv_def by blast
  have "uf.labels_ok (view X s st') ?Q A E"
    using E(1) Q root unfolding uf.labels_ok_def assms(2) by metis
  with E show ?thesis
    by (intro sign_invI) (auto simp: assms(2))
qed

text \<open>
  Read off at the end of the scan: equivalence of labels is connectivity through the pixels of the
  sign, when the covered edges connect the ends of all allowed ones.
\<close>

definition induced :: "scene \<Rightarrow> sign \<Rightarrow> (pixel \<times> pixel) set \<Rightarrow> (pixel \<times> pixel) set" where
  "induced X s N = {(p, q). (p, q) \<in> N \<and> fg X s p \<and> fg X s q}"

lemma induced_mono: "N \<subseteq> M \<Longrightarrow> induced X s N \<subseteq> induced X s M"
  by (auto simp: induced_def)

lemma sign_inv_connected:
  assumes "sign_inv X N s st UNIV A D" and "induced X s N \<subseteq> eqv (induced X s D)"
    and "fg X s p" and "fg X s q"
  shows "find_root (tree_of s st) (view X s st p) = find_root (tree_of s st) (view X s st q) \<longleftrightarrow>
    (p, q) \<in> eqv (induced X s N)"
proof -
  from assms(1) obtain E where E: "uf.labels_ok (view X s st) (tree_of s st) A E" "E \<subseteq> N"
    "\<And>p. view X s st p \<noteq> 0 \<longleftrightarrow> fg X s p"
    "\<And>p q. (p, q) \<in> D \<Longrightarrow> fg X s p \<Longrightarrow> fg X s q \<Longrightarrow> (p, q) \<in> eqv E"
    unfolding sign_inv_def by blast
  have "(x, y) \<in> induced X s N" if "(x, y) \<in> E" for x y
    using uf.labels_okD(4) [OF E(1) that] that E(2,3) by (auto simp: induced_def)
  then have "eqv E \<subseteq> eqv (induced X s N)"
    by (intro eqv_mono) auto
  moreover have "induced X s D \<subseteq> eqv E"
    using E(4) by (auto simp: induced_def)
  then have "eqv (induced X s D) \<subseteq> eqv E"
    by (rule eqv_least)
  then have "eqv (induced X s N) \<subseteq> eqv E"
    using assms(2) by (intro eqv_least) blast
  ultimately have "eqv E = eqv (induced X s N)"
    by blast
  then show ?thesis
    using uf.labels_okD(5) [OF E(1), of p q] E(3) assms(3,4) by simp
qed

section \<open>Elementary steps\<close>

text \<open>What a step of sign \<open>s\<close> at a pixel leaves alone.\<close>

definition only_sign :: "scene \<Rightarrow> sign \<Rightarrow> pixel \<Rightarrow> scan_state \<Rightarrow> scan_state \<Rightarrow> bool" where
  "only_sign X s p st st' \<longleftrightarrow>
     (\<forall>s'. s' \<noteq> s \<longrightarrow> tree_of s' st' = tree_of s' st \<and> next_of s' st' = next_of s' st) \<and>
     (\<exists>v. hit s v \<and> lmap st' = upd2 (lmap st) (fst p) (mc X (snd p)) v)"

lemma only_sign_refl:
  "hit s (lmap st r (mc X c)) \<Longrightarrow> only_sign X s (r, c) st st"
  unfolding only_sign_def by (auto intro!: exI [of _ "lmap st r (mc X c)"] simp: fun_eq_iff)

lemma only_sign_trans:
  assumes "only_sign X s p st st'" and "only_sign X s p st' st''"
  shows "only_sign X s p st st''"
proof -
  from assms(2) obtain w where w: "hit s w" "lmap st'' = upd2 (lmap st') (fst p) (mc X (snd p)) w"
    unfolding only_sign_def by blast
  from assms(1) obtain v where "lmap st' = upd2 (lmap st) (fst p) (mc X (snd p)) v"
    unfolding only_sign_def by blast
  with w(2) have "lmap st'' = upd2 (lmap st) (fst p) (mc X (snd p)) w"
    by (simp add: fun_eq_iff)
  moreover have "tree_of s' st'' = tree_of s' st \<and> next_of s' st'' = next_of s' st" if "s' \<noteq> s" for s'
    using assms that by (simp add: only_sign_def)
  ultimately show ?thesis
    unfolding only_sign_def using w(1) by blast
qed

lemma only_sign_set:
  "hit s v \<Longrightarrow> only_sign X s (r, c) st (set_label r (mc X c) v st)"
  "hit s v \<Longrightarrow> only_sign X s (r, c) st (set_label r (mc X c) v (set_tree s P st))"
  "hit s v \<Longrightarrow> only_sign X s (r, c) st (set_next s n (set_tree s P (set_label r (mc X c) v st)))"
  by (auto simp: only_sign_def)

text \<open>The invariant of the other sign does not notice.\<close>

lemma sign_inv_other:
  assumes X: "scene_ok X" and p: "r < rows X" "c < cols X"
    and inv: "sign_inv X N s' st S A D" and step: "only_sign X s (r, c) st st'"
    and s: "s' \<noteq> s" and nofg: "\<not> fg X s' (r, c)"
  shows "sign_inv X N s' st' (insert (r, c) S) A D"
proof -
  from step obtain v where v: "hit s v" "lmap st' = upd2 (lmap st) r (mc X c) v"
    by (auto simp: only_sign_def)
  have "view X s' st' q = (if q = (r, c) then 0 else view X s' st q)" for q
    using v hit_unique [OF v(1) s] mc_inj [OF X, of "snd q" c] p
    by (cases q) (auto simp: view_def Let_def)
  moreover have "view X s' st (r, c) = 0"
    using sign_inv_labelled [OF inv] nofg by metis
  ultimately have same: "view X s' st' = view X s' st"
    by (auto simp: fun_eq_iff)
  have tree: "tree_of s' st' = tree_of s' st"
    using step s by (simp add: only_sign_def)
  have "sign_inv X N s' st' S A D"
    by (rule sign_inv_cong [OF inv same]) (simp add: tree)
  then have "sign_inv X N s' st' (S \<union> {(r, c)}) A D"
    by (rule sign_inv_skip) (use nofg in simp)
  then show ?thesis by simp
qed

lemma new_label_inv:
  assumes X: "scene_ok X" and inv: "sign_inv X N s st S A D"
    and p: "fg X s (r, c)" "(r, c) \<notin> S"
    and fresh: "next_of s st \<notin> A" "next_of s st \<noteq> 0"
  shows "sign_inv X N s (new_label s r (mc X c) st) (insert (r, c) S) (insert (next_of s st) A) D"
    and "only_sign X s (r, c) st (new_label s r (mc X c) st)"
    and "next_of s (new_label s r (mc X c) st) = next_of s st + 1"
proof -
  let ?l = "next_of s st" and ?st = "new_label s r (mc X c) st"
  have rc: "r < rows X" "c < cols X"
    using p(1) by (auto dest: fg_range)
  from inv obtain E where E: "uf.labels_ok (view X s st) (tree_of s st) A E" "E \<subseteq> N"
    "\<And>p. view X s st p \<noteq> 0 \<longleftrightarrow> p \<in> S \<and> fg X s p"
    "\<And>p q. (p, q) \<in> D \<Longrightarrow> fg X s p \<Longrightarrow> fg X s q \<Longrightarrow> (p, q) \<in> eqv E"
    unfolding sign_inv_def by blast
  have v: "view X s ?st = (view X s st)((r, c) := ?l)"
    using fresh(2) by (simp add: new_label_def Let_def view_set_label [OF X rc])
  have t: "tree_of s ?st = (tree_of s st)(?l := ?l)"
    by (simp add: new_label_def Let_def)
  have "view X s st (r, c) = 0"
    using E(3) p(2) by blast
  then have "uf.labels_ok (view X s ?st) (tree_of s ?st) (insert ?l A) E"
    unfolding v t using E(1) fresh by (intro uf.labels_new)
  then show "sign_inv X N s ?st (insert (r, c) S) (insert ?l A) D"
    using E(2) by (rule sign_invI) (use v E(3,4) p fresh in \<open>auto split: if_splits\<close>)
  show "only_sign X s (r, c) st ?st"
    unfolding new_label_def Let_def using fresh(2) by (simp add: only_sign_set(3))
  show "next_of s ?st = ?l + 1"
    by (simp add: new_label_def Let_def)
qed

text \<open>A step that adds the edges \<open>F\<close> to the equivalence.\<close>

lemma sign_inv_extend:
  assumes "uf.labels_ok (view X s st') (tree_of s st') A' (F \<union> E)" and "E \<subseteq> N" and "F \<subseteq> N"
    and "\<And>p. view X s st' p \<noteq> 0 \<longleftrightarrow> p \<in> S' \<and> fg X s p"
    and "\<And>p q. (p, q) \<in> D \<Longrightarrow> fg X s p \<Longrightarrow> fg X s q \<Longrightarrow> (p, q) \<in> eqv E"
  shows "sign_inv X N s st' S' A' (F \<union> D)"
proof (rule sign_invI [OF assms(1)])
  show "F \<union> E \<subseteq> N"
    using assms(2,3) by blast
  show "\<And>p. view X s st' p \<noteq> 0 \<longleftrightarrow> p \<in> S' \<and> fg X s p"
    by (rule assms(4))
  have "eqv E \<subseteq> eqv (F \<union> E)"
    by (rule eqv_mono) blast
  then show "(p, q) \<in> eqv (F \<union> E)" if "(p, q) \<in> F \<union> D" "fg X s p" "fg X s q" for p q
    using that assms(5) eqv_edge [of p q "F \<union> E"] by blast
qed

lemma copy_label_inv:
  assumes X: "scene_ok X" and inv: "sign_inv X N s st S A D"
    and p: "fg X s (r, c)" "(r, c) \<notin> S"
    and q: "r' < rows X" "c' < cols X" "hit s (lmap st r' (mc X c'))"
    and N: "((r, c), (r', c')) \<in> N"
  shows "sign_inv X N s (copy_label r (mc X c) (lmap st r' (mc X c')) st)
      (insert (r, c) S) A ({((r, c), (r', c'))} \<union> D)"
    and "only_sign X s (r, c) st (copy_label r (mc X c) (lmap st r' (mc X c')) st)"
    and "next_of s (copy_label r (mc X c) (lmap st r' (mc X c')) st) = next_of s st"
proof -
  let ?st = "copy_label r (mc X c) (lmap st r' (mc X c')) st"
  have rc: "r < rows X" "c < cols X"
    using p(1) by (auto dest: fg_range)
  from inv obtain E where E: "uf.labels_ok (view X s st) (tree_of s st) A E" "E \<subseteq> N"
    "\<And>p. view X s st p \<noteq> 0 \<longleftrightarrow> p \<in> S \<and> fg X s p"
    "\<And>p q. (p, q) \<in> D \<Longrightarrow> fg X s p \<Longrightarrow> fg X s q \<Longrightarrow> (p, q) \<in> eqv E"
    unfolding sign_inv_def by blast
  have v: "view X s ?st = (view X s st)((r, c) := view X s st (r', c'))"
    using q by (simp add: copy_label_def view_set_label [OF X rc] view_node)
  have p0: "view X s st (r, c) = 0"
    using E(3) p(2) by blast
  have q0: "view X s st (r', c') \<noteq> 0"
    using q view_pos by blast
  have "uf.labels_ok (view X s ?st) (tree_of s ?st) A ({((r, c), (r', c'))} \<union> E)"
    using uf.labels_copy [OF E(1) p0 q0] unfolding v by (simp add: copy_label_def)
  then show "sign_inv X N s ?st (insert (r, c) S) A ({((r, c), (r', c'))} \<union> D)"
    using E(2)
  proof (rule sign_inv_extend)
    show "view X s ?st x \<noteq> 0 \<longleftrightarrow> x \<in> insert (r, c) S \<and> fg X s x" for x
      using v E(3) p q0 by (auto split: if_splits)
  qed (use N E(4) in auto)
  show "only_sign X s (r, c) st ?st"
    unfolding copy_label_def using q(3) by (rule only_sign_set(1))
  show "next_of s ?st = next_of s st"
    by (simp add: copy_label_def)
qed

text \<open>A new pixel between two labelled ones.\<close>

lemma join_labels_inv:
  assumes X: "scene_ok X" and inv: "sign_inv X N s st S A D"
    and p: "fg X s (r, c)" "(r, c) \<notin> S"
    and q: "r' < rows X" "c' < cols X" "hit s (lmap st r' (mc X c'))"
    and t: "r'' < rows X" "c'' < cols X" "hit s (lmap st r'' (mc X c''))"
    and N: "((r, c), (r', c')) \<in> N" "((r, c), (r'', c'')) \<in> N"
    and st': "st' = union_labels s r (mc X c) (lmap st r' (mc X c')) (lmap st r'' (mc X c'')) st"
  shows "sign_inv X N s st' (insert (r, c) S) A ({((r, c), (r', c')), ((r, c), (r'', c''))} \<union> D)"
    and "only_sign X s (r, c) st st'"
    and "next_of s st' = next_of s st"
proof -
  let ?v = "view X s st"
  have rc: "r < rows X" "c < cols X"
    using p(1) by (auto dest: fg_range)
  from inv obtain E where E: "uf.labels_ok ?v (tree_of s st) A E" "E \<subseteq> N"
    "\<And>p. ?v p \<noteq> 0 \<longleftrightarrow> p \<in> S \<and> fg X s p"
    "\<And>p q. (p, q) \<in> D \<Longrightarrow> fg X s p \<Longrightarrow> fg X s q \<Longrightarrow> (p, q) \<in> eqv E"
    unfolding sign_inv_def by blast
  obtain x Q where u: "set_union (tree_of s st) (?v (r', c')) (?v (r'', c'')) = (x, Q)"
    by fastforce
  have p0: "?v (r, c) = 0" and q0: "?v (r', c') \<noteq> 0" and t0: "?v (r'', c'') \<noteq> 0"
    using E(3) p(2) q t view_pos by blast+
  note join = uf.labels_join [OF E(1) p0 q0 t0 u]
  have "x \<in> A"
    by (rule uf.labels_unite(2) [OF E(1) q0 t0 u])
  then have x0: "x \<noteq> 0"
    using forest_pos [OF sign_inv_forest [OF inv]] by blast
  have st'2: "st' = set_label r (mc X c) (to_label s x) (set_tree s Q st)"
    using q t u unfolding st' by (simp add: union_labels_def view_node)
  have v: "view X s st' = ?v((r, c) := x)"
    using x0 by (simp add: st'2 view_set_label [OF X rc])
  have "uf.labels_ok (view X s st') (tree_of s st') A ({((r, c), (r', c')), ((r, c), (r'', c''))} \<union> E)"
    using join unfolding v by (simp add: st'2)
  then show "sign_inv X N s st' (insert (r, c) S) A ({((r, c), (r', c')), ((r, c), (r'', c''))} \<union> D)"
    using E(2)
  proof (rule sign_inv_extend)
    show "view X s st' y \<noteq> 0 \<longleftrightarrow> y \<in> insert (r, c) S \<and> fg X s y" for y
      using v E(3) p x0 by (auto split: if_splits)
  qed (use N E(4) in auto)
  show "only_sign X s (r, c) st st'"
    unfolding st'2 using x0 by (simp add: only_sign_set(2))
  show "next_of s st' = next_of s st"
    by (simp add: st'2)
qed

text \<open>
  Two labelled pixels; \<open>cur\<close> is a label that the first pixel had earlier on.
\<close>

lemma merge_labels_inv:
  assumes X: "scene_ok X" and inv: "sign_inv X N s st S A D"
    and p: "fg X s (r, c)" "(r, c) \<in> S"
    and q: "r' < rows X" "c' < cols X" "hit s (lmap st r' (mc X c'))" "(r', c') \<noteq> (r, c)"
    and cur: "to_node s cur \<in> A"
      "find_root (tree_of s st) (to_node s cur) = find_root (tree_of s st) (view X s st (r, c))"
    and N: "((r, c), (r', c')) \<in> N"
    and st': "st' = union_labels s r (mc X c) cur (lmap st r' (mc X c')) st"
  shows "sign_inv X N s st' S A ({((r, c), (r', c'))} \<union> D)"
    and "only_sign X s (r, c) st st'"
    and "next_of s st' = next_of s st"
    and "find_root (tree_of s st') (to_node s cur) = find_root (tree_of s st') (view X s st' (r, c))"
proof -
  let ?n = "to_node s cur"
  let ?v = "(view X s st)((r, c) := ?n)"
  have rc: "r < rows X" "c < cols X"
    using p(1) by (auto dest: fg_range)
  from inv obtain E where E: "uf.labels_ok (view X s st) (tree_of s st) A E" "E \<subseteq> N"
    "\<And>p. view X s st p \<noteq> 0 \<longleftrightarrow> p \<in> S \<and> fg X s p"
    "\<And>p q. (p, q) \<in> D \<Longrightarrow> fg X s p \<Longrightarrow> fg X s q \<Longrightarrow> (p, q) \<in> eqv E"
    unfolding sign_inv_def by blast
  have q0: "view X s st (r', c') \<noteq> 0" and pv: "view X s st (r, c) \<noteq> 0"
    using E(3) p q view_pos by blast+
  have n0: "?n \<noteq> 0"
    using forest_pos [OF sign_inv_forest [OF inv]] cur(1) by blast
  obtain x Q where u: "set_union (tree_of s st) (?v (r, c)) (?v (r', c')) = (x, Q)"
    by fastforce
  have ok: "uf.labels_ok ?v (tree_of s st) A E"
    by (rule uf.labels_relabel [OF E(1) pv cur])
  have v0: "?v (r, c) \<noteq> 0" "?v (r', c') \<noteq> 0"
    using n0 q0 q(4) by auto
  note merge = uf.labels_merge [OF ok v0 u] and unite = uf.labels_unite [OF ok v0 u]
  have x0: "x \<noteq> 0"
    using forest_pos [OF sign_inv_forest [OF inv]] unite(2) by blast
  have st'2: "st' = set_label r (mc X c) (to_label s x) (set_tree s Q st)"
    using q u unfolding st' by (simp add: union_labels_def view_node split: if_splits)
  have v: "view X s st' = (view X s st)((r, c) := x)"
    using x0 by (simp add: st'2 view_set_label [OF X rc])
  have "uf.labels_ok (view X s st') (tree_of s st') A ({((r, c), (r', c'))} \<union> E)"
    using merge unfolding v fun_upd_upd by (simp add: st'2)
  then show "sign_inv X N s st' S A ({((r, c), (r', c'))} \<union> D)"
    using E(2)
  proof (rule sign_inv_extend)
    show "view X s st' y \<noteq> 0 \<longleftrightarrow> y \<in> S \<and> fg X s y" for y
      using v E(3) p x0 by (auto split: if_splits)
  qed (use N E(4) in auto)
  show "only_sign X s (r, c) st st'"
    unfolding st'2 using x0 by (simp add: only_sign_set(2))
  show "next_of s st' = next_of s st"
    by (simp add: st'2)
  show "find_root (tree_of s st') ?n = find_root (tree_of s st') (view X s st' (r, c))"
    unfolding v using unite(3) by (simp add: st'2)
qed

end
