(* ===== verification/Ccl_Scan.thy ===== *)
theory Ccl_Scan
  imports Ccl_View
begin

text \<open>
  The scan as a whole, for any connectivity. The locale \<open>ccl_steps\<close> is the contract between
  the loops of the labelling functions and their steps at a pixel, at the border between the first
  and the last row, and at the border between two slices: which edges a step connects and what
  it leaves alone. The loops are verified once, inside the locale.
\<close>

section \<open>Conditional merges\<close>

text \<open>
  The shape of all border merges: the pixel \<open>(r, c)\<close>, with \<open>cur\<close> a label it has or
  had, is united with its neighbour if the neighbour has a label of the same sign.
\<close>

definition cur_ok :: "scene \<Rightarrow> sign \<Rightarrow> scan_state \<Rightarrow> nat set \<Rightarrow> int \<Rightarrow> pixel \<Rightarrow> bool" where
  "cur_ok X s st A cur p \<longleftrightarrow> to_node s cur \<in> A \<and>
     find_root (tree_of s st) (to_node s cur) = find_root (tree_of s st) (view X s st p)"

lemma cur_ok_self:
  assumes "sign_inv X N s st S A D" and "(r, c) \<in> S" and "fg X s (r, c)"
  shows "cur_ok X s st A (lmap st r (mc X c)) (r, c)"
proof -
  have rc: "r < rows X" "c < cols X"
    using assms(3) by (auto dest: fg_range)
  have v: "view X s st (r, c) \<noteq> 0"
    using sign_inv_labelled [OF assms(1)] assms(2,3) by blast
  then have "to_node s (lmap st r (mc X c)) = view X s st (r, c)"
    using view_pos [OF rc] view_node [OF rc] by blast
  then show ?thesis
    using sign_inv_alloc [OF assms(1) v] by (simp add: cur_ok_def)
qed

lemma merge_if_inv:
  assumes X: "scene_ok X" and inv: "sign_inv X N s st S A D"
    and p: "fg X s (r, c)" "(r, c) \<in> S"
    and q: "r' < rows X" "c' < cols X" "(r', c') \<noteq> (r, c)"
    and w: "w = lmap st r' (mc X c')"
    and cur: "cur_ok X s st A cur (r, c)"
    and N: "((r, c), (r', c')) \<in> N"
    and st': "st' = (if hit s w then union_labels s r (mc X c) cur w st else st)"
  shows "sign_inv X N s st' S A ((if (r', c') \<in> S then {((r, c), (r', c'))} else {}) \<union> D)"
    and "only_sign X s (r, c) st st'"
    and "next_of s st' = next_of s st"
    and "cur_ok X s st' A cur (r, c)"
proof -
  note merge = merge_labels_inv [OF X inv p q(1,2) _ q(3) _ _ N]
  show "sign_inv X N s st' S A ((if (r', c') \<in> S then {((r, c), (r', c'))} else {}) \<union> D)"
  proof (cases "hit s w")
    case True
    then have "sign_inv X N s st' S A ({((r, c), (r', c'))} \<union> D)"
      using merge(1) cur w st' by (simp add: cur_ok_def)
    then show ?thesis
      by (rule sign_inv_mono) auto
  next
    case False
    then have "(r', c') \<in> S \<Longrightarrow> \<not> fg X s (r', c')"
      using sign_inv_hit [OF inv q(1,2)] w by blast
    then have "sign_inv X N s st S A (D \<union> (if (r', c') \<in> S then {((r, c), (r', c'))} else {}))"
      by (intro sign_inv_cover_vacuous [OF inv]) (auto split: if_splits)
    with False st' show ?thesis by (simp add: Un_commute)
  qed
  have "hit s (lmap st r (mc X c))"
    using sign_inv_hit [OF inv] p fg_range [OF p(1)] by blast
  then show "only_sign X s (r, c) st st'"
    using merge(2) cur w st' only_sign_refl by (simp add: cur_ok_def)
  show "next_of s st' = next_of s st"
    using merge(3) cur w st' by (simp add: cur_ok_def)
  show "cur_ok X s st' A cur (r, c)"
    using merge(4) cur w st' by (simp add: cur_ok_def)
qed

text \<open>What a step writes does not show at another pixel.\<close>

lemma only_sign_elsewhere:
  assumes "scene_ok X" and "only_sign X s (r, c) st st'" and "c < cols X" and "c' < cols X"
    and "(r', c') \<noteq> (r, c)"
  shows "lmap st' r' (mc X c') = lmap st r' (mc X c')"
  using assms mc_inj [OF assms(1,3,4)] by (auto simp: only_sign_def)

section \<open>Both signs together\<close>

text \<open>
  \<open>B\<close> holds the labels of the slices scanned before, \<open>lo\<close> is \<^verbatim>\<open>lunique_start\<close> of
  the current slice.
\<close>

definition scan_inv ::
  "scene \<Rightarrow> (pixel \<times> pixel) set \<Rightarrow> scan_state \<Rightarrow> pixel set \<Rightarrow> (sign \<Rightarrow> nat set) \<Rightarrow> nat \<Rightarrow>
   (pixel \<times> pixel) set \<Rightarrow> bool"
where
  "scan_inv X N st S B lo D \<longleftrightarrow>
     (\<forall>s. lo < next_of s st \<and> sign_inv X N s st S (B s \<union> {lo<..<next_of s st}) D)"

lemma scan_invI:
  "(\<And>s. lo < next_of s st) \<Longrightarrow> (\<And>s. sign_inv X N s st S (B s \<union> {lo<..<next_of s st}) D) \<Longrightarrow>
    scan_inv X N st S B lo D"
  by (simp add: scan_inv_def)

lemma scan_invD:
  assumes "scan_inv X N st S B lo D"
  shows "lo < next_of s st" and "sign_inv X N s st S (B s \<union> {lo<..<next_of s st}) D"
  using assms by (simp_all add: scan_inv_def)

lemma by_threshold_cases:
  assumes "r < rows X" and "c < cols X"
  obtains (label) s where "fg X s (r, c)"
      "by_threshold (sc_neg X) (sc_img X) (sc_tp X) (sc_tn X) step r (mc X c) st = step s st"
  | (background) "\<And>s. \<not> fg X s (r, c)"
      "by_threshold (sc_neg X) (sc_img X) (sc_tp X) (sc_tn X) step r (mc X c) st = st"
proof -
  consider "fg X Pos (r, c)" | "\<not> fg X Pos (r, c)" "fg X Neg (r, c)"
    | "\<not> fg X Pos (r, c)" "\<not> fg X Neg (r, c)" by blast
  then show thesis
  proof cases
    case 1
    with assms show thesis by (intro label [of Pos]) (auto simp: fg_def by_threshold_def Let_def)
  next
    case 2
    with assms show thesis by (intro label [of Neg]) (auto simp: fg_def by_threshold_def Let_def)
  next
    case 3
    have "\<not> fg X s (r, c)" for s
      using 3 by (cases s) auto
    with 3 assms show thesis by (intro background) (auto simp: fg_def by_threshold_def Let_def)
  qed
qed

lemma by_label_cases:
  assumes inv: "\<And>s. sign_inv X N s st S (A s) D" and rc: "r < rows X" "c < cols X" and S: "(r, c) \<in> S"
  obtains (label) s where "fg X s (r, c)" "by_label (sc_neg X) step r (mc X c) st = step s st"
  | (background) "\<And>s. \<not> fg X s (r, c)" "by_label (sc_neg X) step r (mc X c) st = st"
proof -
  have hit: "hit s (lmap st r (mc X c)) \<longleftrightarrow> fg X s (r, c)" for s
    using sign_inv_hit [OF inv rc] S by blast
  have neg: "fg X Neg (r, c) \<Longrightarrow> sc_neg X"
    by (simp add: fg_def Let_def)
  consider "fg X Pos (r, c)" | "\<not> fg X Pos (r, c)" "fg X Neg (r, c)"
    | "\<not> fg X Pos (r, c)" "\<not> fg X Neg (r, c)" by blast
  then show thesis
  proof cases
    case 1
    then show thesis
      using hit [of Pos] by (intro label [of Pos]) (auto simp: hit_def by_label_def)
  next
    case 2
    then show thesis
      using hit [of Pos] hit [of Neg] neg by (intro label [of Neg]) (auto simp: hit_def by_label_def)
  next
    case 3
    have "\<not> fg X s (r, c)" for s
      using 3 by (cases s) auto
    with 3 show thesis
      using hit [of Pos] hit [of Neg] by (intro background) (auto simp: hit_def by_label_def)
  qed
qed

lemma next_of_by_threshold:
  "(\<And>t. next_of s st \<le> next_of s (step t st)) \<Longrightarrow> next_of s st \<le> next_of s (by_threshold neg I tp tn step r m st)"
  by (simp add: by_threshold_def)

lemma next_of_by_label:
  "(\<And>t. next_of s (step t st) = next_of s st) \<Longrightarrow> next_of s (by_label neg step r m st) = next_of s st"
  by (simp add: by_label_def)

text \<open>The step of one sign, seen from both.\<close>

lemma both_inv_step:
  assumes X: "scene_ok X" and inv: "\<And>s. sign_inv X N s st S (A s) D" and p: "fg X s (r, c)"
    and step: "only_sign X s (r, c) st st'" and D': "\<And>p q. (p, q) \<in> D' \<Longrightarrow> p = (r, c)"
    and own: "sign_inv X N s st' (insert (r, c) S) A' (D' \<union> D)"
  shows "sign_inv X N s' st' (insert (r, c) S) (if s' = s then A' else A s') (D' \<union> D)"
proof (cases "s' = s")
  case True
  with own show ?thesis by simp
next
  case False
  have no: "\<not> fg X s' (r, c)"
    using p False by (rule fg_sign)
  have "sign_inv X N s' st' (insert (r, c) S) (A s') D"
    by (rule sign_inv_other [OF X _ _ inv step False no]) (use fg_range [OF p] in auto)
  then have "sign_inv X N s' st' (insert (r, c) S) (A s') (D \<union> D')"
    by (rule sign_inv_cover_vacuous) (use D' no in blast)
  with False show ?thesis by (simp add: Un_commute)
qed

lemma both_inv_background:
  assumes inv: "\<And>s. sign_inv X N s st S (A s) D" and no: "\<And>s. \<not> fg X s p"
    and D': "\<And>x q. (x, q) \<in> D' \<Longrightarrow> x = p"
  shows "sign_inv X N s st (insert p S) (A s) (D' \<union> D)"
proof -
  have "sign_inv X N s st S (A s) (D \<union> D')"
    by (rule sign_inv_cover_vacuous [OF inv]) (use D' no in blast)
  then have "sign_inv X N s st (S \<union> {p}) (A s) (D \<union> D')"
    by (rule sign_inv_skip) (use no in simp)
  then show ?thesis by (simp add: Un_commute)
qed

lemma scan_inv_step:
  assumes X: "scene_ok X" and inv: "scan_inv X N st S B lo D" and p: "fg X s (r, c)"
    and step: "only_sign X s (r, c) st st'" and D': "\<And>p q. (p, q) \<in> D' \<Longrightarrow> p = (r, c)"
    and own: "lo < next_of s st'"
      "sign_inv X N s st' (insert (r, c) S) (B s \<union> {lo<..<next_of s st'}) (D' \<union> D)"
  shows "scan_inv X N st' (insert (r, c) S) B lo (D' \<union> D)"
proof (rule scan_invI)
  fix s'
  have n: "s' \<noteq> s \<Longrightarrow> next_of s' st' = next_of s' st"
    using step by (simp add: only_sign_def)
  then show "lo < next_of s' st'"
    using own scan_invD(1) [OF inv, of s'] by metis
  show "sign_inv X N s' st' (insert (r, c) S) (B s' \<union> {lo<..<next_of s' st'}) (D' \<union> D)"
    using both_inv_step [OF X scan_invD(2) [OF inv] p step D' own(2), where s' = s'] n
    by (cases "s' = s") auto
qed

lemma scan_inv_background:
  assumes inv: "scan_inv X N st S B lo D" and no: "\<And>s. \<not> fg X s p"
    and D': "\<And>x q. (x, q) \<in> D' \<Longrightarrow> x = p"
  shows "scan_inv X N st (insert p S) B lo (D' \<union> D)"
  using scan_invD(1) [OF inv] both_inv_background [OF scan_invD(2) [OF inv] no D']
  by (rule scan_invI)

section \<open>The contract of the steps\<close>

text \<open>The pixels scanned when the scan of a slice that starts at \<open>b\<close> reaches \<open>(r, c)\<close>.\<close>

definition scanned :: "scene \<Rightarrow> nat \<Rightarrow> nat \<Rightarrow> nat \<Rightarrow> pixel set" where
  "scanned X b c r = {0..<rows X} \<times> {b..<c} \<union> {0..<r} \<times> {c}"

definition mc_prev :: "scene \<Rightarrow> nat \<Rightarrow> nat" where
  "mc_prev X c = m_col_prev (sc_fs X) (cols X) (mc X c)"

locale ccl_steps =
  fixes pixel :: "sign \<Rightarrow> bool \<Rightarrow> nat \<Rightarrow> bool \<Rightarrow> nat \<Rightarrow> nat \<Rightarrow> nat \<Rightarrow> scan_state \<Rightarrow> scan_state"
    and row_border :: "nat \<Rightarrow> nat \<Rightarrow> nat \<Rightarrow> sign \<Rightarrow> scan_state \<Rightarrow> scan_state"
    and col_border :: "bool \<Rightarrow> nat \<Rightarrow> bool \<Rightarrow> nat \<Rightarrow> nat \<Rightarrow> nat \<Rightarrow> sign \<Rightarrow> scan_state \<Rightarrow> scan_state"
    and edges :: "scene \<Rightarrow> (pixel \<times> pixel) set"
    and scan_edges :: "scene \<Rightarrow> nat \<Rightarrow> pixel \<Rightarrow> (pixel \<times> pixel) set"
    and row_edges :: "scene \<Rightarrow> nat \<Rightarrow> nat \<Rightarrow> (pixel \<times> pixel) set"
    and col_edges :: "scene \<Rightarrow> pixel \<Rightarrow> (pixel \<times> pixel) set"
    and wrap :: bool
    and starts :: "nat set"
  assumes scan_edges_from: "(p, q) \<in> scan_edges X b x \<Longrightarrow> p = x"
    and row_edges_from: "(p, q) \<in> row_edges X b c \<Longrightarrow> p = (0, c)"
    and col_edges_from: "(p, q) \<in> col_edges X x \<Longrightarrow> p = x"
    and pixel_next: "next_of s' st \<le> next_of s' (pixel s fs h lv m mp r st)"
    and row_next: "next_of s' (row_border h m mp s st) = next_of s' st"
    and col_next: "next_of s' (col_border fs h lv m mp r s st) = next_of s' st"
    and pixel_step:
      "scene_ok X \<Longrightarrow> b \<le> c \<Longrightarrow> fg X s (r, c) \<Longrightarrow> sign_inv X (edges X) s st S A D \<Longrightarrow>
       (r, c) \<notin> S \<Longrightarrow> scanned X b c r \<subseteq> S \<Longrightarrow> (\<And>p. p \<in> scanned X b c r \<Longrightarrow> scan_edges X b p \<subseteq> D) \<Longrightarrow>
       st' = pixel s (sc_fs X) (rows X) (c \<noteq> b) (mc X c) (mc_prev X c) r st \<Longrightarrow>
       (next_of s st' \<noteq> next_of s st \<Longrightarrow> next_of s st \<notin> A \<and> next_of s st \<noteq> 0) \<Longrightarrow>
       sign_inv X (edges X) s st' (insert (r, c) S)
         (if next_of s st' = next_of s st then A else insert (next_of s st) A)
         (scan_edges X b (r, c) \<union> D) \<and>
       only_sign X s (r, c) st st' \<and> next_of s st' \<le> Suc (next_of s st)"
    and row_step:
      "scene_ok X \<Longrightarrow> \<not> sc_fs X \<Longrightarrow> b \<le> c \<Longrightarrow> fg X s (0, c) \<Longrightarrow> sign_inv X (edges X) s st S A D \<Longrightarrow>
       scanned X b (Suc c) 0 \<subseteq> S \<Longrightarrow> (\<And>p. p \<in> scanned X b (Suc c) 0 \<Longrightarrow> scan_edges X b p \<subseteq> D) \<Longrightarrow>
       (wrap \<Longrightarrow> c = 0 \<Longrightarrow> (rows X - 1, cols X - 1) \<notin> S) \<Longrightarrow>
       st' = row_border (rows X) (mc X c) (mc_prev X c) s st \<Longrightarrow>
       sign_inv X (edges X) s st' S A (row_edges X b c \<union> D) \<and> only_sign X s (0, c) st st'"
    and col_step:
      "scene_ok X \<Longrightarrow> c \<in> starts \<Longrightarrow> fg X s (r, c) \<Longrightarrow> sign_inv X (edges X) s st UNIV A D \<Longrightarrow>
       st' = col_border (sc_fs X) (rows X) (c \<noteq> 0) (mc X c) (mc_prev X c) r s st \<Longrightarrow>
       sign_inv X (edges X) s st' UNIV A (col_edges X (r, c) \<union> D) \<and> only_sign X s (r, c) st st'"
begin

text \<open>One pixel of the scan, for both signs.\<close>

lemma scan_pixel:
  assumes X: "scene_ok X" and rc: "r < rows X" "b \<le> c" "c < cols X"
    and inv: "scan_inv X (edges X) st S B lo D"
    and S: "(r, c) \<notin> S" "scanned X b c r \<subseteq> S"
    and D: "\<And>p. p \<in> scanned X b c r \<Longrightarrow> scan_edges X b p \<subseteq> D"
    and B: "\<And>s a. a \<in> B s \<Longrightarrow> lo < a \<Longrightarrow> \<not> a < cap"
    and st': "st' = by_threshold (sc_neg X) (sc_img X) (sc_tp X) (sc_tn X)
      (\<lambda>s. pixel s (sc_fs X) (rows X) (c \<noteq> b) (mc X c) (mc_prev X c) r) r (mc X c) st"
    and cap: "\<And>s. next_of s st' \<le> cap"
  shows "scan_inv X (edges X) st' (insert (r, c) S) B lo (scan_edges X b (r, c) \<union> D)"
  using rc(1,3)
proof (cases rule: by_threshold_cases [where
      step = "\<lambda>s. pixel s (sc_fs X) (rows X) (c \<noteq> b) (mc X c) (mc_prev X c) r" and st = st])
  case (label s)
  let ?n = "next_of s st" and ?n' = "next_of s st'"
  let ?A = "B s \<union> {lo<..<?n}"
  have eq: "st' = pixel s (sc_fs X) (rows X) (c \<noteq> b) (mc X c) (mc_prev X c) r st"
    using label(2) st' by simp
  have lo: "lo < ?n"
    by (rule scan_invD(1) [OF inv])
  have mono: "?n \<le> ?n'"
    unfolding eq by (rule pixel_next)
  have fresh: "?n \<notin> ?A \<and> ?n \<noteq> 0" if "?n' \<noteq> ?n"
    using B [of ?n s] cap [of s] mono lo that by auto
  note step = pixel_step [OF X rc(2) label(1) scan_invD(2) [OF inv] S D eq fresh]
  have only: "only_sign X s (r, c) st st'"
    using step by blast
  have "(if ?n' = ?n then ?A else insert ?n ?A) = B s \<union> {lo<..<?n'}"
    using step mono lo by (auto split: if_splits)
  with step have "sign_inv X (edges X) s st' (insert (r, c) S) (B s \<union> {lo<..<?n'})
      (scan_edges X b (r, c) \<union> D)"
    by simp
  moreover have "lo < ?n'"
    using lo mono by simp
  ultimately show ?thesis
    using scan_edges_from by (intro scan_inv_step [OF X inv label(1) only]) blast+
next
  case background
  then show ?thesis
    using scan_edges_from unfolding st' background(2) by (intro scan_inv_background [OF inv]) blast+
qed

lemma scan_row_border:
  assumes X: "scene_ok X" "\<not> sc_fs X" and rc: "b \<le> c" "c < cols X"
    and inv: "scan_inv X (edges X) st S B lo D"
    and S: "scanned X b (Suc c) 0 \<subseteq> S"
    and D: "\<And>p. p \<in> scanned X b (Suc c) 0 \<Longrightarrow> scan_edges X b p \<subseteq> D"
    and W: "wrap \<Longrightarrow> c = 0 \<Longrightarrow> (rows X - 1, cols X - 1) \<notin> S"
    and st': "st' = by_label (sc_neg X) (row_border (rows X) (mc X c) (mc_prev X c)) 0 (mc X c) st"
  shows "scan_inv X (edges X) st' S B lo (row_edges X b c \<union> D)"
proof -
  have r: "0 < rows X"
    using X by (simp add: scene_ok_def)
  have p: "(0, c) \<in> S"
    using S r rc by (auto simp: scanned_def)
  have n: "next_of s st' = next_of s st" for s
    unfolding st' by (rule next_of_by_label) (rule row_next)
  have "scan_inv X (edges X) st' (insert (0, c) S) B lo (row_edges X b c \<union> D)"
    using scan_invD(2) [OF inv] r rc(2) p
  proof (cases rule: by_label_cases [where st = st and step = "row_border (rows X) (mc X c) (mc_prev X c)"])
    case (label s)
    have eq: "st' = row_border (rows X) (mc X c) (mc_prev X c) s st"
      using label(2) st' by simp
    note step = row_step [OF X rc(1) label(1) scan_invD(2) [OF inv] S D W eq]
    then have only: "only_sign X s (0, c) st st'" and "sign_inv X (edges X) s st' S
        (B s \<union> {lo<..<next_of s st'}) (row_edges X b c \<union> D)"
      unfolding n by blast+
    then show ?thesis
      using row_edges_from p scan_invD(1) [OF inv, of s]
      by (intro scan_inv_step [OF X(1) inv label(1) only]) (auto simp: n insert_absorb)
  next
    case background
    then show ?thesis
      using row_edges_from unfolding st' background(2) by (intro scan_inv_background [OF inv]) blast+
  qed
  with p show ?thesis by (simp add: insert_absorb)
qed

lemma scan_col_border:
  assumes X: "scene_ok X" and rc: "r < rows X" "c < cols X" "c \<in> starts"
    and inv: "\<And>s. sign_inv X (edges X) s st UNIV (A s) D"
    and st': "st' = by_label (sc_neg X) (col_border (sc_fs X) (rows X) (c \<noteq> 0) (mc X c) (mc_prev X c) r)
      r (mc X c) st"
  shows "sign_inv X (edges X) s st' UNIV (A s) (col_edges X (r, c) \<union> D)"
proof -
  have "sign_inv X (edges X) s st' (insert (r, c) UNIV) (A s) (col_edges X (r, c) \<union> D)"
    using inv rc(1,2) UNIV_I
  proof (cases rule: by_label_cases [where st = st and
        step = "col_border (sc_fs X) (rows X) (c \<noteq> 0) (mc X c) (mc_prev X c) r"])
    case (label t)
    have eq: "st' = col_border (sc_fs X) (rows X) (c \<noteq> 0) (mc X c) (mc_prev X c) r t st"
      using label(2) st' by simp
    note step = col_step [OF X rc(3) label(1) inv eq]
    then have only: "only_sign X t (r, c) st st'"
      and own: "sign_inv X (edges X) t st' (insert (r, c) UNIV) (A t) (col_edges X (r, c) \<union> D)"
      by simp_all
    have "\<And>p q. (p, q) \<in> col_edges X (r, c) \<Longrightarrow> p = (r, c)"
      by (rule col_edges_from)
    from both_inv_step [where s' = s, OF X inv label(1) only this own] show ?thesis
      by (cases "s = t") auto
  next
    case background
    then show ?thesis
      using col_edges_from unfolding st' background(2) by (intro both_inv_background [OF inv]) blast+
  qed
  then show ?thesis by simp
qed

end

end
