(* ===== verification/Ccl_Loops.thy ===== *)
theory Ccl_Loops
  imports Ccl_Scan
begin

text \<open>
  The loops of the labelling, verified against the contract \<open>ccl_steps\<close>: the rows of a
  column, the columns of a slice, the slices of the image in any order, and the borders between the
  slices. The result of each loop is stated under the condition that no more labels were handed
  out than the slice has room for.
\<close>

lemma fold_mono_measure:
  fixes f :: "'s \<Rightarrow> nat"
  assumes "\<And>x s. x \<in> set xs \<Longrightarrow> f s \<le> f (g x s)"
  shows "f s \<le> f (fold g xs s)"
  using assms by (induction xs arbitrary: s) (auto intro: order_trans)

lemma scan_column_unfold:
  "scan_column pixel row_border (sc_neg X) (sc_fs X) (sc_img X) (sc_tp X) (sc_tn X) b c st =
    (let st = fold (\<lambda>r. by_threshold (sc_neg X) (sc_img X) (sc_tp X) (sc_tn X)
        (\<lambda>s. pixel s (sc_fs X) (rows X) (c \<noteq> b) (mc X c) (mc_prev X c) r) r (mc X c)) [0..<rows X] st
     in if sc_fs X then st
        else by_label (sc_neg X) (row_border (rows X) (mc X c) (mc_prev X c)) 0 (mc X c) st)"
  by (simp add: scan_column_def mc_def mc_prev_def rows_def cols_def Let_def)

section \<open>What the slices record\<close>

definition lunique :: "sign \<Rightarrow> label_data_thread \<Rightarrow> nat" where
  "lunique s d = (case s of Pos \<Rightarrow> lunique_p d | Neg \<Rightarrow> lunique_n d)"

text \<open>The labels that were handed out.\<close>

definition slice_labels :: "sign \<Rightarrow> label_data_thread list \<Rightarrow> nat set" where
  "slice_labels s data = (\<Union>d \<in> set data. {lunique_start d<..<lunique s d})"

text \<open>
  The room of a slice: the labels of the slice \<open>[b, e)\<close> are to stay below
  \<open>e * (rows / 2)\<close>, the entry that the next slice resets.
\<close>

definition slices_fit :: "nat \<Rightarrow> range list \<Rightarrow> label_data_thread list \<Rightarrow> bool" where
  "slices_fit h rs data = list_all2 (\<lambda>r d. lunique_p d \<le> snd r * h \<and> lunique_n d \<le> snd r * h) rs data"

lemma slices_fit_Cons:
  "slices_fit h (r # rs) (d # data) \<longleftrightarrow> (\<forall>s. lunique s d \<le> snd r * h) \<and> slices_fit h rs data"
proof -
  have "(\<forall>s. lunique s d \<le> snd r * h) \<longleftrightarrow> lunique_p d \<le> snd r * h \<and> lunique_n d \<le> snd r * h"
    by (metis lunique_def sign.exhaust sign.simps(3,4))
  then show ?thesis
    by (simp add: slices_fit_def)
qed

definition labels_fit :: "nat \<Rightarrow> range list \<Rightarrow> label_data_thread list \<Rightarrow> bool" where
  "labels_fit h rs data = list_all (\<lambda>d. list_all (\<lambda>r. fst r = col_start d \<longrightarrow>
     lunique_p d \<le> snd r * h \<and> lunique_n d \<le> snd r * h) rs) data"

lemma labels_fit_slices:
  assumes "labels_fit h rs data" and "map col_start data = map fst rs"
  shows "slices_fit h rs data"
proof -
  have len: "length data = length rs"
    using assms(2) by (metis length_map)
  have "fst (rs ! i) = col_start (data ! i)" if "i < length rs" for i
    using assms(2) that len by (metis nth_map)
  with assms(1) len show ?thesis
    unfolding slices_fit_def labels_fit_def list_all2_conv_all_nth list_all_iff by auto
qed

lemma labels_fit_sort [simp]: "labels_fit h rs (sort_key f data) = labels_fit h rs data"
  by (simp add: labels_fit_def list_all_iff)

lemma slice_labels_sort [simp]: "slice_labels s (sort_key f data) = slice_labels s data"
  by (simp add: slice_labels_def)

text \<open>
  With 8-connectivity (outside of \<^verbatim>\<open>FFTSHIFT\<close>) the last slice must not be scanned before the first.
\<close>

fun wrap_safe :: "nat \<Rightarrow> range list \<Rightarrow> bool" where
  "wrap_safe w [] \<longleftrightarrow> True"
| "wrap_safe w (r # rs) \<longleftrightarrow> (snd r = w \<longrightarrow> 0 \<notin> fst ` set rs) \<and> wrap_safe w rs"

definition apart :: "range list \<Rightarrow> bool" where
  "apart rs = sorted_wrt (\<lambda>r s. snd r \<le> fst s \<or> snd s \<le> fst r) rs"

lemma covers_all_apart: "covers lo hi rs \<Longrightarrow> apart rs"
proof -
  assume cov: "covers lo hi rs"
  have "snd (rs ! i) \<le> fst (rs ! j) \<or> snd (rs ! j) \<le> fst (rs ! i)" if "i < j" "j < length rs" for i j
  proof -
    have "rs ! i \<noteq> rs ! j"
      using covers_distinct [OF cov] that nth_eq_iff_index_eq [of "map fst rs" i j] by auto
    with covers_apart [OF cov, of "rs ! i" "rs ! j"] that show ?thesis by auto
  qed
  then show "apart rs"
    by (auto simp: apart_def sorted_wrt_iff_nth_less)
qed

section \<open>The loops\<close>

context ccl_steps
begin

definition column_edges :: "scene \<Rightarrow> nat \<Rightarrow> nat \<Rightarrow> (pixel \<times> pixel) set" where
  "column_edges X b c = (\<Union>r \<in> {0..<rows X}. scan_edges X b (r, c)) \<union> (if sc_fs X then {} else row_edges X b c)"

definition slice_edges :: "scene \<Rightarrow> range \<Rightarrow> (pixel \<times> pixel) set" where
  "slice_edges X r = (\<Union>c \<in> {fst r..<snd r}. column_edges X (fst r) c)"

definition border_edges :: "scene \<Rightarrow> nat \<Rightarrow> (pixel \<times> pixel) set" where
  "border_edges X c = (\<Union>r \<in> {0..<rows X}. col_edges X (r, c))"

lemma column_edges_scan: "r < rows X \<Longrightarrow> x \<in> scan_edges X b (r, c) \<Longrightarrow> x \<in> column_edges X b c"
  unfolding column_edges_def by (rule UnI1) (rule UN_I [where a = r], simp_all)

lemma column_edges_row: "\<not> sc_fs X \<Longrightarrow> x \<in> row_edges X b c \<Longrightarrow> x \<in> column_edges X b c"
  by (simp add: column_edges_def)

lemma border_edges_col: "r < rows X \<Longrightarrow> x \<in> col_edges X (r, c) \<Longrightarrow> x \<in> border_edges X c"
  unfolding border_edges_def by (rule UN_I [where a = r]) simp_all

lemma column_next:
  "next_of s st \<le> next_of s (scan_column pixel row_border neg fs I tp tn b c st)"
proof -
  have "next_of s st \<le> next_of s (fold (\<lambda>r. by_threshold neg I tp tn
      (\<lambda>s. pixel s fs (n_rows I) (c \<noteq> b) m mp r) r m) [0..<n_rows I] st)" for m mp fs
    by (intro fold_mono_measure next_of_by_threshold pixel_next)
  then show ?thesis
    by (simp add: scan_column_def Let_def next_of_by_label row_next)
qed

lemma scan_column_inv:
  assumes X: "scene_ok X" and rc: "b \<le> c" "c < cols X"
    and inv: "scan_inv X (edges X) st S B lo D"
    and S: "\<And>r. (r, c) \<notin> S" "scanned X b c 0 \<subseteq> S"
    and D: "\<And>c'. b \<le> c' \<Longrightarrow> c' < c \<Longrightarrow> column_edges X b c' \<subseteq> D"
    and B: "\<And>s a. a \<in> B s \<Longrightarrow> lo < a \<Longrightarrow> \<not> a < cap"
    and W: "wrap \<Longrightarrow> \<not> sc_fs X \<Longrightarrow> c = 0 \<Longrightarrow> (rows X - 1, cols X - 1) \<notin> S"
    and st': "st' = scan_column pixel row_border (sc_neg X) (sc_fs X) (sc_img X) (sc_tp X) (sc_tn X) b c st"
    and cap: "\<And>s. next_of s st' \<le> cap"
  shows "scan_inv X (edges X) st' (S \<union> {0..<rows X} \<times> {c}) B lo (column_edges X b c \<union> D)"
proof -
  let ?step = "\<lambda>r. by_threshold (sc_neg X) (sc_img X) (sc_tp X) (sc_tn X)
    (\<lambda>s. pixel s (sc_fs X) (rows X) (c \<noteq> b) (mc X c) (mc_prev X c) r) r (mc X c)"
  let ?D = "\<lambda>r. (\<Union>r' \<in> {0..<r}. scan_edges X b (r', c)) \<union> D"
  define st1 where "st1 = fold ?step [0..<rows X] st"
  have st'2: "st' = (if sc_fs X then st1
      else by_label (sc_neg X) (row_border (rows X) (mc X c) (mc_prev X c)) 0 (mc X c) st1)"
    unfolding st' scan_column_unfold st1_def Let_def ..
  have before: "scan_edges X b p \<subseteq> ?D r" if p: "p \<in> scanned X b c r" for p r
  proof -
    obtain r' c' where "p = (r', c')" by fastforce
    with p consider "r' < rows X" "b \<le> c'" "c' < c" | "c' = c" "r' < r"
      by (auto simp: scanned_def)
    then show ?thesis
    proof cases
      case 1
      then have "scan_edges X b p \<subseteq> column_edges X b c'"
        using \<open>p = (r', c')\<close> by (auto simp: column_edges_def)
      with D [OF 1(2,3)] show ?thesis by blast
    next
      case 2
      with \<open>p = (r', c')\<close> show ?thesis by auto
    qed
  qed
  have "(\<forall>s. next_of s (fold ?step [0..<rows X] st) \<le> cap) \<longrightarrow>
      scan_inv X (edges X) (fold ?step [0..<rows X] st) (S \<union> {0..<rows X} \<times> {c}) B lo (?D (rows X))"
  proof (rule fold_upt_invariant [where P = "\<lambda>r st. (\<forall>s. next_of s st \<le> cap) \<longrightarrow>
        scan_inv X (edges X) st (S \<union> {0..<r} \<times> {c}) B lo (?D r)"])
    show "(\<forall>s. next_of s st \<le> cap) \<longrightarrow> scan_inv X (edges X) st (S \<union> {0..<0} \<times> {c}) B lo (?D 0)"
      using inv by simp
    fix r st
    assume r: "r < rows X" and IH: "(\<forall>s. next_of s st \<le> cap) \<longrightarrow>
        scan_inv X (edges X) st (S \<union> {0..<r} \<times> {c}) B lo (?D r)"
    show "(\<forall>s. next_of s (?step r st) \<le> cap) \<longrightarrow>
        scan_inv X (edges X) (?step r st) (S \<union> {0..<Suc r} \<times> {c}) B lo (?D (Suc r))"
    proof
      assume cap: "\<forall>s. next_of s (?step r st) \<le> cap"
      have "next_of s st \<le> next_of s (?step r st)" for s
        by (intro next_of_by_threshold pixel_next)
      with cap IH have "scan_inv X (edges X) st (S \<union> {0..<r} \<times> {c}) B lo (?D r)"
        by (meson order_trans)
      then have "scan_inv X (edges X) (?step r st) (insert (r, c) (S \<union> {0..<r} \<times> {c})) B lo
          (scan_edges X b (r, c) \<union> ?D r)"
      proof (rule scan_pixel [OF X r rc _ _ _ before B refl])
        show "(r, c) \<notin> S \<union> {0..<r} \<times> {c}" and "scanned X b c r \<subseteq> S \<union> {0..<r} \<times> {c}"
          using S by (auto simp: scanned_def)
      qed (use cap in auto)
      moreover have "insert (r, c) (S \<union> {0..<r} \<times> {c}) = S \<union> {0..<Suc r} \<times> {c}"
        and "scan_edges X b (r, c) \<union> ?D r = ?D (Suc r)"
        by (auto simp: less_Suc_eq)
      ultimately show "scan_inv X (edges X) (?step r st) (S \<union> {0..<Suc r} \<times> {c}) B lo (?D (Suc r))"
        by simp
    qed
  qed simp
  moreover have "next_of s st1 = next_of s st'" for s
    unfolding st'2 by (simp add: next_of_by_label row_next)
  ultimately have st1: "scan_inv X (edges X) st1 (S \<union> {0..<rows X} \<times> {c}) B lo (?D (rows X))"
    using cap by (simp add: st1_def)
  show ?thesis
  proof (cases "sc_fs X")
    case True
    with st1 st'2 show ?thesis by (simp add: column_edges_def)
  next
    case False
    have "c = 0 \<Longrightarrow> c \<noteq> cols X - 1"
      using X by (auto simp: scene_ok_def)
    moreover have all: "scanned X b (Suc c) 0 = scanned X b c (rows X)"
      using rc by (auto simp: scanned_def)
    ultimately have "scan_inv X (edges X) st' (S \<union> {0..<rows X} \<times> {c}) B lo
        (row_edges X b c \<union> ?D (rows X))"
    proof (intro scan_row_border [OF X False rc st1])
      show "scanned X b (Suc c) 0 \<subseteq> S \<union> {0..<rows X} \<times> {c}"
        unfolding all using S(2) by (auto simp: scanned_def)
      show "st' = by_label (sc_neg X) (row_border (rows X) (mc X c) (mc_prev X c)) 0 (mc X c) st1"
        using st'2 False by simp
    qed (use W False before in \<open>auto simp: all\<close>)
    moreover have "row_edges X b c \<union> ?D (rows X) = column_edges X b c \<union> D"
      using False by (auto simp: column_edges_def)
    ultimately show ?thesis by simp
  qed
qed

text \<open>One slice.\<close>

lemma start_slice_inv:
  assumes inv: "\<And>s. sign_inv X N s st S (B s) D" and lo: "\<And>s. lo \<notin> B s"
  shows "scan_inv X N (start_slice lo st) S B lo D"
proof (rule scan_invI)
  fix s
  have n: "next_of s (start_slice lo st) = lo + 1"
    and t: "tree_of s (start_slice lo st) = (tree_of s st)(lo := 0)"
    and v: "view X s (start_slice lo st) = view X s st"
    by (cases s; simp add: next_of_def tree_of_def view_def start_slice_def fun_eq_iff)+
  show "lo < next_of s (start_slice lo st)"
    by (simp add: n)
  have "sign_inv X N s (start_slice lo st) S (B s) D"
    by (rule sign_inv_cong [OF inv v]) (use lo t in auto)
  moreover have "{lo<..<lo + 1} = {}"
    by auto
  ultimately show "sign_inv X N s (start_slice lo st) S (B s \<union> {lo<..<next_of s (start_slice lo st)}) D"
    by (simp add: n)
qed

lemma scan_slice_inv:
  assumes X: "scene_ok X" and r: "fst r < snd r" "snd r \<le> cols X"
    and inv: "\<And>s. sign_inv X (edges X) s st S (B s) D"
    and S: "\<And>i c. fst r \<le> c \<Longrightarrow> c < snd r \<Longrightarrow> (i, c) \<notin> S"
    and B: "\<And>s a. a \<in> B s \<Longrightarrow> fst r * (rows X div 2) \<le> a \<Longrightarrow> \<not> a < snd r * (rows X div 2)"
    and W: "wrap \<Longrightarrow> \<not> sc_fs X \<Longrightarrow> fst r = 0 \<Longrightarrow> (rows X - 1, cols X - 1) \<notin> S"
    and st': "st' = fold (scan_column pixel row_border (sc_neg X) (sc_fs X) (sc_img X) (sc_tp X) (sc_tn X) (fst r))
      [fst r..<snd r] (start_slice (fst r * (rows X div 2)) st)"
    and cap: "\<And>s. next_of s st' \<le> snd r * (rows X div 2)"
  shows "sign_inv X (edges X) s st' (S \<union> {0..<rows X} \<times> {fst r..<snd r})
      (B s \<union> {fst r * (rows X div 2)<..<next_of s st'}) (slice_edges X r \<union> D)"
proof -
  let ?b = "fst r" and ?lo = "fst r * (rows X div 2)" and ?cap = "snd r * (rows X div 2)"
  let ?step = "scan_column pixel row_border (sc_neg X) (sc_fs X) (sc_img X) (sc_tp X) (sc_tn X) ?b"
  let ?D = "\<lambda>c. (\<Union>c' \<in> {?b..<c}. column_edges X ?b c') \<union> D"
  have "?lo < ?cap"
    using X r by (auto simp: scene_ok_def)
  then have lo: "?lo \<notin> B s" for s
    using B [of ?lo s] by auto
  have "(\<forall>s. next_of s st' \<le> ?cap) \<longrightarrow>
      scan_inv X (edges X) st' (S \<union> {0..<rows X} \<times> {?b..<snd r}) B ?lo (?D (snd r))"
    unfolding st'
  proof (rule fold_upt_invariant [where P = "\<lambda>c st. (\<forall>s. next_of s st \<le> ?cap) \<longrightarrow>
        scan_inv X (edges X) st (S \<union> {0..<rows X} \<times> {?b..<c}) B ?lo (?D c)"])
    show "(\<forall>s. next_of s (start_slice ?lo st) \<le> ?cap) \<longrightarrow>
        scan_inv X (edges X) (start_slice ?lo st) (S \<union> {0..<rows X} \<times> {?b..<?b}) B ?lo (?D ?b)"
      using start_slice_inv [where B = B, OF inv lo] by simp
    fix c st
    assume c: "?b \<le> c" "c < snd r" and IH: "(\<forall>s. next_of s st \<le> ?cap) \<longrightarrow>
        scan_inv X (edges X) st (S \<union> {0..<rows X} \<times> {?b..<c}) B ?lo (?D c)"
    show "(\<forall>s. next_of s (?step c st) \<le> ?cap) \<longrightarrow>
        scan_inv X (edges X) (?step c st) (S \<union> {0..<rows X} \<times> {?b..<Suc c}) B ?lo (?D (Suc c))"
    proof
      assume cap: "\<forall>s. next_of s (?step c st) \<le> ?cap"
      have ccols: "c < cols X"
        using c r by simp
      from cap have "scan_inv X (edges X) st (S \<union> {0..<rows X} \<times> {?b..<c}) B ?lo (?D c)"
        using IH column_next order_trans by blast
      then have "scan_inv X (edges X) (?step c st) (S \<union> {0..<rows X} \<times> {?b..<c} \<union> {0..<rows X} \<times> {c}) B ?lo
          (column_edges X ?b c \<union> ?D c)"
      proof (rule scan_column_inv [OF X c(1) ccols _ _ _ _ _ _ refl])
        show "\<And>r'. (r', c) \<notin> S \<union> {0..<rows X} \<times> {?b..<c}"
          using S c by auto
        show "scanned X ?b c 0 \<subseteq> S \<union> {0..<rows X} \<times> {?b..<c}"
          by (auto simp: scanned_def)
        show "column_edges X ?b c' \<subseteq> ?D c" if "?b \<le> c'" "c' < c" for c'
          using that by auto
        show "\<not> a < ?cap" if "a \<in> B s" "?lo < a" for s a
          using B [of a s] that by simp
        show "(rows X - 1, cols X - 1) \<notin> S \<union> {0..<rows X} \<times> {?b..<c}" if "wrap" "\<not> sc_fs X" "c = 0"
          using W that c by simp
      qed (use cap in blast)
      moreover have "S \<union> {0..<rows X} \<times> {?b..<c} \<union> {0..<rows X} \<times> {c} = S \<union> {0..<rows X} \<times> {?b..<Suc c}"
        and "column_edges X ?b c \<union> ?D c = ?D (Suc c)"
        using c by (auto simp: less_Suc_eq)
      ultimately show "scan_inv X (edges X) (?step c st) (S \<union> {0..<rows X} \<times> {?b..<Suc c}) B ?lo (?D (Suc c))"
        by simp
    qed
  qed (use r in simp)
  with cap have "scan_inv X (edges X) st' (S \<union> {0..<rows X} \<times> {?b..<snd r}) B ?lo (?D (snd r))"
    by blast
  from scan_invD(2) [OF this, of s] show ?thesis
    by (simp add: slice_edges_def)
qed

text \<open>All slices, in the order \<open>rs\<close> in which they run.\<close>

definition slices :: "scene \<Rightarrow> range list \<Rightarrow> scan_state \<times> label_data_thread list \<Rightarrow>
  scan_state \<times> label_data_thread list" where
  "slices X rs = fold (scan_slice pixel row_border (sc_neg X) (sc_fs X) (sc_img X) (sc_tp X) (sc_tn X)) rs"

lemma slices_append: "slices X rs (st, data) = (let (st', new) = slices X rs (st, []) in (st', data @ new))"
proof (induction rs arbitrary: st data)
  case Nil
  then show ?case by (simp add: slices_def)
next
  case (Cons r rs)
  obtain st1 d where step: "\<And>data. scan_slice pixel row_border (sc_neg X) (sc_fs X) (sc_img X) (sc_tp X) (sc_tn X) r (st, data) =
      (st1, data @ [d])"
    by (simp add: scan_slice_def Let_def)
  have "slices X (r # rs) (st, data) = slices X rs (st1, data @ [d])" for data
    by (simp add: slices_def step)
  then show ?case
    using Cons.IH [of st1 "data @ [d]"] Cons.IH [of st1 "[d]"] by (simp add: split_beta Let_def)
qed

lemma slices_Cons:
  assumes "slices X (r # rs) (st, []) = (st', data)"
  obtains st1 d new where
    "st1 = fold (scan_column pixel row_border (sc_neg X) (sc_fs X) (sc_img X) (sc_tp X) (sc_tn X) (fst r))
      [fst r..<snd r] (start_slice (fst r * (rows X div 2)) st)"
    and "slices X rs (st1, []) = (st', new)" and "data = d # new"
    and "col_start d = fst r" "lunique_start d = fst r * (rows X div 2)" "\<And>s. lunique s d = next_of s st1"
proof -
  define st1 where "st1 = fold (scan_column pixel row_border (sc_neg X) (sc_fs X) (sc_img X) (sc_tp X) (sc_tn X) (fst r))
    [fst r..<snd r] (start_slice (fst r * (rows X div 2)) st)"
  define d where "d = \<lparr>col_start = fst r, lunique_start = fst r * (rows X div 2),
    lunique_p = next_p st1, lunique_n = next_n st1\<rparr>"
  have "slices X (r # rs) (st, []) = slices X rs (st1, [d])"
    by (simp add: slices_def scan_slice_def Let_def d_def st1_def rows_def)
  with assms have eq: "(let (st', new) = slices X rs (st1, []) in (st', [d] @ new)) = (st', data)"
    by (simp add: slices_append [of X rs st1 "[d]"])
  obtain new where new: "slices X rs (st1, []) = (st', new)" "data = d # new"
    using eq by (cases "slices X rs (st1, [])") auto
  have n: "lunique s d = next_of s st1" for s
    by (cases s) (simp_all add: d_def lunique_def next_of_def)
  show thesis
    by (rule that [OF st1_def new _ _ n]) (simp_all add: d_def)
qed

lemma slices_starts:
  "slices X rs (st, []) = (st', data) \<Longrightarrow> map col_start data = map fst rs \<and>
    map lunique_start data = map (\<lambda>r. fst r * (rows X div 2)) rs"
proof (induction rs arbitrary: st data)
  case Nil
  then show ?case by (simp add: slices_def)
next
  case (Cons r rs)
  from Cons.prems show ?case
    by (rule slices_Cons) (use Cons.IH in auto)
qed

lemma slices_inv:
  assumes X: "scene_ok X"
    and "apart rs" and "\<And>r. r \<in> set rs \<Longrightarrow> fst r < snd r \<and> snd r \<le> cols X"
    and "\<And>s. sign_inv X (edges X) s st S (B s) D"
    and "\<And>r i c. r \<in> set rs \<Longrightarrow> fst r \<le> c \<Longrightarrow> c < snd r \<Longrightarrow> (i, c) \<notin> S"
    and "\<And>r s a. r \<in> set rs \<Longrightarrow> a \<in> B s \<Longrightarrow> fst r * (rows X div 2) \<le> a \<Longrightarrow> \<not> a < snd r * (rows X div 2)"
    and "wrap \<Longrightarrow> \<not> sc_fs X \<Longrightarrow> 0 \<in> fst ` set rs \<Longrightarrow> (rows X - 1, cols X - 1) \<notin> S"
    and "wrap \<Longrightarrow> \<not> sc_fs X \<Longrightarrow> wrap_safe (cols X) rs"
    and "slices X rs (st, []) = (st', data)" and "slices_fit (rows X div 2) rs data"
  shows "sign_inv X (edges X) s st' (S \<union> {0..<rows X} \<times> (\<Union>r \<in> set rs. range_set r))
    (B s \<union> slice_labels s data) ((\<Union>r \<in> set rs. slice_edges X r) \<union> D)"
  using assms(2-)
proof (induction rs arbitrary: st S B D data)
  case Nil
  then show ?case by (simp add: slices_def slice_labels_def)
next
  case (Cons r rs)
  let ?h = "rows X div 2"
  from Cons.prems(8) obtain st1 d new where
    st1: "st1 = fold (scan_column pixel row_border (sc_neg X) (sc_fs X) (sc_img X) (sc_tp X) (sc_tn X) (fst r))
      [fst r..<snd r] (start_slice (fst r * ?h) st)"
    and rest: "slices X rs (st1, []) = (st', new)" and data: "data = d # new"
    and d: "lunique_start d = fst r * ?h" "\<And>s. lunique s d = next_of s st1"
    by (rule slices_Cons) (rule that)
  have fit: "next_of s st1 \<le> snd r * ?h" "slices_fit ?h rs new" for s
    using Cons.prems(9) by (auto simp: data slices_fit_Cons d)
  have bounds: "fst r < snd r" "snd r \<le> cols X"
    using Cons.prems(2) [of r] by auto
  let ?S = "S \<union> {0..<rows X} \<times> {fst r..<snd r}"
  let ?B = "\<lambda>s. B s \<union> {fst r * ?h<..<next_of s st1}" and ?D = "slice_edges X r \<union> D"
  have "sign_inv X (edges X) s st' (?S \<union> {0..<rows X} \<times> (\<Union>r \<in> set rs. range_set r))
    (?B s \<union> slice_labels s new) ((\<Union>r \<in> set rs. slice_edges X r) \<union> ?D)"
  proof (rule Cons.IH [OF _ _ _ _ _ _ _ rest fit(2)])
    show "apart rs"
      using Cons.prems(1) by (simp add: apart_def)
    show "fst r' < snd r' \<and> snd r' \<le> cols X" if "r' \<in> set rs" for r'
      using Cons.prems(2) [of r'] that by simp
    show "sign_inv X (edges X) s st1 ?S (?B s) ?D" for s
    proof (rule scan_slice_inv [OF X bounds Cons.prems(3) _ _ _ st1 fit(1)])
      show "\<And>i c. fst r \<le> c \<Longrightarrow> c < snd r \<Longrightarrow> (i, c) \<notin> S"
        by (rule Cons.prems(4) [OF list.set_intros(1)])
      show "\<And>s a. a \<in> B s \<Longrightarrow> fst r * ?h \<le> a \<Longrightarrow> \<not> a < snd r * ?h"
        using Cons.prems(5) [of r] by simp
      show "wrap \<Longrightarrow> \<not> sc_fs X \<Longrightarrow> fst r = 0 \<Longrightarrow> (rows X - 1, cols X - 1) \<notin> S"
        using Cons.prems(6) by simp
    qed
    have far: "snd r \<le> fst r' \<or> snd r' \<le> fst r" if "r' \<in> set rs" for r'
      using Cons.prems(1) that by (auto simp: apart_def)
    show "(i, c) \<notin> ?S" if "r' \<in> set rs" "fst r' \<le> c" "c < snd r'" for r' i c
      using Cons.prems(4) [of r'] far [OF that(1)] that by auto
    show "\<not> a < snd r' * ?h" if "r' \<in> set rs" "a \<in> ?B s" "fst r' * ?h \<le> a" for r' s a
    proof
      assume a: "a < snd r' * ?h"
      with Cons.prems(5) [of r' a s] that have "fst r * ?h < a" "a < snd r * ?h"
        using fit(1) [of s] by auto
      moreover from far [OF that(1)] have "snd r * ?h \<le> fst r' * ?h \<or> snd r' * ?h \<le> fst r * ?h"
        by (auto intro: mult_le_mono1)
      ultimately show False
        using a that(3) by linarith
    qed
    show "(rows X - 1, cols X - 1) \<notin> ?S" if "wrap" "\<not> sc_fs X" "0 \<in> fst ` set rs"
      using Cons.prems(6,7) that bounds by auto
    show "wrap \<Longrightarrow> \<not> sc_fs X \<Longrightarrow> wrap_safe (cols X) rs"
      using Cons.prems(7) by simp
  qed
  moreover have "?S \<union> {0..<rows X} \<times> (\<Union>r \<in> set rs. range_set r) =
      S \<union> {0..<rows X} \<times> (\<Union>r \<in> set (r # rs). range_set r)"
    by (auto simp: range_set_def)
  moreover have "?B s \<union> slice_labels s new = B s \<union> slice_labels s data"
    by (auto simp: data slice_labels_def d)
  moreover have "(\<Union>r \<in> set rs. slice_edges X r) \<union> ?D = (\<Union>r \<in> set (r # rs). slice_edges X r) \<union> D"
    by auto
  ultimately show ?case by simp
qed

text \<open>The borders of the slices.\<close>

lemma merge_slice_inv:
  assumes X: "scene_ok X" and c: "c < cols X" "c \<in> starts" and inv: "\<And>s. sign_inv X (edges X) s st UNIV (A s) D"
  shows "sign_inv X (edges X) s (merge_slice col_border (sc_neg X) (sc_fs X) (n_rows (sc_img X)) (n_cols (sc_img X)) c st)
    UNIV (A s) (border_edges X c \<union> D)"
proof -
  let ?step = "\<lambda>r. by_label (sc_neg X) (col_border (sc_fs X) (rows X) (c \<noteq> 0) (mc X c) (mc_prev X c) r) r (mc X c)"
  let ?D = "\<lambda>r. (\<Union>r' \<in> {0..<r}. col_edges X (r', c)) \<union> D"
  have "\<forall>s. sign_inv X (edges X) s (fold ?step [0..<rows X] st) UNIV (A s) (?D (rows X))"
  proof (rule fold_upt_invariant [where P = "\<lambda>r st. \<forall>s. sign_inv X (edges X) s st UNIV (A s) (?D r)"])
    show "\<forall>s. sign_inv X (edges X) s st UNIV (A s) (?D 0)"
      using inv by simp
    fix r st
    assume r: "r < rows X" and IH: "\<forall>s. sign_inv X (edges X) s st UNIV (A s) (?D r)"
    have "sign_inv X (edges X) s (?step r st) UNIV (A s) (col_edges X (r, c) \<union> ?D r)" for s
      by (rule scan_col_border [OF X r c(1) c(2) IH [rule_format] refl])
    moreover have "col_edges X (r, c) \<union> ?D r = ?D (Suc r)"
      by (auto simp: less_Suc_eq)
    ultimately show "\<forall>s. sign_inv X (edges X) s (?step r st) UNIV (A s) (?D (Suc r))"
      by simp
  qed simp
  then show ?thesis
    by (simp add: merge_slice_def Let_def border_edges_def mc_def mc_prev_def rows_def cols_def)
qed

lemma merge_slices_inv:
  assumes "scene_ok X" and "\<And>d. d \<in> set data \<Longrightarrow> col_start d < cols X \<and> col_start d \<in> starts"
    and "\<And>s. sign_inv X (edges X) s st UNIV (A s) D"
  shows "sign_inv X (edges X) s
    (fold (\<lambda>d. merge_slice col_border (sc_neg X) (sc_fs X) (n_rows (sc_img X)) (n_cols (sc_img X)) (col_start d)) data st)
    UNIV (A s) ((\<Union>d \<in> set data. border_edges X (col_start d)) \<union> D)"
  using assms(2,3)
proof (induction data arbitrary: st D)
  case Nil
  then show ?case by simp
next
  case (Cons d data)
  have d: "col_start d < cols X" "col_start d \<in> starts"
    using Cons.prems(1) by simp_all
  note step = merge_slice_inv [where A = A, OF assms(1) d Cons.prems(2)]
  have "(\<Union>e \<in> set data. border_edges X (col_start e)) \<union> (border_edges X (col_start d) \<union> D) =
      (\<Union>e \<in> set (d # data). border_edges X (col_start e)) \<union> D"
    by auto
  with Cons.IH [OF _ step] Cons.prems(1) show ?case by simp
qed

section \<open>The scan and the merges together\<close>

definition all_edges :: "scene \<Rightarrow> range list \<Rightarrow> (pixel \<times> pixel) set" where
  "all_edges X rs = (\<Union>r \<in> set rs. slice_edges X r \<union> border_edges X (fst r))"

lemma all_edges_column:
  "(b, e) \<in> set rs \<Longrightarrow> b \<le> c \<Longrightarrow> c < e \<Longrightarrow> x \<in> column_edges X b c \<Longrightarrow> x \<in> all_edges X rs"
  unfolding all_edges_def slice_edges_def
  by (rule UN_I [where a = "(b, e)"], assumption) (rule UnI1, rule UN_I [where a = c], simp_all)

lemma all_edges_border:
  "(b, e) \<in> set rs \<Longrightarrow> x \<in> border_edges X b \<Longrightarrow> x \<in> all_edges X rs"
  unfolding all_edges_def by (rule UN_I [where a = "(b, e)"], assumption) simp

lemma scan_and_merge_inv:
  assumes X: "scene_ok X" and cov: "covers 0 (cols X) rs" and W: "wrap \<and> \<not> sc_fs X \<longrightarrow> wrap_safe (cols X) rs"
    and starts_all: "fst ` set rs \<subseteq> starts"
    and res: "scan_and_merge pixel row_border col_border (sc_neg X) (sc_fs X) (sc_img X) (sc_tp X) (sc_tn X) rs =
      (st, data)"
    and fit: "labels_fit (rows X div 2) rs data"
  shows "sign_inv X (edges X) s st UNIV (slice_labels s data) (all_edges X rs)"
proof -
  obtain st1 data1 where scan: "slices X rs (init_state, []) = (st1, data1)"
    by fastforce
  have data: "data = sort_key col_start data1"
    and st: "st = fold (\<lambda>d. merge_slice col_border (sc_neg X) (sc_fs X) (n_rows (sc_img X)) (n_cols (sc_img X)) (col_start d))
      data st1"
    using res scan by (auto simp: scan_and_merge_def slices_def Let_def)
  have starts: "map col_start data1 = map fst rs"
    using slices_starts [OF scan] by simp
  then have fit1: "slices_fit (rows X div 2) rs data1"
    using fit by (intro labels_fit_slices) (simp_all add: data)
  have init: "sign_inv X (edges X) s init_state {} {} {}" for s
    by (rule sign_invI [where E = "{}"])
      (auto simp: view_def init_state_def hit_def forest_def split: sign.splits intro!: uf.labels_empty)
  have W': "wrap \<Longrightarrow> \<not> sc_fs X \<Longrightarrow> wrap_safe (cols X) rs"
    using W by blast
  have "sign_inv X (edges X) s st1 ({} \<union> {0..<rows X} \<times> (\<Union>r \<in> set rs. range_set r))
      ({} \<union> slice_labels s data1) ((\<Union>r \<in> set rs. slice_edges X r) \<union> {})" for s
    by (rule slices_inv [OF X covers_all_apart [OF cov] _ init _ _ _ W' scan fit1])
      (use covers_bounds [OF cov] in auto)
  then have "sign_inv X (edges X) s st1 ({0..<rows X} \<times> {0..<cols X}) (slice_labels s data)
      (\<Union>r \<in> set rs. slice_edges X r)" for s
    by (simp add: covers_union [OF cov] data)
  then have "sign_inv X (edges X) s st1 ({0..<rows X} \<times> {0..<cols X} \<union> - ({0..<rows X} \<times> {0..<cols X}))
      (slice_labels s data) (\<Union>r \<in> set rs. slice_edges X r)" for s
    by (rule sign_inv_skip) (auto simp: fg_def)
  then have scanned: "sign_inv X (edges X) s st1 UNIV (slice_labels s data) (\<Union>r \<in> set rs. slice_edges X r)" for s
    by (simp only: Compl_partition)
  have ends: "col_start ` set data = fst ` set rs"
    using arg_cong [OF starts, of set] unfolding data by (simp only: list.set_map set_sort)
  have "sign_inv X (edges X) s st UNIV (slice_labels s data)
      ((\<Union>d \<in> set data. border_edges X (col_start d)) \<union> (\<Union>r \<in> set rs. slice_edges X r))"
    unfolding st
  proof (rule merge_slices_inv [where A = "\<lambda>s. slice_labels s data", OF X _ scanned])
    fix d
    assume "d \<in> set data"
    then have d: "col_start d \<in> fst ` set rs"
      unfolding ends [symmetric] by (rule imageI)
    then obtain r where r: "r \<in> set rs" "col_start d = fst r"
      by blast
    have "fst r < cols X"
      using covers_bounds [OF cov r(1)] by simp
    then show "col_start d < cols X \<and> col_start d \<in> starts"
      using d starts_all r(2) by auto
  qed
  moreover have "(\<Union>d \<in> set data. border_edges X (col_start d)) = (\<Union>r \<in> set rs. border_edges X (fst r))"
    using ends by (metis (no_types) image_image)
  ultimately have "sign_inv X (edges X) s st UNIV (slice_labels s data)
      ((\<Union>r \<in> set rs. border_edges X (fst r)) \<union> (\<Union>r \<in> set rs. slice_edges X r))"
    by simp
  then show ?thesis
    by (rule sign_inv_mono) (auto simp: all_edges_def)
qed

end

end
