(* ===== verification/Ccl_Con4.thy ===== *)
theory Ccl_Con4
  imports Ccl_Loops
begin

text \<open>
  The steps of the 4-connected labelling meet the contract \<open>ccl_steps\<close>, with the edges of
  4-adjacency in the shifted image.
\<close>

section \<open>The shifted image\<close>

text \<open>
  The scan addresses a pixel by its matrix row and by \<^verbatim>\<open>c_i\<close>, which is the column in the
  image whose quadrants are swapped (unless \<^verbatim>\<open>FFTSHIFT\<close> is set, when the image is
  taken as it is). \<open>drow\<close> is the row in that image.
\<close>

definition drow :: "scene \<Rightarrow> nat \<Rightarrow> nat" where
  "drow X r = (if sc_fs X then r else (r + rows X div 2) mod rows X)"

lemma scene_rows:
  assumes "scene_ok X"
  obtains h where "rows X = 2 * h" and "0 < h" and "rows X div 2 = h"
  using assms by (auto simp: scene_ok_def elim!: evenE)

lemma drow_cases:
  assumes "scene_ok X" and "r < rows X"
  shows "drow X r = (if sc_fs X then r else if r < rows X div 2 then r + rows X div 2 else r - rows X div 2)"
proof -
  from assms(1) obtain h where h: "rows X = 2 * h" "0 < h" "rows X div 2 = h"
    by (rule scene_rows)
  show ?thesis
  proof (cases "r < h")
    case True
    with h show ?thesis by (simp add: drow_def)
  next
    case False
    then obtain d where d: "r = h + d"
      using le_Suc_ex not_less by blast
    then have "r + h = d + 2 * h"
      by simp
    moreover have "(d + 2 * h) mod (2 * h) = d"
      using assms(2) h d by simp
    ultimately have "(r + h) mod (2 * h) = d"
      by (simp only:)
    with h d show ?thesis
      by (simp add: drow_def)
  qed
qed

definition in_image :: "scene \<Rightarrow> pixel \<Rightarrow> bool" where
  "in_image X p \<longleftrightarrow> fst p < rows X \<and> snd p < cols X"

definition diff1 :: "nat \<Rightarrow> nat \<Rightarrow> bool" where
  "diff1 a b \<longleftrightarrow> a = b + 1 \<or> b = a + 1"

definition adj4 :: "scene \<Rightarrow> pixel \<Rightarrow> pixel \<Rightarrow> bool" where
  "adj4 X p q \<longleftrightarrow> in_image X p \<and> in_image X q \<and>
     (drow X (fst p) = drow X (fst q) \<and> diff1 (snd p) (snd q) \<or>
      diff1 (drow X (fst p)) (drow X (fst q)) \<and> snd p = snd q)"

definition edges4 :: "scene \<Rightarrow> (pixel \<times> pixel) set" where
  "edges4 X = {(p, q). adj4 X p q}"

text \<open>Rows that are neighbours in the shifted image.\<close>

lemma drow_up:
  assumes "scene_ok X" and "r < rows X" and "\<not> top_blocked (sc_fs X) (rows X) r"
  shows "0 < r \<and> drow X r = drow X (r - 1) + 1"
proof -
  from assms(1) obtain h where h: "rows X = 2 * h" "0 < h" "rows X div 2 = h"
    by (rule scene_rows)
  have r: "0 < r" "\<not> sc_fs X \<Longrightarrow> r \<noteq> h"
    using assms(3) h by (auto simp: top_blocked_def split: if_splits)
  with assms(2) h drow_cases [OF assms(1,2)] drow_cases [OF assms(1), of "r - 1"] show ?thesis
    by (cases "sc_fs X"; cases "r < h") auto
qed

lemma drow_wrap:
  assumes "scene_ok X" and "\<not> sc_fs X"
  shows "drow X 0 = drow X (rows X - 1) + 1"
proof -
  from assms(1) obtain h where h: "rows X = 2 * h" "0 < h" "rows X div 2 = h"
    by (rule scene_rows)
  with assms(2) drow_cases [OF assms(1), of 0] drow_cases [OF assms(1), of "rows X - 1"] show ?thesis
    by auto
qed

text \<open>Every pair of vertical neighbours is one of the two kinds.\<close>

lemma drow_neighbours:
  assumes "scene_ok X" and "r < rows X" and "r' < rows X" and "drow X r = drow X r' + 1"
  shows "\<not> top_blocked (sc_fs X) (rows X) r \<and> r' = r - 1 \<or> \<not> sc_fs X \<and> r = 0 \<and> r' = rows X - 1"
proof -
  from assms(1) obtain h where h: "rows X = 2 * h" "0 < h" "rows X div 2 = h"
    by (rule scene_rows)
  show ?thesis
    using assms(2-4) drow_cases [OF assms(1,2)] drow_cases [OF assms(1,3)] unfolding h(1,3)
    by (cases "sc_fs X"; cases "r < h"; cases "r' < h") (auto simp: top_blocked_def h)
qed

lemma drow_inj:
  assumes "scene_ok X" and "r < rows X" and "r' < rows X"
  shows "drow X r = drow X r' \<longleftrightarrow> r = r'"
proof -
  from assms(1) obtain h where h: "rows X = 2 * h" "0 < h" "rows X div 2 = h"
    by (rule scene_rows)
  show ?thesis
    using assms(2-3) drow_cases [OF assms(1,2)] drow_cases [OF assms(1,3)] unfolding h(1,3)
    by (cases "sc_fs X"; cases "r < h"; cases "r' < h") auto
qed

section \<open>The edges of the steps\<close>

definition scan_edges4 :: "scene \<Rightarrow> nat \<Rightarrow> pixel \<Rightarrow> (pixel \<times> pixel) set" where
  "scan_edges4 X b p = (case p of (r, c) \<Rightarrow>
     (if c \<noteq> b then {(p, (r, c - 1))} else {}) \<union>
     (if top_blocked (sc_fs X) (rows X) r then {} else {(p, (r - 1, c))}))"

definition row_edges4 :: "scene \<Rightarrow> nat \<Rightarrow> nat \<Rightarrow> (pixel \<times> pixel) set" where
  "row_edges4 X b c = {((0, c), (rows X - 1, c))}"

definition col_edges4 :: "scene \<Rightarrow> pixel \<Rightarrow> (pixel \<times> pixel) set" where
  "col_edges4 X p = (case p of (r, c) \<Rightarrow> if c \<noteq> 0 then {(p, (r, c - 1))} else {})"

lemma edge4_left: "r < rows X \<Longrightarrow> 0 < c \<Longrightarrow> c < cols X \<Longrightarrow> ((r, c), (r, c - 1)) \<in> edges4 X"
  by (auto simp: edges4_def adj4_def in_image_def diff1_def)

lemma edge4_up: "scene_ok X \<Longrightarrow> r < rows X \<Longrightarrow> c < cols X \<Longrightarrow> \<not> top_blocked (sc_fs X) (rows X) r \<Longrightarrow>
    ((r, c), (r - 1, c)) \<in> edges4 X"
  using drow_up [of X r] by (auto simp: edges4_def adj4_def in_image_def diff1_def)

lemma edge4_wrap: "scene_ok X \<Longrightarrow> \<not> sc_fs X \<Longrightarrow> c < cols X \<Longrightarrow> ((0, c), (rows X - 1, c)) \<in> edges4 X"
  using drow_wrap [of X] by (auto simp: edges4_def adj4_def in_image_def diff1_def scene_ok_def)

section \<open>The steps meet the contract\<close>

lemma scanned_left: "scanned X b c r \<subseteq> S \<Longrightarrow> b \<le> c \<Longrightarrow> c \<noteq> b \<Longrightarrow> r' < rows X \<Longrightarrow> (r', c - 1) \<in> S"
  by (auto simp: scanned_def)

lemma scanned_top: "scanned X b c r \<subseteq> S \<Longrightarrow> 0 < r \<Longrightarrow> (r - 1, c) \<in> S"
  by (auto simp: scanned_def)

lemma pixel4_step:
  assumes X: "scene_ok X" and bc: "b \<le> c" and p: "fg X s (r, c)"
    and inv: "sign_inv X (edges4 X) s st S A D"
    and S: "(r, c) \<notin> S" "scanned X b c r \<subseteq> S"
    and st': "st' = scan_pixel_4con s (sc_fs X) (rows X) (c \<noteq> b) (mc X c) (mc_prev X c) r st"
    and fresh: "next_of s st' \<noteq> next_of s st \<Longrightarrow> next_of s st \<notin> A \<and> next_of s st \<noteq> 0"
  shows "sign_inv X (edges4 X) s st' (insert (r, c) S)
      (if next_of s st' = next_of s st then A else insert (next_of s st) A) (scan_edges4 X b (r, c) \<union> D) \<and>
    only_sign X s (r, c) st st' \<and> next_of s st' \<le> Suc (next_of s st)"
proof -
  have rc: "r < rows X" "c < cols X"
    using fg_range [OF p] by auto
  let ?lv = "c \<noteq> b" and ?blk = "top_blocked (sc_fs X) (rows X) r"
  let ?top = "lmap st (r - 1) (mc X c)" and ?left = "lmap st r (mc X (c - 1))"
  define L where "L \<longleftrightarrow> ?lv \<and> hit s ?left"
  define T where "T \<longleftrightarrow> \<not> ?blk \<and> hit s ?top"
  have prev: "?lv \<Longrightarrow> mc_prev X c = mc X (c - 1)"
    using mc_prev [OF X _ rc(2)] bc by (simp add: mc_prev_def)
  have up: "\<not> ?blk \<Longrightarrow> 0 < r"
    using drow_up [OF X rc(1)] by simp
  have eq: "st' = (if L then if T then union_labels s r (mc X c) ?top ?left st else copy_label r (mc X c) ?left st
      else if T then copy_label r (mc X c) ?top st else new_label s r (mc X c) st)"
    using prev up unfolding st' scan_pixel_4con_def Let_def L_def T_def by (auto simp: top_blocked_def)
  have noL: "\<not> fg X s (r, c - 1)" if "?lv" "\<not> L"
    using sign_inv_hit [OF inv rc(1), of "c - 1"] scanned_left [OF S(2) bc _ rc(1)] rc that by (auto simp: L_def)
  have noT: "\<not> fg X s (r - 1, c)" if "\<not> ?blk" "\<not> T"
    using sign_inv_hit [OF inv _ rc(2), of "r - 1"] scanned_top [OF S(2) up] rc that by (auto simp: T_def)
  have eL: "((r, c), (r, c - 1)) \<in> edges4 X" if L
    using edge4_left [OF rc(1) _ rc(2)] that bc by (auto simp: L_def)
  have eT: "((r, c), (r - 1, c)) \<in> edges4 X" if T
    using edge4_up [OF X rc] that by (auto simp: T_def)
  have fin: "sign_inv X (edges4 X) s st' (insert (r, c) S) A' (scan_edges4 X b (r, c) \<union> D)"
    if "sign_inv X (edges4 X) s st' (insert (r, c) S) A' (F \<union> D)"
      and "L \<Longrightarrow> ((r, c), (r, c - 1)) \<in> F" "T \<Longrightarrow> ((r, c), (r - 1, c)) \<in> F" for A' F
  proof -
    have "sign_inv X (edges4 X) s st' (insert (r, c) S) A' ((F \<union> D) \<union> (scan_edges4 X b (r, c) - F))"
      using that noL noT
      by (intro sign_inv_cover_vacuous [OF that(1)]) (auto simp: scan_edges4_def split: if_splits)
    then show ?thesis
      by (rule sign_inv_mono) auto
  qed
  have cr: "r - 1 < rows X" "c - 1 < cols X"
    using rc by auto
  consider (LT) L T | (L) L "\<not> T" | (T) "\<not> L" T | (N) "\<not> L" "\<not> T" by blast
  then show ?thesis
  proof cases
    case LT
    then have hits: "hit s ?top" "hit s ?left"
      by (simp_all add: L_def T_def)
    have "st' = union_labels s r (mc X c) ?top ?left st"
      using eq LT by simp
    note step = join_labels_inv [OF X inv p S(1) cr(1) rc(2) hits(1) rc(1) cr(2) hits(2) eT [OF LT(2)] eL [OF LT(1)] this]
    with fin [OF step(1)] show ?thesis by simp
  next
    case L
    then have "hit s ?left" and st'2: "st' = copy_label r (mc X c) ?left st"
      using eq by (simp_all add: L_def)
    note step = copy_label_inv [OF X inv p S(1) rc(1) cr(2) this(1) eL [OF L(1)], folded st'2]
    with fin [OF step(1)] L show ?thesis by simp
  next
    case T
    then have "hit s ?top" and st'2: "st' = copy_label r (mc X c) ?top st"
      using eq by (simp_all add: T_def)
    note step = copy_label_inv [OF X inv p S(1) cr(1) rc(2) this(1) eT [OF T(2)], folded st'2]
    with fin [OF step(1)] T show ?thesis by simp
  next
    case N
    then have st'2: "st' = new_label s r (mc X c) st"
      using eq by simp
    then have "next_of s st' \<noteq> next_of s st"
      by (simp add: new_label_def Let_def)
    note step = new_label_inv [OF X inv p S(1) conjunct1 [OF fresh [OF this]] conjunct2 [OF fresh [OF this]], folded st'2]
    from fin [of _ "{}"] step N show ?thesis by simp
  qed
qed

lemma row4_step:
  assumes X: "scene_ok X" "\<not> sc_fs X" and bc: "b \<le> c" and p: "fg X s (0, c)"
    and inv: "sign_inv X (edges4 X) s st S A D"
    and S: "scanned X b (Suc c) 0 \<subseteq> S"
    and st': "st' = row_border_4con (rows X) (mc X c) (mc_prev X c) s st"
  shows "sign_inv X (edges4 X) s st' S A (row_edges4 X b c \<union> D) \<and> only_sign X s (0, c) st st'"
proof -
  have rc: "0 < rows X" "c < cols X"
    using fg_range [OF p] by auto
  have two: "rows X - 1 \<noteq> 0" "rows X - 1 < rows X"
    using X rc by (auto simp: scene_ok_def)
  have inS: "(0, c) \<in> S" "(rows X - 1, c) \<in> S"
    using S rc bc by (auto simp: scanned_def)
  have eq: "st' = (if hit s (lmap st (rows X - 1) (mc X c))
      then union_labels s 0 (mc X c) (lmap st 0 (mc X c)) (lmap st (rows X - 1) (mc X c)) st else st)"
    unfolding st' row_border_4con_def Let_def ..
  have ne: "(rows X - 1, c) \<noteq> (0, c)"
    using two by simp
  note step = merge_if_inv [OF X(1) inv p inS(1) two(2) rc(2) ne refl cur_ok_self [OF inv inS(1) p]
      edge4_wrap [OF X rc(2)] eq]
  from step(1,2) inS(2) show ?thesis
    by (simp add: row_edges4_def)
qed

lemma col4_step:
  assumes X: "scene_ok X" and p: "fg X s (r, c)"
    and inv: "sign_inv X (edges4 X) s st UNIV A D"
    and st': "st' = col_border_4con (sc_fs X) (rows X) (c \<noteq> 0) (mc X c) (mc_prev X c) r s st"
  shows "sign_inv X (edges4 X) s st' UNIV A (col_edges4 X (r, c) \<union> D) \<and> only_sign X s (r, c) st st'"
proof (cases "c = 0")
  case True
  have "st' = st"
    using True by (simp add: st' col_border_4con_def Let_def)
  moreover have "hit s (lmap st r (mc X c))"
    using sign_inv_hit [OF inv] p fg_range [OF p] by simp
  ultimately show ?thesis
    using True inv by (simp add: col_edges4_def only_sign_refl)
next
  case False
  have rc: "r < rows X" "c < cols X" "c - 1 < cols X"
    using fg_range [OF p] by auto
  have prev: "mc_prev X c = mc X (c - 1)"
    using mc_prev [OF X _ rc(2)] False by (simp add: mc_prev_def)
  have eq: "st' = (if hit s (lmap st r (mc X (c - 1)))
      then union_labels s r (mc X c) (lmap st r (mc X c)) (lmap st r (mc X (c - 1))) st else st)"
    using False by (simp add: st' col_border_4con_def Let_def prev)
  have ne: "(r, c - 1) \<noteq> (r, c)"
    using False by simp
  have e: "((r, c), (r, c - 1)) \<in> edges4 X"
    using edge4_left rc False by simp
  note step = merge_if_inv [OF X inv p UNIV_I rc(1,3) ne refl cur_ok_self [OF inv UNIV_I p] e eq]
  from step(1,2) False show ?thesis
    by (simp add: col_edges4_def)
qed

lemma next_of_union_labels [simp]: "next_of s' (union_labels s r m v w st) = next_of s' st"
  by (simp add: union_labels_def split_beta Let_def)

lemma next_of_copy_label [simp]: "next_of s' (copy_label r m v st) = next_of s' st"
  by (simp add: copy_label_def)

lemma next_of_new_label: "next_of s' st \<le> next_of s' (new_label s r m st)"
  by (simp add: new_label_def Let_def)

interpretation con4: ccl_steps scan_pixel_4con row_border_4con col_border_4con edges4
  scan_edges4 row_edges4 col_edges4 False UNIV
proof
  show "(p, q) \<in> scan_edges4 X b x \<Longrightarrow> p = x" for p q x X b
    by (auto simp: scan_edges4_def split: prod.splits if_splits)
  show "(p, q) \<in> row_edges4 X b c \<Longrightarrow> p = (0, c)" for p q X b c
    by (simp add: row_edges4_def)
  show "(p, q) \<in> col_edges4 X x \<Longrightarrow> p = x" for p q x X
    by (auto simp: col_edges4_def split: prod.splits if_splits)
  show "next_of s' st \<le> next_of s' (scan_pixel_4con s fs h lv m mp r st)" for s' s st fs h lv m mp r
    by (simp add: scan_pixel_4con_def Let_def next_of_new_label)
  show "next_of s' (row_border_4con h m mp s st) = next_of s' st" for s' h m mp s st
    by (simp add: row_border_4con_def Let_def)
  show "next_of s' (col_border_4con fs h lv m mp r s st) = next_of s' st" for s' fs h lv m mp r s st
    by (simp add: col_border_4con_def Let_def)
qed (rule pixel4_step row4_step col4_step; assumption)+

section \<open>What the scan establishes\<close>

text \<open>The steps together cover every pair of neighbours.\<close>

lemma all_edges4:
  assumes X: "scene_ok X" and cov: "covers 0 (cols X) rs" and adj: "adj4 X p q"
  shows "(p, q) \<in> con4.all_edges X rs \<or> (q, p) \<in> con4.all_edges X rs"
proof -
  let ?D = "con4.all_edges X rs"
  have slice: "\<exists>b e. (b, e) \<in> set rs \<and> b \<le> c \<and> c < e" if "c < cols X" for c
  proof -
    have "c \<in> (\<Union>r \<in> set rs. range_set r)"
      using covers_union [OF cov] that by simp
    then show ?thesis by (force simp: range_set_def)
  qed
  have left: "((r, c), (r, c - 1)) \<in> ?D" if "r < rows X" "0 < c" "c < cols X" for r c
  proof -
    from slice [OF that(3)] obtain b e where be: "(b, e) \<in> set rs" "b \<le> c" "c < e" by blast
    show ?thesis
    proof (cases "c = b")
      case True
      then have "((r, c), (r, c - 1)) \<in> con4.border_edges X b"
        using that by (auto simp: con4.border_edges_def col_edges4_def)
      with be(1) show ?thesis by (rule con4.all_edges_border)
    next
      case False
      then have "((r, c), (r, c - 1)) \<in> con4.column_edges X b c"
        using that by (auto simp: con4.column_edges_def scan_edges4_def)
      with be show ?thesis by (rule con4.all_edges_column)
    qed
  qed
  have up: "((r, c), (r - 1, c)) \<in> ?D"
    if "r < rows X" "c < cols X" "\<not> top_blocked (sc_fs X) (rows X) r" for r c
  proof -
    from slice [OF that(2)] obtain b e where be: "(b, e) \<in> set rs" "b \<le> c" "c < e" by blast
    have "((r, c), (r - 1, c)) \<in> con4.column_edges X b c"
      using that by (auto simp: con4.column_edges_def scan_edges4_def)
    with be show ?thesis by (rule con4.all_edges_column)
  qed
  have wrap: "((0, c), (rows X - 1, c)) \<in> ?D" if "c < cols X" "\<not> sc_fs X" for c
  proof -
    from slice [OF that(1)] obtain b e where be: "(b, e) \<in> set rs" "b \<le> c" "c < e" by blast
    have "((0, c), (rows X - 1, c)) \<in> con4.column_edges X b c"
      using that by (auto simp: con4.column_edges_def row_edges4_def)
    with be show ?thesis by (rule con4.all_edges_column)
  qed
  have vertical: "((r, c), (r', c)) \<in> ?D"
    if "r < rows X" "r' < rows X" "c < cols X" "drow X r = drow X r' + 1" for r r' c
    using drow_neighbours [OF X that(1,2,4)] up [OF that(1,3)] wrap [OF that(3)] by auto
  obtain r c r' c' where pq: "p = (r, c)" "q = (r', c')" by fastforce
  from adj have range: "r < rows X" "c < cols X" "r' < rows X" "c' < cols X"
    by (auto simp: adj4_def in_image_def pq)
  from adj consider "r = r'" "c = c' + 1" | "r = r'" "c' = c + 1"
    | "c = c'" "drow X r = drow X r' + 1" | "c = c'" "drow X r' = drow X r + 1"
    using drow_inj [OF X range(1,3)] by (auto simp: adj4_def pq diff1_def)
  then show ?thesis
    using left [of r c] left [of r' c'] vertical [of r r' c] vertical [of r' r c] range
    by cases (auto simp: pq)
qed

lemma eqv_induced_sym:
  assumes "\<And>p q. (p, q) \<in> N \<Longrightarrow> (p, q) \<in> D \<or> (q, p) \<in> D"
  shows "induced X s N \<subseteq> eqv (induced X s D)"
proof -
  have "(p, q) \<in> induced X s D \<or> (q, p) \<in> induced X s D" if "(p, q) \<in> induced X s N" for p q
    using assms [of p q] that by (auto simp: induced_def)
  then show ?thesis
    by (intro subrelI) (blast intro: eqv_edge eqv_sym)
qed

text \<open>
  After the scan and the merges, two pixels of the same sign have the same representative if
  and only if a path of 4-neighbours of that sign joins them in the shifted image.
\<close>

lemma scan_4con_inv:
  assumes "scene_ok X" and "covers 0 (cols X) rs"
    and "scan_4con (sc_neg X) (sc_fs X) (sc_img X) (sc_tp X) (sc_tn X) rs = (st, data)"
    and "labels_fit (rows X div 2) rs data"
  shows "sign_inv X (edges4 X) s st UNIV (slice_labels s data) (con4.all_edges X rs)"
  using assms by (intro con4.scan_and_merge_inv) (simp_all add: scan_4con_def)

lemma scan_4con_connected:
  assumes "scene_ok X" and "covers 0 (cols X) rs"
    and "scan_4con (sc_neg X) (sc_fs X) (sc_img X) (sc_tp X) (sc_tn X) rs = (st, data)"
    and "labels_fit (rows X div 2) rs data"
    and "fg X s p" and "fg X s q"
  shows "find_root (tree_of s st) (view X s st p) = find_root (tree_of s st) (view X s st q) \<longleftrightarrow>
    (p, q) \<in> eqv (induced X s (edges4 X))"
  using scan_4con_inv [OF assms(1-4)]
proof (rule sign_inv_connected)
  show "induced X s (edges4 X) \<subseteq> eqv (induced X s (con4.all_edges X rs))"
    using all_edges4 [OF assms(1,2)] by (intro eqv_induced_sym) (auto simp: edges4_def)
qed (use assms in auto)

end
