(* ===== verification/Ccl_Con8.thy ===== *)
theory Ccl_Con8
  imports Ccl_Con4
begin

text \<open>
  The steps of the 8-connected labelling meet the contract \<open>ccl_steps\<close>. The edges they establish
  are those of 8-adjacency in the shifted image, with one exception: the diagonal across
  the middle row from \<open>(rows - 1, c)\<close> to \<open>(0, c - 1)\<close> is looked at by no step
  unless a slice starts at \<open>c\<close> (the seam).
\<close>

section \<open>The edges of the steps\<close>

definition adj8 :: "scene \<Rightarrow> pixel \<Rightarrow> pixel \<Rightarrow> bool" where
  "adj8 X p q \<longleftrightarrow> in_image X p \<and> in_image X q \<and> p \<noteq> q \<and>
     (drow X (fst p) = drow X (fst q) \<or> diff1 (drow X (fst p)) (drow X (fst q))) \<and>
     (snd p = snd q \<or> diff1 (snd p) (snd q))"

text \<open>The diagonal that is not looked at, for the first columns \<open>starts\<close> of the slices.\<close>

definition seam :: "scene \<Rightarrow> nat set \<Rightarrow> pixel \<Rightarrow> pixel \<Rightarrow> bool" where
  "seam X starts p q \<longleftrightarrow> \<not> sc_fs X \<and> fst p = rows X - 1 \<and> fst q = 0 \<and> snd p = snd q + 1 \<and> snd p \<notin> starts"

definition edges8 :: "nat set \<Rightarrow> scene \<Rightarrow> (pixel \<times> pixel) set" where
  "edges8 starts X = {(p, q). adj8 X p q \<and> \<not> seam X starts p q \<and> \<not> seam X starts q p}"

definition scan_edges8 :: "scene \<Rightarrow> nat \<Rightarrow> pixel \<Rightarrow> (pixel \<times> pixel) set" where
  "scan_edges8 X b p = (case p of (r, c) \<Rightarrow>
     (if c \<noteq> b then {(p, (r, c - 1))} else {}) \<union>
     (if top_blocked (sc_fs X) (rows X) r then {}
      else {(p, (r - 1, c))} \<union> (if c \<noteq> b then {(p, (r - 1, c - 1))} else {})) \<union>
     (if bottom_blocked (sc_fs X) (rows X) r \<or> c = b then {} else {(p, (r + 1, c - 1))}))"

definition row_edges8 :: "scene \<Rightarrow> nat \<Rightarrow> nat \<Rightarrow> (pixel \<times> pixel) set" where
  "row_edges8 X b c = {((0, c), (rows X - 1, c))} \<union> (if c \<noteq> b then {((0, c), (rows X - 1, c - 1))} else {})"

definition col_edges8 :: "scene \<Rightarrow> pixel \<Rightarrow> (pixel \<times> pixel) set" where
  "col_edges8 X p = (case p of (r, c) \<Rightarrow> if c = 0 then {} else
     (if r = (if sc_fs X then 0 else rows X div 2) then {} else {(p, (row_prev (sc_fs X) (rows X) r, c - 1))}) \<union>
     {(p, (r, c - 1))} \<union>
     (if r = (if sc_fs X then rows X - 1 else rows X div 2 - 1) then {}
      else {(p, (row_next (sc_fs X) (rows X) r, c - 1))}))"

section \<open>Rows above and below\<close>

text \<open>\<open>row_below\<close>: \<open>r'\<close> is the row below \<open>r\<close> in the shifted image.\<close>

definition row_below :: "scene \<Rightarrow> nat \<Rightarrow> nat \<Rightarrow> bool" where
  "row_below X r r' \<longleftrightarrow> r < rows X \<and> r' < rows X \<and> drow X r' = drow X r + 1"

lemma scene_two: "scene_ok X \<Longrightarrow> 2 \<le> rows X"
  by (auto elim: scene_rows)

lemma row_below_up: "scene_ok X \<Longrightarrow> r < rows X \<Longrightarrow> \<not> top_blocked (sc_fs X) (rows X) r \<Longrightarrow> row_below X (r - 1) r"
  using drow_up [of X r] by (simp add: row_below_def)

lemma row_below_wrap: "scene_ok X \<Longrightarrow> \<not> sc_fs X \<Longrightarrow> row_below X (rows X - 1) 0"
  using drow_wrap [of X] by (simp add: row_below_def scene_ok_def)

lemma bottom_top_blocked:
  assumes "scene_ok X" and "r + 1 < rows X"
  shows "bottom_blocked (sc_fs X) (rows X) r \<longleftrightarrow> top_blocked (sc_fs X) (rows X) (r + 1)"
proof -
  from assms(1) obtain h where h: "rows X = 2 * h" "0 < h" "rows X div 2 = h"
    by (rule scene_rows)
  show ?thesis
    using assms(2) unfolding h by (auto simp: bottom_blocked_def top_blocked_def h)
qed

lemma bottom_last: "scene_ok X \<Longrightarrow> r < rows X \<Longrightarrow> \<not> bottom_blocked (sc_fs X) (rows X) r \<Longrightarrow> r + 1 < rows X"
  by (cases "r = rows X - 1") (auto simp: bottom_blocked_def split: if_splits)

lemma row_below_down: "scene_ok X \<Longrightarrow> r < rows X \<Longrightarrow> \<not> bottom_blocked (sc_fs X) (rows X) r \<Longrightarrow> row_below X r (r + 1)"
  using row_below_up [of X "r + 1"] bottom_last [of X r] bottom_top_blocked [of X r] by simp

lemma row_below_prev:
  assumes "scene_ok X" and "r < rows X" and "r \<noteq> (if sc_fs X then 0 else rows X div 2)"
  shows "row_below X (row_prev (sc_fs X) (rows X) r) r"
proof (cases "\<not> sc_fs X \<and> r = 0")
  case True
  with row_below_wrap [OF assms(1)] show ?thesis by (simp add: row_prev_def)
next
  case False
  with row_below_up [OF assms(1,2)] assms(3) show ?thesis
    by (auto simp: row_prev_def top_blocked_def split: if_splits)
qed

lemma row_below_next:
  assumes "scene_ok X" and "r < rows X" and "r \<noteq> (if sc_fs X then rows X - 1 else rows X div 2 - 1)"
  shows "row_below X r (row_next (sc_fs X) (rows X) r)"
proof (cases "\<not> sc_fs X \<and> r = rows X - 1")
  case True
  with row_below_wrap [OF assms(1)] show ?thesis by (simp add: row_next_def)
next
  case False
  with row_below_down [OF assms(1,2)] assms(3) show ?thesis
    by (auto simp: row_next_def bottom_blocked_def split: if_splits)
qed

lemma adj8_left: "r < rows X \<Longrightarrow> 0 < c \<Longrightarrow> c < cols X \<Longrightarrow> adj8 X (r, c) (r, c - 1)"
  by (auto simp: adj8_def in_image_def diff1_def)

lemma adj8_below:
  "row_below X r r' \<Longrightarrow> c < cols X \<Longrightarrow> c' < cols X \<Longrightarrow> c = c' \<or> diff1 c c' \<Longrightarrow>
    adj8 X (r, c) (r', c') \<and> adj8 X (r', c') (r, c)"
  by (auto simp: adj8_def in_image_def diff1_def row_below_def)

lemma edge8I:
  "adj8 X (r, c) (r', c') \<Longrightarrow> \<not> seam X starts (r, c) (r', c') \<Longrightarrow> \<not> seam X starts (r', c') (r, c) \<Longrightarrow>
    ((r, c), (r', c')) \<in> edges8 starts X"
  by (simp add: edges8_def)

lemma edge8_left: "scene_ok X \<Longrightarrow> r < rows X \<Longrightarrow> 0 < c \<Longrightarrow> c < cols X \<Longrightarrow> ((r, c), (r, c - 1)) \<in> edges8 starts X"
  by (intro edge8I adj8_left) (auto simp: seam_def dest: scene_two)

lemma edge8_up:
  assumes "scene_ok X" and "r < rows X" and "c < cols X" and "\<not> top_blocked (sc_fs X) (rows X) r"
    and "c' = c \<or> c' = c - 1"
  shows "((r, c), (r - 1, c')) \<in> edges8 starts X"
proof (rule edge8I)
  have "0 < r"
    using drow_up [OF assms(1,2,4)] by simp
  show "\<not> seam X starts (r, c) (r - 1, c')"
  proof
    assume "seam X starts (r, c) (r - 1, c')"
    then have "rows X = 2" "r = 1" "\<not> sc_fs X"
      using \<open>0 < r\<close> by (auto simp: seam_def)
    with assms(4) show False by (simp add: top_blocked_def)
  qed
  show "\<not> seam X starts (r - 1, c') (r, c)"
    using \<open>0 < r\<close> by (auto simp: seam_def)
  show "adj8 X (r, c) (r - 1, c')"
    using adj8_below [OF row_below_up [OF assms(1,2,4)], of c' c] assms(3,5)
    by (cases "c = 0") (auto simp: diff1_def)
qed

lemma edge8_down:
  assumes "scene_ok X" and "r < rows X" and "0 < c" and "c < cols X" and "\<not> bottom_blocked (sc_fs X) (rows X) r"
  shows "((r, c), (r + 1, c - 1)) \<in> edges8 starts X"
proof (rule edge8I)
  show "\<not> seam X starts (r, c) (r + 1, c - 1)" and "\<not> seam X starts (r + 1, c - 1) (r, c)"
    by (auto simp: seam_def)
  show "adj8 X (r, c) (r + 1, c - 1)"
    using adj8_below [OF row_below_down [OF assms(1,2,5)], of c "c - 1"] assms(3,4) by (auto simp: diff1_def)
qed

lemma edge8_wrap:
  assumes "scene_ok X" and "\<not> sc_fs X" and "c < cols X" and "c' = c \<or> c' = c - 1"
  shows "((0, c), (rows X - 1, c')) \<in> edges8 starts X"
proof (rule edge8I)
  show "\<not> seam X starts (0, c) (rows X - 1, c')" and "\<not> seam X starts (rows X - 1, c') (0, c)"
    using assms scene_two [OF assms(1)] by (auto simp: seam_def)
  show "adj8 X (0, c) (rows X - 1, c')"
    using adj8_below [OF row_below_wrap [OF assms(1,2)], of c' c] assms(3,4)
    by (cases "c = 0") (auto simp: diff1_def)
qed

section \<open>One pixel\<close>

text \<open>
  The decision tree looks at no more neighbours than it needs: the edges to the others
  follow from the edges \<open>D\<close> of the pixels scanned before.
\<close>

lemma step_covers:
  assumes inv: "sign_inv X N s st S A (F \<union> D)"
    and cover: "\<And>q. (p, q) \<in> G \<Longrightarrow> fg X s q \<Longrightarrow>
      (p, q) \<in> F \<or> (\<exists>m. (p, m) \<in> F \<and> fg X s m \<and> ((m, q) \<in> D \<or> (q, m) \<in> D))"
    and G: "\<And>x q. (x, q) \<in> G \<Longrightarrow> x = p" and p: "fg X s p"
  shows "sign_inv X N s st S A (G \<union> D)"
proof -
  let ?E = "{(x, y). (x, y) \<in> F \<union> D \<and> fg X s x \<and> fg X s y}"
  have "sign_inv X N s st S A ((F \<union> D) \<union> G)"
  proof (rule sign_inv_cover [OF inv])
    fix x q
    assume xq: "(x, q) \<in> G" "fg X s x" "fg X s q"
    then have x: "x = p"
      by (simp add: G)
    with cover [of q] xq consider "(p, q) \<in> F"
      | m where "(p, m) \<in> F" "fg X s m" "(m, q) \<in> D \<or> (q, m) \<in> D" by blast
    then show "(x, q) \<in> eqv ?E"
    proof cases
      case 1
      with xq x show ?thesis by (intro eqv_edge) simp
    next
      case 2
      then have "(p, m) \<in> eqv ?E"
        using p by (intro eqv_edge) simp
      moreover have "(m, q) \<in> ?E \<or> (q, m) \<in> ?E"
        using 2 xq by auto
      then have "(m, q) \<in> eqv ?E"
        by (blast intro: eqv_edge eqv_sym)
      ultimately show ?thesis
        unfolding x by (rule eqv_trans)
    qed
  qed
  then show ?thesis
    by (rule sign_inv_mono) auto
qed

text \<open>The edges between the neighbours of a pixel are among those of the pixels scanned before.\<close>

lemma scanned_edges8:
  assumes X: "scene_ok X" and rc: "r < rows X" "b \<le> c"
    and D: "\<And>p. p \<in> scanned X b c r \<Longrightarrow> scan_edges8 X b p \<subseteq> D"
  shows "c \<noteq> b \<Longrightarrow> \<not> top_blocked (sc_fs X) (rows X) r \<Longrightarrow> ((r, c - 1), (r - 1, c - 1)) \<in> D"
    and "c \<noteq> b \<Longrightarrow> \<not> bottom_blocked (sc_fs X) (rows X) r \<Longrightarrow> ((r + 1, c - 1), (r, c - 1)) \<in> D"
    and "c \<noteq> b \<Longrightarrow> \<not> top_blocked (sc_fs X) (rows X) r \<Longrightarrow> ((r - 1, c), (r, c - 1)) \<in> D"
    and "c \<noteq> b \<Longrightarrow> \<not> top_blocked (sc_fs X) (rows X) r \<Longrightarrow> ((r - 1, c), (r - 1, c - 1)) \<in> D"
proof -
  let ?tb = "top_blocked (sc_fs X) (rows X)" and ?bb = "bottom_blocked (sc_fs X) (rows X)"
  have col: "c \<noteq> b \<Longrightarrow> r' < rows X \<Longrightarrow> (r', c - 1) \<in> scanned X b c r" for r'
    using rc by (auto simp: scanned_def)
  have above: "0 < r \<Longrightarrow> (r - 1, c) \<in> scanned X b c r"
    by (auto simp: scanned_def)
  have up: "\<not> ?tb r \<Longrightarrow> 0 < r"
    using drow_up [OF X rc(1)] by simp
  show "((r, c - 1), (r - 1, c - 1)) \<in> D" if "c \<noteq> b" "\<not> ?tb r"
  proof -
    have "((r, c - 1), (r - 1, c - 1)) \<in> scan_edges8 X b (r, c - 1)"
      using that by (simp add: scan_edges8_def)
    with D [OF col [OF that(1) rc(1)]] show ?thesis by blast
  qed
  show "((r + 1, c - 1), (r, c - 1)) \<in> D" if "c \<noteq> b" "\<not> ?bb r"
  proof -
    have r: "r + 1 < rows X" "\<not> ?tb (r + 1)"
      using bottom_last [OF X rc(1) that(2)] bottom_top_blocked [OF X] that(2) by auto
    then have "((r + 1, c - 1), (r, c - 1)) \<in> scan_edges8 X b (r + 1, c - 1)"
      by (simp add: scan_edges8_def)
    with D [OF col [OF that(1) r(1)]] show ?thesis by blast
  qed
  show "((r - 1, c), (r, c - 1)) \<in> D" if "c \<noteq> b" "\<not> ?tb r"
  proof -
    have "\<not> ?bb (r - 1)"
      using bottom_top_blocked [OF X, of "r - 1"] up [OF that(2)] rc that(2) by simp
    then have "((r - 1, c), (r, c - 1)) \<in> scan_edges8 X b (r - 1, c)"
      using up [OF that(2)] that by (simp add: scan_edges8_def)
    with D [OF above] up [OF that(2)] show ?thesis by blast
  qed
  show "((r - 1, c), (r - 1, c - 1)) \<in> D" if "c \<noteq> b" "\<not> ?tb r"
  proof -
    have "((r - 1, c), (r - 1, c - 1)) \<in> scan_edges8 X b (r - 1, c)"
      using that by (simp add: scan_edges8_def)
    with D [OF above] up [OF that(2)] show ?thesis by blast
  qed
qed

lemma pixel8_step:
  assumes X: "scene_ok X" and bc: "b \<le> c" and p: "fg X s (r, c)"
    and inv: "sign_inv X (edges8 starts X) s st S A D"
    and S: "(r, c) \<notin> S" "scanned X b c r \<subseteq> S"
    and D: "\<And>p. p \<in> scanned X b c r \<Longrightarrow> scan_edges8 X b p \<subseteq> D"
    and st': "st' = scan_pixel_8con s (sc_fs X) (rows X) (c \<noteq> b) (mc X c) (mc_prev X c) r st"
    and fresh: "next_of s st' \<noteq> next_of s st \<Longrightarrow> next_of s st \<notin> A \<and> next_of s st \<noteq> 0"
  shows "sign_inv X (edges8 starts X) s st' (insert (r, c) S)
      (if next_of s st' = next_of s st then A else insert (next_of s st) A) (scan_edges8 X b (r, c) \<union> D) \<and>
    only_sign X s (r, c) st st' \<and> next_of s st' \<le> Suc (next_of s st)"
proof -
  let ?N = "edges8 starts X"
  have rc: "r < rows X" "c < cols X" "r - 1 < rows X" "c - 1 < cols X"
    using fg_range [OF p] by auto
  let ?lv = "c \<noteq> b" and ?tb = "top_blocked (sc_fs X) (rows X) r" and ?bb = "bottom_blocked (sc_fs X) (rows X) r"
  let ?left = "lmap st r (mc X (c - 1))" and ?top = "lmap st (r - 1) (mc X c)"
    and ?tl = "lmap st (r - 1) (mc X (c - 1))" and ?bl = "lmap st (r + 1) (mc X (c - 1))"
  define L where "L \<longleftrightarrow> ?lv \<and> hit s ?left"
  define T where "T \<longleftrightarrow> \<not> ?tb \<and> hit s ?top"
  define TL where "TL \<longleftrightarrow> \<not> ?tb \<and> ?lv \<and> hit s ?tl"
  define BL where "BL \<longleftrightarrow> \<not> ?bb \<and> ?lv \<and> hit s ?bl"
  have prev: "?lv \<Longrightarrow> mc_prev X c = mc X (c - 1)" and c0: "?lv \<Longrightarrow> 0 < c"
    using mc_prev [OF X _ rc(2)] bc by (auto simp: mc_prev_def)
  have up: "\<not> ?tb \<Longrightarrow> 0 < r"
    using drow_up [OF X rc(1)] by simp
  have down: "\<not> ?bb \<Longrightarrow> r + 1 < rows X"
    using bottom_last [OF X rc(1)] .
  have last: "\<not> ?bb \<Longrightarrow> r \<noteq> rows X - 1"
    by (auto simp: bottom_blocked_def split: if_splits)
  have eq: "st' = (if L then copy_label r (mc X c) ?left st
      else if BL then if TL then union_labels s r (mc X c) ?tl ?bl st
        else if T then union_labels s r (mc X c) ?top ?bl st else copy_label r (mc X c) ?bl st
      else if TL then copy_label r (mc X c) ?tl st
      else if T then copy_label r (mc X c) ?top st else new_label s r (mc X c) st)"
    using prev up last unfolding L_def T_def TL_def BL_def st' scan_pixel_8con_def Let_def
    by (cases ?lv; cases ?tb; cases ?bb) simp_all
  have noL: "?lv \<Longrightarrow> \<not> L \<Longrightarrow> \<not> fg X s (r, c - 1)"
    using sign_inv_hit [OF inv rc(1,4)] scanned_left [OF S(2) bc _ rc(1)] by (auto simp: L_def)
  have noT: "\<not> ?tb \<Longrightarrow> \<not> T \<Longrightarrow> \<not> fg X s (r - 1, c)"
    using sign_inv_hit [OF inv rc(3,2)] scanned_top [OF S(2) up] by (auto simp: T_def)
  have noTL: "\<not> ?tb \<Longrightarrow> ?lv \<Longrightarrow> \<not> TL \<Longrightarrow> \<not> fg X s (r - 1, c - 1)"
    using sign_inv_hit [OF inv rc(3,4)] scanned_left [OF S(2) bc _ rc(3)] by (auto simp: TL_def)
  have noBL: "\<not> ?bb \<Longrightarrow> ?lv \<Longrightarrow> \<not> BL \<Longrightarrow> \<not> fg X s (r + 1, c - 1)"
    using sign_inv_hit [OF inv down rc(4)] scanned_left [OF S(2) bc _ down] by (auto simp: BL_def)
  have fgL: "L \<Longrightarrow> fg X s (r, c - 1)" and fgTL: "TL \<Longrightarrow> fg X s (r - 1, c - 1)"
    using sign_inv_hit [OF inv rc(1,4)] sign_inv_hit [OF inv rc(3,4)] by (auto simp: L_def TL_def)
  have eL: "L \<Longrightarrow> ((r, c), (r, c - 1)) \<in> ?N"
    using edge8_left [OF X rc(1) c0 rc(2)] by (simp add: L_def)
  have eT: "T \<Longrightarrow> ((r, c), (r - 1, c)) \<in> ?N" and eTL: "TL \<Longrightarrow> ((r, c), (r - 1, c - 1)) \<in> ?N"
    using edge8_up [OF X rc(1,2)] by (simp_all add: T_def TL_def)
  have eBL: "BL \<Longrightarrow> ((r, c), (r + 1, c - 1)) \<in> ?N"
    using edge8_down [OF X rc(1) c0 rc(2)] by (simp add: BL_def)
  have hits: "L \<Longrightarrow> hit s ?left" "T \<Longrightarrow> hit s ?top" "TL \<Longrightarrow> hit s ?tl" "BL \<Longrightarrow> hit s ?bl" "BL \<Longrightarrow> r + 1 < rows X"
    using down by (simp_all add: L_def T_def TL_def BL_def)
  have lv: "L \<Longrightarrow> ?lv" "TL \<Longrightarrow> ?lv" "BL \<Longrightarrow> ?lv"
    by (simp_all add: L_def TL_def BL_def)
  note old = scanned_edges8 [OF X rc(1) bc D]
  have from_p: "\<And>x q. (x, q) \<in> scan_edges8 X b (r, c) \<Longrightarrow> x = (r, c)"
    by (auto simp: scan_edges8_def split: if_splits)
  note fin = step_covers [OF _ _ from_p p]
  consider (L) L | (BTL) "\<not> L" BL TL | (BT) "\<not> L" BL "\<not> TL" T | (B) "\<not> L" BL "\<not> TL" "\<not> T"
    | (TL) "\<not> L" "\<not> BL" TL | (T) "\<not> L" "\<not> BL" "\<not> TL" T | (N) "\<not> L" "\<not> BL" "\<not> TL" "\<not> T" by blast
  then show ?thesis
  proof cases
    case L
    then have st'2: "st' = copy_label r (mc X c) ?left st"
      using eq by simp
    note step = copy_label_inv [OF X inv p S(1) rc(1,4) hits(1) [OF L] eL [OF L], folded st'2]
    have "sign_inv X ?N s st' (insert (r, c) S) A (scan_edges8 X b (r, c) \<union> D)"
      by (rule fin [OF step(1)]) (use old fgL [OF L] lv(1) [OF L] in \<open>auto simp: scan_edges8_def split: if_splits\<close>)
    with step show ?thesis by simp
  next
    case BTL
    then have st'2: "st' = union_labels s r (mc X c) ?tl ?bl st"
      using eq by simp
    note step = join_labels_inv [OF X inv p S(1) rc(3,4) hits(3) [OF BTL(3)] hits(5) [OF BTL(2)] rc(4)
        hits(4) [OF BTL(2)] eTL [OF BTL(3)] eBL [OF BTL(2)] st'2]
    have "sign_inv X ?N s st' (insert (r, c) S) A (scan_edges8 X b (r, c) \<union> D)"
      by (rule fin [OF step(1)])
        (use old fgTL [OF BTL(3)] lv(2) [OF BTL(3)] noL BTL(1) in \<open>auto simp: scan_edges8_def split: if_splits\<close>)
    with step show ?thesis by simp
  next
    case BT
    then have st'2: "st' = union_labels s r (mc X c) ?top ?bl st"
      using eq by simp
    note step = join_labels_inv [OF X inv p S(1) rc(3,2) hits(2) [OF BT(4)] hits(5) [OF BT(2)] rc(4)
        hits(4) [OF BT(2)] eT [OF BT(4)] eBL [OF BT(2)] st'2]
    have "sign_inv X ?N s st' (insert (r, c) S) A (scan_edges8 X b (r, c) \<union> D)"
      by (rule fin [OF step(1)]) (use noL noTL BT in \<open>auto simp: scan_edges8_def split: if_splits\<close>)
    with step show ?thesis by simp
  next
    case B
    then have st'2: "st' = copy_label r (mc X c) ?bl st"
      using eq by simp
    note step = copy_label_inv [OF X inv p S(1) hits(5) [OF B(2)] rc(4) hits(4) [OF B(2)] eBL [OF B(2)], folded st'2]
    have "sign_inv X ?N s st' (insert (r, c) S) A (scan_edges8 X b (r, c) \<union> D)"
      by (rule fin [OF step(1)]) (use noL noTL noT B in \<open>auto simp: scan_edges8_def split: if_splits\<close>)
    with step show ?thesis by simp
  next
    case TL
    then have st'2: "st' = copy_label r (mc X c) ?tl st"
      using eq by simp
    note step = copy_label_inv [OF X inv p S(1) rc(3,4) hits(3) [OF TL(3)] eTL [OF TL(3)], folded st'2]
    have "sign_inv X ?N s st' (insert (r, c) S) A (scan_edges8 X b (r, c) \<union> D)"
      by (rule fin [OF step(1)])
        (use old fgTL [OF TL(3)] lv(2) [OF TL(3)] noL noBL TL(1,2) in \<open>auto simp: scan_edges8_def split: if_splits\<close>)
    with step show ?thesis by simp
  next
    case T
    then have st'2: "st' = copy_label r (mc X c) ?top st"
      using eq by simp
    note step = copy_label_inv [OF X inv p S(1) rc(3,2) hits(2) [OF T(4)] eT [OF T(4)], folded st'2]
    have "sign_inv X ?N s st' (insert (r, c) S) A (scan_edges8 X b (r, c) \<union> D)"
      by (rule fin [OF step(1)]) (use noL noTL noBL T in \<open>auto simp: scan_edges8_def split: if_splits\<close>)
    with step show ?thesis by simp
  next
    case N
    then have st'2: "st' = new_label s r (mc X c) st"
      using eq by simp
    then have "next_of s st' \<noteq> next_of s st"
      by (simp add: new_label_def Let_def)
    note step = new_label_inv [OF X inv p S(1) conjunct1 [OF fresh [OF this]] conjunct2 [OF fresh [OF this]], folded st'2]
    have "sign_inv X ?N s st' (insert (r, c) S) (insert (next_of s st) A) (scan_edges8 X b (r, c) \<union> D)"
      by (rule fin [where F = "{}"])
        (use step(1) noL noT noTL noBL N in \<open>auto simp: scan_edges8_def split: if_splits\<close>)
    with step show ?thesis by simp
  qed
qed

section \<open>The borders\<close>

lemma row8_step:
  assumes X: "scene_ok X" "\<not> sc_fs X" and bc: "b \<le> c" and p: "fg X s (0, c)"
    and inv: "sign_inv X (edges8 starts X) s st S A D"
    and S: "scanned X b (Suc c) 0 \<subseteq> S"
    and D: "\<And>p. p \<in> scanned X b (Suc c) 0 \<Longrightarrow> scan_edges8 X b p \<subseteq> D"
    and W: "True \<Longrightarrow> c = 0 \<Longrightarrow> (rows X - 1, cols X - 1) \<notin> S"
    and st': "st' = row_border_8con (rows X) (mc X c) (mc_prev X c) s st"
  shows "sign_inv X (edges8 starts X) s st' S A (row_edges8 X b c \<union> D) \<and> only_sign X s (0, c) st st'"
proof -
  let ?N = "edges8 starts X" and ?R = "rows X - 1"
  have rc: "0 < rows X" "c < cols X" "?R < rows X" "c - 1 < cols X" "cols X - 1 < cols X"
    using fg_range [OF p] by auto
  have two: "?R \<noteq> 0"
    using scene_two [OF X(1)] by simp
  have "c \<noteq> b \<Longrightarrow> (?R, c - 1) \<in> scanned X b (Suc c) 0"
    using rc bc by (auto simp: scanned_def)
  moreover have "(0, c) \<in> scanned X b (Suc c) 0" "(?R, c) \<in> scanned X b (Suc c) 0"
    using rc bc by (auto simp: scanned_def)
  ultimately have inS: "(0, c) \<in> S" "(?R, c) \<in> S" "c \<noteq> b \<Longrightarrow> (?R, c - 1) \<in> S"
    using S by blast+
  let ?top = "lmap st ?R (mc X c)" and ?tl = "lmap st ?R (mc_prev X c)"
  define st1 where "st1 = (if hit s ?top then union_labels s 0 (mc X c) (lmap st 0 (mc X c)) ?top st else st)"
  have eq: "st' = (if hit s ?tl \<and> ?top \<noteq> ?tl then union_labels s 0 (mc X c) (lmap st1 0 (mc X c)) ?tl st1 else st1)"
    unfolding st' row_border_8con_def Let_def st1_def by simp
  have ne: "(?R, c') \<noteq> (0, c)" for c'
    using two by simp
  have edges: "((0, c), (?R, c)) \<in> ?N" "((0, c), (?R, c - 1)) \<in> ?N"
    by (rule edge8_wrap [OF X rc(2)], simp)+
  note step1 = merge_if_inv [OF X(1) inv p inS(1) rc(3,2) ne refl cur_ok_self [OF inv inS(1) p]
      edges(1) st1_def]
  have inv1: "sign_inv X ?N s st1 S A ({((0, c), (?R, c))} \<union> D)"
    using step1(1) inS(2) by simp
  show ?thesis
  proof (cases "c = 0")
    case True
    have "mc_prev X c = mc X (cols X - 1)"
      using mc_prev_first [OF X] True by (simp add: mc_prev_def)
    then have "\<not> hit s ?tl"
      using sign_inv_hit [OF inv rc(3,5)] W True by simp
    then have "st' = st1"
      using eq by simp
    then show ?thesis
      using inv1 step1(2) True bc by (simp add: row_edges8_def)
  next
    case False
    have prev: "mc_prev X c = mc X (c - 1)"
      using mc_prev [OF X(1) _ rc(2)] False by (simp add: mc_prev_def)
    have same: "lmap st1 ?R (mc X (c - 1)) = lmap st ?R (mc X (c - 1))"
      by (rule only_sign_elsewhere [OF X(1) step1(2) rc(2,4) ne])
    show ?thesis
    proof (cases "hit s ?tl \<and> ?top = ?tl")
      case True
      then have st1: "st' = st1" and top: "hit s ?top"
        using eq by simp_all
      have fgtop: "fg X s (?R, c)"
        using sign_inv_hit [OF inv rc(3,2)] top by simp
      have left: "((?R, c), (?R, c - 1)) \<in> D" if "c \<noteq> b"
      proof -
        have "((?R, c), (?R, c - 1)) \<in> scan_edges8 X b (?R, c)"
          using that by (simp add: scan_edges8_def)
        moreover have "(?R, c) \<in> scanned X b (Suc c) 0"
          using bc rc by (simp add: scanned_def)
        ultimately show ?thesis
          using D by blast
      qed
      have "sign_inv X ?N s st1 S A (row_edges8 X b c \<union> D)"
        by (rule step_covers [OF inv1 _ _ p]) (use fgtop left in \<open>auto simp: row_edges8_def split: if_splits\<close>)
      with st1 step1(2) show ?thesis by simp
    next
      case no: False
      have eq2: "st' = (if hit s ?tl then union_labels s 0 (mc X c) (lmap st1 0 (mc X c)) ?tl st1 else st1)"
        using no eq by auto
      have w: "?tl = lmap st1 ?R (mc X (c - 1))"
        using same prev by simp
      note step2 = merge_if_inv [OF X(1) inv1 p inS(1) rc(3,4) ne w cur_ok_self [OF inv1 inS(1) p]
          edges(2) eq2]
      have "sign_inv X ?N s st' S A (row_edges8 X b c \<union> D)"
        using step2(1) by (rule sign_inv_mono) (use inS(3) in \<open>auto simp: row_edges8_def split: if_splits\<close>)
      moreover have "only_sign X s (0, c) st st'"
        by (rule only_sign_trans [OF step1(2) step2(2)])
      ultimately show ?thesis by blast
    qed
  qed
qed

text \<open>A merge that is done only when the guard \<open>g\<close> holds.\<close>

lemma merge_guarded:
  assumes X: "scene_ok X" and inv: "sign_inv X N s st UNIV A D" and p: "fg X s (r, c)"
    and q: "g \<Longrightarrow> r' < rows X" "c' < cols X" "c' \<noteq> c"
    and w: "g \<Longrightarrow> w = lmap st r' (mc X c')"
    and cur: "cur_ok X s st A cur (r, c)"
    and N: "g \<Longrightarrow> ((r, c), (r', c')) \<in> N"
    and st': "st' = (if g \<and> hit s w then union_labels s r (mc X c) cur w st else st)"
  shows "sign_inv X N s st' UNIV A ((if g then {((r, c), (r', c'))} else {}) \<union> D) \<and>
    only_sign X s (r, c) st st' \<and> cur_ok X s st' A cur (r, c)"
proof (cases g)
  case True
  have ne: "(r', c') \<noteq> (r, c)"
    using q(3) by simp
  have eq: "st' = (if hit s w then union_labels s r (mc X c) cur w st else st)"
    using st' True by simp
  from merge_if_inv [OF X inv p UNIV_I q(1) [OF True] q(2) ne w [OF True] cur N [OF True] eq] True
  show ?thesis by simp
next
  case False
  moreover have "hit s (lmap st r (mc X c))"
    using sign_inv_hit [OF inv] p fg_range [OF p] by simp
  ultimately show ?thesis
    using inv cur st' by (simp add: only_sign_refl)
qed

lemma col8_step:
  assumes X: "scene_ok X" and c: "c \<in> starts" and p: "fg X s (r, c)"
    and inv: "sign_inv X (edges8 starts X) s st UNIV A D"
    and st': "st' = col_border_8con (sc_fs X) (rows X) (c \<noteq> 0) (mc X c) (mc_prev X c) r s st"
  shows "sign_inv X (edges8 starts X) s st' UNIV A (col_edges8 X (r, c) \<union> D) \<and> only_sign X s (r, c) st st'"
proof (cases "c = 0")
  case True
  have "st' = st"
    using True by (simp add: st' col_border_8con_def Let_def)
  moreover have "hit s (lmap st r (mc X c))"
    using sign_inv_hit [OF inv] p fg_range [OF p] by simp
  ultimately show ?thesis
    using True inv by (simp add: col_edges8_def only_sign_refl)
next
  case False
  let ?N = "edges8 starts X"
  let ?rp = "row_prev (sc_fs X) (rows X) r" and ?rn = "row_next (sc_fs X) (rows X) r"
  let ?gt = "r \<noteq> (if sc_fs X then 0 else rows X div 2)"
    and ?gb = "r \<noteq> (if sc_fs X then rows X - 1 else rows X div 2 - 1)"
  let ?m = "mc X (c - 1)" and ?cur = "lmap st r (mc X c)"
  have rc: "r < rows X" "c < cols X" "c - 1 < cols X" "c - 1 \<noteq> c" "diff1 (c - 1) c" "diff1 c (c - 1)"
    using fg_range [OF p] False by (auto simp: diff1_def)
  have prev: "mc_prev X c = ?m"
    using mc_prev [OF X _ rc(2)] False by (simp add: mc_prev_def)
  define st1 where "st1 = (if ?gt \<and> hit s (lmap st ?rp ?m)
    then union_labels s r (mc X c) ?cur (lmap st ?rp ?m) st else st)"
  define st2 where "st2 = (if True \<and> hit s (lmap st r ?m)
    then union_labels s r (mc X c) ?cur (lmap st r ?m) st1 else st1)"
  have eq: "st' = (if ?gb \<and> hit s (lmap st ?rn ?m)
    then union_labels s r (mc X c) ?cur (lmap st ?rn ?m) st2 else st2)"
  proof -
    have guard: "(if a then False else b) \<longleftrightarrow> \<not> a \<and> b" for a b
      by simp
    show ?thesis
      unfolding st' col_border_8con_def Let_def prev st1_def st2_def
      by (simp only: False guard not_False_eq_True simp_thms)
  qed
  have starts: "\<not> seam X starts (r, c) q" and "\<not> seam X starts q (r, c)" if "snd q = c - 1" for q
    using c rc(4) that by (auto simp: seam_def)
  then have edge: "((r, c), (r', c - 1)) \<in> ?N" if "adj8 X (r, c) (r', c - 1)" for r'
    using that by (intro edge8I) auto
  have below: "?gt \<Longrightarrow> row_below X ?rp r" "?gb \<Longrightarrow> row_below X r ?rn"
    using row_below_prev [OF X rc(1)] row_below_next [OF X rc(1)] by simp_all
  then have rows: "?gt \<Longrightarrow> ?rp < rows X" "?gb \<Longrightarrow> ?rn < rows X"
    by (simp_all add: row_below_def)
  have et: "?gt \<Longrightarrow> ((r, c), (?rp, c - 1)) \<in> ?N"
    by (rule edge) (use adj8_below [OF below(1), of "c - 1" c] rc in simp)
  have eb: "?gb \<Longrightarrow> ((r, c), (?rn, c - 1)) \<in> ?N"
    by (rule edge) (use adj8_below [OF below(2), of c "c - 1"] rc in simp)
  have el: "((r, c), (r, c - 1)) \<in> ?N"
    using adj8_left [OF rc(1) _ rc(2)] False by (intro edge) simp
  let ?E1 = "(if ?gt then {((r, c), (?rp, c - 1))} else {}) \<union> D"
  let ?E2 = "(if True then {((r, c), (r, c - 1))} else {}) \<union> ?E1"
  let ?E3 = "(if ?gb then {((r, c), (?rn, c - 1))} else {}) \<union> ?E2"
  have step1: "sign_inv X ?N s st1 UNIV A ?E1 \<and> only_sign X s (r, c) st st1 \<and> cur_ok X s st1 A ?cur (r, c)"
    by (rule merge_guarded [OF X inv p rows(1) rc(3,4) refl cur_ok_self [OF inv UNIV_I p] et st1_def])
  then have inv1: "sign_inv X ?N s st1 UNIV A ?E1" and only1: "only_sign X s (r, c) st st1"
    and cur1: "cur_ok X s st1 A ?cur (r, c)"
    by blast+
  have ne: "(r', c - 1) \<noteq> (r, c)" for r'
    using rc(4) by simp
  have same1: "lmap st1 r' ?m = lmap st r' ?m" for r'
    by (rule only_sign_elsewhere [OF X only1 rc(2,3) ne])
  have step2: "sign_inv X ?N s st2 UNIV A ?E2 \<and> only_sign X s (r, c) st1 st2 \<and> cur_ok X s st2 A ?cur (r, c)"
    by (rule merge_guarded [OF X inv1 p rc(1) rc(3,4) same1 [symmetric] cur1 el st2_def])
  then have inv2: "sign_inv X ?N s st2 UNIV A ?E2" and only2: "only_sign X s (r, c) st1 st2"
    and cur2: "cur_ok X s st2 A ?cur (r, c)"
    by blast+
  have w3: "lmap st ?rn ?m = lmap st2 ?rn ?m"
    using only_sign_elsewhere [OF X only2 rc(2,3) ne] same1 by simp
  have step3: "sign_inv X ?N s st' UNIV A ?E3 \<and> only_sign X s (r, c) st2 st' \<and> cur_ok X s st' A ?cur (r, c)"
    by (rule merge_guarded [OF X inv2 p rows(2) rc(3,4) w3 cur2 eb eq])
  have "sign_inv X ?N s st' UNIV A (col_edges8 X (r, c) \<union> D)"
    by (rule sign_inv_mono [OF conjunct1 [OF step3]]) (use False in \<open>auto simp: col_edges8_def\<close>)
  moreover have "only_sign X s (r, c) st st'"
    using only1 only2 step3 by (blast intro: only_sign_trans)
  ultimately show ?thesis by blast
qed

interpretation con8: ccl_steps scan_pixel_8con row_border_8con col_border_8con "edges8 starts"
  scan_edges8 row_edges8 col_edges8 True starts for starts
proof
  show "(p, q) \<in> scan_edges8 X b x \<Longrightarrow> p = x" for p q x X b
    by (auto simp: scan_edges8_def split: prod.splits if_splits)
  show "(p, q) \<in> row_edges8 X b c \<Longrightarrow> p = (0, c)" for p q X b c
    by (auto simp: row_edges8_def split: if_splits)
  show "(p, q) \<in> col_edges8 X x \<Longrightarrow> p = x" for p q x X
    by (auto simp: col_edges8_def split: prod.splits if_splits)
  show "next_of s' st \<le> next_of s' (scan_pixel_8con s fs h lv m mp r st)" for s' s st fs h lv m mp r
    by (simp add: scan_pixel_8con_def Let_def next_of_new_label)
  show "next_of s' (row_border_8con h m mp s st) = next_of s' st" for s' h m mp s st
    by (simp add: row_border_8con_def Let_def)
  show "next_of s' (col_border_8con fs h lv m mp r s st) = next_of s' st" for s' fs h lv m mp r s st
    by (simp add: col_border_8con_def Let_def)
qed (rule pixel8_step row8_step col8_step; assumption)+

section \<open>What the scan establishes\<close>

lemma slice_of_column:
  assumes "covers 0 (cols X) rs" and "c < cols X"
  obtains b e where "(b, e) \<in> set rs" and "b \<le> c" and "c < e"
proof -
  have "c \<in> (\<Union>r \<in> set rs. range_set r)"
    using covers_union [OF assms(1)] assms(2) by simp
  then show thesis
    using that by (force simp: range_set_def)
qed

lemma not_start:
  assumes "covers 0 (cols X) rs" and "(b, e) \<in> set rs" and "b \<le> c" and "c < e" and "c \<noteq> b"
  shows "c \<notin> fst ` set rs"
proof
  assume "c \<in> fst ` set rs"
  then obtain e' where ce: "(c, e') \<in> set rs"
    by auto
  have "c < e'"
    using covers_bounds [OF assms(1) ce] by simp
  with covers_apart [OF assms(1,2) ce] assms(3-5) show False
    by auto
qed

lemma row_below_cases:
  assumes "scene_ok X" and "row_below X r r'"
  shows "\<not> top_blocked (sc_fs X) (rows X) r' \<and> r = r' - 1 \<and> 0 < r' \<or> \<not> sc_fs X \<and> r' = 0 \<and> r = rows X - 1"
proof -
  have "r' < rows X" "r < rows X" "drow X r' = drow X r + 1"
    using assms(2) by (simp_all add: row_below_def)
  from drow_neighbours [OF assms(1) this] show ?thesis
    by (auto simp: top_blocked_def split: if_splits)
qed

lemma row_below_prev_iff:
  assumes "scene_ok X" and "row_below X r r'"
  shows "r' \<noteq> (if sc_fs X then 0 else rows X div 2) \<and> row_prev (sc_fs X) (rows X) r' = r"
  using row_below_cases [OF assms] scene_two [OF assms(1)]
  by (auto simp: row_prev_def top_blocked_def split: if_splits)

lemma row_below_next_iff:
  assumes "scene_ok X" and "row_below X r r'"
  shows "r \<noteq> (if sc_fs X then rows X - 1 else rows X div 2 - 1) \<and> row_next (sc_fs X) (rows X) r = r'"
proof -
  from assms(1) obtain h where h: "rows X = 2 * h" "0 < h" "rows X div 2 = h"
    by (rule scene_rows)
  have "r' < rows X"
    using assms(2) by (simp add: row_below_def)
  with row_below_cases [OF assms] h show ?thesis
    by (auto simp: row_next_def top_blocked_def split: if_splits)
qed

lemma col_edges8_left: "0 < c \<Longrightarrow> ((r, c), (r, c - 1)) \<in> col_edges8 X (r, c)"
  by (simp add: col_edges8_def)

lemma col_edges8_prev:
  "scene_ok X \<Longrightarrow> row_below X r r' \<Longrightarrow> 0 < c \<Longrightarrow> ((r', c), (r, c - 1)) \<in> col_edges8 X (r', c)"
  using row_below_prev_iff [of X r r'] by (simp add: col_edges8_def)

lemma col_edges8_next:
  "scene_ok X \<Longrightarrow> row_below X r r' \<Longrightarrow> 0 < c \<Longrightarrow> ((r, c), (r', c - 1)) \<in> col_edges8 X (r, c)"
  using row_below_next_iff [of X r r'] by (simp add: col_edges8_def)

lemma all_edges8_left:
  assumes cov: "covers 0 (cols X) rs" and "r < rows X" and "0 < c" and "c < cols X"
  shows "((r, c), (r, c - 1)) \<in> con8.all_edges X rs"
proof -
  obtain b e where be: "(b, e) \<in> set rs" "b \<le> c" "c < e"
    using slice_of_column [OF cov assms(4)] .
  show ?thesis
  proof (cases "c = b")
    case True
    have "((r, c), (r, c - 1)) \<in> con8.border_edges X b"
      using con8.border_edges_col [OF assms(2) col_edges8_left [OF assms(3)]] True by simp
    with be(1) show ?thesis by (rule con8.all_edges_border)
  next
    case False
    then have "((r, c), (r, c - 1)) \<in> scan_edges8 X b (r, c)"
      by (simp add: scan_edges8_def)
    with assms(2) have "((r, c), (r, c - 1)) \<in> con8.column_edges X b c"
      by (rule con8.column_edges_scan)
    with be show ?thesis by (rule con8.all_edges_column)
  qed
qed

lemma all_edges8_up:
  assumes X: "scene_ok X" and cov: "covers 0 (cols X) rs" and row: "row_below X r r'" and c: "c < cols X"
  shows "((r', c), (r, c)) \<in> con8.all_edges X rs"
    and "0 < c \<Longrightarrow> ((r', c), (r, c - 1)) \<in> con8.all_edges X rs"
proof -
  obtain b e where be: "(b, e) \<in> set rs" "b \<le> c" "c < e"
    using slice_of_column [OF cov c] .
  have r': "r' < rows X"
    using row by (simp add: row_below_def)
  have edges: "((r', c), (r, c'')) \<in> con8.column_edges X b c" if "c'' = c \<or> c'' = c - 1 \<and> c \<noteq> b" for c''
    using row_below_cases [OF X row]
  proof
    assume "\<not> top_blocked (sc_fs X) (rows X) r' \<and> r = r' - 1 \<and> 0 < r'"
    with that show ?thesis
      by (intro con8.column_edges_scan [OF r']) (auto simp: scan_edges8_def)
  next
    assume "\<not> sc_fs X \<and> r' = 0 \<and> r = rows X - 1"
    with that show ?thesis
      by (intro con8.column_edges_row) (auto simp: row_edges8_def)
  qed
  show "((r', c), (r, c)) \<in> con8.all_edges X rs"
    using be by (rule con8.all_edges_column) (rule edges, simp)
  assume "0 < c"
  show "((r', c), (r, c - 1)) \<in> con8.all_edges X rs"
  proof (cases "c = b")
    case True
    have "((r', c), (r, c - 1)) \<in> con8.border_edges X b"
      using con8.border_edges_col [OF r' col_edges8_prev [OF X row \<open>0 < c\<close>]] True by simp
    with be(1) show ?thesis by (rule con8.all_edges_border)
  next
    case False
    from be show ?thesis
      by (rule con8.all_edges_column) (rule edges, simp add: False)
  qed
qed

lemma all_edges8_down:
  assumes X: "scene_ok X" and cov: "covers 0 (cols X) rs" and row: "row_below X r r'" and c: "0 < c" "c < cols X"
    and no: "\<not> seam X (fst ` set rs) (r, c) (r', c - 1)"
  shows "((r, c), (r', c - 1)) \<in> con8.all_edges X rs"
proof -
  obtain b e where be: "(b, e) \<in> set rs" "b \<le> c" "c < e"
    using slice_of_column [OF cov c(2)] .
  have r: "r < rows X"
    using row by (simp add: row_below_def)
  show ?thesis
  proof (cases "c = b")
    case True
    have "((r, c), (r', c - 1)) \<in> con8.border_edges X b"
      using con8.border_edges_col [OF r col_edges8_next [OF X row c(1)]] True by simp
    with be(1) show ?thesis by (rule con8.all_edges_border)
  next
    case False
    have "c \<notin> fst ` set rs"
      by (rule not_start [OF cov be False])
    then have "\<not> (\<not> sc_fs X \<and> r' = 0 \<and> r = rows X - 1)"
      using no c by (auto simp: seam_def)
    then have r': "\<not> top_blocked (sc_fs X) (rows X) r'" "r' = r + 1" "r' < rows X"
      using row_below_cases [OF X row] row by (auto simp: row_below_def)
    then have "\<not> bottom_blocked (sc_fs X) (rows X) r"
      using bottom_top_blocked [OF X, of r] by simp
    then have "((r, c), (r', c - 1)) \<in> scan_edges8 X b (r, c)"
      using r'(2) False by (simp add: scan_edges8_def)
    with r have "((r, c), (r', c - 1)) \<in> con8.column_edges X b c"
      by (rule con8.column_edges_scan)
    with be show ?thesis by (rule con8.all_edges_column)
  qed
qed

lemma all_edges8:
  assumes X: "scene_ok X" and cov: "covers 0 (cols X) rs" and adj: "(p, q) \<in> edges8 (fst ` set rs) X"
  shows "(p, q) \<in> con8.all_edges X rs \<or> (q, p) \<in> con8.all_edges X rs"
proof -
  have main: "(p, q) \<in> con8.all_edges X rs \<or> (q, p) \<in> con8.all_edges X rs"
    if "(p, q) \<in> edges8 (fst ` set rs) X" "drow X (fst p) = drow X (fst q) \<and> snd p = snd q + 1 \<or>
      drow X (fst q) = drow X (fst p) + 1" for p q
  proof -
    obtain r c r' c' where pq: "p = (r, c)" "q = (r', c')" by fastforce
    from that(1) have range: "r < rows X" "c < cols X" "r' < rows X" "c' < cols X"
      and col: "c = c' \<or> diff1 c c'" and no: "\<not> seam X (fst ` set rs) (r, c) (r', c')"
      by (auto simp: edges8_def adj8_def in_image_def pq)
    note order = that(2)
    consider "r = r'" "c = c' + 1" | "row_below X r r'" "c' = c" | "row_below X r r'" "c' = c + 1"
      | "row_below X r r'" "c = c' + 1"
      using order col range drow_inj [OF X range(1,3)] by (auto simp: pq diff1_def row_below_def)
    then show ?thesis
    proof cases
      case 1
      with all_edges8_left [OF cov range(1) _ range(2)] show ?thesis by (simp add: pq)
    next
      case 2
      with all_edges8_up(1) [OF X cov 2(1) range(2)] show ?thesis by (simp add: pq)
    next
      case 3
      with all_edges8_up(2) [OF X cov 3(1) range(4)] show ?thesis by (simp add: pq)
    next
      case 4
      with all_edges8_down [OF X cov 4(1) _ range(2)] no show ?thesis by (simp add: pq)
    qed
  qed
  have sym: "(q, p) \<in> edges8 (fst ` set rs) X"
    using adj by (auto simp: edges8_def adj8_def diff1_def)
  have "drow X (fst p) = drow X (fst q) \<and> (snd p = snd q + 1 \<or> snd q = snd p + 1) \<or>
      drow X (fst q) = drow X (fst p) + 1 \<or> drow X (fst p) = drow X (fst q) + 1"
  proof -
    have "\<not> (drow X (fst p) = drow X (fst q) \<and> snd p = snd q)"
      using adj drow_inj [OF X, of "fst p" "fst q"]
      by (auto simp: edges8_def adj8_def in_image_def prod_eq_iff)
    then show ?thesis
      using adj by (auto simp: edges8_def adj8_def diff1_def)
  qed
  then show ?thesis
    using main [OF adj] main [OF sym] by metis
qed

lemma scan_8con_inv:
  assumes "scene_ok X" and "covers 0 (cols X) rs" and "\<not> sc_fs X \<Longrightarrow> wrap_safe (cols X) rs"
    and "scan_8con (sc_neg X) (sc_fs X) (sc_img X) (sc_tp X) (sc_tn X) rs = (st, data)"
    and "labels_fit (rows X div 2) rs data"
  shows "sign_inv X (edges8 (fst ` set rs) X) s st UNIV (slice_labels s data) (con8.all_edges X rs)"
  using assms by (intro con8.scan_and_merge_inv) (simp_all add: scan_8con_def)

lemma scan_8con_connected:
  assumes "scene_ok X" and "covers 0 (cols X) rs" and "\<not> sc_fs X \<Longrightarrow> wrap_safe (cols X) rs"
    and "scan_8con (sc_neg X) (sc_fs X) (sc_img X) (sc_tp X) (sc_tn X) rs = (st, data)"
    and "labels_fit (rows X div 2) rs data"
    and "fg X s p" and "fg X s q"
  shows "find_root (tree_of s st) (view X s st p) = find_root (tree_of s st) (view X s st q) \<longleftrightarrow>
    (p, q) \<in> eqv (induced X s (edges8 (fst ` set rs) X))"
  using scan_8con_inv [OF assms(1-5)]
proof (rule sign_inv_connected)
  show "induced X s (edges8 (fst ` set rs) X) \<subseteq> eqv (induced X s (con8.all_edges X rs))"
    using all_edges8 [OF assms(1,2)] by (intro eqv_induced_sym)
qed (use assms in auto)

end
