(* ===== verification/Ccl_Analysis.thy ===== *)
theory Ccl_Analysis
  imports Ccl_Con8
begin

text \<open>
  The analysis phase of the labelling and the final labelling stage of
  \<^verbatim>\<open>_label_detection_islands\<close>: provisional labels are replaced by the number of
  their tree, and trees are numbered from 1 on.
\<close>

section \<open>Numbers of trees\<close>

definition roots :: "tree \<Rightarrow> nat set \<Rightarrow> nat set" where
  "roots P A = {r \<in> A. \<not> P r < r}"

definition label_number :: "tree \<Rightarrow> nat set \<Rightarrow> nat \<Rightarrow> nat" where
  "label_number P A i = card {r \<in> roots P A. r \<le> find_root P i}"

lemma find_root_in_roots: "forest P A \<Longrightarrow> i \<in> A \<Longrightarrow> find_root P i \<in> roots P A"
  using forest_find_root find_root_is_root by (auto simp: roots_def)

lemma label_number_mono:
  assumes "finite A" and "forest P A" and "i \<in> A" and "j \<in> A" and "find_root P i < find_root P j"
  shows "label_number P A i < label_number P A j"
  unfolding label_number_def
proof (rule psubset_card_mono)
  show "finite {r \<in> roots P A. r \<le> find_root P j}"
    using assms(1) by (simp add: roots_def)
  have "find_root P j \<in> roots P A"
    by (rule find_root_in_roots [OF assms(2,4)])
  with assms(5) show "{r \<in> roots P A. r \<le> find_root P i} \<subset> {r \<in> roots P A. r \<le> find_root P j}"
    by force
qed

text \<open>Two labels have the same number if and only if they have the same root.\<close>

lemma label_number_eq:
  assumes "finite A" and "forest P A" and "i \<in> A" and "j \<in> A"
  shows "label_number P A i = label_number P A j \<longleftrightarrow> find_root P i = find_root P j"
proof -
  have "find_root P i = find_root P j \<Longrightarrow> label_number P A i = label_number P A j"
    by (simp add: label_number_def)
  moreover have "find_root P i < find_root P j \<or> find_root P j < find_root P i"
    if "find_root P i \<noteq> find_root P j"
    using that by linarith
  ultimately show ?thesis
    using label_number_mono [OF assms] label_number_mono [OF assms(1,2,4,3)] by fastforce
qed

lemma label_number_range:
  assumes "finite A" and "forest P A" and "i \<in> A"
  shows "0 < label_number P A i \<and> label_number P A i \<le> card (roots P A)"
proof -
  have fin: "finite (roots P A)"
    using assms(1) by (simp add: roots_def)
  have "find_root P i \<in> {r \<in> roots P A. r \<le> find_root P i}"
    using find_root_in_roots [OF assms(2,3)] by simp
  then have "0 < label_number P A i"
    unfolding label_number_def using fin by (auto simp: card_gt_0_iff)
  moreover have "label_number P A i \<le> card (roots P A)"
    unfolding label_number_def using fin by (intro card_mono) auto
  ultimately show ?thesis by simp
qed

text \<open>Every number up to the number of trees is used.\<close>

lemma card_initial_segments:
  fixes R :: "nat set"
  assumes "finite R"
  shows "(\<lambda>x. card {r \<in> R. r \<le> x}) ` R = {1..card R}"
proof -
  let ?f = "\<lambda>x. card {r \<in> R. r \<le> x}"
  have mono: "?f x < ?f y" if "x \<in> R" "y \<in> R" "x < y" for x y
  proof (rule psubset_card_mono)
    show "{r \<in> R. r \<le> x} \<subset> {r \<in> R. r \<le> y}"
      using that by force
  qed (use assms in simp)
  have "inj_on ?f R"
  proof (rule inj_onI)
    fix x y assume xy: "x \<in> R" "y \<in> R" "?f x = ?f y"
    then show "x = y"
      using mono [OF xy(1,2)] mono [OF xy(2,1)] by (cases x y rule: linorder_cases) simp_all
  qed
  then have "card (?f ` R) = card {1..card R}"
    by (simp add: card_image)
  moreover have "?f ` R \<subseteq> {1..card R}"
    using assms by (auto intro!: card_mono simp: Suc_le_eq card_gt_0_iff)
  ultimately show ?thesis
    by (intro card_subset_eq) simp_all
qed

lemma label_number_onto:
  assumes "finite A" and "forest P A"
  shows "label_number P A ` A = {1..card (roots P A)}"
proof -
  have sub: "roots P A \<subseteq> A"
    by (auto simp: roots_def)
  have self: "find_root P r = r" if "r \<in> roots P A" for r
    using that find_root_fix by (simp add: roots_def)
  have "find_root P ` A = roots P A"
    using find_root_in_roots [OF assms(2)] sub self by force
  moreover have "label_number P A ` A = (\<lambda>x. card {r \<in> roots P A. r \<le> x}) ` find_root P ` A"
    unfolding label_number_def by (simp only: image_image)
  ultimately have "label_number P A ` A = (\<lambda>x. card {r \<in> roots P A. r \<le> x}) ` roots P A"
    by simp
  also have "\<dots> = {1..card (roots P A)}"
    using assms(1) by (intro card_initial_segments) (simp add: roots_def)
  finally show ?thesis .
qed

section \<open>The analysis computes them\<close>

text \<open>The labels in the order of the analysis loop.\<close>

definition label_list :: "(label_data_thread \<Rightarrow> nat) \<Rightarrow> label_data_thread list \<Rightarrow> nat list" where
  "label_list lu data = concat (map (\<lambda>d. [lunique_start d + 1..<lu d]) data)"

lemma analyse_flat: "analyse lu data P = fold analyse_label (label_list lu data) (P, 1)"
proof -
  have "fold (\<lambda>d. fold analyse_label [lunique_start d + 1..<lu d]) data s = fold analyse_label (label_list lu data) s" for s
    by (induction data arbitrary: s) (simp_all add: label_list_def)
  then show ?thesis by (simp add: analyse_def)
qed

lemma analyse_labels:
  assumes "forest P A" and "sorted_wrt (<) (xs @ ys)" and "set (xs @ ys) = A"
    and "fold analyse_label xs (P, 1) = (Q, k)"
  shows "(\<forall>i. Q i = (if i \<in> set xs then label_number P A i else P i)) \<and> k = Suc (card (roots P A \<inter> set xs))"
  using assms(2-4)
proof (induction xs arbitrary: ys Q k rule: rev_induct)
  case Nil
  then show ?case by auto
next
  case (snoc x xs)
  obtain R m where R: "fold analyse_label xs (P, 1) = (R, m)"
    by fastforce
  from snoc.IH [OF _ _ R, of "x # ys"] snoc.prems
  have IH: "R i = (if i \<in> set xs then label_number P A i else P i)" "m = Suc (card (roots P A \<inter> set xs))" for i
    by auto
  have Q: "(Q, k) = analyse_label x (R, m)"
    using snoc.prems(3) R by simp
  have xA: "x \<in> A" and new: "x \<notin> set xs"
    using snoc.prems(1,2) by (auto simp: sorted_wrt_append)
  have below: "a \<in> set xs" if "a \<in> A" "a < x" for a
    using snoc.prems(1,2) that by (auto simp: sorted_wrt_append)
  have above: "a < x" if "a \<in> set xs" for a
    using snoc.prems(1) that by (auto simp: sorted_wrt_append)
  have Px: "P x \<in> A"
    using forest_parent [OF assms(1) xA] by simp
  have Rx: "R x = P x"
    using IH(1) [of x] new by simp
  show ?case
  proof (cases "P x < x")
    case True
    have "R (P x) = label_number P A x"
      using IH(1) [of "P x"] below [OF Px True] True by (simp add: label_number_def find_root_step)
    moreover have "roots P A \<inter> set (xs @ [x]) = roots P A \<inter> set xs"
      using True by (auto simp: roots_def)
    ultimately show ?thesis
      using Q True Rx IH by (auto simp: analyse_label_def)
  next
    case False
    have root: "find_root P x = x" "x \<in> roots P A"
      using False xA by (simp_all add: find_root_fix roots_def)
    have "{r \<in> roots P A. r \<le> x} = roots P A \<inter> set (xs @ [x])"
    proof (intro set_eqI iffI)
      fix r assume r: "r \<in> {r \<in> roots P A. r \<le> x}"
      then have "r = x \<or> r \<in> set xs"
        using below [of r] by (cases "r = x") (auto simp: roots_def)
      with r show "r \<in> roots P A \<inter> set (xs @ [x])" by auto
    next
      fix r assume "r \<in> roots P A \<inter> set (xs @ [x])"
      with above [of r] show "r \<in> {r \<in> roots P A. r \<le> x}" by auto
    qed
    also have "\<dots> = insert x (roots P A \<inter> set xs)"
      using root by auto
    finally have seg: "{r \<in> roots P A. r \<le> x} = insert x (roots P A \<inter> set xs)" .
    then have "label_number P A x = m"
      using new root IH(2) by (simp add: label_number_def)
    moreover have "card (roots P A \<inter> set (xs @ [x])) = Suc (card (roots P A \<inter> set xs))"
    proof -
      have "roots P A \<inter> set (xs @ [x]) = insert x (roots P A \<inter> set xs)"
        using root by auto
      with new show ?thesis by simp
    qed
    ultimately show ?thesis
      using Q False Rx IH by (auto simp: analyse_label_def)
  qed
qed

lemma analyse_numbers:
  assumes "forest P A" and "sorted_wrt (<) (label_list lu data)" and "set (label_list lu data) = A"
    and "analyse lu data P = (Q, k)"
  shows "\<And>i. i \<in> A \<Longrightarrow> Q i = label_number P A i" and "k = Suc (card (roots P A))"
proof -
  have r: "roots P A \<inter> A = roots P A"
    by (auto simp: roots_def)
  from analyse_labels [OF assms(1), of "label_list lu data" "[]" Q k] assms(2-4)
  have "(\<forall>i. Q i = (if i \<in> A then label_number P A i else P i)) \<and> k = Suc (card (roots P A))"
    by (simp add: analyse_flat r)
  then show "\<And>i. i \<in> A \<Longrightarrow> Q i = label_number P A i" and "k = Suc (card (roots P A))"
    by simp_all
qed

section \<open>The order of the labels\<close>

lemma label_list_set: "set (label_list (lunique s) data) = slice_labels s data"
  by (auto simp: label_list_def slice_labels_def Suc_le_eq)

text \<open>The slices hand out labels in disjoint blocks, which follow one another.\<close>

lemma label_list_sorted:
  assumes "sorted_wrt (\<lambda>d e. lunique s d \<le> lunique_start e + 1) data"
  shows "sorted_wrt (<) (label_list (lunique s) data)"
  using assms by (induction data) (force simp: label_list_def sorted_wrt_append)+

lemma blocks_in_order:
  assumes cov: "covers 0 w rs" and fit: "labels_fit h rs data"
    and starts: "\<And>d. d \<in> set data \<Longrightarrow> col_start d \<in> fst ` set rs \<and> lunique_start d = col_start d * h"
    and sorted: "sorted_wrt (\<lambda>d e. col_start d < col_start e) data"
  shows "sorted_wrt (\<lambda>d e. lunique s d \<le> lunique_start e + 1) data"
  using sorted
proof (rule sorted_wrt_mono_rel [rotated])
  fix d e
  assume de: "d \<in> set data" "e \<in> set data" "col_start d < col_start e"
  then obtain r q where r: "r \<in> set rs" "fst r = col_start d" and q: "q \<in> set rs" "fst q = col_start e"
    using starts by (metis imageE)
  have "snd r \<le> col_start e"
    using covers_apart [OF cov r(1) q(1)] covers_bounds [OF cov q(1)] de(3) r(2) q(2) by auto
  then have "snd r * h \<le> lunique_start e"
    using starts [OF de(2)] by (simp add: mult_le_mono1)
  moreover have "lunique s d \<le> snd r * h"
    using fit de(1) r by (cases s) (auto simp: labels_fit_def list_all_iff lunique_def)
  ultimately show "lunique s d \<le> lunique_start e + 1"
    by simp
qed

context ccl_steps
begin

lemma scan_and_merge_data:
  assumes cov: "covers 0 (cols X) rs"
    and res: "scan_and_merge pixel row_border col_border (sc_neg X) (sc_fs X) (sc_img X) (sc_tp X) (sc_tn X) rs =
      (st, data)"
  shows "d \<in> set data \<Longrightarrow> col_start d \<in> fst ` set rs \<and> lunique_start d = col_start d * (rows X div 2)"
    and "sorted_wrt (\<lambda>d e. col_start d < col_start e) data"
proof -
  obtain st1 data1 where scan: "slices X rs (init_state, []) = (st1, data1)"
    by fastforce
  have data: "data = sort_key col_start data1"
    using res scan by (auto simp: scan_and_merge_def slices_def Let_def)
  have starts: "map col_start data1 = map fst rs" "map lunique_start data1 = map (\<lambda>r. fst r * (rows X div 2)) rs"
    using slices_starts [OF scan] by simp_all
  show "col_start d \<in> fst ` set rs \<and> lunique_start d = col_start d * (rows X div 2)" if "d \<in> set data"
  proof -
    from that obtain i where i: "i < length data1" "d = data1 ! i"
      by (auto simp: data in_set_conv_nth)
    moreover have "length data1 = length rs"
      using starts(1) by (metis length_map)
    ultimately have "i < length rs" "col_start d = fst (rs ! i)" "lunique_start d = fst (rs ! i) * (rows X div 2)"
      using arg_cong [OF starts(1), of "\<lambda>xs. xs ! i"] arg_cong [OF starts(2), of "\<lambda>xs. xs ! i"] by simp_all
    then show ?thesis by simp
  qed
  have "distinct (map col_start data1)"
    using covers_distinct [OF cov] by (simp add: starts(1))
  then have "distinct (map col_start data)"
    by (simp add: data distinct_map)
  moreover have "sorted (map col_start data)"
    by (simp add: data)
  ultimately show "sorted_wrt (\<lambda>d e. col_start d < col_start e) data"
    using strict_sorted_iff [of "map col_start data"] by (simp add: sorted_wrt_map)
qed

text \<open>What the analysis leaves in the trees.\<close>

lemma analyse_scan:
  assumes X: "scene_ok X" and cov: "covers 0 (cols X) rs" and W: "wrap \<and> \<not> sc_fs X \<longrightarrow> wrap_safe (cols X) rs"
    and starts_all: "fst ` set rs \<subseteq> starts"
    and res: "scan_and_merge pixel row_border col_border (sc_neg X) (sc_fs X) (sc_img X) (sc_tp X) (sc_tn X) rs =
      (st, data)"
    and fit: "labels_fit (rows X div 2) rs data"
    and analyse: "analyse (lunique s) data (tree_of s st) = (Q, k)"
  shows "\<And>i. i \<in> slice_labels s data \<Longrightarrow> Q i = label_number (tree_of s st) (slice_labels s data) i"
    and "k = Suc (card (roots (tree_of s st) (slice_labels s data)))"
proof -
  have "forest (tree_of s st) (slice_labels s data)"
    using sign_inv_forest [OF scan_and_merge_inv [OF X cov W starts_all res fit]] by blast
  moreover have "sorted_wrt (<) (label_list (lunique s) data)"
    using scan_and_merge_data [OF cov res] by (intro label_list_sorted blocks_in_order [OF cov fit])
  ultimately show "\<And>i. i \<in> slice_labels s data \<Longrightarrow> Q i = label_number (tree_of s st) (slice_labels s data) i"
    and "k = Suc (card (roots (tree_of s st) (slice_labels s data)))"
    using analyse_numbers label_list_set analyse by blast+
qed

end

section \<open>The final labels\<close>

text \<open>The final labelling stage for one pixel of the label map.\<close>

definition resolve_label :: "tree \<Rightarrow> tree \<Rightarrow> int \<Rightarrow> int" where
  "resolve_label P N v =
     (if v = 0 then v
      else if v > 0 then (let l = int (P (nat v)) in if l > 0 then l else v)
      else (let l = int (N (nat (- v))) in if l > 0 then - l else v))"

definition final_label :: "(nat \<Rightarrow> nat \<Rightarrow> int) \<times> tree \<times> tree \<times> nat \<times> nat \<Rightarrow> nat \<Rightarrow> nat \<Rightarrow> int" where
  "final_label out r m = (case out of (L, P, N, num_pos, num_neg) \<Rightarrow> resolve_label P N (L r m))"

definition num_labels :: "sign \<Rightarrow> (nat \<Rightarrow> nat \<Rightarrow> int) \<times> tree \<times> tree \<times> nat \<times> nat \<Rightarrow> nat" where
  "num_labels s out = (case out of (L, P, N, num_pos, num_neg) \<Rightarrow> case s of Pos \<Rightarrow> num_pos | Neg \<Rightarrow> num_neg)"

text \<open>
  The accesses of the final labelling stage: the tree has a final label for the label of the pixel, and it is
  one of the labels that the function counts.
\<close>

definition label_resolved :: "(nat \<Rightarrow> nat \<Rightarrow> int) \<times> tree \<times> tree \<times> nat \<times> nat \<Rightarrow> nat \<Rightarrow> nat \<Rightarrow> bool" where
  "label_resolved out r m \<longleftrightarrow> (case out of (L, P, N, num_pos, num_neg) \<Rightarrow>
     (L r m > 0 \<longrightarrow> P (nat (L r m)) \<in> {1..num_pos}) \<and> (L r m < 0 \<longrightarrow> N (nat (- L r m)) \<in> {1..num_neg}))"

lemma lunique_fields: "lunique Pos = lunique_p" "lunique Neg = lunique_n"
  by (simp_all add: fun_eq_iff lunique_def)

context ccl_steps
begin

text \<open>
  The whole labelling: a pixel of sign \<open>s\<close> ends with the label whose node is the number of its tree.
\<close>

lemma labeling_final:
  assumes X: "scene_ok X" and cov: "covers 0 (cols X) rs" and W: "wrap \<and> \<not> sc_fs X \<longrightarrow> wrap_safe (cols X) rs"
    and starts_all: "fst ` set rs \<subseteq> starts"
    and res: "scan_and_merge pixel row_border col_border (sc_neg X) (sc_fs X) (sc_img X) (sc_tp X) (sc_tn X) rs =
      (st, data)"
    and fit: "labels_fit (rows X div 2) rs data"
    and out: "out = finish (sc_neg X) (st, data)"
  shows "fg X s (r, c) \<Longrightarrow> final_label out r (mc X c) =
      to_label s (label_number (tree_of s st) (slice_labels s data) (view X s st (r, c)))"
    and "r < rows X \<Longrightarrow> c < cols X \<Longrightarrow> (\<And>s. \<not> fg X s (r, c)) \<Longrightarrow> final_label out r (mc X c) = 0"
    and "s = Pos \<or> sc_neg X \<Longrightarrow> num_labels s out = card (roots (tree_of s st) (slice_labels s data))"
proof -
  note inv = scan_and_merge_inv [OF X cov W starts_all res fit]
  note numbers = analyse_scan [OF X cov W starts_all res fit]
  obtain P k where P: "analyse lunique_p data (Pp st) = (P, k)" by fastforce
  obtain N j where N: "analyse lunique_n data (Pn st) = (N, j)" by fastforce
  have out2: "out = (if sc_neg X then (lmap st, P, N, k - 1, j - 1) else (lmap st, P, Pn st, k - 1, 0))"
    by (simp add: out finish_def P N)
  have pos: "i \<in> slice_labels Pos data \<Longrightarrow> P i = label_number (tree_of Pos st) (slice_labels Pos data) i"
    "k = Suc (card (roots (tree_of Pos st) (slice_labels Pos data)))" for i
    using numbers [where s = Pos and Q = P and k = k] P by (simp_all add: tree_of_def lunique_fields)
  have neg: "i \<in> slice_labels Neg data \<Longrightarrow> N i = label_number (tree_of Neg st) (slice_labels Neg data) i"
    "j = Suc (card (roots (tree_of Neg st) (slice_labels Neg data)))" for i
    using numbers [where s = Neg and Q = N and k = j] N by (simp_all add: tree_of_def lunique_fields)
  show "num_labels s out = card (roots (tree_of s st) (slice_labels s data))" if "s = Pos \<or> sc_neg X"
    using that pos(2) neg(2) by (cases s) (auto simp: out2 num_labels_def)
  show "final_label out r (mc X c) = 0" if "r < rows X" "c < cols X" "\<And>s. \<not> fg X s (r, c)"
  proof -
    have "\<not> hit s (lmap st r (mc X c))" for s
      using sign_inv_hit [OF inv that(1,2)] that(3) by blast
    from this [of Pos] this [of Neg] have "lmap st r (mc X c) = 0"
      by (simp add: hit_def)
    then show ?thesis
      by (simp add: out2 final_label_def resolve_label_def)
  qed
  assume p: "fg X s (r, c)"
  let ?A = "slice_labels s data" and ?n = "view X s st (r, c)"
  have rc: "r < rows X" "c < cols X"
    using fg_range [OF p] by auto
  have hit: "hit s (lmap st r (mc X c))"
    using sign_inv_hit [OF inv rc] p by simp
  then have n: "?n \<noteq> 0" and L: "lmap st r (mc X c) = to_label s ?n"
    using view_pos [OF rc] view_node [OF rc] label_of_node by metis+
  have A: "?n \<in> ?A"
    by (rule sign_inv_alloc [OF inv n])
  have "0 < label_number (tree_of s st) ?A ?n"
    using label_number_range [OF _ sign_inv_forest [OF inv] A] by (simp add: slice_labels_def)
  moreover have "s = Neg \<Longrightarrow> sc_neg X"
    using p by (simp add: fg_def Let_def)
  ultimately show "final_label out r (mc X c) = to_label s (label_number (tree_of s st) ?A ?n)"
    using A n pos(1) neg(1)
    by (cases s) (auto simp: final_label_def out2 L resolve_label_def to_label_def Let_def)
qed

lemma labeling_resolved:
  assumes X: "scene_ok X" and cov: "covers 0 (cols X) rs" and W: "wrap \<and> \<not> sc_fs X \<longrightarrow> wrap_safe (cols X) rs"
    and starts_all: "fst ` set rs \<subseteq> starts"
    and res: "scan_and_merge pixel row_border col_border (sc_neg X) (sc_fs X) (sc_img X) (sc_tp X) (sc_tn X) rs =
      (st, data)"
    and fit: "labels_fit (rows X div 2) rs data"
    and out: "out = finish (sc_neg X) (st, data)"
    and rc: "r < rows X" "c < cols X"
  shows "label_resolved out r (mc X c)"
proof -
  note inv = scan_and_merge_inv [OF X cov W starts_all res fit]
  note numbers = analyse_scan [OF X cov W starts_all res fit]
  obtain P k where P: "analyse lunique_p data (Pp st) = (P, k)" by fastforce
  obtain N j where N: "analyse lunique_n data (Pn st) = (N, j)" by fastforce
  have out2: "out = (if sc_neg X then (lmap st, P, N, k - 1, j - 1) else (lmap st, P, Pn st, k - 1, 0))"
    by (simp add: out finish_def P N)
  have pos: "i \<in> slice_labels Pos data \<Longrightarrow> P i \<in> {1..k - 1}" for i
    using numbers [where s = Pos and Q = P and k = k] P label_number_range [OF _ sign_inv_forest [OF inv], of Pos i]
    by (simp add: tree_of_def lunique_fields slice_labels_def)
  have neg: "i \<in> slice_labels Neg data \<Longrightarrow> N i \<in> {1..j - 1}" for i
    using numbers [where s = Neg and Q = N and k = j] N label_number_range [OF _ sign_inv_forest [OF inv], of Neg i]
    by (simp add: tree_of_def lunique_fields slice_labels_def)
  have A: "nat (case s of Pos \<Rightarrow> lmap st r (mc X c) | Neg \<Rightarrow> - lmap st r (mc X c)) \<in> slice_labels s data \<and>
      (s = Neg \<longrightarrow> sc_neg X)" if hit: "hit s (lmap st r (mc X c))" for s
  proof -
    have fg: "fg X s (r, c)"
      using sign_inv_hit [OF inv rc] hit by simp
    have L: "view X s st (r, c) \<noteq> 0" "lmap st r (mc X c) = to_label s (view X s st (r, c))"
      using hit view_pos [OF rc] view_node [OF rc] label_of_node by metis+
    with sign_inv_alloc [OF inv L(1)] fg show ?thesis
      by (cases s) (simp_all add: to_label_def fg_def Let_def)
  qed
  show ?thesis
    using A [of Pos] A [of Neg] pos neg by (auto simp: label_resolved_def out2 hit_def)
qed

lemma labeling_sign:
  assumes X: "scene_ok X" and cov: "covers 0 (cols X) rs" and W: "wrap \<and> \<not> sc_fs X \<longrightarrow> wrap_safe (cols X) rs"
    and starts_all: "fst ` set rs \<subseteq> starts"
    and res: "scan_and_merge pixel row_border col_border (sc_neg X) (sc_fs X) (sc_img X) (sc_tp X) (sc_tn X) rs =
      (st, data)"
    and fit: "labels_fit (rows X div 2) rs data"
    and out: "out = finish (sc_neg X) (st, data)"
    and rc: "r < rows X" "c < cols X"
  shows "hit s (final_label out r (mc X c)) \<longleftrightarrow> fg X s (r, c)"
proof (cases "\<exists>s. fg X s (r, c)")
  case True
  then obtain t where t: "fg X t (r, c)" by blast
  note inv = scan_and_merge_inv [OF X cov W starts_all res fit]
  have "view X t st (r, c) \<noteq> 0"
    using sign_inv_labelled [OF inv] t by blast
  from sign_inv_alloc [OF inv this]
  have "0 < label_number (tree_of t st) (slice_labels t data) (view X t st (r, c))"
    using label_number_range [OF _ sign_inv_forest [OF inv]] by (simp add: slice_labels_def)
  then have "hit t (final_label out r (mc X c))"
    using labeling_final(1) [OF X cov W starts_all res fit out t] by simp
  with t show ?thesis
    using hit_unique fg_sign by metis
next
  case False
  then show ?thesis
    using labeling_final(2) [OF X cov W starts_all res fit out rc] by (cases s) (auto simp: hit_def)
qed

lemma labeling_partition:
  assumes X: "scene_ok X" and cov: "covers 0 (cols X) rs" and W: "wrap \<and> \<not> sc_fs X \<longrightarrow> wrap_safe (cols X) rs"
    and starts_all: "fst ` set rs \<subseteq> starts"
    and res: "scan_and_merge pixel row_border col_border (sc_neg X) (sc_fs X) (sc_img X) (sc_tp X) (sc_tn X) rs =
      (st, data)"
    and fit: "labels_fit (rows X div 2) rs data"
    and out: "out = finish (sc_neg X) (st, data)"
    and rc: "r < rows X" "c < cols X" "r' < rows X" "c' < cols X"
    and edges: "\<And>s. induced X s (edges X) \<subseteq> eqv (induced X s (all_edges X rs))"
  shows "final_label out r (mc X c) \<noteq> 0 \<and> final_label out r (mc X c) = final_label out r' (mc X c') \<longleftrightarrow>
    (\<exists>s. fg X s (r, c) \<and> fg X s (r', c') \<and> ((r, c), (r', c')) \<in> eqv (induced X s (edges X)))"
proof -
  note sign = labeling_sign [OF X cov W starts_all res fit out]
  note final = labeling_final(1) [OF X cov W starts_all res fit out]
  note inv = scan_and_merge_inv [OF X cov W starts_all res fit]
  have eq: "final_label out r (mc X c) = final_label out r' (mc X c') \<longleftrightarrow>
      ((r, c), (r', c')) \<in> eqv (induced X s (edges X))" if fg: "fg X s (r, c)" "fg X s (r', c')" for s
  proof -
    let ?A = "slice_labels s data" and ?T = "tree_of s st"
    have "final_label out r (mc X c) = final_label out r' (mc X c') \<longleftrightarrow>
        label_number ?T ?A (view X s st (r, c)) = label_number ?T ?A (view X s st (r', c'))"
      using final [OF fg(1)] final [OF fg(2)] to_node_label by metis
    also have "\<dots> \<longleftrightarrow> find_root ?T (view X s st (r, c)) = find_root ?T (view X s st (r', c'))"
      using sign_inv_alloc [OF inv] sign_inv_labelled [OF inv] fg
      by (intro label_number_eq [OF _ sign_inv_forest [OF inv]]) (auto simp: slice_labels_def)
    also have "\<dots> \<longleftrightarrow> ((r, c), (r', c')) \<in> eqv (induced X s (edges X))"
      by (rule sign_inv_connected [OF inv edges fg])
    finally show ?thesis .
  qed
  show ?thesis
  proof
    assume l: "final_label out r (mc X c) \<noteq> 0 \<and> final_label out r (mc X c) = final_label out r' (mc X c')"
    then obtain s where "hit s (final_label out r (mc X c))"
      by (metis hit_def linorder_neqE_linordered_idom sign.simps(3,4))
    then have "fg X s (r, c)" "fg X s (r', c')"
      using sign [OF rc(1,2)] sign [OF rc(3,4)] l by auto
    with eq l show "\<exists>s. fg X s (r, c) \<and> fg X s (r', c') \<and> ((r, c), (r', c')) \<in> eqv (induced X s (edges X))"
      by blast
  next
    assume "\<exists>s. fg X s (r, c) \<and> fg X s (r', c') \<and> ((r, c), (r', c')) \<in> eqv (induced X s (edges X))"
    then obtain s where s: "fg X s (r, c)" "fg X s (r', c')" "((r, c), (r', c')) \<in> eqv (induced X s (edges X))"
      by blast
    have "final_label out r (mc X c) \<noteq> 0"
      using sign [OF rc(1,2), of s] s(1) by (cases s) (auto simp: hit_def)
    with eq s show "final_label out r (mc X c) \<noteq> 0 \<and> final_label out r (mc X c) = final_label out r' (mc X c')"
      by blast
  qed
qed

lemma labeling_consecutive:
  assumes X: "scene_ok X" and cov: "covers 0 (cols X) rs" and W: "wrap \<and> \<not> sc_fs X \<longrightarrow> wrap_safe (cols X) rs"
    and starts_all: "fst ` set rs \<subseteq> starts"
    and res: "scan_and_merge pixel row_border col_border (sc_neg X) (sc_fs X) (sc_img X) (sc_tp X) (sc_tn X) rs =
      (st, data)"
    and fit: "labels_fit (rows X div 2) rs data"
    and out: "out = finish (sc_neg X) (st, data)"
    and s: "s = Pos \<or> sc_neg X"
  shows "{n. \<exists>r c. fg X s (r, c) \<and> final_label out r (mc X c) = to_label s n} = {1..num_labels s out}"
proof -
  let ?A = "slice_labels s data" and ?T = "tree_of s st"
  note final = labeling_final(1) [OF X cov W starts_all res fit out]
  note inv = scan_and_merge_inv [OF X cov W starts_all res fit]
  obtain E where E: "uf.labels_ok (view X s st) ?T ?A E"
    and fg: "\<And>p. view X s st p \<noteq> 0 \<longleftrightarrow> fg X s p"
    using inv [of s] unfolding sign_inv_def by auto
  have fin: "finite ?A"
    by (simp add: slice_labels_def)
  have "n \<in> label_number ?T ?A ` ?A \<longleftrightarrow> (\<exists>p. fg X s p \<and> n = label_number ?T ?A (view X s st p))" for n
  proof
    assume "n \<in> label_number ?T ?A ` ?A"
    then obtain a where a: "a \<in> ?A" "n = label_number ?T ?A a" by blast
    from uf.labels_okD(3) [OF E a(1)] obtain p where "view X s st p \<noteq> 0"
      "find_root ?T (view X s st p) = find_root ?T a" by blast
    with a fg show "\<exists>p. fg X s p \<and> n = label_number ?T ?A (view X s st p)"
      by (intro exI [of _ p]) (simp add: label_number_def)
  next
    assume "\<exists>p. fg X s p \<and> n = label_number ?T ?A (view X s st p)"
    then show "n \<in> label_number ?T ?A ` ?A"
      using fg sign_inv_alloc [OF inv] by blast
  qed
  moreover have "(\<exists>r c. fg X s (r, c) \<and> final_label out r (mc X c) = to_label s n) \<longleftrightarrow>
      (\<exists>p. fg X s p \<and> n = label_number ?T ?A (view X s st p))" for n
    using final [where s = s] to_node_label by (metis surj_pair)
  ultimately have "{n. \<exists>r c. fg X s (r, c) \<and> final_label out r (mc X c) = to_label s n} = label_number ?T ?A ` ?A"
    by blast
  also have "\<dots> = {1..num_labels s out}"
    unfolding labeling_final(3) [OF X cov W starts_all res fit out s]
    by (rule label_number_onto [OF fin sign_inv_forest [OF inv]])
  finally show ?thesis .
qed

end

end
