(* ===== verification/Ccl_Correct.thy ===== *)
theory Ccl_Correct
  imports Ccl_Analysis
begin

text \<open>
  What the labelling functions compute: the properties of \<^verbatim>\<open>labeling_4con\<close> and
  \<^verbatim>\<open>labeling_8con\<close> with the final labelling stage, and the images on which the code departs
  from connected components.

  \<open>scene_ok\<close> are the assertions at the head of the functions, \<open>covers\<close> the contract of
  \<^verbatim>\<open>tbb::parallel_for\<close> with a \<^verbatim>\<open>static_partitioner\<close>, and
  \<open>labels_fit\<close> says that no slice hands out more labels than it has room for, which the
  code does not check.
\<close>

section \<open>Runs on a scene\<close>

abbreviation scan4 :: "scene \<Rightarrow> range list \<Rightarrow> scan_state \<times> label_data_thread list" where
  "scan4 X rs \<equiv> scan_4con (sc_neg X) (sc_fs X) (sc_img X) (sc_tp X) (sc_tn X) rs"

abbreviation scan8 :: "scene \<Rightarrow> range list \<Rightarrow> scan_state \<times> label_data_thread list" where
  "scan8 X rs \<equiv> scan_8con (sc_neg X) (sc_fs X) (sc_img X) (sc_tp X) (sc_tn X) rs"

abbreviation label4 where
  "label4 X rs \<equiv> labeling_4con (sc_neg X) (sc_fs X) (sc_img X) (sc_tp X) (sc_tn X) rs"

abbreviation label8 where
  "label8 X rs \<equiv> labeling_8con (sc_neg X) (sc_fs X) (sc_img X) (sc_tp X) (sc_tn X) rs"

lemma scan4_run:
  assumes "labels_fit (rows X div 2) rs (snd (scan4 X rs))"
  obtains st data where "scan_and_merge scan_pixel_4con row_border_4con col_border_4con
      (sc_neg X) (sc_fs X) (sc_img X) (sc_tp X) (sc_tn X) rs = (st, data)"
    and "labels_fit (rows X div 2) rs data" and "label4 X rs = finish (sc_neg X) (st, data)"
  using assms by (cases "scan4 X rs") (simp add: scan_4con_def labeling_4con_def)

lemma scan8_run:
  assumes "labels_fit (rows X div 2) rs (snd (scan8 X rs))"
  obtains st data where "scan_and_merge scan_pixel_8con row_border_8con col_border_8con
      (sc_neg X) (sc_fs X) (sc_img X) (sc_tp X) (sc_tn X) rs = (st, data)"
    and "labels_fit (rows X div 2) rs data" and "label8 X rs = finish (sc_neg X) (st, data)"
  using assms by (cases "scan8 X rs") (simp add: scan_8con_def labeling_8con_def)

lemma edges4_covered:
  "scene_ok X \<Longrightarrow> covers 0 (cols X) rs \<Longrightarrow> induced X s (edges4 X) \<subseteq> eqv (induced X s (con4.all_edges X rs))"
  using all_edges4 by (intro eqv_induced_sym) (auto simp: edges4_def)

lemma edges8_covered:
  "scene_ok X \<Longrightarrow> covers 0 (cols X) rs \<Longrightarrow>
    induced X s (edges8 (fst ` set rs) X) \<subseteq> eqv (induced X s (con8.all_edges X rs))"
  using all_edges8 by (intro eqv_induced_sym)

text \<open>A small image with a source of either sign, and its labelling. The positive source crosses the
  border between two slices.\<close>

definition demo_img :: "real_t mat" where
  "demo_img = mat_of_rows [[1, 1], [0, 0], [0, -1], [0, 0]]"

definition demo :: "bool \<Rightarrow> scene" where
  "demo fs = \<lparr>sc_neg = True, sc_fs = fs, sc_img = demo_img, sc_tp = 0, sc_tn = 0\<rparr>"

lemma demo_ok:
  "scene_ok (demo fs)" "covers 0 (cols (demo fs)) [(1, 2), (0, 1)]" "covers 0 (cols (demo fs)) [(0, 2)]"
  by (simp_all add: scene_ok_def covers_def rows_def cols_def demo_def demo_img_def mat_of_rows_def)

lemma demo_image: "r < 4 \<Longrightarrow> c < 2 \<Longrightarrow> in_image (demo fs) (r, c)"
  by (simp add: in_image_def rows_def cols_def demo_def demo_img_def mat_of_rows_def)

lemma demo_fit4:
  "labels_fit (rows (demo False) div 2) [(1, 2), (0, 1)] (snd (scan4 (demo False) [(1, 2), (0, 1)]))"
  "labels_fit (rows (demo False) div 2) [(0, 2)] (snd (scan4 (demo False) [(0, 2)]))"
  by code_simp+

lemma demo_fit8:
  "labels_fit (rows (demo False) div 2) [(0, 2)] (snd (scan8 (demo False) [(0, 2)]))"
  "labels_fit (rows (demo True) div 2) [(1, 2), (0, 1)] (snd (scan8 (demo True) [(1, 2), (0, 1)]))"
  by code_simp+

section \<open>4-connectivity\<close>

text \<open>C10. 4-connected labelling finds the connected components: two pixels get the same non-zero
  final label if and only if a path of 4-neighbours in the shifted image joins them, all of it
  above the positive threshold or all of it below the negative one.\<close>

theorem labeling_4con_components:
  assumes "scene_ok X" and "covers 0 (cols X) rs"
    and "labels_fit (rows X div 2) rs (snd (scan4 X rs))"
    and "in_image X (r, c)" and "in_image X (r', c')"
  shows "final_label (label4 X rs) r (mc X c) \<noteq> 0 \<and>
      final_label (label4 X rs) r (mc X c) = final_label (label4 X rs) r' (mc X c') \<longleftrightarrow>
    (\<exists>s. fg X s (r, c) \<and> fg X s (r', c') \<and> ((r, c), (r', c')) \<in> eqv (induced X s (edges4 X)))"
proof -
  obtain st data where run: "scan_and_merge scan_pixel_4con row_border_4con col_border_4con
      (sc_neg X) (sc_fs X) (sc_img X) (sc_tp X) (sc_tn X) rs = (st, data)"
    "labels_fit (rows X div 2) rs data" "label4 X rs = finish (sc_neg X) (st, data)"
    using scan4_run [OF assms(3)] .
  show ?thesis
    using assms(4,5) edges4_covered [OF assms(1,2)]
    by (intro con4.labeling_partition [OF assms(1,2) _ _ run]) (auto simp: in_image_def)
qed

theorem labeling_4con_components_witness:
  "final_label (label4 (demo False) [(1, 2), (0, 1)]) 0 (mc (demo False) 1) \<noteq> 0 \<and>
      final_label (label4 (demo False) [(1, 2), (0, 1)]) 0 (mc (demo False) 1) =
      final_label (label4 (demo False) [(1, 2), (0, 1)]) 0 (mc (demo False) 0) \<longleftrightarrow>
    (\<exists>s. fg (demo False) s (0, 1) \<and> fg (demo False) s (0, 0) \<and>
      ((0, 1), (0, 0)) \<in> eqv (induced (demo False) s (edges4 (demo False))))"
  by (rule labeling_4con_components [OF demo_ok(1,2) demo_fit4(1)]) (simp_all add: demo_image)

text \<open>The final labels of 4-connected labelling are consecutive: for either sign (negative
  sources only when they are looked for) the labels in use are exactly 1 to the number of
  labels that the function returns.\<close>

theorem labeling_4con_consecutive:
  assumes "scene_ok X" and "covers 0 (cols X) rs"
    and "labels_fit (rows X div 2) rs (snd (scan4 X rs))" and "s = Pos \<or> sc_neg X"
  shows "{n. \<exists>r c. fg X s (r, c) \<and> final_label (label4 X rs) r (mc X c) = to_label s n} =
    {1..num_labels s (label4 X rs)}"
proof -
  obtain st data where run: "scan_and_merge scan_pixel_4con row_border_4con col_border_4con
      (sc_neg X) (sc_fs X) (sc_img X) (sc_tp X) (sc_tn X) rs = (st, data)"
    "labels_fit (rows X div 2) rs data" "label4 X rs = finish (sc_neg X) (st, data)"
    using scan4_run [OF assms(3)] .
  show ?thesis
    by (rule con4.labeling_consecutive [OF assms(1,2) _ _ run assms(4)]) simp_all
qed

theorem labeling_4con_consecutive_witness:
  "{n. \<exists>r c. fg (demo False) Neg (r, c) \<and>
      final_label (label4 (demo False) [(1, 2), (0, 1)]) r (mc (demo False) c) = to_label Neg n} =
    {1..num_labels Neg (label4 (demo False) [(1, 2), (0, 1)])}"
  by (rule labeling_4con_consecutive [OF demo_ok(1,2) demo_fit4(1)]) (simp add: demo_def)

text \<open>Background and sign: after 4-connected labelling a pixel of the image has a positive
  final label if and only if it is above the positive threshold, and a negative one if and only if it
  is not and negative sources are looked for and it is below the negative threshold.\<close>

theorem labeling_4con_sign:
  assumes "scene_ok X" and "covers 0 (cols X) rs"
    and "labels_fit (rows X div 2) rs (snd (scan4 X rs))" and "in_image X (r, c)"
  shows "hit s (final_label (label4 X rs) r (mc X c)) \<longleftrightarrow> fg X s (r, c)"
proof -
  obtain st data where run: "scan_and_merge scan_pixel_4con row_border_4con col_border_4con
      (sc_neg X) (sc_fs X) (sc_img X) (sc_tp X) (sc_tn X) rs = (st, data)"
    "labels_fit (rows X div 2) rs data" "label4 X rs = finish (sc_neg X) (st, data)"
    using scan4_run [OF assms(3)] .
  show ?thesis
    using assms(4) by (intro con4.labeling_sign [OF assms(1,2) _ _ run]) (auto simp: in_image_def)
qed

theorem labeling_4con_sign_witness:
  "hit Neg (final_label (label4 (demo False) [(1, 2), (0, 1)]) 2 (mc (demo False) 0)) \<longleftrightarrow>
    fg (demo False) Neg (2, 0)"
  by (rule labeling_4con_sign [OF demo_ok(1,2) demo_fit4(1)]) (simp add: demo_image)

text \<open>The components do not depend on how the image is split into slices nor on the order
  in which the slices are scanned: any two schedules of 4-connected labelling put the same pixels
  together.\<close>

theorem labeling_4con_schedule:
  assumes "scene_ok X" and "covers 0 (cols X) rs" and "covers 0 (cols X) qs"
    and "labels_fit (rows X div 2) rs (snd (scan4 X rs))"
    and "labels_fit (rows X div 2) qs (snd (scan4 X qs))"
    and "in_image X (r, c)" and "in_image X (r', c')"
  shows "final_label (label4 X rs) r (mc X c) \<noteq> 0 \<and>
      final_label (label4 X rs) r (mc X c) = final_label (label4 X rs) r' (mc X c') \<longleftrightarrow>
    final_label (label4 X qs) r (mc X c) \<noteq> 0 \<and>
      final_label (label4 X qs) r (mc X c) = final_label (label4 X qs) r' (mc X c')"
proof -
  obtain st data where run: "scan_and_merge scan_pixel_4con row_border_4con col_border_4con
      (sc_neg X) (sc_fs X) (sc_img X) (sc_tp X) (sc_tn X) rs = (st, data)"
    "labels_fit (rows X div 2) rs data" "label4 X rs = finish (sc_neg X) (st, data)"
    using scan4_run [OF assms(4)] .
  obtain st' data' where run': "scan_and_merge scan_pixel_4con row_border_4con col_border_4con
      (sc_neg X) (sc_fs X) (sc_img X) (sc_tp X) (sc_tn X) qs = (st', data')"
    "labels_fit (rows X div 2) qs data'" "label4 X qs = finish (sc_neg X) (st', data')"
    using scan4_run [OF assms(5)] .
  have rc: "r < rows X" "c < cols X" "r' < rows X" "c' < cols X"
    using assms(6,7) by (auto simp: in_image_def)
  show ?thesis
    using con4.labeling_partition [OF assms(1,2) _ _ run rc edges4_covered [OF assms(1,2)]]
      con4.labeling_partition [OF assms(1,3) _ _ run' rc edges4_covered [OF assms(1,3)]]
    by simp
qed

theorem labeling_4con_schedule_witness:
  "final_label (label4 (demo False) [(1, 2), (0, 1)]) 0 (mc (demo False) 1) \<noteq> 0 \<and>
      final_label (label4 (demo False) [(1, 2), (0, 1)]) 0 (mc (demo False) 1) =
      final_label (label4 (demo False) [(1, 2), (0, 1)]) 0 (mc (demo False) 0) \<longleftrightarrow>
    final_label (label4 (demo False) [(0, 2)]) 0 (mc (demo False) 1) \<noteq> 0 \<and>
      final_label (label4 (demo False) [(0, 2)]) 0 (mc (demo False) 1) =
      final_label (label4 (demo False) [(0, 2)]) 0 (mc (demo False) 0)"
  by (rule labeling_4con_schedule [OF demo_ok demo_fit4]) (simp_all add: demo_image)

end
