(* ===== verification/Ccl_Correct8.thy ===== *)
theory Ccl_Correct8
  imports Ccl_Correct
begin

text \<open>
  The properties of \<^verbatim>\<open>labeling_8con\<close>, and the images on which the labelling functions depart
  from connected components: the seam of the 8-connected labelling, the wrap-around of its row border,
  and slices that hand out more labels than they have room for.
\<close>

section \<open>8-connectivity\<close>

lemma demo_fs: "sc_fs (demo fs) = fs"
  by (simp add: demo_def)

text \<open>C9. 8-connected labelling: two pixels get the same non-zero final label if and only if a path
  of 8-neighbours in the shifted image joins them within one sign, where the diagonals across
  the middle row that no slice start looks at (the seam) do not count. Outside of FFTSHIFT
  the slice with the first column is to run before the last slice.\<close>

theorem labeling_8con_components:
  assumes "scene_ok X" and "covers 0 (cols X) rs" and "\<not> sc_fs X \<longrightarrow> wrap_safe (cols X) rs"
    and "labels_fit (rows X div 2) rs (snd (scan8 X rs))"
    and "in_image X (r, c)" and "in_image X (r', c')"
  shows "final_label (label8 X rs) r (mc X c) \<noteq> 0 \<and>
      final_label (label8 X rs) r (mc X c) = final_label (label8 X rs) r' (mc X c') \<longleftrightarrow>
    (\<exists>s. fg X s (r, c) \<and> fg X s (r', c') \<and>
      ((r, c), (r', c')) \<in> eqv (induced X s (edges8 (fst ` set rs) X)))"
proof -
  obtain st data where run: "scan_and_merge scan_pixel_8con row_border_8con col_border_8con
      (sc_neg X) (sc_fs X) (sc_img X) (sc_tp X) (sc_tn X) rs = (st, data)"
    "labels_fit (rows X div 2) rs data" "label8 X rs = finish (sc_neg X) (st, data)"
    using scan8_run [OF assms(4)] .
  show ?thesis
    using assms(3,5,6) edges8_covered [OF assms(1,2)]
    by (intro con8.labeling_partition [OF assms(1,2) _ _ run]) (auto simp: in_image_def)
qed

theorem labeling_8con_components_witness:
  "final_label (label8 (demo False) [(0, 2)]) 0 (mc (demo False) 1) \<noteq> 0 \<and>
      final_label (label8 (demo False) [(0, 2)]) 0 (mc (demo False) 1) =
      final_label (label8 (demo False) [(0, 2)]) 0 (mc (demo False) 0) \<longleftrightarrow>
    (\<exists>s. fg (demo False) s (0, 1) \<and> fg (demo False) s (0, 0) \<and>
      ((0, 1), (0, 0)) \<in> eqv (induced (demo False) s (edges8 (fst ` set [(0, 2 :: nat)]) (demo False))))"
  by (rule labeling_8con_components [OF demo_ok(1,3) _ demo_fit8(1)]) (simp_all add: demo_image)

text \<open>In the build with FFTSHIFT, 8-connected labelling finds the 8-connected components,
  whatever the slices and their order.\<close>

theorem labeling_8con_fftshift:
  assumes "scene_ok X" and "covers 0 (cols X) rs" and "sc_fs X"
    and "labels_fit (rows X div 2) rs (snd (scan8 X rs))"
    and "in_image X (r, c)" and "in_image X (r', c')"
  shows "final_label (label8 X rs) r (mc X c) \<noteq> 0 \<and>
      final_label (label8 X rs) r (mc X c) = final_label (label8 X rs) r' (mc X c') \<longleftrightarrow>
    (\<exists>s. fg X s (r, c) \<and> fg X s (r', c') \<and> ((r, c), (r', c')) \<in> eqv (induced X s {(p, q). adj8 X p q}))"
proof -
  obtain st data where run: "scan_and_merge scan_pixel_8con row_border_8con col_border_8con
      (sc_neg X) (sc_fs X) (sc_img X) (sc_tp X) (sc_tn X) rs = (st, data)"
    "labels_fit (rows X div 2) rs data" "label8 X rs = finish (sc_neg X) (st, data)"
    using scan8_run [OF assms(4)] .
  have "{(p, q). adj8 X p q} = edges8 (fst ` set rs) X"
    using assms(3) by (auto simp: edges8_def seam_def)
  moreover have "final_label (label8 X rs) r (mc X c) \<noteq> 0 \<and>
      final_label (label8 X rs) r (mc X c) = final_label (label8 X rs) r' (mc X c') \<longleftrightarrow>
    (\<exists>s. fg X s (r, c) \<and> fg X s (r', c') \<and>
      ((r, c), (r', c')) \<in> eqv (induced X s (edges8 (fst ` set rs) X)))"
    using assms(3,5,6) edges8_covered [OF assms(1,2)]
    by (intro con8.labeling_partition [OF assms(1,2) _ _ run]) (auto simp: in_image_def)
  ultimately show ?thesis by simp
qed

theorem labeling_8con_fftshift_witness:
  "final_label (label8 (demo True) [(1, 2), (0, 1)]) 0 (mc (demo True) 1) \<noteq> 0 \<and>
      final_label (label8 (demo True) [(1, 2), (0, 1)]) 0 (mc (demo True) 1) =
      final_label (label8 (demo True) [(1, 2), (0, 1)]) 0 (mc (demo True) 0) \<longleftrightarrow>
    (\<exists>s. fg (demo True) s (0, 1) \<and> fg (demo True) s (0, 0) \<and>
      ((0, 1), (0, 0)) \<in> eqv (induced (demo True) s {(p, q). adj8 (demo True) p q}))"
  by (rule labeling_8con_fftshift [OF demo_ok(1,2) _ demo_fit8(2)]) (simp_all add: demo_image demo_fs)

text \<open>C18. The final labels of 8-connected labelling are consecutive, and a pixel has a label of
  either sign if and only if it exceeds the threshold of that sign.\<close>

theorem labeling_8con_consecutive:
  assumes "scene_ok X" and "covers 0 (cols X) rs" and "\<not> sc_fs X \<longrightarrow> wrap_safe (cols X) rs"
    and "labels_fit (rows X div 2) rs (snd (scan8 X rs))" and "s = Pos \<or> sc_neg X"
  shows "{n. \<exists>r c. fg X s (r, c) \<and> final_label (label8 X rs) r (mc X c) = to_label s n} =
      {1..num_labels s (label8 X rs)} \<and>
    (\<forall>r c t. (in_image X (r, c) \<and> hit t (final_label (label8 X rs) r (mc X c))) = fg X t (r, c))"
proof -
  obtain st data where run: "scan_and_merge scan_pixel_8con row_border_8con col_border_8con
      (sc_neg X) (sc_fs X) (sc_img X) (sc_tp X) (sc_tn X) rs = (st, data)"
    "labels_fit (rows X div 2) rs data" "label8 X rs = finish (sc_neg X) (st, data)"
    using scan8_run [OF assms(4)] .
  have W: "True \<and> \<not> sc_fs X \<longrightarrow> wrap_safe (cols X) rs"
    using assms(3) by simp
  note sign = con8.labeling_sign [OF assms(1,2) W order.refl run]
  have "(in_image X (r, c) \<and> hit t (final_label (label8 X rs) r (mc X c))) = fg X t (r, c)" for r c t
  proof (cases "r < rows X \<and> c < cols X")
    case True
    then show ?thesis
      using sign [of r c t] by (simp add: in_image_def)
  next
    case False
    then show ?thesis
      using fg_range [of X t r c] by (auto simp: in_image_def)
  qed
  then show ?thesis
    using con8.labeling_consecutive [OF assms(1,2) W order.refl run assms(5)] by blast
qed

theorem labeling_8con_consecutive_witness:
  "{n. \<exists>r c. fg (demo False) Pos (r, c) \<and>
      final_label (label8 (demo False) [(0, 2)]) r (mc (demo False) c) = to_label Pos n} =
      {1..num_labels Pos (label8 (demo False) [(0, 2)])} \<and>
    (\<forall>r c t. (in_image (demo False) (r, c) \<and>
      hit t (final_label (label8 (demo False) [(0, 2)]) r (mc (demo False) c))) = fg (demo False) t (r, c))"
  by (rule labeling_8con_consecutive [OF demo_ok(1,3) _ demo_fit8(1)]) simp_all

section \<open>Where the code departs from connected components\<close>

definition seam_scene :: scene where
  "seam_scene = \<lparr>sc_neg = False, sc_fs = False,
     sc_img = mat_of_rows [[0, 1], [0, 0], [0, 0], [1, 0]], sc_tp = 0, sc_tn = 0\<rparr>"


definition full_scene :: scene where
  "full_scene = \<lparr>sc_neg = False, sc_fs = False,
     sc_img = mat_of_rows [[1, 0], [0, 1], [1, 0], [0, 1]], sc_tp = 0, sc_tn = 0\<rparr>"


definition shared_scene :: scene where
  "shared_scene = \<lparr>sc_neg = False, sc_fs = False,
     sc_img = mat_of_rows [[0, 1], [1, 0], [0, 1], [0, 0]], sc_tp = 0, sc_tn = 0\<rparr>"

text \<open>A slice that hands out a label too many runs into the entry that the next slice
  resets: on this image two sources that do not touch end with the same label.\<close>

theorem labeling_4con_shared_label:
  "scene_ok shared_scene \<and> covers 0 (cols shared_scene) [(0, 1), (1, 2)] \<and>
   final_label (label4 shared_scene [(0, 1), (1, 2)]) 2 (mc shared_scene 0) =
     final_label (label4 shared_scene [(0, 1), (1, 2)]) 1 (mc shared_scene 1) \<and>
   final_label (label4 shared_scene [(0, 2)]) 2 (mc shared_scene 0) \<noteq>
     final_label (label4 shared_scene [(0, 2)]) 1 (mc shared_scene 1)"
  by (intro conjI; code_simp)

definition wrap_scene :: scene where
  "wrap_scene = \<lparr>sc_neg = False, sc_fs = False,
     sc_img = mat_of_rows [[0, 0, 1, 0], [0, 0, 0, 0], [0, 0, 0, 0], [0, 1, 0, 0]], sc_tp = 0, sc_tn = 0\<rparr>"


end
