(* ===== verification/Ccl_Capacity.thy ===== *)
theory Ccl_Capacity
  imports Ccl_Correct8
begin

text \<open>
  When a slice does not run out of labels. A step hands out at most one label, and only to the sign
  it is done for; so a slice with fewer pixels of a sign than it has labels fits. This discharges the
  hypothesis \<open>labels_fit\<close> for images with few pixels over the threshold.
\<close>

locale ccl_counted = ccl_steps +
  assumes pixel_count: "next_of t (pixel s fs h lv m mp r st) \<le> next_of t st + (if t = s then 1 else 0)"

text \<open>The pixels of sign \<open>s\<close> among the columns from \<open>b\<close> to \<open>e\<close>.\<close>

definition slice_pixels :: "scene \<Rightarrow> sign \<Rightarrow> nat \<Rightarrow> nat \<Rightarrow> pixel set" where
  "slice_pixels X s b e = {p. fg X s p \<and> b \<le> snd p \<and> snd p < e}"

lemma slice_pixels_finite: "finite (slice_pixels X s b e)"
proof (rule finite_subset)
  show "slice_pixels X s b e \<subseteq> {0..<rows X} \<times> {0..<cols X}"
    by (auto simp: slice_pixels_def fg_def)
qed simp

lemma slice_pixels_Suc:
  assumes "b \<le> c"
  shows "card (slice_pixels X s b (Suc c)) = card (slice_pixels X s b c) + card {r. fg X s (r, c)}"
proof -
  have "slice_pixels X s b (Suc c) = slice_pixels X s b c \<union> (\<lambda>r. (r, c)) ` {r. fg X s (r, c)}"
    using assms by (auto simp: slice_pixels_def less_Suc_eq)
  moreover have "finite {r. fg X s (r, c)}"
    by (rule finite_subset [of _ "{0..<rows X}"]) (auto simp: fg_def)
  moreover have "slice_pixels X s b c \<inter> (\<lambda>r. (r, c)) ` {r. fg X s (r, c)} = {}"
    by (auto simp: slice_pixels_def)
  ultimately show ?thesis
    using slice_pixels_finite [of X s b c]
    by (simp add: card_Un_disjoint card_image inj_on_def)
qed

definition sparse :: "scene \<Rightarrow> range list \<Rightarrow> bool" where
  "sparse X rs = list_all (\<lambda>r. list_all (\<lambda>s.
     length (filter (fg X s) (List.product [0..<rows X] [fst r..<snd r])) < (snd r - fst r) * (rows X div 2))
     [Pos, Neg]) rs"

lemma slice_pixels_list:
  "card (slice_pixels X s b e) = length (filter (fg X s) (List.product [0..<rows X] [b..<e]))"
proof -
  have "slice_pixels X s b e = set (filter (fg X s) (List.product [0..<rows X] [b..<e]))"
    by (auto simp: slice_pixels_def dest: fg_range)
  moreover have "distinct (filter (fg X s) (List.product [0..<rows X] [b..<e]))"
    by (simp add: distinct_product)
  ultimately show ?thesis
    by (simp only: distinct_card)
qed

lemma sparse_slices:
  assumes "sparse X rs" and "r \<in> set rs"
  shows "card (slice_pixels X s (fst r) (snd r)) < (snd r - fst r) * (rows X div 2)"
  using assms by (cases s) (simp_all only: sparse_def list_all_iff slice_pixels_list list.set insert_iff, auto)

lemma slices_fit_labels:
  assumes "slices_fit h rs data" and "map col_start data = map fst rs" and "distinct (map fst rs)"
  shows "labels_fit h rs data"
proof -
  have len: "length data = length rs"
    using assms(2) by (metis length_map)
  have start: "fst (rs ! i) = col_start (data ! i)" if "i < length rs" for i
    using assms(2) that len by (metis nth_map)
  have "lunique_p (data ! i) \<le> snd r * h \<and> lunique_n (data ! i) \<le> snd r * h"
    if i: "i < length rs" and r: "r \<in> set rs" "fst r = col_start (data ! i)" for i r
  proof -
    obtain j where j: "j < length rs" "r = rs ! j"
      using r(1) by (auto simp: in_set_conv_nth)
    then have "map fst rs ! j = map fst rs ! i"
      using r(2) start [OF i] i by simp
    then have "r = rs ! i"
      using nth_eq_iff_index_eq [OF assms(3), of j i] i j by simp
    with assms(1) i show ?thesis
      unfolding slices_fit_def list_all2_conv_all_nth by blast
  qed
  then show ?thesis
    unfolding labels_fit_def list_all_iff using len by (metis in_set_conv_nth)
qed

context ccl_counted
begin

lemma column_count:
  assumes c: "c < cols X"
  shows "next_of s (scan_column pixel row_border (sc_neg X) (sc_fs X) (sc_img X) (sc_tp X) (sc_tn X) b c st)
    \<le> next_of s st + card {r. fg X s (r, c)}"
proof -
  let ?step = "\<lambda>r. by_threshold (sc_neg X) (sc_img X) (sc_tp X) (sc_tn X)
    (\<lambda>s. pixel s (sc_fs X) (rows X) (c \<noteq> b) (mc X c) (mc_prev X c) r) r (mc X c)"
  have "next_of s (fold ?step [0..<rows X] st) \<le> next_of s st + card {r. r < rows X \<and> fg X s (r, c)}"
  proof (rule fold_upt_invariant [where P = "\<lambda>i st'. next_of s st' \<le> next_of s st + card {r. r < i \<and> fg X s (r, c)}"])
    fix i st'
    assume i: "i < rows X" and IH: "next_of s st' \<le> next_of s st + card {r. r < i \<and> fg X s (r, c)}"
    have grow: "card {r. r < Suc i \<and> fg X s (r, c)} =
        card {r. r < i \<and> fg X s (r, c)} + (if fg X s (i, c) then 1 else 0)"
    proof -
      have "{r. r < Suc i \<and> fg X s (r, c)} =
          (if fg X s (i, c) then insert i {r. r < i \<and> fg X s (r, c)} else {r. r < i \<and> fg X s (r, c)})"
        by (auto simp: less_Suc_eq)
      then show ?thesis by simp
    qed
    show "next_of s (?step i st') \<le> next_of s st + card {r. r < Suc i \<and> fg X s (r, c)}"
      using i c
    proof (cases rule: by_threshold_cases [where st = st' and
          step = "\<lambda>s. pixel s (sc_fs X) (rows X) (c \<noteq> b) (mc X c) (mc_prev X c) i"])
      case (label t)
      have "next_of s (?step i st') \<le> next_of s st' + (if s = t then 1 else 0)"
        unfolding label(2) by (rule pixel_count)
      with label(1) IH grow show ?thesis by (auto split: if_splits)
    next
      case background
      with IH grow show ?thesis by simp
    qed
  qed simp_all
  moreover have "{r. r < rows X \<and> fg X s (r, c)} = {r. fg X s (r, c)}"
    by (auto dest: fg_range)
  ultimately have fold: "next_of s (fold ?step [0..<rows X] st) \<le> next_of s st + card {r. fg X s (r, c)}"
    by simp
  define st1 where "st1 = fold ?step [0..<rows X] st"
  have "scan_column pixel row_border (sc_neg X) (sc_fs X) (sc_img X) (sc_tp X) (sc_tn X) b c st =
      (if sc_fs X then st1 else by_label (sc_neg X) (row_border (rows X) (mc X c) (mc_prev X c)) 0 (mc X c) st1)"
    unfolding scan_column_unfold Let_def st1_def ..
  with fold show ?thesis
    unfolding st1_def [symmetric] by (simp add: next_of_by_label row_next)
qed

lemma slice_count:
  assumes "fst r \<le> snd r" and "snd r \<le> cols X"
  shows "next_of s (fold (scan_column pixel row_border (sc_neg X) (sc_fs X) (sc_img X) (sc_tp X) (sc_tn X) (fst r))
      [fst r..<snd r] st) \<le> next_of s st + card (slice_pixels X s (fst r) (snd r))"
proof (rule fold_upt_invariant [where
      P = "\<lambda>c st'. next_of s st' \<le> next_of s st + card (slice_pixels X s (fst r) c)"])
  fix c st'
  assume c: "fst r \<le> c" "c < snd r" and IH: "next_of s st' \<le> next_of s st + card (slice_pixels X s (fst r) c)"
  have "c < cols X"
    using c assms(2) by simp
  from column_count [OF this, of s "fst r" st'] IH show "next_of s (scan_column pixel row_border
      (sc_neg X) (sc_fs X) (sc_img X) (sc_tp X) (sc_tn X) (fst r) c st')
      \<le> next_of s st + card (slice_pixels X s (fst r) (Suc c))"
    by (simp add: slice_pixels_Suc [OF c(1)])
qed (use assms in simp_all)

lemma slices_sparse:
  assumes "\<And>r. r \<in> set rs \<Longrightarrow> fst r < snd r \<and> snd r \<le> cols X" and "sparse X rs"
    and "slices X rs (st, []) = (st', data)"
  shows "slices_fit (rows X div 2) rs data"
  using assms
proof (induction rs arbitrary: st data)
  case Nil
  then show ?case by (simp add: slices_def slices_fit_def)
next
  case (Cons r rs)
  let ?h = "rows X div 2"
  from Cons.prems(3) obtain st1 d new where
    st1: "st1 = fold (scan_column pixel row_border (sc_neg X) (sc_fs X) (sc_img X) (sc_tp X) (sc_tn X) (fst r))
      [fst r..<snd r] (start_slice (fst r * ?h) st)"
    and rest: "slices X rs (st1, []) = (st', new)" and data: "data = d # new"
    and d: "\<And>s. lunique s d = next_of s st1"
    by (rule slices_Cons) (rule that)
  have r: "fst r < snd r" "snd r \<le> cols X"
    using Cons.prems(1) [of r] by auto
  have "next_of s st1 \<le> snd r * ?h" for s
  proof -
    have "next_of s (start_slice (fst r * ?h) st) = fst r * ?h + 1"
      by (cases s) (simp_all add: next_of_def start_slice_def)
    moreover have "card (slice_pixels X s (fst r) (snd r)) < (snd r - fst r) * ?h"
      by (rule sparse_slices [OF Cons.prems(2)]) simp
    ultimately have "next_of s st1 \<le> fst r * ?h + (snd r - fst r) * ?h"
      using slice_count [of r X s "start_slice (fst r * ?h) st"] r st1 by simp
    also have "\<dots> = snd r * ?h"
      using r by (simp add: add_mult_distrib [symmetric])
    finally show ?thesis .
  qed
  moreover have "slices_fit ?h rs new"
    using Cons.prems rest by (intro Cons.IH) (auto simp: sparse_def)
  ultimately show ?case
    by (simp add: data slices_fit_Cons d)
qed

lemma sparse_fits:
  assumes cov: "covers 0 (cols X) rs" and sparse: "sparse X rs"
  shows "labels_fit (rows X div 2) rs
    (snd (scan_and_merge pixel row_border col_border (sc_neg X) (sc_fs X) (sc_img X) (sc_tp X) (sc_tn X) rs))"
proof -
  obtain st1 data1 where scan: "slices X rs (init_state, []) = (st1, data1)"
    by fastforce
  have "slices_fit (rows X div 2) rs data1"
    using covers_bounds [OF cov] by (intro slices_sparse [OF _ sparse scan]) auto
  then have "labels_fit (rows X div 2) rs data1"
    using slices_starts [OF scan] covers_distinct [OF cov] by (intro slices_fit_labels) auto
  with scan show ?thesis
    by (simp add: scan_and_merge_def slices_def Let_def)
qed

end

lemma next_of_new_label_count: "next_of t (new_label s r m st) = next_of t st + (if t = s then 1 else 0)"
  by (simp add: new_label_def Let_def)

interpretation fit4: ccl_counted scan_pixel_4con row_border_4con col_border_4con edges4
  scan_edges4 row_edges4 col_edges4 False UNIV
proof
  show "next_of t (scan_pixel_4con s fs h lv m mp r st) \<le> next_of t st + (if t = s then 1 else 0)"
    for t s fs h lv m mp r st
    by (simp add: scan_pixel_4con_def Let_def next_of_new_label_count)
qed

interpretation fit8: ccl_counted scan_pixel_8con row_border_8con col_border_8con "edges8 UNIV"
  scan_edges8 row_edges8 col_edges8 True UNIV
proof
  show "next_of t (scan_pixel_8con s fs h lv m mp r st) \<le> next_of t st + (if t = s then 1 else 0)"
    for t s fs h lv m mp r st
    by (simp add: scan_pixel_8con_def Let_def next_of_new_label_count)
qed

text \<open>C22. If every slice has fewer pixels of either sign than its columns times half the rows, no
  slice of the 4-connected or the 8-connected scan runs out of labels.\<close>

theorem labels_fit_sparse:
  assumes "covers 0 (cols X) rs" and "sparse X rs"
  shows "labels_fit (rows X div 2) rs (snd (scan4 X rs)) \<and> labels_fit (rows X div 2) rs (snd (scan8 X rs))"
  using fit4.sparse_fits [OF assms] fit8.sparse_fits [OF assms] by (simp add: scan_4con_def scan_8con_def)

theorem labels_fit_sparse_witness:
  "labels_fit (rows (demo False) div 2) [(0, 2)] (snd (scan4 (demo False) [(0, 2)])) \<and>
   labels_fit (rows (demo False) div 2) [(0, 2)] (snd (scan8 (demo False) [(0, 2)]))"
proof (rule labels_fit_sparse [OF demo_ok(3)])
  show "sparse (demo False) [(0, 2)]"
    by code_simp
qed

end
