(* ===== verification/Reduction.thy ===== *)
theory Reduction
  imports Tbb
begin

text \<open>
  Parallel reductions as the code uses them. A body folds the elements of its subranges into an
  accumulator; the accumulators are joined at the end. When the accumulation is that of a commutative
  monoid (on the values \<open>ok\<close> that occur), the result does not depend on the schedule and is
  that of the serial loop.
\<close>

definition elements :: "range list \<Rightarrow> nat list" where
  "elements rs = concat (map (\<lambda>r. [fst r..<snd r]) rs)"

lemma run_thread_elements: "run_thread f z rs = fold f (elements rs) z"
  by (induction rs arbitrary: z) (simp_all add: run_thread_def elements_def)

lemma chain_elements: "chain lo rs hi \<Longrightarrow> elements rs = [lo..<hi]"
proof (induction rs arbitrary: lo)
  case Nil
  then show ?case by (simp add: elements_def)
next
  case (Cons r rs)
  then have "elements (r # rs) = [lo..<snd r] @ [snd r..<hi]" and "lo \<le> snd r" and "snd r \<le> hi"
    by (auto simp: elements_def dest: chain_le)
  then show ?case
    by (metis le_Suc_ex upt_add_eq_append)
qed

lemma mset_elements: "mset (elements rs) = (\<Sum>r \<in># mset rs. mset [fst r..<snd r])"
  by (induction rs) (simp_all add: elements_def)

lemma covers_elements: "covers lo hi rs \<Longrightarrow> mset (elements rs) = mset [lo..<hi]"
  using chain_elements [of lo "sort_key fst rs" hi]
  by (metis covers_def mset_elements mset_sort)

lemma elements_concat: "elements (concat rss) = concat (map elements rss)"
  by (induction rss) (simp_all add: elements_def)

text \<open>A schedule of the index range: what the threads do together is a partition of it.\<close>

definition schedules :: "nat \<Rightarrow> nat \<Rightarrow> schedule \<Rightarrow> bool" where
  "schedules lo hi sched \<longleftrightarrow> covers lo hi (concat sched)"

locale reduction =
  fixes ok :: "'a \<Rightarrow> bool" and step :: "nat \<Rightarrow> 'a \<Rightarrow> 'a" and combine :: "'a \<Rightarrow> 'a \<Rightarrow> 'a"
    and z :: 'a and item :: "nat \<Rightarrow> 'a"
  assumes ok_z: "ok z" and ok_item: "ok (item i)"
    and ok_combine: "ok a \<Longrightarrow> ok b \<Longrightarrow> ok (combine a b)"
    and combine_assoc: "ok a \<Longrightarrow> ok b \<Longrightarrow> ok c \<Longrightarrow> combine (combine a b) c = combine a (combine b c)"
    and combine_commute: "ok a \<Longrightarrow> ok b \<Longrightarrow> combine a b = combine b a"
    and combine_z: "ok a \<Longrightarrow> combine a z = a"
    and step_combine: "ok a \<Longrightarrow> step i a = combine a (item i)"
begin

lemma ok_step: "ok a \<Longrightarrow> ok (step i a)"
  by (simp add: step_combine ok_combine ok_item)

lemma ok_fold: "ok a \<Longrightarrow> ok (fold step xs a)"
  by (induction xs arbitrary: a) (simp_all add: ok_step)

lemma step_commute: "ok a \<Longrightarrow> step i (step j a) = step j (step i a)"
  by (simp add: step_combine ok_combine ok_item combine_assoc combine_commute [of "item i" "item j"])

lemma combine_fold: "ok a \<Longrightarrow> combine a (fold step xs z) = fold step xs a"
proof (induction xs arbitrary: a rule: rev_induct)
  case Nil
  then show ?case by (simp add: combine_z)
next
  case (snoc x xs)
  then show ?case
    by (simp add: step_combine ok_fold ok_item ok_z combine_assoc [symmetric])
qed

lemma fold_permuted: "mset xs = mset ys \<Longrightarrow> ok a \<Longrightarrow> fold step xs a = fold step ys a"
  by (rule fold_permuted_eq [where P = ok]) (simp_all add: ok_step step_commute)

lemma parallel_elements:
  "parallel_reduce step combine z sched = fold step (elements (concat sched)) z"
proof -
  have "fold (\<lambda>rs acc. combine acc (run_thread step z rs)) sched a = fold step (elements (concat sched)) a"
    if "ok a" for a
    using that
    by (induction sched arbitrary: a)
      (simp_all add: elements_def run_thread_elements combine_fold ok_fold)
  then show ?thesis
    by (simp add: parallel_reduce_def ok_z)
qed

text \<open>The parallel reduction is the serial loop.\<close>

lemma parallel_serial:
  assumes "schedules lo hi sched"
  shows "parallel_reduce step combine z sched = fold step [lo..<hi] z"
  unfolding parallel_elements
  using assms ok_z by (intro fold_permuted) (simp_all add: schedules_def covers_elements)

lemma parallel_schedules:
  assumes "schedules lo hi sched" and "schedules lo hi sched'"
  shows "parallel_reduce step combine z sched = parallel_reduce step combine z sched'"
  by (simp add: parallel_serial [OF assms(1)] parallel_serial [OF assms(2)])

end

section \<open>Bodies over subranges\<close>

text \<open>
  The body of a parallel loop gets a whole subrange. In most loops of the code it is an unrolled loop:
  \<open>k\<close> elements at a time while at least \<open>k\<close> elements remain, if the subrange has
  more than \<open>t\<close> elements, and then the rest one by one.
\<close>

definition parallel_bodies :: "(range \<Rightarrow> 'a \<Rightarrow> 'a) \<Rightarrow> ('a \<Rightarrow> 'a \<Rightarrow> 'a) \<Rightarrow> 'a \<Rightarrow> schedule \<Rightarrow> 'a" where
  "parallel_bodies body combine z sched = fold (\<lambda>rs acc. combine acc (fold body rs z)) sched z"

function chunks :: "nat \<Rightarrow> (nat \<Rightarrow> 'a \<Rightarrow> 'a) \<Rightarrow> nat \<Rightarrow> nat \<Rightarrow> 'a \<Rightarrow> nat \<times> 'a" where
  "chunks k f i rend s = (if i < rend \<and> 0 < k then chunks k f (i + k) rend (f i s) else (i, s))"
  by pat_completeness auto
termination
  by (relation "measure (\<lambda>(k, f, i, rend, s). rend - i)") auto

declare chunks.simps [simp del]

definition unrolled :: "nat \<Rightarrow> nat \<Rightarrow> (nat \<Rightarrow> 'a \<Rightarrow> 'a) \<Rightarrow> (nat \<Rightarrow> 'a \<Rightarrow> 'a) \<Rightarrow> range \<Rightarrow> 'a \<Rightarrow> 'a" where
  "unrolled k t f g r s =
     (if snd r - fst r > t then
        let (i, s) = chunks k f (fst r) (snd r - k) s in fold g [i..<snd r] s
      else fold g [fst r..<snd r] s)"

lemma chunks_fold:
  assumes "\<And>i s. f i s = fold g [i..<i + k] s" and "i \<le> rend + k" and "chunks k f i rend s = (j, s')"
  shows "j \<le> rend + k \<and> i \<le> j \<and> s' = fold g [i..<j] s"
  using assms(2,3)
proof (induction "rend - i" arbitrary: i s rule: less_induct)
  case less
  show ?case
  proof (cases "i < rend \<and> 0 < k")
    case True
    then have step: "chunks k f (i + k) rend (f i s) = (j, s')"
      using less.prems(2) by (simp add: chunks.simps [of k f i])
    have "rend - (i + k) < rend - i" and "i + k \<le> rend + k"
      using True by auto
    from less.hyps [OF this step] have IH: "j \<le> rend + k" "i + k \<le> j" "s' = fold g [i + k..<j] (fold g [i..<i + k] s)"
      by (simp_all add: assms(1))
    then have "[i..<j] = [i..<i + k] @ [i + k..<j]"
      by (metis le_add1 le_Suc_ex upt_add_eq_append)
    with IH show ?thesis by simp
  next
    case False
    with less.prems show ?thesis
      by (auto simp: chunks.simps [of k f i])
  qed
qed

lemma unrolled_fold:
  assumes "\<And>i s. f i s = fold g [i..<i + k] s" and "k \<le> t"
  shows "unrolled k t f g r s = fold g [fst r..<snd r] s"
proof (cases "snd r - fst r > t")
  case True
  obtain j s' where j: "chunks k f (fst r) (snd r - k) s = (j, s')"
    by fastforce
  have "fst r \<le> snd r - k + k"
    using True assms(2) by simp
  from chunks_fold [OF assms(1) this j] have J: "j \<le> snd r - k + k" "fst r \<le> j" "s' = fold g [fst r..<j] s"
    by auto
  moreover have "j \<le> snd r"
    using True assms(2) J(1) by simp
  ultimately have "[fst r..<snd r] = [fst r..<j] @ [j..<snd r]"
    by (metis le_Suc_ex upt_add_eq_append)
  with True J(3) j show ?thesis
    by (simp add: unrolled_def)
next
  case False
  then show ?thesis by (simp add: unrolled_def)
qed

lemma parallel_bodies_reduce:
  assumes "\<And>r s. body r s = fold f [fst r..<snd r] s"
  shows "parallel_bodies body combine z sched = parallel_reduce f combine z sched"
proof -
  have "body = (\<lambda>r. fold f [fst r..<snd r])"
    by (intro ext) (rule assms)
  then show ?thesis
    by (simp add: parallel_bodies_def parallel_reduce_def run_thread_def)
qed

section \<open>Sums\<close>

text \<open>Sums of any kind, the bodies adding one item per element.\<close>

locale sum_reduction =
  fixes item :: "nat \<Rightarrow> 'a :: comm_monoid_add"

sublocale sum_reduction \<subseteq> reduction "\<lambda>_. True" "\<lambda>i s. s + item i" "(+)" 0 item
  by unfold_locales (simp_all add: ac_simps)

context sum_reduction
begin

lemma fold_sum: "fold (\<lambda>i s. s + item i) xs a = a + sum_list (map item xs)"
  by (induction xs arbitrary: a) (simp_all add: add.assoc)

lemma parallel_sum:
  "schedules lo hi sched \<Longrightarrow> parallel_reduce (\<lambda>i s. s + item i) (+) 0 sched = (\<Sum>i \<in> {lo..<hi}. item i)"
  by (simp add: parallel_serial fold_sum interv_sum_list_conv_sum_set_nat)

end

end
