(* ===== verification/Statistics.thy ===== *)
theory Statistics
  imports Reduction
begin

text \<open>
  Sums, mean and standard deviation of \<^verbatim>\<open>src/src/stp/common/matrix_math.cpp\<close>. The functions
  take the schedule of their parallel loop as an argument.
\<close>

section \<open>Data\<close>

record data_stats =
  mean :: real_t
  sigma :: real_t
  median :: real_t
  mean_valid :: bool
  sigma_valid :: bool
  median_valid :: bool

text \<open>The four constructors of \<^verbatim>\<open>DataStats\<close>.\<close>

definition no_stats :: data_stats where
  "no_stats = \<lparr>mean = 0, sigma = 0, median = 0, mean_valid = False, sigma_valid = False, median_valid = False\<rparr>"

definition mean_stats :: "real_t \<Rightarrow> data_stats" where
  "mean_stats u = no_stats\<lparr>mean := u, mean_valid := True\<rparr>"

definition sigma_stats :: "real_t \<Rightarrow> real_t \<Rightarrow> data_stats" where
  "sigma_stats u s = (mean_stats u)\<lparr>sigma := s, sigma_valid := True\<rparr>"

definition median_stats :: "real_t \<Rightarrow> real_t \<Rightarrow> real_t \<Rightarrow> data_stats" where
  "median_stats u s m = (sigma_stats u s)\<lparr>median := m, median_valid := True\<rparr>"

lemmas stats_defs = no_stats_def mean_stats_def sigma_stats_def median_stats_def

datatype double_pair = DoublePair (d1: real) (d2: real)

instantiation double_pair :: comm_monoid_add
begin

definition zero_double_pair :: double_pair where
  "zero_double_pair = DoublePair 0 0"

definition plus_double_pair :: "double_pair \<Rightarrow> double_pair \<Rightarrow> double_pair" where
  "plus_double_pair x y = DoublePair (d1 x + d1 y) (d2 x + d2 y)"

instance
  by standard (simp_all add: zero_double_pair_def plus_double_pair_def)

end

lemma double_pair_simps [simp]:
  "d1 0 = 0" "d2 0 = 0" "d1 (x + y) = d1 x + d1 y" "d2 (x + y) = d2 x + d2 y"
  by (simp_all add: zero_double_pair_def plus_double_pair_def)

lemma double_pair_sum [simp]: "d1 (\<Sum>i \<in> A. f i) = (\<Sum>i \<in> A. d1 (f i))" "d2 (\<Sum>i \<in> A. f i) = (\<Sum>i \<in> A. d2 (f i))"
  by (induction A rule: infinite_finite_induct) simp_all

section \<open>The functions\<close>

text \<open>
  The body of the parallel loop of \<^verbatim>\<open>mat_mean_and_stddev\<close>: four elements at a time in a subrange
  of more than eight.
\<close>

definition stddev_chunk :: "real_t mat \<Rightarrow> nat \<Rightarrow> double_pair \<Rightarrow> double_pair" where
  "stddev_chunk data i acc =
     (let tmp = at_lin data i; tmp2 = at_lin data (i + 1); tmp3 = at_lin data (i + 2); tmp4 = at_lin data (i + 3)
      in DoublePair (d1 acc + (tmp + tmp2 + tmp3 + tmp4))
           (d2 acc + (tmp * tmp + tmp2 * tmp2 + tmp3 * tmp3 + tmp4 * tmp4)))"

definition stddev_single :: "real_t mat \<Rightarrow> nat \<Rightarrow> double_pair \<Rightarrow> double_pair" where
  "stddev_single data i acc = (let tmp = at_lin data i in DoublePair (d1 acc + tmp) (d2 acc + tmp * tmp))"

definition mat_mean_and_stddev :: "real_t mat \<Rightarrow> schedule \<Rightarrow> data_stats" where
  "mat_mean_and_stddev data sched =
     (if n_elem data < 1 then no_stats
      else
        let total = parallel_bodies (unrolled 4 8 (stddev_chunk data) (stddev_single data)) (+) (DoublePair 0 0) sched;
            m = d1 total / real (n_elem data);
            s = sqrt (d2 total / real (n_elem data) - m * m)
        in sigma_stats m s)"

text \<open>Two accumulators, two elements at a time.\<close>

definition mat_accumulate :: "real_t mat \<Rightarrow> real" where
  "mat_accumulate data =
     (if n_elem data > 0 then
        let (i, acc1, acc2) = chunks 2 (\<lambda>i (acc1, acc2). (acc1 + at_lin data i, acc2 + at_lin data (i + 1)))
              0 (n_elem data - 1) (0, 0);
            acc1 = (if i < n_elem data then acc1 + at_lin data i else acc1)
        in acc1 + acc2
      else 0)"

definition mat_accumulate_parallel :: "real_t mat \<Rightarrow> schedule \<Rightarrow> real" where
  "mat_accumulate_parallel data sched =
     (if n_elem data > 0 then parallel_reduce (\<lambda>i s. s + at_lin data i) (+) 0 sched else 0)"

definition mat_mean :: "real_t mat \<Rightarrow> real" where
  "mat_mean data = (if n_elem data > 0 then mat_accumulate data / real (n_elem data) else 0)"

definition mat_mean_parallel :: "real_t mat \<Rightarrow> schedule \<Rightarrow> real" where
  "mat_mean_parallel data sched =
     (if n_elem data > 0 then mat_accumulate_parallel data sched / real (n_elem data) else 0)"

text \<open>Two parallel loops may run: the schedule of the mean and that of the squares.\<close>

definition mat_stddev_parallel :: "real_t mat \<Rightarrow> bool \<Rightarrow> real \<Rightarrow> schedule \<Rightarrow> schedule \<Rightarrow> real" where
  "mat_stddev_parallel data compute_mean m sched1 sched2 =
     (if n_elem data > 1 then
        let m = (if compute_mean then mat_mean_parallel data sched1 else m);
            total = parallel_reduce (\<lambda>i acc. let tmp = at_lin data i - m
              in DoublePair (d1 acc + tmp * tmp) (d2 acc + tmp)) (+) (DoublePair 0 0) sched2
        in sqrt ((d1 total - d2 total * d2 total / real (n_elem data)) / real (n_elem data))
      else 0)"

section \<open>What they compute\<close>

definition elem_sum :: "real_t mat \<Rightarrow> real" where
  "elem_sum data = (\<Sum>i < n_elem data. at_lin data i)"

definition elem_mean :: "real_t mat \<Rightarrow> real" where
  "elem_mean data = elem_sum data / real (n_elem data)"

definition elem_variance :: "real_t mat \<Rightarrow> real" where
  "elem_variance data = (\<Sum>i < n_elem data. (at_lin data i - elem_mean data)\<^sup>2) / real (n_elem data)"

interpretation elem: sum_reduction "at_lin data" for data :: "real_t mat" .

interpretation squares: sum_reduction "\<lambda>i. DoublePair (f i) (g i)" for f g :: "nat \<Rightarrow> real" .

lemma zero_pair: "DoublePair 0 0 = 0"
  by (simp add: zero_double_pair_def)

lemma atLeast0: "{0..<n} = {..<n :: nat}"
  by auto

text \<open>The shifted formula for the variance, for any shift \<open>m\<close>.\<close>

lemma variance_shift:
  fixes x :: "nat \<Rightarrow> real"
  assumes "0 < n"
  shows "((\<Sum>i < n. (x i - m) * (x i - m)) - (\<Sum>i < n. x i - m) * (\<Sum>i < n. x i - m) / real n) / real n =
    (\<Sum>i < n. (x i - (\<Sum>i < n. x i) / real n)\<^sup>2) / real n"
proof -
  define S where "S = (\<Sum>i < n. x i)"
  define Q where "Q = (\<Sum>i < n. x i * x i)"
  have n: "real n \<noteq> 0"
    using assms by simp
  have sq: "(\<Sum>i < n. (x i - a) * (x i - a)) = Q - 2 * a * S + real n * a * a" for a
  proof -
    have "(\<Sum>i < n. (x i - a) * (x i - a)) = (\<Sum>i < n. x i * x i - 2 * a * x i + a * a)"
      by (intro sum.cong) (auto simp: algebra_simps)
    then show ?thesis
      by (simp add: sum.distrib sum_subtractf sum_distrib_left [symmetric] Q_def S_def mult.assoc)
  qed
  have lin: "(\<Sum>i < n. x i - m) = S - real n * m"
    by (simp add: sum_subtractf S_def)
  show ?thesis
    unfolding power2_eq_square S_def [symmetric] sq lin using n by (simp add: field_simps)
qed

lemma variance_moments:
  fixes x :: "nat \<Rightarrow> real"
  assumes "0 < n"
  shows "(\<Sum>i < n. x i * x i) / real n - ((\<Sum>i < n. x i) / real n) * ((\<Sum>i < n. x i) / real n) =
    (\<Sum>i < n. (x i - (\<Sum>i < n. x i) / real n)\<^sup>2) / real n"
  using variance_shift [OF assms, of x 0] by (simp add: diff_divide_distrib)

lemma stddev_body: "unrolled 4 8 (stddev_chunk data) (stddev_single data) r s =
    fold (\<lambda>i s. s + DoublePair (at_lin data i) (at_lin data i * at_lin data i)) [fst r..<snd r] s"
proof -
  have single: "stddev_single data = (\<lambda>i s. s + DoublePair (at_lin data i) (at_lin data i * at_lin data i))"
    by (intro ext) (simp add: stddev_single_def Let_def plus_double_pair_def)
  have four: "[i..<i + 4] = [i, i + 1, i + 2, i + 3]" for i :: nat
    by (simp add: upt_rec)
  show ?thesis
    unfolding single [symmetric]
    by (rule unrolled_fold) (simp_all add: four stddev_chunk_def stddev_single_def Let_def)
qed

lemma mean_and_stddev_value:
  assumes "schedules 0 (n_elem data) sched" and "0 < n_elem data"
  shows "mat_mean_and_stddev data sched = sigma_stats (elem_mean data) (sqrt (elem_variance data))"
proof -
  have "parallel_bodies (unrolled 4 8 (stddev_chunk data) (stddev_single data)) (+) (DoublePair 0 0) sched =
      (\<Sum>i < n_elem data. DoublePair (at_lin data i) (at_lin data i * at_lin data i))"
    using squares.parallel_sum [OF assms(1)]
    by (simp add: parallel_bodies_reduce [OF stddev_body] zero_pair atLeast0)
  then show ?thesis
    using assms(2) variance_moments [OF assms(2), of "at_lin data"]
    by (simp add: mat_mean_and_stddev_def Let_def elem_mean_def elem_sum_def elem_variance_def)
qed

text \<open>C23. Mean and standard deviation: whatever the schedule, the unrolled parallel loop of
  mat_mean_and_stddev gives the arithmetic mean of the elements and the square root of their
  mean squared deviation from it.\<close>

theorem mean_and_stddev_correct:
  assumes "schedules 0 (n_elem data) sched" and "0 < n_elem data"
  shows "mat_mean_and_stddev data sched = sigma_stats (elem_mean data) (sqrt (elem_variance data))"
  using assms by (rule mean_and_stddev_value)

definition stats_demo :: "real_t mat" where
  "stats_demo = mat_of_rows [[1, 4, 2], [7, 1, 3]]"

lemma stats_demo_size: "n_elem stats_demo = 6" "schedules 0 6 [[(4, 6)], [(0, 3), (3, 4)]]"
  by (simp_all add: stats_demo_def mat_simps) (code_simp)

theorem mean_and_stddev_correct_witness:
  "mat_mean_and_stddev stats_demo [[(4, 6)], [(0, 3), (3, 4)]] =
    sigma_stats (elem_mean stats_demo) (sqrt (elem_variance stats_demo))"
  by (rule mean_and_stddev_correct) (simp_all add: stats_demo_size)

lemma accumulate_chunks:
  "i \<le> n \<Longrightarrow> chunks 2 (\<lambda>i (a, b). (a + x i, b + x (i + 1))) i (n - 1) (a, b) = (j, a', b') \<Longrightarrow>
    a' + b' + (\<Sum>k \<in> {j..<n}. x k :: real) = a + b + (\<Sum>k \<in> {i..<n}. x k) \<and> (j = n \<or> j + 1 = n \<or> n = 0)"
proof (induction "n - i" arbitrary: i a b rule: less_induct)
  case less
  show ?case
  proof (cases "i < n - 1")
    case True
    then have step: "chunks 2 (\<lambda>i (a, b). (a + x i, b + x (i + 1))) (i + 2) (n - 1) (a + x i, b + x (i + 1)) = (j, a', b')"
      using less.prems(2) by (subst (asm) chunks.simps) simp
    have "n - (i + 2) < n - i" "i + 2 \<le> n"
      using True by auto
    from less.hyps [OF this step]
    have IH: "a' + b' + (\<Sum>k \<in> {j..<n}. x k) = a + x i + (b + x (i + 1)) + (\<Sum>k \<in> {i + 2..<n}. x k)"
      "j = n \<or> j + 1 = n \<or> n = 0" by auto
    have "(\<Sum>k \<in> {i..<n}. x k) = x i + (x (i + 1) + (\<Sum>k \<in> {i + 2..<n}. x k))"
      using True by (simp add: sum.atLeast_Suc_lessThan)
    with IH show ?thesis by simp
  next
    case False
    with less.prems show ?thesis
      by (subst (asm) chunks.simps) auto
  qed
qed

text \<open>Both accumulations, the serial one with two accumulators and the parallel one under any
  schedule, give the sum of the elements; the means are this sum over the number of elements.\<close>

theorem accumulate_correct:
  assumes "schedules 0 (n_elem data) sched"
  shows "mat_accumulate data = elem_sum data \<and> mat_accumulate_parallel data sched = elem_sum data \<and>
    mat_mean data = elem_mean data \<and> mat_mean_parallel data sched = elem_mean data"
proof -
  let ?n = "n_elem data"
  have par: "mat_accumulate_parallel data sched = elem_sum data"
    using elem.parallel_sum [OF assms] by (simp add: mat_accumulate_parallel_def elem_sum_def atLeast0)
  have ser: "mat_accumulate data = elem_sum data"
  proof (cases "?n = 0")
    case True
    then show ?thesis by (simp add: mat_accumulate_def elem_sum_def)
  next
    case False
    obtain j a b where run: "chunks 2 (\<lambda>i (a, b). (a + at_lin data i, b + at_lin data (i + 1))) 0 (?n - 1) (0, 0) = (j, a, b)"
      by (rule prod_cases3)
    from accumulate_chunks [OF _ run] False
    have sum: "a + b + (\<Sum>k \<in> {j..<?n}. at_lin data k) = elem_sum data" and j: "j = ?n \<or> j + 1 = ?n"
      by (auto simp: elem_sum_def atLeast0)
    from j have "{j..<?n} = (if j < ?n then {j} else {})"
      by auto
    then have "(\<Sum>k \<in> {j..<?n}. at_lin data k) = (if j < ?n then at_lin data j else 0)"
      by simp
    with sum run False show ?thesis
      by (auto simp: mat_accumulate_def Let_def)
  qed
  show ?thesis
    using par ser by (simp add: mat_mean_def mat_mean_parallel_def elem_mean_def elem_sum_def)
qed

theorem accumulate_correct_witness:
  "mat_accumulate stats_demo = elem_sum stats_demo \<and>
   mat_accumulate_parallel stats_demo [[(4, 6)], [(0, 3), (3, 4)]] = elem_sum stats_demo \<and>
   mat_mean stats_demo = elem_mean stats_demo \<and>
   mat_mean_parallel stats_demo [[(4, 6)], [(0, 3), (3, 4)]] = elem_mean stats_demo"
  by (rule accumulate_correct) (simp add: stats_demo_size)

text \<open>The parallel standard deviation is the square root of the mean squared deviation from the
  mean, also when the caller passes some other value as the mean.\<close>

theorem stddev_parallel_correct:
  assumes "schedules 0 (n_elem data) sched1" and "schedules 0 (n_elem data) sched2"
  shows "mat_stddev_parallel data compute_mean m sched1 sched2 = sqrt (elem_variance data)"
proof (cases "n_elem data > 1")
  case True
  then have n: "0 < n_elem data"
    by simp
  define m' where "m' = (if compute_mean then mat_mean_parallel data sched1 else m)"
  have step: "(\<lambda>i acc. let tmp = at_lin data i - m' in DoublePair (d1 acc + tmp * tmp) (d2 acc + tmp)) =
      (\<lambda>i s. s + DoublePair ((at_lin data i - m') * (at_lin data i - m')) (at_lin data i - m'))"
    by (intro ext) (simp add: Let_def plus_double_pair_def)
  have "parallel_reduce (\<lambda>i acc. let tmp = at_lin data i - m' in DoublePair (d1 acc + tmp * tmp) (d2 acc + tmp))
      (+) (DoublePair 0 0) sched2 =
      (\<Sum>i < n_elem data. DoublePair ((at_lin data i - m') * (at_lin data i - m')) (at_lin data i - m'))"
    unfolding step zero_pair by (simp add: squares.parallel_sum [OF assms(2)] atLeast0)
  with True variance_shift [OF n, of "at_lin data" m'] show ?thesis
    by (simp add: mat_stddev_parallel_def Let_def m'_def [symmetric] elem_variance_def elem_mean_def elem_sum_def)
next
  case False
  then have "n_elem data = 0 \<or> n_elem data = 1"
    by auto
  with False show ?thesis
    by (auto simp: mat_stddev_parallel_def elem_variance_def elem_mean_def elem_sum_def)
qed

theorem stddev_parallel_correct_witness:
  "mat_stddev_parallel stats_demo False 5 [[(0, 6)]] [[(4, 6)], [(0, 3), (3, 4)]] = sqrt (elem_variance stats_demo)"
proof -
  have "schedules 0 6 [[(0, 6)]]"
    by code_simp
  then show ?thesis
    by (intro stddev_parallel_correct) (simp_all add: stats_demo_size)
qed

end
