(* ===== verification/Median.thy ===== *)
theory Median
  imports Statistics
begin

text \<open>
  The medians of \<^verbatim>\<open>src/src/stp/common/matrix_math.cpp\<close>: \<^verbatim>\<open>mat_median_exact\<close> with
  \<^verbatim>\<open>std::nth_element\<close>, and the approximation \<^verbatim>\<open>mat_median_binapprox\<close>, which
  bins the data over the interval of one standard deviation round the mean.
\<close>

section \<open>Selection\<close>

text \<open>
  \<^verbatim>\<open>std::nth_element\<close>: which permutation of the range it leaves is up to the library; the
  code relies on the element at the position being the one of the sorted range, and on the order of
  the others relative to it.
\<close>

locale nth_selector =
  fixes ne :: "nat \<Rightarrow> real_t list \<Rightarrow> real_t list"
  assumes ne_mset: "k < length xs \<Longrightarrow> mset (ne k xs) = mset xs"
    and ne_below: "k < length xs \<Longrightarrow> i < k \<Longrightarrow> ne k xs ! i \<le> ne k xs ! k"
    and ne_above: "k < length xs \<Longrightarrow> k < i \<Longrightarrow> i < length xs \<Longrightarrow> ne k xs ! k \<le> ne k xs ! i"
begin

lemma ne_length: "k < length xs \<Longrightarrow> length (ne k xs) = length xs"
  using ne_mset mset_eq_length by blast

lemma ne_sort:
  assumes "k < length xs"
  shows "sort xs = sort (take k (ne k xs)) @ ne k xs ! k # sort (drop (Suc k) (ne k xs))"
proof -
  let ?ys = "ne k xs"
  have len: "length ?ys = length xs"
    by (rule ne_length [OF assms])
  have split: "?ys = take k ?ys @ ?ys ! k # drop (Suc k) ?ys"
    using assms len by (simp add: id_take_nth_drop)
  have "sorted (sort (take k ?ys) @ ?ys ! k # sort (drop (Suc k) ?ys))"
  proof -
    have "x \<le> ?ys ! k" if "x \<in> set (take k ?ys)" for x
      using that assms len by (auto simp: in_set_conv_nth ne_below)
    moreover have "?ys ! k \<le> x" if "x \<in> set (drop (Suc k) ?ys)" for x
      using that assms len by (auto simp: in_set_conv_nth ne_above)
    ultimately show ?thesis
      by (auto simp: sorted_append intro: order_trans)
  qed
  moreover have "mset (sort (take k ?ys) @ ?ys ! k # sort (drop (Suc k) ?ys)) = mset xs"
    using arg_cong [OF split, of mset] ne_mset [OF assms] by simp
  ultimately show ?thesis
    by (metis properties_for_sort)
qed

lemma ne_nth: "k < length xs \<Longrightarrow> ne k xs ! k = sort xs ! k"
  using ne_length by (simp add: ne_sort nth_append)

lemma ne_max:
  assumes "k < length xs" and "0 < k"
  shows "Max (set (take k (ne k xs))) = sort xs ! (k - 1)"
proof -
  let ?t = "take k (ne k xs)"
  have len: "length ?t = k"
    using assms ne_length by simp
  then have ne: "sort ?t \<noteq> []" and lens: "length (sort ?t) = k"
    using assms(2) by (auto simp flip: length_0_conv)
  have "sort xs ! (k - 1) = sort ?t ! (k - 1)"
    using assms len by (simp add: ne_sort [OF assms(1)] nth_append)
  also have "\<dots> = last (sort ?t)"
    by (simp only: last_conv_nth [OF ne] lens)
  also have "\<dots> = Max (set ?t)"
  proof (rule sym, rule Max_eqI)
    show "last (sort ?t) \<in> set ?t"
      using last_in_set [OF ne] by simp
    show "y \<le> last (sort ?t)" if "y \<in> set ?t" for y
    proof -
      from that obtain i where i: "i < length (sort ?t)" "y = sort ?t ! i"
        by (metis in_set_conv_nth set_sort)
      have "sort ?t ! i \<le> sort ?t ! (length (sort ?t) - 1)"
        by (rule sorted_nth_mono) (use i(1) in auto)
      then show ?thesis
        unfolding i(2) last_conv_nth [OF ne] .
    qed
  qed simp
  finally show ?thesis by simp
qed

end

text \<open>Sorting the range is one such selection.\<close>

interpretation sort_selector: nth_selector "\<lambda>k. sort"
  by unfold_locales (simp_all add: sorted_nth_mono)

definition elems :: "real_t mat \<Rightarrow> real_t list" where
  "elems data = map (at_lin data) [0..<n_elem data]"

lemma elems_length [simp]: "length (elems data) = n_elem data"
  by (simp add: elems_def)

definition mat_median_exact :: "(nat \<Rightarrow> real_t list \<Rightarrow> real_t list) \<Rightarrow> real_t mat \<Rightarrow> real" where
  "mat_median_exact ne data =
     (let k = n_elem data div 2;
          auxdata = ne k (elems data)
      in if odd (n_elem data) then auxdata ! k
         else (auxdata ! k + Max (set (take k auxdata))) / 2)"

text \<open>The median of a list: the middle element in order, or the mean of the two middle ones.\<close>

definition exact_median :: "real_t list \<Rightarrow> real" where
  "exact_median xs =
     (let ys = sort xs; k = length xs div 2
      in if odd (length xs) then ys ! k else (ys ! k + ys ! (k - 1)) / 2)"

lemma median_exact_value:
  assumes "nth_selector ne" and "0 < n_elem data"
  shows "mat_median_exact ne data = exact_median (elems data)"
proof -
  have k: "n_elem data div 2 < length (elems data)"
    using assms(2) by simp
  have "even (n_elem data) \<Longrightarrow> 0 < n_elem data div 2"
    using assms(2) by (auto elim!: evenE)
  with nth_selector.ne_max [OF assms(1) k] nth_selector.ne_nth [OF assms(1) k] show ?thesis
    by (auto simp: mat_median_exact_def exact_median_def Let_def)
qed

text \<open>mat_median_exact is the median of the elements, for every way in which
  nth_element may arrange the range.\<close>

theorem median_exact_correct:
  assumes "nth_selector ne" and "0 < n_elem data"
  shows "mat_median_exact ne data = exact_median (elems data)"
  using assms by (rule median_exact_value)

theorem median_exact_correct_witness:
  "mat_median_exact (\<lambda>k. sort) stats_demo = exact_median (elems stats_demo)"
  by (rule median_exact_correct [OF sort_selector.nth_selector_axioms]) (simp add: stats_demo_size)

section \<open>The distance of the mean from the middle elements\<close>

text \<open>
  A value with at least half of the elements on either side is at most one standard deviation away
  from the mean.
\<close>

lemma mean_above_half:
  fixes x :: "nat \<Rightarrow> real"
  assumes n: "0 < n" and half: "n \<le> 2 * card {i. i < n \<and> m \<le> x i}"
    and mu: "mu = (\<Sum>i < n. x i) / real n"
  shows "m - mu \<le> sqrt ((\<Sum>i < n. (x i - mu)\<^sup>2) / real n)"
proof (cases "m \<le> mu")
  case True
  moreover have "0 \<le> sqrt ((\<Sum>i < n. (x i - mu)\<^sup>2) / real n)"
    by (simp add: sum_nonneg)
  ultimately show ?thesis by linarith
next
  case False
  define d where "d = m - mu"
  define V where "V = (\<Sum>i < n. (x i - mu)\<^sup>2)"
  let ?A = "{i. i < n \<and> m \<le> x i}"
  have d: "0 < d"
    using False by (simp add: d_def)
  have zero: "(\<Sum>i < n. x i - mu) = 0"
    using n by (simp add: sum_subtractf mu)
  have "(\<Sum>i < n. (x i - mu + d)\<^sup>2) = (\<Sum>i < n. (x i - mu)\<^sup>2 + 2 * d * (x i - mu) + d\<^sup>2)"
    by (intro sum.cong) (auto simp: power2_eq_square algebra_simps)
  also have "\<dots> = V + 2 * d * (\<Sum>i < n. x i - mu) + real n * d\<^sup>2"
    by (simp add: sum.distrib sum_distrib_left V_def)
  finally have total: "(\<Sum>i < n. (x i - mu + d)\<^sup>2) = V + real n * d\<^sup>2"
    by (simp add: zero)
  have "real (card ?A) * (2 * d)\<^sup>2 = (\<Sum>i \<in> ?A. (2 * d)\<^sup>2)"
    by simp
  also have "\<dots> \<le> (\<Sum>i \<in> ?A. (x i - mu + d)\<^sup>2)"
    using d by (intro sum_mono power_mono) (auto simp: d_def)
  also have "\<dots> \<le> (\<Sum>i < n. (x i - mu + d)\<^sup>2)"
    by (rule sum_mono2) auto
  finally have "real (card ?A) * (2 * d)\<^sup>2 \<le> V + real n * d\<^sup>2"
    by (simp add: total)
  moreover have "real n * (2 * d)\<^sup>2 \<le> real (2 * card ?A) * (2 * d)\<^sup>2"
    using half by (intro mult_right_mono) (simp_all only: of_nat_le_iff zero_le_power2)
  ultimately have "real n * d\<^sup>2 \<le> V"
    by (simp add: power_mult_distrib algebra_simps)
  then have "d\<^sup>2 \<le> V / real n"
    using n by (simp add: pos_le_divide_eq mult.commute)
  then show ?thesis
    using d real_le_rsqrt by (simp add: d_def V_def)
qed

lemma mean_near_half:
  fixes x :: "nat \<Rightarrow> real"
  assumes n: "0 < n" and above: "n \<le> 2 * card {i. i < n \<and> m \<le> x i}" and below: "n \<le> 2 * card {i. i < n \<and> x i \<le> m}"
    and mu: "mu = (\<Sum>i < n. x i) / real n"
  shows "\<bar>m - mu\<bar> \<le> sqrt ((\<Sum>i < n. (x i - mu)\<^sup>2) / real n)"
proof -
  have "(- m) - (- mu) \<le> sqrt ((\<Sum>i < n. (- x i - (- mu))\<^sup>2) / real n)"
    using n by (rule mean_above_half) (use below in \<open>simp_all add: mu sum_negf\<close>)
  moreover have "(\<Sum>i < n. (- x i - (- mu))\<^sup>2) = (\<Sum>i < n. (x i - mu)\<^sup>2)"
    by (intro sum.cong) (auto simp: power2_eq_square algebra_simps)
  ultimately have "mu - m \<le> sqrt ((\<Sum>i < n. (x i - mu)\<^sup>2) / real n)"
    by simp
  with mean_above_half [OF n above mu] show ?thesis
    by (simp only: abs_le_iff minus_diff_eq)
qed

section \<open>Order statistics\<close>

text \<open>How many elements satisfy a property that holds of small values only.\<close>

lemma sorted_filter_count:
  assumes "sorted ys" and "\<And>x y. x \<le> y \<Longrightarrow> P y \<Longrightarrow> P x" and "k < length ys"
  shows "k < length (filter P ys) \<longleftrightarrow> P (ys ! k)"
  using assms(1,3)
proof (induction ys arbitrary: k)
  case Nil
  then show ?case by simp
next
  case (Cons y ys)
  show ?case
  proof (cases k)
    case 0
    have "filter P ys = []" if "\<not> P y"
      using Cons.prems(1) assms(2) that by (auto simp: filter_empty_conv)
    with 0 show ?thesis by auto
  next
    case (Suc j)
    show ?thesis
    proof (cases "P y")
      case True
      with Suc Cons show ?thesis by simp
    next
      case False
      have "y \<le> ys ! j"
        using Cons.prems Suc by simp
      then have "\<not> P (ys ! j)"
        using assms(2) False by blast
      moreover have "filter P ys = []"
        using Cons.prems(1) assms(2) [of y] False by (auto simp: filter_empty_conv)
      ultimately show ?thesis
        using Suc False by simp
    qed
  qed
qed

lemma count_sorted:
  assumes "\<And>x y. x \<le> y \<Longrightarrow> P y \<Longrightarrow> P x" and "k < length xs"
  shows "k < length (filter P xs) \<longleftrightarrow> P (sort xs ! k)"
proof -
  have "length (filter P xs) = length (filter P (sort xs))"
    by (metis mset_filter mset_sort size_mset)
  with sorted_filter_count [of "sort xs" P k] assms show ?thesis by simp
qed

lemma card_filter: "card {i. i < length xs \<and> P (xs ! i)} = length (filter P xs)"
  by (simp add: length_filter_conv_card)

lemma order_statistic_near_mean:
  fixes xs :: "real list"
  assumes k: "k < length xs" and low: "length xs \<le> 2 * (k + 1)" and high: "2 * k \<le> length xs"
    and mu: "mu = (\<Sum>i < length xs. xs ! i) / real (length xs)"
  shows "\<bar>sort xs ! k - mu\<bar> \<le> sqrt ((\<Sum>i < length xs. (xs ! i - mu)\<^sup>2) / real (length xs))"
proof (rule mean_near_half)
  let ?m = "sort xs ! k"
  have "k < length (filter (\<lambda>x. x \<le> ?m) xs)"
    using count_sorted [of "\<lambda>x. x \<le> ?m" k xs] k by simp
  then show "length xs \<le> 2 * card {i. i < length xs \<and> xs ! i \<le> ?m}"
    using low card_filter [of xs "\<lambda>x. x \<le> ?m"] by simp
  have "\<not> k < length (filter (\<lambda>x. x < ?m) xs)"
    using count_sorted [of "\<lambda>x. x < ?m" k xs] k by simp
  moreover have "length (filter (\<lambda>x. x < ?m) xs) + length (filter (\<lambda>x. ?m \<le> x) xs) = length xs"
    using sum_length_filter_compl [of "\<lambda>x. x < ?m" xs] by (simp add: not_less)
  ultimately show "length xs \<le> 2 * card {i. i < length xs \<and> ?m \<le> xs ! i}"
    using high card_filter [of xs "\<lambda>x. ?m \<le> x"] by simp
qed (use k mu in auto)

end
