(* ===== verification/Binapprox.thy ===== *)
theory Binapprox
  imports Median
begin

text \<open>
  The approximate median of \<^verbatim>\<open>mat_median_binapprox\<close>
  (\<^verbatim>\<open>src/src/stp/common/matrix_math.cpp\<close>) and its error bound.
\<close>

section \<open>Binning\<close>

text \<open>The conversion of a floating point number to \<^verbatim>\<open>int\<close> drops the fraction.\<close>

definition int_cast :: "real \<Rightarrow> int" where
  "int_cast x = (if 0 \<le> x then \<lfloor>x\<rfloor> else \<lceil>x\<rceil>)"

definition bin_index :: "real_t \<Rightarrow> real \<Rightarrow> real_t \<Rightarrow> int" where
  "bin_index leftend scalefactor val = int_cast ((val - leftend) * scalefactor)"

text \<open>The per-thread counters: elements below the interval, and elements of each bin.\<close>

datatype bin_counts = BinCounts (bottomcount: nat) (bincounts: "nat \<Rightarrow> nat")

instantiation bin_counts :: comm_monoid_add
begin

definition zero_bin_counts :: bin_counts where
  "zero_bin_counts = BinCounts 0 (\<lambda>b. 0)"

definition plus_bin_counts :: "bin_counts \<Rightarrow> bin_counts \<Rightarrow> bin_counts" where
  "plus_bin_counts x y = BinCounts (bottomcount x + bottomcount y) (\<lambda>b. bincounts x b + bincounts y b)"

instance
  by standard (simp_all add: zero_bin_counts_def plus_bin_counts_def ac_simps)

end

definition num_bins :: nat where
  "num_bins = 1000"

text \<open>One element is counted; two of them are one round of the unrolled loop.\<close>

definition count_bin :: "(nat \<Rightarrow> int) \<Rightarrow> nat \<Rightarrow> bin_counts \<Rightarrow> bin_counts" where
  "count_bin bin i acc =
     (if bin i < 0 then BinCounts (bottomcount acc + 1) (bincounts acc)
      else if bin i \<le> int num_bins then
        BinCounts (bottomcount acc) ((bincounts acc)(nat (bin i) := bincounts acc (nat (bin i)) + 1))
      else acc)"

definition count_bins :: "(nat \<Rightarrow> int) \<Rightarrow> schedule \<Rightarrow> bin_counts" where
  "count_bins bin sched =
     parallel_bodies (unrolled 2 4 (\<lambda>i acc. count_bin bin (i + 1) (count_bin bin i acc)) (count_bin bin)) (+) 0 sched"

section \<open>The search for the bins of the median\<close>

text \<open>
  The first bin at which the running count reaches \<open>k\<close>, with the count; None if no bin is left.
\<close>

function find_bin :: "(nat \<Rightarrow> nat) \<Rightarrow> nat \<Rightarrow> nat \<Rightarrow> nat \<Rightarrow> (nat \<times> nat) option" where
  "find_bin counts k i cnt =
     (if i < num_bins + 1 then
        let cnt = cnt + counts i
        in if cnt \<ge> k then Some (i, cnt) else find_bin counts k (i + 1) cnt
      else None)"
  by pat_completeness auto
termination
  by (relation "measure (\<lambda>(counts, k, i, cnt). num_bins + 1 - i)") auto

text \<open>
  The bin of the upper of the two middle elements. \<^verbatim>\<open>bincounts.at(j)\<close> throws for an index behind
  the last bin: None.
\<close>

function next_bin :: "(nat \<Rightarrow> nat) \<Rightarrow> nat \<Rightarrow> nat \<Rightarrow> nat \<Rightarrow> nat option" where
  "next_bin counts k j cnt =
     (if cnt = k then
        if j + 1 \<le> num_bins then
          let cnt = cnt + counts (j + 1)
          in if j + 1 = num_bins then Some (j + 1) else next_bin counts k (j + 1) cnt
        else None
      else Some j)"
  by pat_completeness auto
termination
  by (relation "measure (\<lambda>(counts, k, j, cnt). num_bins - j)") auto

declare find_bin.simps [simp del] next_bin.simps [simp del]

definition binmedian_min_range :: real where
  "binmedian_min_range = 1 / 10000"

definition mat_median_binapprox ::
  "(nat \<Rightarrow> real_t list \<Rightarrow> real_t list) \<Rightarrow> real_t mat \<Rightarrow> schedule \<Rightarrow> schedule \<Rightarrow> data_stats option"
where
  "mat_median_binapprox ne data sched1 sched2 =
     (let n = n_elem data;
          stats = mat_mean_and_stddev data sched1;
          mu = mean stats;
          sg = sigma stats
      in if sg * 2 < binmedian_min_range then Some (median_stats mu sg (mat_median_exact ne data))
         else
           let scalefactor = real num_bins / (2 * sg);
               leftend = mu - sg;
               acc = count_bins (\<lambda>i. bin_index leftend scalefactor (at_lin data i)) sched2
           in if odd n then
                (case find_bin (bincounts acc) ((n + 1) div 2) 0 (bottomcount acc) of
                   Some (i, cnt) \<Rightarrow> Some (median_stats mu sg ((real i + 1 / 2) / scalefactor + leftend))
                 | None \<Rightarrow> Some (median_stats mu sg (mat_median_exact ne data)))
              else
                (case find_bin (bincounts acc) (n div 2) 0 (bottomcount acc) of
                   Some (i, cnt) \<Rightarrow>
                     (case next_bin (bincounts acc) (n div 2) i cnt of
                        Some j \<Rightarrow> Some (median_stats mu sg (real (i + j + 1) / (2 * scalefactor) + leftend))
                      | None \<Rightarrow> None)
                 | None \<Rightarrow> Some (median_stats mu sg (mat_median_exact ne data))))"

section \<open>Counting\<close>

lemma int_cast_mono: "x \<le> y \<Longrightarrow> int_cast x \<le> int_cast y"
  unfolding int_cast_def
  by (auto simp: floor_mono ceiling_mono) (metis ceiling_le_zero dual_order.trans le_cases not_le zero_le_floor)

lemma bin_index_mono: "0 \<le> scalefactor \<Longrightarrow> x \<le> y \<Longrightarrow> bin_index l scalefactor x \<le> bin_index l scalefactor y"
  unfolding bin_index_def by (intro int_cast_mono mult_right_mono) auto

text \<open>What one element adds.\<close>

definition bin_item :: "(nat \<Rightarrow> int) \<Rightarrow> nat \<Rightarrow> bin_counts" where
  "bin_item bin i = BinCounts (if bin i < 0 then 1 else 0)
     (\<lambda>b. if bin i = int b \<and> b \<le> num_bins then 1 else 0)"

lemma count_bin_item: "count_bin bin i acc = acc + bin_item bin i"
  by (cases acc) (auto simp: count_bin_def bin_item_def plus_bin_counts_def fun_eq_iff)

interpretation bins: sum_reduction "bin_item bin" for bin .

lemma bincounts_sum: "bottomcount (\<Sum>i \<in> A. f i) = (\<Sum>i \<in> A. bottomcount (f i))"
  "bincounts (\<Sum>i \<in> A. f i) b = (\<Sum>i \<in> A. bincounts (f i) b)"
  by (induction A rule: infinite_finite_induct) (simp_all add: zero_bin_counts_def plus_bin_counts_def)

lemma count_bins_sum:
  assumes "schedules 0 n sched"
  shows "count_bins bin sched = (\<Sum>i < n. bin_item bin i)"
proof -
  have two: "[i..<i + 2] = [i, i + 1]" for i :: nat
    by (simp add: upt_rec)
  have single: "count_bin bin = (\<lambda>i s. s + bin_item bin i)"
    by (intro ext) (rule count_bin_item)
  have "unrolled 2 4 (\<lambda>i acc. count_bin bin (i + 1) (count_bin bin i acc)) (count_bin bin) r s =
      fold (\<lambda>i s. s + bin_item bin i) [fst r..<snd r] s" for r s
    unfolding single by (rule unrolled_fold) (simp_all add: two)
  then have "count_bins bin sched = parallel_reduce (\<lambda>i s. s + bin_item bin i) (+) 0 sched"
    unfolding count_bins_def by (rule parallel_bodies_reduce)
  then show ?thesis
    using bins.parallel_sum [OF assms] by (simp add: atLeast0)
qed

text \<open>The running count at bin \<open>b\<close> is the number of elements in or below bin \<open>b\<close>.\<close>

lemma count_bins_prefix:
  assumes "schedules 0 n sched" and "b \<le> num_bins"
  shows "bottomcount (count_bins bin sched) + (\<Sum>c \<le> b. bincounts (count_bins bin sched) c) =
    card {i. i < n \<and> bin i \<le> int b}"
proof -
  have one: "bottomcount (bin_item bin i) + (\<Sum>c \<le> b. bincounts (bin_item bin i) c) = (if bin i \<le> int b then 1 else 0)" for i
  proof (cases "bin i < 0")
    case True
    then show ?thesis by (simp add: bin_item_def)
  next
    case False
    then obtain m where m: "bin i = int m"
      by (metis nonneg_int_cases not_less)
    have "(\<Sum>c \<le> b. bincounts (bin_item bin i) c) = (\<Sum>c \<le> b. if c = m then 1 else 0)"
      using assms(2) m by (intro sum.cong) (auto simp: bin_item_def)
    then show ?thesis
      using m by (simp add: bin_item_def)
  qed
  have "bottomcount (count_bins bin sched) + (\<Sum>c \<le> b. bincounts (count_bins bin sched) c) =
      (\<Sum>i < n. bottomcount (bin_item bin i)) + (\<Sum>c \<le> b. \<Sum>i < n. bincounts (bin_item bin i) c)"
    by (simp add: count_bins_sum [OF assms(1)] bincounts_sum)
  also have "\<dots> = (\<Sum>i < n. bottomcount (bin_item bin i) + (\<Sum>c \<le> b. bincounts (bin_item bin i) c))"
    by (subst sum.swap) (simp add: sum.distrib)
  also have "\<dots> = (\<Sum>i < n. if bin i \<le> int b then 1 else 0)"
    by (simp add: one)
  also have "\<dots> = card {i. i < n \<and> bin i \<le> int b}"
    by (simp add: sum.If_cases Int_def)
  finally show ?thesis .
qed

lemma find_bin_first:
  assumes F: "\<And>b. F (Suc b) = F b + counts b" and b: "b \<le> num_bins" "k \<le> F (Suc b)"
  shows "i \<le> b \<Longrightarrow> (\<And>a. i \<le> a \<Longrightarrow> a < b \<Longrightarrow> F (Suc a) < k) \<Longrightarrow>
    find_bin counts k i (F i) = Some (b, F (Suc b))"
proof (induction "b - i" arbitrary: i)
  case 0
  with b show ?case by (subst find_bin.simps) (simp add: F [symmetric])
next
  case (Suc m)
  then have "find_bin counts k (i + 1) (F (Suc i)) = Some (b, F (Suc b))"
    by simp
  moreover have "F (Suc i) < k"
    using Suc.prems(2) [of i] Suc.hyps(2) by simp
  ultimately show ?case
    using Suc.hyps(2) b by (subst find_bin.simps) (simp add: F [symmetric])
qed

lemma next_bin_first:
  assumes F: "\<And>b. F (Suc b) = F b + counts b" and b: "b \<le> num_bins" "k < F (Suc b)"
  shows "i \<le> b \<Longrightarrow> (\<And>a. i \<le> a \<Longrightarrow> a < b \<Longrightarrow> F (Suc a) = k) \<Longrightarrow>
    next_bin counts k i (F (Suc i)) = Some b"
proof (induction "b - i" arbitrary: i)
  case 0
  with b show ?case by (subst next_bin.simps) simp
next
  case (Suc m)
  have step: "F (Suc i) = k" "i < b"
    using Suc.prems(2) [of i] Suc.hyps(2) by simp_all
  have "next_bin counts k (Suc i) (F (Suc (Suc i))) = Some b"
    using Suc by simp
  moreover have "i + 1 = num_bins \<Longrightarrow> b = i + 1"
    using b(1) step(2) by simp
  ultimately show ?case
    using step b(1) by (subst next_bin.simps) (auto simp: F [of "Suc i", symmetric])
qed

section \<open>The error of the approximation\<close>

lemma int_cast_bounds: "0 \<le> x \<Longrightarrow> of_int (int_cast x) \<le> x \<and> x < of_int (int_cast x) + 1"
  by (simp add: int_cast_def)

text \<open>The middle of the bin of a value of the interval is half a bin away at most.\<close>

lemma bin_error:
  assumes "0 < scalefactor" and "l \<le> x" and "bin_index l scalefactor x = int b"
  shows "\<bar>(real b + 1 / 2) / scalefactor + l - x\<bar> \<le> 1 / (2 * scalefactor)"
proof -
  have "real b \<le> (x - l) * scalefactor \<and> (x - l) * scalefactor < real b + 1"
    using int_cast_bounds [of "(x - l) * scalefactor"] assms by (simp add: bin_index_def)
  then have "\<bar>(real b + 1 / 2) - (x - l) * scalefactor\<bar> \<le> 1 / 2"
    by (simp only: abs_le_iff) linarith
  then have "\<bar>(real b + 1 / 2) - (x - l) * scalefactor\<bar> / scalefactor \<le> 1 / 2 / scalefactor"
    using assms(1) by (intro divide_right_mono) auto
  moreover have "((real b + 1 / 2) - (x - l) * scalefactor) / scalefactor = (real b + 1 / 2) / scalefactor + l - x"
    using assms(1) by (simp add: field_simps)
  then have "\<bar>(real b + 1 / 2) - (x - l) * scalefactor\<bar> / scalefactor =
      \<bar>(real b + 1 / 2) / scalefactor + l - x\<bar>"
    using assms(1) by (simp add: abs_div_pos)
  ultimately show ?thesis by simp
qed

text \<open>The binned data: sorted elements in the interval, and the counts in front of a bin.\<close>

lemma elems_stats:
  "elem_mean data = (\<Sum>i < length (elems data). elems data ! i) / real (length (elems data))"
  "elem_variance data = (\<Sum>i < length (elems data). (elems data ! i - elem_mean data)\<^sup>2) / real (length (elems data))"
  by (simp_all add: elem_mean_def elem_sum_def elem_variance_def elems_def)

lemma middle_in_interval:
  assumes "k < n_elem data" and "n_elem data \<le> 2 * (k + 1)" and "2 * k \<le> n_elem data"
  shows "\<bar>sort (elems data) ! k - elem_mean data\<bar> \<le> sqrt (elem_variance data)"
  using order_statistic_near_mean [of k "elems data" "elem_mean data"] assms
  by (simp add: elems_stats [symmetric]) (simp add: elems_stats)

lemma middle_bin:
  assumes k: "k < n_elem data" "n_elem data \<le> 2 * (k + 1)" "2 * k \<le> n_elem data"
    and s: "s = sqrt (elem_variance data)" "0 < s" and l: "l = elem_mean data - s"
    and f: "f = real num_bins / (2 * s)"
  obtains b where "b \<le> num_bins" and "bin_index l f (sort (elems data) ! k) = int b"
    and "\<bar>(real b + 1 / 2) / f + l - sort (elems data) ! k\<bar> \<le> s / real num_bins"
proof -
  let ?x = "sort (elems data) ! k"
  have x: "l \<le> ?x" "?x \<le> l + 2 * s"
    using middle_in_interval [OF k] by (simp_all add: s(1) l)
  have fpos: "0 < f"
    using s(2) by (simp add: f num_bins_def)
  have "(?x - l) * f \<le> 2 * s * f"
    using x(2) fpos by (intro mult_right_mono) auto
  also have "\<dots> = real num_bins"
    using s(2) by (simp add: f)
  finally have top: "(?x - l) * f \<le> real num_bins" .
  have bot: "0 \<le> (?x - l) * f"
    using x(1) fpos by simp
  define b where "b = nat \<lfloor>(?x - l) * f\<rfloor>"
  have b: "bin_index l f ?x = int b" "b \<le> num_bins"
    using bot top by (simp_all add: bin_index_def int_cast_def b_def) linarith
  have "1 / (2 * f) = s / real num_bins"
    using s(2) by (simp add: f num_bins_def)
  with bin_error [OF fpos x(1) b(1)] have "\<bar>(real b + 1 / 2) / f + l - ?x\<bar> \<le> s / real num_bins"
    by simp
  with that b show thesis by blast
qed

lemma bins_below:
  assumes "schedules 0 (n_elem data) sched" and "b \<le> num_bins"
    and bin: "bin = (\<lambda>i. bin_index l f (at_lin data i))" and f: "0 \<le> f" and k: "k < n_elem data"
  shows "k < bottomcount (count_bins bin sched) + (\<Sum>c < Suc b. bincounts (count_bins bin sched) c) \<longleftrightarrow>
    bin_index l f (sort (elems data) ! k) \<le> int b"
proof -
  let ?P = "\<lambda>x. bin_index l f x \<le> int b"
  have "bottomcount (count_bins bin sched) + (\<Sum>c < Suc b. bincounts (count_bins bin sched) c) =
      card {i. i < n_elem data \<and> bin i \<le> int b}"
    using count_bins_prefix [OF assms(1,2), of bin] by (simp add: lessThan_Suc_atMost)
  also have "\<dots> = card {i. i < length (elems data) \<and> ?P (elems data ! i)}"
    by (simp add: bin elems_def cong: conj_cong)
  also have "\<dots> = length (filter ?P (elems data))"
    by (rule card_filter)
  finally have count: "bottomcount (count_bins bin sched) + (\<Sum>c < Suc b. bincounts (count_bins bin sched) c) =
      length (filter ?P (elems data))" .
  have "?P y \<Longrightarrow> ?P x" if "x \<le> y" for x y
    using bin_index_mono [OF f that] order_trans by blast
  then show ?thesis
    unfolding count by (intro count_sorted) (use k in auto)
qed

lemma abs_mid: "\<bar>a - x\<bar> \<le> e \<Longrightarrow> \<bar>b - y\<bar> \<le> e \<Longrightarrow> \<bar>(a + b) / 2 - (y + x) / 2\<bar> \<le> (e :: real)"
  unfolding abs_le_iff by (simp add: field_simps)

lemma binapprox_value:
  assumes "nth_selector ne" and "0 < n_elem data"
    and "schedules 0 (n_elem data) sched1" and "schedules 0 (n_elem data) sched2"
  shows "\<exists>st. mat_median_binapprox ne data sched1 sched2 = Some st \<and> mean st = elem_mean data \<and>
    sigma st = sqrt (elem_variance data) \<and> median_valid st \<and>
    \<bar>median st - exact_median (elems data)\<bar> \<le> sqrt (elem_variance data) / 1000"
proof -
  define s where "s = sqrt (elem_variance data)"
  define mu where "mu = elem_mean data"
  let ?n = "n_elem data" and ?ys = "sort (elems data)"
  have stats: "mean (mat_mean_and_stddev data sched1) = mu" "sigma (mat_mean_and_stddev data sched1) = s"
    using mean_and_stddev_value [OF assms(3,2)] by (simp_all add: stats_defs mu_def s_def)
  have s0: "0 \<le> s"
    by (simp add: s_def elem_variance_def sum_nonneg)
  show ?thesis
  proof (cases "s * 2 < binmedian_min_range")
    case True
    with stats s0 median_exact_value [OF assms(1,2)] show ?thesis
      by (simp add: mat_median_binapprox_def Let_def stats_defs mu_def [symmetric] s_def [symmetric])
  next
    case False
    then have s: "0 < s"
      by (simp add: binmedian_min_range_def)
    define f where "f = real num_bins / (2 * s)"
    define l where "l = mu - s"
    define acc where "acc = count_bins (\<lambda>i. bin_index l f (at_lin data i)) sched2"
    define F where "F b = bottomcount acc + (\<Sum>c < b. bincounts acc c)" for b
    have f0: "0 \<le> f" "0 < f"
      using s by (simp_all add: f_def num_bins_def)
    have F: "F (Suc b) = F b + bincounts acc b" and F0: "F 0 = bottomcount acc" for b
      by (simp_all add: F_def)
    have below: "k < F (Suc b) \<longleftrightarrow> bin_index l f (?ys ! k) \<le> int b" if "b \<le> num_bins" "k < ?n" for k b
      unfolding F_def acc_def by (rule bins_below [OF assms(4) that(1) refl f0(1) that(2)])
    note bin = middle_bin [OF _ _ _ s_def s l_def [unfolded mu_def] f_def]
    have err: "s / real num_bins = s / 1000"
      by (simp add: num_bins_def)
    show ?thesis
    proof (cases "odd ?n")
      case True
      then obtain h where h: "?n = 2 * h + 1"
        by (rule oddE)
      obtain b where b: "b \<le> num_bins" "bin_index l f (?ys ! h) = int b"
        "\<bar>(real b + 1 / 2) / f + l - ?ys ! h\<bar> \<le> s / real num_bins"
        using bin [of h] h by auto
      have "find_bin (bincounts acc) (h + 1) 0 (F 0) = Some (b, F (Suc b))"
      proof (rule find_bin_first [where F = F and counts = "bincounts acc", OF F b(1)])
        show "h + 1 \<le> F (Suc b)"
          using below [OF b(1), of h] b(2) h by simp
        show "F (Suc a) < h + 1" if "a < b" for a
          using below [of a h] b that h by simp
      qed simp
      then have "mat_median_binapprox ne data sched1 sched2 =
          Some (median_stats mu s ((real b + 1 / 2) / f + l))"
        using False True h stats
        by (simp add: mat_median_binapprox_def Let_def F0 acc_def f_def l_def)
      moreover have "exact_median (elems data) = ?ys ! h"
        using h by (simp add: exact_median_def Let_def)
      ultimately show ?thesis
        using b(3) by (simp add: stats_defs mu_def [symmetric] s_def [symmetric] num_bins_def)
    next
      case even: False
      then obtain h where h: "?n = 2 * h" "0 < h"
        using assms(2) by (auto elim!: evenE)
      have low: "h - 1 < ?n" "?n \<le> 2 * (h - 1 + 1)" "2 * (h - 1) \<le> ?n"
        using h by auto
      obtain i where i: "i \<le> num_bins" "bin_index l f (?ys ! (h - 1)) = int i"
        "\<bar>(real i + 1 / 2) / f + l - ?ys ! (h - 1)\<bar> \<le> s / real num_bins"
        by (rule bin [OF low])
      obtain j where j: "j \<le> num_bins" "bin_index l f (?ys ! h) = int j"
        "\<bar>(real j + 1 / 2) / f + l - ?ys ! h\<bar> \<le> s / real num_bins"
        using bin [of h] h by auto
      have "?ys ! (h - 1) \<le> ?ys ! h"
        using h by (intro sorted_nth_mono) simp_all
      then have ij: "i \<le> j"
        using bin_index_mono [OF f0(1), of "?ys ! (h - 1)" "?ys ! h" l] i(2) j(2) by simp
      have "find_bin (bincounts acc) h 0 (F 0) = Some (i, F (Suc i))"
      proof (rule find_bin_first [where F = F and counts = "bincounts acc", OF F i(1)])
        have "h - 1 < F (Suc i)"
          using below [OF i(1) low(1)] i(2) by simp
        then show "h \<le> F (Suc i)"
          by simp
        show "F (Suc a) < h" if "a < i" for a
        proof -
          have "\<not> h - 1 < F (Suc a)"
            using below [OF _ low(1), of a] i that by simp
          with h(2) show ?thesis by linarith
        qed
      qed simp
      moreover have "next_bin (bincounts acc) h i (F (Suc i)) = Some j"
      proof (rule next_bin_first [where F = F and counts = "bincounts acc", OF F j(1) _ ij])
        show "h < F (Suc j)"
          using below [OF j(1), of h] j(2) h by simp
        show "F (Suc a) = h" if "i \<le> a" "a < j" for a
        proof -
          have "h - 1 < F (Suc a)"
            using below [OF _ low(1), of a] i(2) j(1) that by simp
          moreover have "\<not> h < F (Suc a)"
            using below [of a h] j that h by simp
          ultimately show ?thesis by linarith
        qed
      qed
      ultimately have res: "mat_median_binapprox ne data sched1 sched2 =
          Some (median_stats mu s (real (i + j + 1) / (2 * f) + l))"
        using False even h stats
        by (simp add: mat_median_binapprox_def Let_def F0 acc_def f_def l_def)
      have ex: "exact_median (elems data) = (?ys ! h + ?ys ! (h - 1)) / 2"
        using h by (simp add: exact_median_def Let_def)
      have mid: "real (i + j + 1) / (2 * f) + l = (((real i + 1 / 2) / f + l) + ((real j + 1 / 2) / f + l)) / 2"
        using f0(2) by (simp add: field_simps)
      have "\<bar>(real (i + j + 1) / (2 * f) + l) - exact_median (elems data)\<bar> \<le> s / 1000"
        unfolding mid ex using abs_mid [OF i(3) j(3)] by (simp only: err)
      with res show ?thesis
        by (simp add: stats_defs mu_def [symmetric] s_def [symmetric])
    qed
  qed
qed

text \<open>C16. mat_median_binapprox always returns, with the mean, the standard deviation and
  a median that is at most a thousandth of the standard deviation away from the exact median.\<close>

theorem binapprox_error:
  assumes "nth_selector ne" and "0 < n_elem data"
    and "schedules 0 (n_elem data) sched1" and "schedules 0 (n_elem data) sched2"
  shows "\<exists>st. mat_median_binapprox ne data sched1 sched2 = Some st \<and> mean st = elem_mean data \<and>
    sigma st = sqrt (elem_variance data) \<and> median_valid st \<and>
    \<bar>median st - exact_median (elems data)\<bar> \<le> sqrt (elem_variance data) / 1000"
  using assms by (rule binapprox_value)

theorem binapprox_error_witness:
  "\<exists>st. mat_median_binapprox (\<lambda>k. sort) stats_demo [[(4, 6)], [(0, 3), (3, 4)]] [[(4, 6)], [(0, 3), (3, 4)]] = Some st \<and>
    mean st = elem_mean stats_demo \<and> sigma st = sqrt (elem_variance stats_demo) \<and> median_valid st \<and>
    \<bar>median st - exact_median (elems stats_demo)\<bar> \<le> sqrt (elem_variance stats_demo) / 1000"
  by (rule binapprox_error [OF sort_selector.nth_selector_axioms]) (simp_all add: stats_demo_size)

end
