(* ===== verification/Fitting.thy ===== *)
theory Fitting
  imports Binapprox
begin

text \<open>
  Gaussian fitting, \<^verbatim>\<open>src/src/stp/sourcefind/fitting.h\<close> and
  \<^verbatim>\<open>fitting.cpp\<close>: bounding boxes, the parameters of a Gaussian and their constrained form,
  and the cost functions that are handed to the solver, with and without analytic derivatives. The solver
  itself (Ceres) is not part of the repository. \<open>fs\<close> is the macro \<^verbatim>\<open>FFTSHIFT\<close>.
\<close>

section \<open>Bounding boxes\<close>

record bounding_box =
  box_top :: int
  box_bottom :: int
  box_left :: int
  box_right :: int

definition no_box :: bounding_box where
  "no_box = \<lparr>box_top = 0, box_bottom = 0, box_left = 0, box_right = 0\<rparr>"

definition get_width :: "bounding_box \<Rightarrow> nat" where
  "get_width b = (if box_right b \<ge> box_left b then nat (box_right b - box_left b + 1) else 0)"

definition get_height :: "bounding_box \<Rightarrow> nat" where
  "get_height b = (if box_bottom b \<ge> box_top b then nat (box_bottom b - box_top b + 1) else 0)"

section \<open>Gaussians\<close>

record gaussian2d_params =
  amplitude :: real
  x_centre :: real
  y_centre :: real
  semimajor :: real
  semiminor :: real
  theta :: real

definition no_params :: gaussian2d_params where
  "no_params = \<lparr>amplitude = 0, x_centre = 0, y_centre = 0, semimajor = 0, semiminor = 0, theta = 0\<rparr>"

text \<open>The coefficients of the quadratic form: \<open>a\<close>, \<open>b\<close> and \<open>c\<close> of the code.\<close>

definition coeff_a :: "real \<Rightarrow> real \<Rightarrow> real \<Rightarrow> real" where
  "coeff_a x_stddev y_stddev th =
     (let cost2 = cos th * cos th; sint2 = sin th * sin th;
          xstd2 = x_stddev * x_stddev; ystd2 = y_stddev * y_stddev
      in 1 / 2 * (cost2 / xstd2 + sint2 / ystd2))"

definition coeff_b :: "real \<Rightarrow> real \<Rightarrow> real \<Rightarrow> real" where
  "coeff_b x_stddev y_stddev th =
     (let sin2t = sin (2 * th); xstd2 = x_stddev * x_stddev; ystd2 = y_stddev * y_stddev
      in 1 / 2 * (sin2t / xstd2 - sin2t / ystd2))"

definition coeff_c :: "real \<Rightarrow> real \<Rightarrow> real \<Rightarrow> real" where
  "coeff_c x_stddev y_stddev th =
     (let cost2 = cos th * cos th; sint2 = sin th * sin th;
          xstd2 = x_stddev * x_stddev; ystd2 = y_stddev * y_stddev
      in 1 / 2 * (sint2 / xstd2 + cost2 / ystd2))"

definition evaluate_point :: "gaussian2d_params \<Rightarrow> real \<Rightarrow> real \<Rightarrow> real" where
  "evaluate_point g x y =
     (let a = coeff_a (semimajor g) (semiminor g) (theta g);
          b = coeff_b (semimajor g) (semiminor g) (theta g);
          c = coeff_c (semimajor g) (semiminor g) (theta g);
          xdiff = x - x_centre g;
          ydiff = y - y_centre g
      in amplitude g * exp (- (a * xdiff * xdiff + b * xdiff * ydiff + c * ydiff * ydiff)))"

text \<open>\<^verbatim>\<open>fmod\<close> of the C library: the quotient is truncated.\<close>

definition c_fmod :: "real \<Rightarrow> real \<Rightarrow> real" where
  "c_fmod x y = x - of_int (int_cast (x / y)) * y"

definition convert_to_constrained_parameters :: "gaussian2d_params \<Rightarrow> gaussian2d_params" where
  "convert_to_constrained_parameters g =
     (let half_pi = pi / 2;
          g = g\<lparr>semimajor := \<bar>semimajor g\<bar>, semiminor := \<bar>semiminor g\<bar>\<rparr>;
          g = (if semimajor g < semiminor g then
                 g\<lparr>semimajor := semiminor g, semiminor := semimajor g, theta := theta g + half_pi\<rparr>
               else g);
          mod_theta = c_fmod (theta g) pi;
          mod_theta = (if mod_theta \<le> - half_pi then mod_theta + pi
                       else if mod_theta > half_pi then mod_theta - pi else mod_theta)
      in g\<lparr>theta := mod_theta\<rparr>)"

section \<open>Residuals\<close>

text \<open>The functor for one pixel, by automatic differentiation.\<close>

definition gaussian_residual :: "real \<Rightarrow> real \<Rightarrow> real \<Rightarrow> gaussian2d_params \<Rightarrow> real" where
  "gaussian_residual data x y g =
     (let a = coeff_a (semimajor g) (semiminor g) (theta g);
          b = coeff_b (semimajor g) (semiminor g) (theta g);
          c = coeff_c (semimajor g) (semiminor g) (theta g);
          xdiff = x - x_centre g;
          ydiff = y - y_centre g
      in amplitude g * exp (- (a * xdiff * xdiff + b * xdiff * ydiff + c * ydiff * ydiff)) - data)"

text \<open>
  The coordinates of a pixel in the shifted image, and back: the code has the same formula for both.
\<close>

definition shift_coord :: "bool \<Rightarrow> nat \<Rightarrow> nat \<Rightarrow> nat" where
  "shift_coord fs n i = (if fs then i else if i < n div 2 then i + n div 2 else i - n div 2)"

text \<open>The loops over the bounding box. The bounds of the box of an island are not negative.\<close>

definition box_loop :: "bounding_box \<Rightarrow> (nat \<times> nat) list" where
  "box_loop box = [(i, j). i \<leftarrow> [nat (box_left box)..<nat (box_right box + 1)],
     j \<leftarrow> [nat (box_top box)..<nat (box_bottom box + 1)]]"

definition has_label :: "bool \<Rightarrow> int mat \<Rightarrow> int \<Rightarrow> nat \<times> nat \<Rightarrow> bool" where
  "has_label fs label_map label_idx = (\<lambda>(i, j).
     elt label_map (shift_coord fs (n_rows label_map) j) (shift_coord fs (n_cols label_map) i) = label_idx)"

definition pixel_value :: "bool \<Rightarrow> real_t mat \<Rightarrow> nat \<times> nat \<Rightarrow> real" where
  "pixel_value fs data = (\<lambda>(i, j). elt data (shift_coord fs (n_rows data) j) (shift_coord fs (n_cols data) i))"

text \<open>The functor for all pixels of the island; each \<^verbatim>\<open>continue\<close> skips a pixel.\<close>

definition gaussian_all_residuals ::
  "bool \<Rightarrow> real_t mat \<Rightarrow> int mat \<Rightarrow> bounding_box \<Rightarrow> int \<Rightarrow> gaussian2d_params \<Rightarrow> real list"
where
  "gaussian_all_residuals fs data label_map box label_idx g =
     (let a = coeff_a (semimajor g) (semiminor g) (theta g);
          b = coeff_b (semimajor g) (semiminor g) (theta g);
          c = coeff_c (semimajor g) (semiminor g) (theta g)
      in fold (\<lambda>(i, j) residual.
           if \<not> has_label fs label_map label_idx (i, j) then residual
           else
             let xdiff = real i - x_centre g;
                 ydiff = real j - y_centre g
             in residual @ [amplitude g * exp (- (a * xdiff * xdiff + b * xdiff * ydiff + c * ydiff * ydiff))
                  - pixel_value fs data (i, j)])
         (box_loop box) [])"

section \<open>Analytic derivatives\<close>

text \<open>The row of the Jacobian for one pixel: the six derivatives of the residual.\<close>

definition jacobian_row :: "gaussian2d_params \<Rightarrow> real \<Rightarrow> real \<Rightarrow> real list" where
  "jacobian_row g x y =
     (let th = theta g;
          cost = cos th; cost2 = cost * cost; sint = sin th; sint2 = sint * sint;
          sin2t = sin (2 * th); cos2t = cos (2 * th);
          xstd2 = semimajor g * semimajor g; ystd2 = semiminor g * semiminor g;
          xstd3 = xstd2 * semimajor g; ystd3 = ystd2 * semiminor g;
          a = coeff_a (semimajor g) (semiminor g) th;
          b = coeff_b (semimajor g) (semiminor g) th;
          c = coeff_c (semimajor g) (semiminor g) th;
          da_dtheta = sint * cost * (1 / ystd2 - 1 / xstd2);
          da_dx_stddev = - cost2 / xstd3;
          da_dy_stddev = - sint2 / ystd3;
          db_dtheta = cos2t / xstd2 - cos2t / ystd2;
          db_dx_stddev = - sin2t / xstd3;
          db_dy_stddev = sin2t / ystd3;
          dc_dtheta = - da_dtheta;
          dc_dx_stddev = - sint2 / xstd3;
          dc_dy_stddev = - cost2 / ystd3;
          xdiff = x - x_centre g;
          ydiff = y - y_centre g;
          xdiff2 = xdiff * xdiff;
          ydiff2 = ydiff * ydiff;
          gv = amplitude g * exp (- (a * xdiff2 + b * xdiff * ydiff + c * ydiff2))
      in [gv / amplitude g,
          gv * (2 * a * xdiff + b * ydiff),
          gv * (b * xdiff + 2 * c * ydiff),
          gv * (- (da_dx_stddev * xdiff2 + db_dx_stddev * xdiff * ydiff + dc_dx_stddev * ydiff2)),
          gv * (- (da_dy_stddev * xdiff2 + db_dy_stddev * xdiff * ydiff + dc_dy_stddev * ydiff2)),
          gv * (- (da_dtheta * xdiff2 + db_dtheta * xdiff * ydiff + dc_dtheta * ydiff2))])"

text \<open>
  What the solver asks for: no derivatives (a null pointer), derivatives with a null block (constant
  parameters), or derivatives.
\<close>

datatype jacobians = No_jacobians | Null_block | Block

text \<open>The residual, and the row of the Jacobian if it is asked for.\<close>

definition gaussian_analytic :: "real \<Rightarrow> real \<Rightarrow> real \<Rightarrow> gaussian2d_params \<Rightarrow> jacobians \<Rightarrow> real \<times> real list" where
  "gaussian_analytic data x y g jac =
     (let a = coeff_a (semimajor g) (semiminor g) (theta g);
          b = coeff_b (semimajor g) (semiminor g) (theta g);
          c = coeff_c (semimajor g) (semiminor g) (theta g);
          xdiff = x - x_centre g;
          ydiff = y - y_centre g;
          xdiff2 = xdiff * xdiff;
          ydiff2 = ydiff * ydiff;
          gv = amplitude g * exp (- (a * xdiff2 + b * xdiff * ydiff + c * ydiff2));
          residual = gv - data
      in case jac of No_jacobians \<Rightarrow> (residual, []) | Null_block \<Rightarrow> (residual, [])
         | Block \<Rightarrow> (residual, jacobian_row g x y))"

definition gaussian_analytic_all_residuals ::
  "bool \<Rightarrow> real_t mat \<Rightarrow> int mat \<Rightarrow> bounding_box \<Rightarrow> int \<Rightarrow> gaussian2d_params \<Rightarrow> jacobians \<Rightarrow> real list \<times> real list"
where
  "gaussian_analytic_all_residuals fs data label_map box label_idx g jac =
     (let a = coeff_a (semimajor g) (semiminor g) (theta g);
          b = coeff_b (semimajor g) (semiminor g) (theta g);
          c = coeff_c (semimajor g) (semiminor g) (theta g)
      in fold (\<lambda>(i, j) (residuals, jacobian).
           if \<not> has_label fs label_map label_idx (i, j) then (residuals, jacobian)
           else
             let xdiff = real i - x_centre g;
                 ydiff = real j - y_centre g;
                 xdiff2 = xdiff * xdiff;
                 ydiff2 = ydiff * ydiff;
                 gv = amplitude g * exp (- (a * xdiff2 + b * xdiff * ydiff + c * ydiff2));
                 residuals = residuals @ [gv - pixel_value fs data (i, j)]
             in if jac \<noteq> No_jacobians then
                  if jac = Null_block then (residuals, jacobian)
                  else (residuals, jacobian @ jacobian_row g (real i) (real j))
                else (residuals, jacobian))
         (box_loop box) ([], []))"

section \<open>Constrained parameters\<close>

lemma coeffs_swap:
  "coeff_a s t (th + pi / 2) = coeff_a t s th" "coeff_b s t (th + pi / 2) = coeff_b t s th"
  "coeff_c s t (th + pi / 2) = coeff_c t s th"
  by (simp_all add: coeff_a_def coeff_b_def coeff_c_def Let_def sin_add cos_add sin_double algebra_simps)

lemma sin_cos_pi:
  fixes k :: int
  shows "sin (x + of_int k * pi) * sin (x + of_int k * pi) = sin x * sin x"
    and "cos (x + of_int k * pi) * cos (x + of_int k * pi) = cos x * cos x"
    and "sin (2 * (x + of_int k * pi)) = sin (2 * x)"
proof -
  have s0: "sin (of_int k * pi) = 0"
    by (simp add: sin_zero_iff_int2)
  then have "(cos (of_int k * pi))\<^sup>2 = 1"
    using sin_cos_squared_add [of "of_int k * pi"] by simp
  then have c1: "cos (of_int k * pi) * (cos (of_int k * pi) * z) = z" for z
    by (simp add: power2_eq_square mult.assoc [symmetric])
  have eqs: "sin (x + of_int k * pi) = sin x * cos (of_int k * pi)" "cos (x + of_int k * pi) = cos x * cos (of_int k * pi)"
    by (simp_all add: sin_add cos_add s0)
  show "sin (x + of_int k * pi) * sin (x + of_int k * pi) = sin x * sin x"
    and "cos (x + of_int k * pi) * cos (x + of_int k * pi) = cos x * cos x"
    and "sin (2 * (x + of_int k * pi)) = sin (2 * x)"
    unfolding sin_double eqs by (simp_all add: ac_simps c1)
qed

lemma coeffs_turn:
  fixes k :: int
  shows "coeff_a s t (th + of_int k * pi) = coeff_a s t th" "coeff_b s t (th + of_int k * pi) = coeff_b s t th"
    "coeff_c s t (th + of_int k * pi) = coeff_c s t th"
  unfolding coeff_a_def coeff_b_def coeff_c_def Let_def by (simp_all only: sin_cos_pi)

lemma coeffs_abs:
  "coeff_a \<bar>s\<bar> \<bar>t\<bar> th = coeff_a s t th" "coeff_b \<bar>s\<bar> \<bar>t\<bar> th = coeff_b s t th" "coeff_c \<bar>s\<bar> \<bar>t\<bar> th = coeff_c s t th"
  by (simp_all add: coeff_a_def coeff_b_def coeff_c_def)

lemma c_fmod_pi:
  obtains k where "c_fmod x pi = x + of_int k * pi" and "- pi < c_fmod x pi" and "c_fmod x pi < pi"
proof -
  let ?q = "of_int (int_cast (x / pi)) :: real"
  have "x / pi - 1 < ?q \<and> ?q < x / pi + 1"
    unfolding int_cast_def by (auto split: if_splits) linarith+
  then have "- 1 < x / pi - ?q" "x / pi - ?q < 1"
    by linarith+
  moreover have "c_fmod x pi = (x / pi - ?q) * pi"
    by (simp add: c_fmod_def left_diff_distrib)
  ultimately have "- pi < c_fmod x pi" "c_fmod x pi < pi"
    using mult_strict_right_mono [of "- 1" "x / pi - ?q" pi] mult_strict_right_mono [of "x / pi - ?q" 1 pi] by simp_all
  moreover have "c_fmod x pi = x + of_int (- int_cast (x / pi)) * pi"
    by (simp add: c_fmod_def)
  ultimately show thesis
    using that by blast
qed

text \<open>The constrained parameters describe the same Gaussian, at every point, and are canonical: the
  semimajor axis is at least the semiminor one, neither is negative, and the angle is in (-pi/2, pi/2].\<close>

theorem constrained_same_gaussian:
  "evaluate_point (convert_to_constrained_parameters g) x y = evaluate_point g x y \<and>
   0 \<le> semiminor (convert_to_constrained_parameters g) \<and>
   semiminor (convert_to_constrained_parameters g) \<le> semimajor (convert_to_constrained_parameters g) \<and>
   - (pi / 2) < theta (convert_to_constrained_parameters g) \<and> theta (convert_to_constrained_parameters g) \<le> pi / 2"
proof -
  define g1 where "g1 = g\<lparr>semimajor := \<bar>semimajor g\<bar>, semiminor := \<bar>semiminor g\<bar>\<rparr>"
  define g2 where "g2 = (if semimajor g1 < semiminor g1 then
      g1\<lparr>semimajor := semiminor g1, semiminor := semimajor g1, theta := theta g1 + pi / 2\<rparr> else g1)"
  define m where "m = c_fmod (theta g2) pi"
  define m' where "m' = (if m \<le> - (pi / 2) then m + pi else if m > pi / 2 then m - pi else m)"
  have conv: "convert_to_constrained_parameters g = g2\<lparr>theta := m'\<rparr>"
    by (simp add: convert_to_constrained_parameters_def Let_def g1_def g2_def m_def m'_def)
  obtain k where k: "m = theta g2 + of_int k * pi" "- pi < m" "m < pi"
    unfolding m_def by (rule c_fmod_pi)
  have "\<exists>j :: int. m' = theta g2 + of_int j * pi"
  proof -
    have "m' = theta g2 + of_int (if m \<le> - (pi / 2) then k + 1 else if m > pi / 2 then k - 1 else k) * pi"
      by (simp add: m'_def k(1) algebra_simps)
    then show ?thesis by blast
  qed
  then obtain j :: int where j: "m' = theta g2 + of_int j * pi" by blast
  have "evaluate_point (g2\<lparr>theta := m'\<rparr>) x y = evaluate_point g2 x y"
    unfolding j by (simp add: evaluate_point_def coeffs_turn)
  also have "evaluate_point g2 x y = evaluate_point g1 x y"
    by (simp add: g2_def evaluate_point_def coeffs_swap)
  also have "evaluate_point g1 x y = evaluate_point g x y"
    by (simp add: g1_def evaluate_point_def coeffs_abs)
  finally have same: "evaluate_point (convert_to_constrained_parameters g) x y = evaluate_point g x y"
    by (simp only: conv)
  have "0 \<le> semiminor g2" "semiminor g2 \<le> semimajor g2"
    by (simp_all add: g2_def g1_def)
  moreover have "- (pi / 2) < m'" "m' \<le> pi / 2"
    using k(2,3) by (auto simp: m'_def)
  ultimately show ?thesis
    using same by (simp add: conv)
qed

section \<open>The Jacobian\<close>

lemma exp_quadratic_deriv:
  assumes "(q has_real_derivative q') (at t)"
  shows "((\<lambda>t. A * exp (- q t) - d) has_real_derivative A * exp (- q t) * (- q')) (at t)"
  by (rule derivative_eq_intros assms refl | simp)+

text \<open>The derivatives of the coefficients.\<close>

lemma coeffs_deriv_theta:
  assumes "s \<noteq> 0" and "t \<noteq> 0"
  shows "(coeff_a s t has_real_derivative sin th * cos th * (1 / (t * t) - 1 / (s * s))) (at th)"
    and "(coeff_b s t has_real_derivative cos (2 * th) / (s * s) - cos (2 * th) / (t * t)) (at th)"
    and "(coeff_c s t has_real_derivative - (sin th * cos th * (1 / (t * t) - 1 / (s * s)))) (at th)"
  unfolding coeff_a_def coeff_b_def coeff_c_def Let_def
  by (auto intro!: derivative_eq_intros simp: assms algebra_simps add_divide_distrib diff_divide_distrib)

lemma inverse_square_deriv:
  assumes "s \<noteq> (0 :: real)"
  shows "((\<lambda>s. w / (s * s)) has_real_derivative - 2 * w / (s * s * s)) (at s)"
  by (auto intro!: derivative_eq_intros simp: assms divide_simps algebra_simps)

lemma coeffs_deriv_x:
  assumes "s \<noteq> 0"
  shows "((\<lambda>s. coeff_a s t th) has_real_derivative - (cos th * cos th) / (s * s * s)) (at s)"
    and "((\<lambda>s. coeff_b s t th) has_real_derivative - sin (2 * th) / (s * s * s)) (at s)"
    and "((\<lambda>s. coeff_c s t th) has_real_derivative - (sin th * sin th) / (s * s * s)) (at s)"
  unfolding coeff_a_def coeff_b_def coeff_c_def Let_def
  by (rule DERIV_cong, (rule derivative_eq_intros inverse_square_deriv [OF assms] refl)+, simp)+

lemma coeffs_deriv_y:
  assumes "t \<noteq> 0"
  shows "((\<lambda>t. coeff_a s t th) has_real_derivative - (sin th * sin th) / (t * t * t)) (at t)"
    and "((\<lambda>t. coeff_b s t th) has_real_derivative sin (2 * th) / (t * t * t)) (at t)"
    and "((\<lambda>t. coeff_c s t th) has_real_derivative - (cos th * cos th) / (t * t * t)) (at t)"
  unfolding coeff_a_def coeff_b_def coeff_c_def Let_def
  by (rule DERIV_cong, (rule derivative_eq_intros inverse_square_deriv [OF assms] refl)+, simp)+

text \<open>The three coefficients together.\<close>

lemma quadratic_deriv:
  assumes "(a has_real_derivative a') (at t)" and "(b has_real_derivative b') (at t)" and "(c has_real_derivative c') (at t)"
  shows "((\<lambda>t. A * exp (- (a t * (u * u) + b t * u * v + c t * (v * v))) - d) has_real_derivative
    A * exp (- (a t * (u * u) + b t * u * v + c t * (v * v))) * (- (a' * (u * u) + b' * u * v + c' * (v * v)))) (at t)"
  by (rule exp_quadratic_deriv, rule DERIV_cong, (rule derivative_eq_intros assms refl)+, simp add: algebra_simps)

text \<open>The residual with the parameters as arguments.\<close>

definition residual_at :: "real \<Rightarrow> real \<Rightarrow> real \<Rightarrow> real \<Rightarrow> real \<Rightarrow> real \<Rightarrow> real \<Rightarrow> real \<Rightarrow> real \<Rightarrow> real" where
  "residual_at d x y A x0 y0 s t th =
     A * exp (- (coeff_a s t th * ((x - x0) * (x - x0)) + coeff_b s t th * (x - x0) * (y - y0) +
       coeff_c s t th * ((y - y0) * (y - y0)))) - d"

lemma gaussian_residual_at:
  "gaussian_residual d x y g =
    residual_at d x y (amplitude g) (x_centre g) (y_centre g) (semimajor g) (semiminor g) (theta g)"
  by (simp add: gaussian_residual_def residual_at_def Let_def mult.assoc)

lemma residual_derivs:
  fixes d x y A x0 y0 s t th :: real
  defines "gv \<equiv> A * exp (- (coeff_a s t th * ((x - x0) * (x - x0)) + coeff_b s t th * (x - x0) * (y - y0) +
       coeff_c s t th * ((y - y0) * (y - y0))))"
  shows "A \<noteq> 0 \<Longrightarrow> ((\<lambda>A. residual_at d x y A x0 y0 s t th) has_real_derivative gv / A) (at A)"
    and "((\<lambda>x0. residual_at d x y A x0 y0 s t th) has_real_derivative
      gv * (2 * coeff_a s t th * (x - x0) + coeff_b s t th * (y - y0))) (at x0)"
    and "((\<lambda>y0. residual_at d x y A x0 y0 s t th) has_real_derivative
      gv * (coeff_b s t th * (x - x0) + 2 * coeff_c s t th * (y - y0))) (at y0)"
  unfolding residual_at_def gv_def
  by (auto intro!: derivative_eq_intros simp: algebra_simps)

lemma residual_derivs_shape:
  fixes d x y A x0 y0 s t th :: real
  defines "gv \<equiv> A * exp (- (coeff_a s t th * ((x - x0) * (x - x0)) + coeff_b s t th * (x - x0) * (y - y0) +
       coeff_c s t th * ((y - y0) * (y - y0))))"
  assumes s: "s \<noteq> 0" and t: "t \<noteq> 0"
  shows "((\<lambda>s. residual_at d x y A x0 y0 s t th) has_real_derivative
      gv * (- (- (cos th * cos th) / (s * s * s) * ((x - x0) * (x - x0)) +
        - sin (2 * th) / (s * s * s) * (x - x0) * (y - y0) + - (sin th * sin th) / (s * s * s) * ((y - y0) * (y - y0))))) (at s)"
    and "((\<lambda>t. residual_at d x y A x0 y0 s t th) has_real_derivative
      gv * (- (- (sin th * sin th) / (t * t * t) * ((x - x0) * (x - x0)) +
        sin (2 * th) / (t * t * t) * (x - x0) * (y - y0) + - (cos th * cos th) / (t * t * t) * ((y - y0) * (y - y0))))) (at t)"
    and "((\<lambda>th. residual_at d x y A x0 y0 s t th) has_real_derivative
      gv * (- (sin th * cos th * (1 / (t * t) - 1 / (s * s)) * ((x - x0) * (x - x0)) +
        (cos (2 * th) / (s * s) - cos (2 * th) / (t * t)) * (x - x0) * (y - y0) +
        - (sin th * cos th * (1 / (t * t) - 1 / (s * s))) * ((y - y0) * (y - y0))))) (at th)"
  unfolding residual_at_def gv_def
  by (rule quadratic_deriv coeffs_deriv_x [OF s] coeffs_deriv_y [OF t] coeffs_deriv_theta [OF s t])+

text \<open>C24. The analytic cost function gives the residual of the automatic one, and its six
  derivatives are the partial derivatives of that residual.\<close>

theorem jacobian_correct:
  assumes "amplitude g \<noteq> 0" and "semimajor g \<noteq> 0" and "semiminor g \<noteq> 0"
    and "gaussian_analytic d x y g Block = (residual, J)"
  shows "residual = gaussian_residual d x y g \<and> length J = 6 \<and>
    ((\<lambda>u. gaussian_residual d x y (g\<lparr>amplitude := u\<rparr>)) has_real_derivative J ! 0) (at (amplitude g)) \<and>
    ((\<lambda>u. gaussian_residual d x y (g\<lparr>x_centre := u\<rparr>)) has_real_derivative J ! 1) (at (x_centre g)) \<and>
    ((\<lambda>u. gaussian_residual d x y (g\<lparr>y_centre := u\<rparr>)) has_real_derivative J ! 2) (at (y_centre g)) \<and>
    ((\<lambda>u. gaussian_residual d x y (g\<lparr>semimajor := u\<rparr>)) has_real_derivative J ! 3) (at (semimajor g)) \<and>
    ((\<lambda>u. gaussian_residual d x y (g\<lparr>semiminor := u\<rparr>)) has_real_derivative J ! 4) (at (semiminor g)) \<and>
    ((\<lambda>u. gaussian_residual d x y (g\<lparr>theta := u\<rparr>)) has_real_derivative J ! 5) (at (theta g))"
proof -
  have J: "J = jacobian_row g x y" and r: "residual = gaussian_residual d x y g"
    using assms(4) by (simp_all add: gaussian_analytic_def gaussian_residual_def Let_def mult.assoc)
  note derivs = residual_derivs(1) [OF assms(1)] residual_derivs(2,3) residual_derivs_shape [OF assms(2,3)]
  show ?thesis
    unfolding J r gaussian_residual_at jacobian_row_def Let_def
    using derivs by simp
qed

text \<open>A Gaussian and a pixel on which the derivatives are applied.\<close>

definition gauss_demo :: gaussian2d_params where
  "gauss_demo = \<lparr>amplitude = 2, x_centre = 1, y_centre = 0, semimajor = 3, semiminor = 1, theta = 0\<rparr>"

theorem jacobian_correct_witness:
  "\<exists>residual J. gaussian_analytic 1 2 1 gauss_demo Block = (residual, J) \<and>
    residual = gaussian_residual 1 2 1 gauss_demo \<and> length J = 6 \<and>
    ((\<lambda>u. gaussian_residual 1 2 1 (gauss_demo\<lparr>amplitude := u\<rparr>)) has_real_derivative J ! 0) (at (amplitude gauss_demo)) \<and>
    ((\<lambda>u. gaussian_residual 1 2 1 (gauss_demo\<lparr>x_centre := u\<rparr>)) has_real_derivative J ! 1) (at (x_centre gauss_demo)) \<and>
    ((\<lambda>u. gaussian_residual 1 2 1 (gauss_demo\<lparr>y_centre := u\<rparr>)) has_real_derivative J ! 2) (at (y_centre gauss_demo)) \<and>
    ((\<lambda>u. gaussian_residual 1 2 1 (gauss_demo\<lparr>semimajor := u\<rparr>)) has_real_derivative J ! 3) (at (semimajor gauss_demo)) \<and>
    ((\<lambda>u. gaussian_residual 1 2 1 (gauss_demo\<lparr>semiminor := u\<rparr>)) has_real_derivative J ! 4) (at (semiminor gauss_demo)) \<and>
    ((\<lambda>u. gaussian_residual 1 2 1 (gauss_demo\<lparr>theta := u\<rparr>)) has_real_derivative J ! 5) (at (theta gauss_demo))"
proof -
  obtain residual J where out: "gaussian_analytic 1 2 1 gauss_demo Block = (residual, J)"
    by fastforce
  have "amplitude gauss_demo \<noteq> 0" "semimajor gauss_demo \<noteq> 0" "semiminor gauss_demo \<noteq> 0"
    by (simp_all add: gauss_demo_def)
  from jacobian_correct [OF this out] out show ?thesis by blast
qed

section \<open>All pixels of an island\<close>

definition island_pixels :: "bool \<Rightarrow> int mat \<Rightarrow> int \<Rightarrow> bounding_box \<Rightarrow> (nat \<times> nat) list" where
  "island_pixels fs label_map label_idx box = filter (has_label fs label_map label_idx) (box_loop box)"

lemma fold_append_filter:
  "fold (\<lambda>p acc. if \<not> P p then acc else acc @ [f p]) ps acc = acc @ map f (filter P ps)"
  by (induction ps arbitrary: acc) simp_all

lemma fold_append2_filter:
  "fold (\<lambda>p (acc, acc'). if \<not> P p then (acc, acc') else (acc @ [f p], acc' @ h p)) ps (acc, acc') =
    (acc @ map f (filter P ps), acc' @ concat (map h (filter P ps)))"
  by (induction ps arbitrary: acc acc') simp_all

lemma all_residuals_pixels:
  "gaussian_all_residuals fs data label_map box label_idx g =
     map (\<lambda>(i, j). gaussian_residual (pixel_value fs data (i, j)) (real i) (real j) g) (island_pixels fs label_map label_idx box)"
  (is "_ = map ?res _")
proof -
  have "gaussian_all_residuals fs data label_map box label_idx g =
      fold (\<lambda>p acc. if \<not> has_label fs label_map label_idx p then acc else acc @ [?res p]) (box_loop box) []"
    unfolding gaussian_all_residuals_def Let_def
    by (intro fold_cong refl ext) (simp_all add: gaussian_residual_def Let_def split_beta)
  then show ?thesis
    by (simp only: fold_append_filter island_pixels_def append_Nil)
qed

lemma analytic_all_residuals_pixels:
  "gaussian_analytic_all_residuals fs data label_map box label_idx g jac =
     (map (\<lambda>(i, j). gaussian_residual (pixel_value fs data (i, j)) (real i) (real j) g) (island_pixels fs label_map label_idx box),
      concat (map (\<lambda>(i, j). snd (gaussian_analytic (pixel_value fs data (i, j)) (real i) (real j) g jac)) (island_pixels fs label_map label_idx box)))"
  (is "_ = (map ?res _, concat (map ?row _))")
proof -
  have "gaussian_analytic_all_residuals fs data label_map box label_idx g jac =
      fold (\<lambda>p (acc, acc'). if \<not> has_label fs label_map label_idx p then (acc, acc') else (acc @ [?res p], acc' @ ?row p))
        (box_loop box) ([], [])"
    unfolding gaussian_analytic_all_residuals_def Let_def
    by (intro fold_cong refl ext, cases jac)
      (simp_all add: gaussian_residual_def gaussian_analytic_def Let_def split_beta mult.assoc)
  then show ?thesis
    by (simp only: fold_append2_filter island_pixels_def append_Nil)
qed

text \<open>The four ways in which the residuals are handed to the solver agree: the functors over all
  pixels give, in the order of the loop, what the functors of the single pixels give.\<close>

theorem residual_vectors_agree:
  "gaussian_all_residuals fs data label_map box label_idx g =
     map (\<lambda>(i, j). gaussian_residual (pixel_value fs data (i, j)) (real i) (real j) g) (island_pixels fs label_map label_idx box) \<and>
   gaussian_analytic_all_residuals fs data label_map box label_idx g jac =
     (map (\<lambda>(i, j). fst (gaussian_analytic (pixel_value fs data (i, j)) (real i) (real j) g jac)) (island_pixels fs label_map label_idx box),
      concat (map (\<lambda>(i, j). snd (gaussian_analytic (pixel_value fs data (i, j)) (real i) (real j) g jac)) (island_pixels fs label_map label_idx box))) \<and>
   map (\<lambda>(i, j). fst (gaussian_analytic (pixel_value fs data (i, j)) (real i) (real j) g jac)) (island_pixels fs label_map label_idx box) =
     gaussian_all_residuals fs data label_map box label_idx g"
proof -
  have "fst (gaussian_analytic (pixel_value fs data (i, j)) (real i) (real j) g jac) =
      gaussian_residual (pixel_value fs data (i, j)) (real i) (real j) g" for i j
    by (cases jac) (simp_all add: gaussian_analytic_def gaussian_residual_def Let_def mult.assoc)
  then show ?thesis
    by (simp add: all_residuals_pixels analytic_all_residuals_pixels cong: map_cong)
qed

end
