(* ===== verification/Shared_Loop.thy ===== *)
theory Shared_Loop
  imports Reduction
begin

text \<open>
  Parallel loops whose bodies write a shared array and fill thread-local accumulators. The threads run one
  after the other in the order of the schedule, each element of the range is processed once, and the
  accumulators are combined at the end. What such a loop computes is stated by an invariant of the shared
  part and a meaning of an accumulator, both over the set of elements that were processed.
\<close>

text \<open>
  The accumulation starts from the initial value; the code starts from the accumulator of the calling
  thread, which makes no difference where combining with the initial value does not.
\<close>

definition shared_thread :: "(nat \<Rightarrow> 's \<times> 'a \<Rightarrow> 's \<times> 'a) \<Rightarrow> ('a \<Rightarrow> 'a \<Rightarrow> 'a) \<Rightarrow> 'a \<Rightarrow> range list \<Rightarrow> 's \<times> 'a \<Rightarrow> 's \<times> 'a" where
  "shared_thread step combine z rs = (\<lambda>(s, acc).
     let (s, a) = fold step (elements rs) (s, z) in (s, combine acc a))"

definition shared_reduce :: "(nat \<Rightarrow> 's \<times> 'a \<Rightarrow> 's \<times> 'a) \<Rightarrow> ('a \<Rightarrow> 'a \<Rightarrow> 'a) \<Rightarrow> 'a \<Rightarrow> schedule \<Rightarrow> 's \<Rightarrow> 's \<times> 'a" where
  "shared_reduce step combine z sched s = fold (shared_thread step combine z) sched (s, z)"

locale shared_loop =
  fixes dom :: "nat set"
    and inv :: "'s \<Rightarrow> nat set \<Rightarrow> bool"
    and meaning :: "'a \<Rightarrow> nat set \<Rightarrow> bool"
    and step :: "nat \<Rightarrow> 's \<times> 'a \<Rightarrow> 's \<times> 'a"
    and combine :: "'a \<Rightarrow> 'a \<Rightarrow> 'a" and z :: 'a
  assumes meaning_z: "meaning z {}"
    and step_inv: "i \<in> dom \<Longrightarrow> i \<notin> U \<Longrightarrow> U \<subseteq> dom \<Longrightarrow> inv s U \<Longrightarrow> inv (fst (step i (s, a))) (insert i U)"
    and step_meaning: "i \<in> dom \<Longrightarrow> i \<notin> U \<Longrightarrow> U \<subseteq> dom \<Longrightarrow> inv s U \<Longrightarrow> S \<subseteq> U \<Longrightarrow> meaning a S \<Longrightarrow>
      meaning (snd (step i (s, a))) (insert i S)"
    and combine_meaning: "meaning a S \<Longrightarrow> meaning b T \<Longrightarrow> S \<inter> T = {} \<Longrightarrow> S \<subseteq> dom \<Longrightarrow> T \<subseteq> dom \<Longrightarrow>
      meaning (combine a b) (S \<union> T)"
begin

lemma fold_elements:
  "distinct xs \<Longrightarrow> set xs \<subseteq> dom \<Longrightarrow> set xs \<inter> U = {} \<Longrightarrow> U \<subseteq> dom \<Longrightarrow> S \<subseteq> U \<Longrightarrow> inv s U \<Longrightarrow> meaning a S \<Longrightarrow>
    fold step xs (s, a) = (s', a') \<Longrightarrow> inv s' (U \<union> set xs) \<and> meaning a' (S \<union> set xs)"
proof (induction xs arbitrary: s a U S)
  case Nil
  then show ?case by simp
next
  case (Cons x xs)
  obtain t b where t: "step x (s, a) = (t, b)"
    by fastforce
  have x: "x \<in> dom" "x \<notin> U"
    using Cons.prems by auto
  have "inv t (insert x U)" "meaning b (insert x S)"
    using step_inv [OF x \<open>U \<subseteq> dom\<close> \<open>inv s U\<close>, of a] step_meaning [OF x \<open>U \<subseteq> dom\<close> \<open>inv s U\<close> \<open>S \<subseteq> U\<close> \<open>meaning a S\<close>]
    by (simp_all add: t)
  with Cons.IH [of "insert x U" "insert x S" t b] Cons.prems x show ?case
    by (auto simp: t)
qed

lemma threads:
  "distinct (elements (concat sched)) \<Longrightarrow> set (elements (concat sched)) \<subseteq> dom \<Longrightarrow>
    set (elements (concat sched)) \<inter> U = {} \<Longrightarrow> U \<subseteq> dom \<Longrightarrow> inv s U \<Longrightarrow> meaning a U \<Longrightarrow>
    fold (shared_thread step combine z) sched (s, a) = (s', a') \<Longrightarrow>
    inv s' (U \<union> set (elements (concat sched))) \<and> meaning a' (U \<union> set (elements (concat sched)))"
proof (induction sched arbitrary: s a U)
  case Nil
  then show ?case by (simp add: elements_def)
next
  case (Cons rs sched)
  have el: "elements (concat (rs # sched)) = elements rs @ elements (concat sched)"
    by (simp add: elements_def)
  obtain t b where t: "fold step (elements rs) (s, z) = (t, b)"
    by fastforce
  have own: "inv t (U \<union> set (elements rs)) \<and> meaning b ({} \<union> set (elements rs))"
    by (rule fold_elements [OF _ _ _ _ _ _ meaning_z t]) (use Cons.prems el in auto)
  then have "meaning (combine a b) (U \<union> set (elements rs))"
    using Cons.prems el by (intro combine_meaning) auto
  then have "inv s' (U \<union> set (elements rs) \<union> set (elements (concat sched))) \<and>
      meaning a' (U \<union> set (elements rs) \<union> set (elements (concat sched)))"
    using Cons.prems own el by (intro Cons.IH [of _ t "combine a b"]) (auto simp: shared_thread_def t)
  then show ?case
    unfolding el set_append by (simp only: Un_assoc)
qed

text \<open>The whole loop.\<close>

lemma shared_reduce_correct:
  assumes "schedules lo hi sched" and "dom = {lo..<hi}" and "inv s {}"
    and "shared_reduce step combine z sched s = (s', a)"
  shows "inv s' {lo..<hi} \<and> meaning a {lo..<hi}"
proof -
  have "mset (elements (concat sched)) = mset [lo..<hi]"
    using assms(1) by (simp add: schedules_def covers_elements)
  then have "distinct (elements (concat sched))" "set (elements (concat sched)) = {lo..<hi}"
    by (metis distinct_upt mset_eq_imp_distinct_iff, metis mset_eq_setD set_upt)
  with threads [OF _ _ _ _ assms(3) meaning_z assms(4) [unfolded shared_reduce_def]] assms(2)
  show ?thesis by simp
qed

end

end
