(* ===== verification/Detection.thy ===== *)
theory Detection
  imports Fitting Shared_Loop Ccl_Correct8
begin

text \<open>
  Source detection, \<^verbatim>\<open>SourceFindImage::_label_detection_islands\<close> of
  \<^verbatim>\<open>src/src/stp/sourcefind/sourcefind.cpp\<close>: the final labelling stage with the search of the
  extrema, the labels that are detected, and the sums and bounding boxes of the islands.

  The code has every array twice, for positive and for negative sources; here it is one function of the
  sign. The label map is the shared part of the two parallel loops, the arrays are thread-local.
  \<open>fs\<close> is \<^verbatim>\<open>FFTSHIFT\<close>, \<open>gen\<close> the template parameter
  \<^verbatim>\<open>generateLabelMap\<close>. \<^verbatim>\<open>int\<close> counters do not overflow.
\<close>

section \<open>Final labels and extrema\<close>

text \<open>Above the maximum so far, or below the minimum so far.\<close>

definition beats :: "sign \<Rightarrow> real \<Rightarrow> real \<Rightarrow> bool" where
  "beats s val cext = (case s of Pos \<Rightarrow> val > cext | Neg \<Rightarrow> val < cext)"

text \<open>Per sign and label: the extremum and the linear index of its pixel.\<close>

type_synonym extrema = "sign \<Rightarrow> nat \<Rightarrow> real \<times> nat"

text \<open>The code leaves the indices uninitialised; they are read only where they were set.\<close>

definition init_extrema :: "(sign \<Rightarrow> real) \<Rightarrow> extrema" where
  "init_extrema detection_thresh = (\<lambda>s l. (detection_thresh s, 0))"

definition label_pixel ::
  "real_t mat \<Rightarrow> (sign \<Rightarrow> tree) \<Rightarrow> nat \<Rightarrow> (nat \<Rightarrow> nat \<Rightarrow> int) \<times> extrema \<Rightarrow> (nat \<Rightarrow> nat \<Rightarrow> int) \<times> extrema"
where
  "label_pixel data P i = (\<lambda>(L, ext).
     let r = i mod n_rows data;
         c = i div n_rows data;
         tmpL = L r c
     in if tmpL = 0 then (L, ext)
        else
          let s = (if tmpL > 0 then Pos else Neg);
              l = P s (to_node s tmpL)
          in if l > 0 then
               let L = upd2 L r c (to_label s l);
                   l = l - 1;
                   val = at_lin data i;
                   cext = fst (ext s l)
               in if beats s val cext then (L, ext(s := (ext s)(l := (val, i)))) else (L, ext)
             else (L, ext))"

definition combine_extrema :: "extrema \<Rightarrow> extrema \<Rightarrow> extrema" where
  "combine_extrema comb other = (\<lambda>s l. if beats s (fst (other s l)) (fst (comb s l)) then other s l else comb s l)"

text \<open>The id of a label, 0 if it is not detected; and the labels that are left.\<close>

definition extrema_id :: "(sign \<Rightarrow> real) \<Rightarrow> extrema \<Rightarrow> sign \<Rightarrow> nat \<Rightarrow> int" where
  "extrema_id detection_thresh ext s l =
     (if beats s (fst (ext s l)) (detection_thresh s) then
        (case s of Pos \<Rightarrow> int l + 1 | Neg \<Rightarrow> - int l - 1)
      else 0)"

definition count_valid :: "(nat \<Rightarrow> int) \<Rightarrow> nat \<Rightarrow> nat \<Rightarrow> nat" where
  "count_valid ids num n = fold (\<lambda>l n. if ids l \<noteq> 0 then n else n - 1) [0..<num] n"

section \<open>Islands\<close>

record island_acc =
  acc_numsamples :: nat
  acc_moments :: "nat \<Rightarrow> real"
  acc_box :: bounding_box

definition init_box :: "real_t mat \<Rightarrow> bounding_box" where
  "init_box data = \<lparr>box_top = int (n_rows data), box_bottom = - 1, box_left = int (n_cols data), box_right = - 1\<rparr>"

definition init_island :: "real_t mat \<Rightarrow> island_acc" where
  "init_island data = \<lparr>acc_numsamples = 0, acc_moments = (\<lambda>m. 0), acc_box = init_box data\<rparr>"

definition extend_box :: "int \<Rightarrow> int \<Rightarrow> bounding_box \<Rightarrow> bounding_box" where
  "extend_box row col box =
     (let box = (if col < box_left box then box\<lparr>box_left := col\<rparr> else box);
          box = (if col > box_right box then box\<lparr>box_right := col\<rparr> else box);
          box = (if row < box_top box then box\<lparr>box_top := row\<rparr> else box)
      in if row > box_bottom box then box\<lparr>box_bottom := row\<rparr> else box)"

definition add_sample :: "bool \<Rightarrow> real_t mat \<Rightarrow> bool \<Rightarrow> nat \<Rightarrow> nat \<Rightarrow> island_acc \<Rightarrow> island_acc" where
  "add_sample fs data gaussian_fitting i j acc =
     (let val = elt data j i;
          y_idx = real (shift_coord fs (n_rows data) j);
          x_idx = real (shift_coord fs (n_cols data) i);
          x_bar = x_idx * val;
          y_bar = y_idx * val;
          xx_bar = x_bar * x_idx;
          yy_bar = y_bar * y_idx;
          xy_bar = x_bar * y_idx;
          m = acc_moments acc;
          acc = \<lparr>acc_numsamples = acc_numsamples acc + 1,
                 acc_moments = m(0 := m 0 + x_bar, 1 := m 1 + y_bar, 2 := m 2 + xx_bar, 3 := m 3 + yy_bar,
                   4 := m 4 + xy_bar, 5 := m 5 + val),
                 acc_box = acc_box acc\<rparr>
      in if gaussian_fitting then
           acc\<lparr>acc_box := extend_box (int (shift_coord fs (n_rows data) j)) (int (shift_coord fs (n_cols data) i)) (acc_box acc)\<rparr>
         else acc)"

type_synonym island_accs = "sign \<Rightarrow> nat \<Rightarrow> island_acc"

definition island_pixel ::
  "bool \<Rightarrow> bool \<Rightarrow> bool \<Rightarrow> real_t mat \<Rightarrow> (sign \<Rightarrow> nat \<Rightarrow> int) \<Rightarrow> nat \<Rightarrow> nat \<Rightarrow>
   (nat \<Rightarrow> nat \<Rightarrow> int) \<times> island_accs \<Rightarrow> (nat \<Rightarrow> nat \<Rightarrow> int) \<times> island_accs"
where
  "island_pixel fs gen gaussian_fitting data ids i j = (\<lambda>(L, accs).
     let label = L j i
     in if label = 0 then (L, accs)
        else
          let s = (if label > 0 then Pos else Neg);
              idx = to_node s label - 1
          in if ids s idx = 0 then
               (if gen then (upd2 L j i 0, accs) else (L, accs))
             else
               (L, accs(s := (accs s)(idx := add_sample fs data gaussian_fitting i j (accs s idx)))))"

definition island_column ::
  "bool \<Rightarrow> bool \<Rightarrow> bool \<Rightarrow> real_t mat \<Rightarrow> (sign \<Rightarrow> nat \<Rightarrow> int) \<Rightarrow> nat \<Rightarrow>
   (nat \<Rightarrow> nat \<Rightarrow> int) \<times> island_accs \<Rightarrow> (nat \<Rightarrow> nat \<Rightarrow> int) \<times> island_accs"
where
  "island_column fs gen gaussian_fitting data ids i =
     fold (island_pixel fs gen gaussian_fitting data ids i) [0..<n_rows data]"

definition combine_box :: "bounding_box \<Rightarrow> bounding_box \<Rightarrow> bounding_box" where
  "combine_box box bb =
     (let box = (if box_left bb < box_left box then box\<lparr>box_left := box_left bb\<rparr> else box);
          box = (if box_right bb > box_right box then box\<lparr>box_right := box_right bb\<rparr> else box);
          box = (if box_top bb < box_top box then box\<lparr>box_top := box_top bb\<rparr> else box)
      in if box_bottom bb > box_bottom box then box\<lparr>box_bottom := box_bottom bb\<rparr> else box)"

definition combine_islands :: "island_accs \<Rightarrow> island_accs \<Rightarrow> island_accs" where
  "combine_islands a b = (\<lambda>s l.
     \<lparr>acc_numsamples = acc_numsamples (a s l) + acc_numsamples (b s l),
      acc_moments = (\<lambda>m. acc_moments (a s l) m + acc_moments (b s l) m),
      acc_box = combine_box (acc_box (a s l)) (acc_box (b s l))\<rparr>)"

text \<open>The five moments of a label from the six sums.\<close>

definition final_moments :: "(nat \<Rightarrow> real) \<Rightarrow> real list" where
  "final_moments m =
     (let x_bar = m 0 / m 5;
          y_bar = m 1 / m 5;
          xx_bar = m 2 / m 5 - x_bar * x_bar;
          yy_bar = m 3 / m 5 - y_bar * y_bar;
          xy_bar = m 4 / m 5 - x_bar * y_bar
      in [x_bar, y_bar, xx_bar, yy_bar, xy_bar])"

section \<open>The detection\<close>

text \<open>The members of the class that the function sets; the moments of a label that is not detected are
  not set.\<close>

record detection =
  label_map :: "nat \<Rightarrow> nat \<Rightarrow> int"
  extrema_val :: "sign \<Rightarrow> nat \<Rightarrow> real"
  extrema_linear_idx :: "sign \<Rightarrow> nat \<Rightarrow> nat"
  extrema_ids :: "sign \<Rightarrow> nat \<Rightarrow> int"
  extrema_moments :: "sign \<Rightarrow> nat \<Rightarrow> real list"
  extrema_numsamples :: "sign \<Rightarrow> nat \<Rightarrow> nat"
  extrema_boundingbox :: "sign \<Rightarrow> nat \<Rightarrow> bounding_box"
  num_l :: "sign \<Rightarrow> nat"

definition process_labels ::
  "bool \<Rightarrow> bool \<Rightarrow> bool \<Rightarrow> real_t mat \<Rightarrow> (sign \<Rightarrow> real) \<Rightarrow> (nat \<Rightarrow> nat \<Rightarrow> int) \<times> tree \<times> tree \<times> nat \<times> nat \<Rightarrow>
   schedule \<Rightarrow> schedule \<Rightarrow> detection \<times> nat"
where
  "process_labels fs gen gaussian_fitting data detection_thresh labeling_output sched1 sched2 =
     (let (L, Pp, Pn, num_l_pos, num_l_neg) = labeling_output;
          P = (\<lambda>s. case s of Pos \<Rightarrow> Pp | Neg \<Rightarrow> Pn);
          num = (\<lambda>s. case s of Pos \<Rightarrow> num_l_pos | Neg \<Rightarrow> num_l_neg);
          (L, ext) = shared_reduce (label_pixel data P) combine_extrema (init_extrema detection_thresh) sched1 L;
          ids = extrema_id detection_thresh ext;
          num_valid = count_valid (ids Neg) num_l_neg (count_valid (ids Pos) num_l_pos (num_l_pos + num_l_neg));
          (L, accs) = shared_reduce (island_column fs gen gaussian_fitting data ids) combine_islands
            (\<lambda>s l. init_island data) sched2 L
      in (\<lparr>label_map = L,
           extrema_val = (\<lambda>s l. fst (ext s l)),
           extrema_linear_idx = (\<lambda>s l. snd (ext s l)),
           extrema_ids = ids,
           extrema_moments = (\<lambda>s l. if ids s l \<noteq> 0 then final_moments (acc_moments (accs s l)) else []),
           extrema_numsamples = (\<lambda>s l. acc_numsamples (accs s l)),
           extrema_boundingbox = (\<lambda>s l. if gaussian_fitting then acc_box (accs s l) else no_box),
           num_l = num\<rparr>, num_valid))"

definition label_detection_islands ::
  "bool \<Rightarrow> bool \<Rightarrow> real_t mat \<Rightarrow> bool \<Rightarrow> bool \<Rightarrow> bool \<Rightarrow> real \<Rightarrow> real \<Rightarrow> real \<Rightarrow> real \<Rightarrow>
   range list \<Rightarrow> schedule \<Rightarrow> schedule \<Rightarrow> detection \<times> nat"
where
  "label_detection_islands fs gen data find_negative_sources gaussian_fitting ccl_4connectivity
     bg_level detection_n_sigma analysis_n_sigma rms_est slices sched1 sched2 =
     (let analysis_thresh_pos = bg_level + analysis_n_sigma * rms_est;
          analysis_thresh_neg = bg_level - analysis_n_sigma * rms_est;
          detection_thresh_pos = bg_level + detection_n_sigma * rms_est;
          detection_thresh_neg = bg_level - detection_n_sigma * rms_est;
          labeling_output =
            (if ccl_4connectivity then labeling_4con find_negative_sources fs data analysis_thresh_pos analysis_thresh_neg slices
             else labeling_8con find_negative_sources fs data analysis_thresh_pos analysis_thresh_neg slices)
      in process_labels fs gen gaussian_fitting data
           (\<lambda>s. case s of Pos \<Rightarrow> detection_thresh_pos | Neg \<Rightarrow> detection_thresh_neg) labeling_output sched1 sched2)"

end
