(* ===== verification/Detection_Loops.thy ===== *)
theory Detection_Loops
  imports Detection
begin

text \<open>
  The two parallel loops of the source detection: each is a \<open>shared_loop\<close>, so that what they compute
  is known for every schedule.
\<close>

section \<open>Final labels and extrema\<close>

text \<open>The order in which extrema are compared.\<close>

definition key :: "sign \<Rightarrow> real \<Rightarrow> real" where
  "key s x = (case s of Pos \<Rightarrow> x | Neg \<Rightarrow> - x)"

lemma beats_key: "beats s a b \<longleftrightarrow> key s b < key s a"
  by (cases s) (simp_all add: beats_def key_def)

definition lin :: "'a mat \<Rightarrow> nat \<Rightarrow> nat \<Rightarrow> nat" where
  "lin data r c = c * n_rows data + r"

lemma lin_inverse:
  "i < n_elem data \<Longrightarrow> i mod n_rows data < n_rows data \<and> i div n_rows data < n_cols data \<and>
    lin data (i mod n_rows data) (i div n_rows data) = i"
  by (cases "n_rows data = 0") (auto simp: n_elem_def lin_def less_mult_imp_div_less mult.commute)

lemma lin_div_mod:
  "r < n_rows data \<Longrightarrow> lin data r c mod n_rows data = r \<and> lin data r c div n_rows data = c"
  by (simp add: lin_def)

lemma lin_less: "r < n_rows data \<Longrightarrow> c < n_cols data \<Longrightarrow> lin data r c < n_elem data"
proof -
  assume "r < n_rows data" "c < n_cols data"
  then have "lin data r c < Suc c * n_rows data" and "Suc c * n_rows data \<le> n_cols data * n_rows data"
    by (simp add: lin_def, intro mult_le_mono1 Suc_leI)
  then show ?thesis
    by (simp add: n_elem_def mult.commute)
qed

definition tree_sel :: "(sign \<Rightarrow> tree) \<Rightarrow> int \<Rightarrow> int" where
  "tree_sel P v = resolve_label (P Pos) (P Neg) v"

text \<open>The label map: resolved where the loop has been.\<close>

definition labels_inv :: "real_t mat \<Rightarrow> (sign \<Rightarrow> tree) \<Rightarrow> (nat \<Rightarrow> nat \<Rightarrow> int) \<Rightarrow> (nat \<Rightarrow> nat \<Rightarrow> int) \<Rightarrow> nat set \<Rightarrow> bool" where
  "labels_inv data P L0 L U \<longleftrightarrow> (\<forall>r c. L r c =
     (if r < n_rows data \<and> c < n_cols data \<and> lin data r c \<in> U then tree_sel P (L0 r c) else L0 r c))"

text \<open>The pixels that the loop counts for a label.\<close>

definition counts_for :: "real_t mat \<Rightarrow> (sign \<Rightarrow> tree) \<Rightarrow> (nat \<Rightarrow> nat \<Rightarrow> int) \<Rightarrow> sign \<Rightarrow> nat \<Rightarrow> nat \<Rightarrow> bool" where
  "counts_for data P L0 s l i \<longleftrightarrow>
     (let v = L0 (i mod n_rows data) (i div n_rows data) in hit s v \<and> P s (to_node s v) = Suc l)"

definition extremum_ok ::
  "real_t mat \<Rightarrow> (sign \<Rightarrow> tree) \<Rightarrow> (nat \<Rightarrow> nat \<Rightarrow> int) \<Rightarrow> (sign \<Rightarrow> real) \<Rightarrow> sign \<Rightarrow> nat \<Rightarrow> real \<times> nat \<Rightarrow> nat set \<Rightarrow> bool"
where
  "extremum_ok data P L0 thresh s l e S \<longleftrightarrow>
     key s (thresh s) \<le> key s (fst e) \<and>
     (\<forall>i \<in> S. counts_for data P L0 s l i \<longrightarrow> key s (at_lin data i) \<le> key s (fst e)) \<and>
     (fst e = thresh s \<or> snd e \<in> S \<and> counts_for data P L0 s l (snd e) \<and> fst e = at_lin data (snd e))"

definition extrema_ok ::
  "real_t mat \<Rightarrow> (sign \<Rightarrow> tree) \<Rightarrow> (nat \<Rightarrow> nat \<Rightarrow> int) \<Rightarrow> (sign \<Rightarrow> real) \<Rightarrow> extrema \<Rightarrow> nat set \<Rightarrow> bool"
where
  "extrema_ok data P L0 thresh ext S \<longleftrightarrow> (\<forall>s l. extremum_ok data P L0 thresh s l (ext s l) S)"

lemma extremum_better:
  assumes "extremum_ok data P L0 thresh s l e S" and "extremum_ok data P L0 thresh s l e' T"
    and "key s (fst e') \<le> key s (fst e)"
  shows "extremum_ok data P L0 thresh s l e (S \<union> T)"
  using assms unfolding extremum_ok_def by (auto intro: order_trans)

lemma extremum_pixel:
  "counts_for data P L0 s l i \<Longrightarrow> key s (thresh s) \<le> key s (at_lin data i) \<Longrightarrow>
    extremum_ok data P L0 thresh s l (at_lin data i, i) {i}"
  by (simp add: extremum_ok_def)

lemma extremum_other:
  "extremum_ok data P L0 thresh s l e S \<Longrightarrow>
    counts_for data P L0 s l i \<longrightarrow> key s (at_lin data i) \<le> key s (fst e) \<Longrightarrow> extremum_ok data P L0 thresh s l e (insert i S)"
  by (auto simp: extremum_ok_def)

text \<open>One pixel.\<close>

lemma label_pixel_eq:
  fixes data :: "real_t mat"
  defines "v L i \<equiv> L (i mod n_rows data) (i div n_rows data)"
  shows "label_pixel data P i (L, ext) =
    (if v L i = 0 then (L, ext)
     else let s = (if v L i > 0 then Pos else Neg); l = P s (to_node s (v L i))
       in (upd2 L (i mod n_rows data) (i div n_rows data) (tree_sel P (v L i)),
           if l > 0 \<and> beats s (at_lin data i) (fst (ext s (l - 1))) then ext(s := (ext s)(l - 1 := (at_lin data i, i))) else ext))"
proof -
  have same: "upd2 L a b (L a b) = L" for L :: "nat \<Rightarrow> nat \<Rightarrow> int" and a b
    by (intro ext) simp
  show ?thesis
    unfolding v_def label_pixel_def Let_def prod.case
    by (auto simp: tree_sel_def resolve_label_def to_node_def to_label_def Let_def same)
qed

lemma hit_cases: "v \<noteq> 0 \<Longrightarrow> hit s v \<longleftrightarrow> s = (if v > 0 then Pos else Neg)"
  by (cases s) (auto simp: hit_def)

interpretation final_labels: shared_loop "{0..<n_elem data}" "labels_inv data P L0" "extrema_ok data P L0 thresh"
  "label_pixel data P" combine_extrema "init_extrema thresh"
  for data :: "real_t mat" and P L0 thresh
proof unfold_locales
  show "extrema_ok data P L0 thresh (init_extrema thresh) {}"
    by (simp add: extrema_ok_def extremum_ok_def init_extrema_def)
next
  fix i U L ext
  assume i: "i \<in> {0..<n_elem data}" "i \<notin> U" and L: "labels_inv data P L0 L U"
  let ?r = "i mod n_rows data" and ?c = "i div n_rows data"
  have rc: "?r < n_rows data" "?c < n_cols data" "lin data ?r ?c = i"
    using lin_inverse i(1) by auto
  have v: "L ?r ?c = L0 ?r ?c"
    using L i(2) rc by (simp add: labels_inv_def)
  have here: "lin data r c = i \<longleftrightarrow> r = ?r \<and> c = ?c" if "r < n_rows data" for r c
    using lin_div_mod [OF that, of c] rc(3) by auto
  have "fst (label_pixel data P i (L, ext)) = upd2 L ?r ?c (tree_sel P (L0 ?r ?c))"
  proof (cases "L0 ?r ?c = 0")
    case True
    then have "tree_sel P (L0 ?r ?c) = L ?r ?c"
      by (simp add: tree_sel_def resolve_label_def v)
    then have "upd2 L ?r ?c (tree_sel P (L0 ?r ?c)) = L"
      by (intro HOL.ext) simp
    with True v show ?thesis
      by (simp add: label_pixel_eq)
  next
    case False
    with v show ?thesis
      by (simp add: label_pixel_eq Let_def)
  qed
  then show "labels_inv data P L0 (fst (label_pixel data P i (L, ext))) (insert i U)"
    using L here rc(1,2) unfolding labels_inv_def by (simp add: conj_commute) (metis insert_iff)
next
  fix i U L S ext
  assume i: "i \<in> {0..<n_elem data}" "i \<notin> U" and L: "labels_inv data P L0 L U" and ext: "extrema_ok data P L0 thresh ext S"
  let ?r = "i mod n_rows data" and ?c = "i div n_rows data"
  have rc: "?r < n_rows data" "?c < n_cols data" "lin data ?r ?c = i"
    using lin_inverse i(1) by auto
  have v: "L ?r ?c = L0 ?r ?c"
    using L i(2) rc by (simp add: labels_inv_def)
  show "extrema_ok data P L0 thresh (snd (label_pixel data P i (L, ext))) (insert i S)"
  proof (cases "L0 ?r ?c = 0")
    case True
    then have "\<not> counts_for data P L0 s l i" for s l
      by (cases s) (simp_all add: counts_for_def hit_def)
    with True v ext show ?thesis
      by (auto simp: label_pixel_eq extrema_ok_def intro!: extremum_other)
  next
    case False
    define s where "s = (if L0 ?r ?c > 0 then Pos else Neg)"
    define l where "l = P s (to_node s (L0 ?r ?c))"
    have counts: "counts_for data P L0 t k i \<longleftrightarrow> t = s \<and> l = Suc k" for t k
      using hit_cases [OF False] by (auto simp: counts_for_def Let_def s_def l_def)
    have res: "snd (label_pixel data P i (L, ext)) =
        (if l > 0 \<and> beats s (at_lin data i) (fst (ext s (l - 1))) then ext(s := (ext s)(l - 1 := (at_lin data i, i))) else ext)"
      using False v by (simp add: label_pixel_eq Let_def s_def l_def)
    show ?thesis
      unfolding extrema_ok_def
    proof (intro allI)
      fix t k
      let ?e = "ext t k" and ?e' = "snd (label_pixel data P i (L, ext)) t k"
      have E: "extremum_ok data P L0 thresh t k ?e S"
        using ext by (simp add: extrema_ok_def)
      show "extremum_ok data P L0 thresh t k ?e' (insert i S)"
      proof (cases "t = s \<and> l = Suc k \<and> key s (fst ?e) < key s (at_lin data i)")
        case True
        then have at: "t = s" "l = Suc k" "key s (fst (ext s k)) < key s (at_lin data i)"
          by auto
        then have new: "?e' = (at_lin data i, i)"
          by (simp add: res beats_key)
        have "extremum_ok data P L0 thresh t k (at_lin data i, i) {i}"
          using E at counts by (intro extremum_pixel) (auto simp: extremum_ok_def)
        from extremum_better [OF this E] at show ?thesis
          unfolding new by simp
      next
        case False
        then have old: "?e' = ?e"
          by (auto simp: res beats_key)
        show ?thesis
          unfolding old by (rule extremum_other [OF E]) (use False counts in auto)
      qed
    qed
  qed
next
  fix a b S T
  assume a: "extrema_ok data P L0 thresh a S" and b: "extrema_ok data P L0 thresh b T"
  show "extrema_ok data P L0 thresh (combine_extrema a b) (S \<union> T)"
    unfolding extrema_ok_def
  proof (intro allI)
    fix s l
    have "extremum_ok data P L0 thresh s l (a s l) S" "extremum_ok data P L0 thresh s l (b s l) T"
      using a b by (simp_all add: extrema_ok_def)
    then show "extremum_ok data P L0 thresh s l (combine_extrema a b s l) (S \<union> T)"
      using extremum_better [of data P L0 thresh s l "a s l" S "b s l" T]
        extremum_better [of data P L0 thresh s l "b s l" T "a s l" S]
      by (auto simp: combine_extrema_def beats_key Un_commute)
  qed
qed

section \<open>Islands\<close>

text \<open>A pixel as the second loop visits it: its column and its row.\<close>

definition sample_moment :: "bool \<Rightarrow> real_t mat \<Rightarrow> nat \<Rightarrow> nat \<times> nat \<Rightarrow> real" where
  "sample_moment fs data m = (\<lambda>(i, j).
     let val = elt data j i;
         x = real (shift_coord fs (n_cols data) i);
         y = real (shift_coord fs (n_rows data) j)
     in if m = 0 then x * val else if m = 1 then y * val else if m = 2 then x * x * val
        else if m = 3 then y * y * val else if m = 4 then x * y * val else if m = 5 then val else 0)"

text \<open>The bounding box of a set of pixels in the shifted image, within the initial box.\<close>

definition box_of :: "bool \<Rightarrow> real_t mat \<Rightarrow> (nat \<times> nat) set \<Rightarrow> bounding_box" where
  "box_of fs data Q =
     (let xs = (\<lambda>p. int (shift_coord fs (n_cols data) (fst p))) ` Q;
          ys = (\<lambda>p. int (shift_coord fs (n_rows data) (snd p))) ` Q
      in \<lparr>box_top = Min (insert (int (n_rows data)) ys), box_bottom = Max (insert (- 1) ys),
          box_left = Min (insert (int (n_cols data)) xs), box_right = Max (insert (- 1) xs)\<rparr>)"

text \<open>What is to be known of an island.\<close>

definition summary :: "bool \<Rightarrow> real_t mat \<Rightarrow> bool \<Rightarrow> (nat \<times> nat) set \<Rightarrow> island_acc" where
  "summary fs data gaussian_fitting Q =
     \<lparr>acc_numsamples = card Q, acc_moments = (\<lambda>m. \<Sum>p \<in> Q. sample_moment fs data m p),
      acc_box = (if gaussian_fitting then box_of fs data Q else init_box data)\<rparr>"

lemma summary_empty: "summary fs data fit {} = init_island data"
  by (simp add: summary_def init_island_def box_of_def init_box_def)

lemma extend_box_minmax:
  "extend_box row col b = \<lparr>box_top = min row (box_top b), box_bottom = max row (box_bottom b),
     box_left = min col (box_left b), box_right = max col (box_right b)\<rparr>"
  by (cases b) (auto simp: extend_box_def Let_def)

lemma combine_box_minmax:
  "combine_box a b = \<lparr>box_top = min (box_top a) (box_top b), box_bottom = max (box_bottom a) (box_bottom b),
     box_left = min (box_left a) (box_left b), box_right = max (box_right a) (box_right b)\<rparr>"
  by (cases a, cases b) (auto simp: combine_box_def Let_def)

lemma Min_Max_insert_other:
  assumes "finite (A :: int set)"
  shows "Min (insert b (insert a A)) = min a (Min (insert b A))" and "Max (insert b (insert a A)) = max a (Max (insert b A))"
  by (metis assms Min_insert finite_insert insert_commute insert_not_empty)
    (metis assms Max_insert finite_insert insert_commute insert_not_empty)

lemma Min_Max_insert_Un:
  assumes "finite (A :: int set)" and "finite B"
  shows "Min (insert a (A \<union> B)) = min (Min (insert a A)) (Min (insert a B))"
    and "Max (insert a (A \<union> B)) = max (Max (insert a A)) (Max (insert a B))"
proof -
  have "insert a (A \<union> B) = insert a A \<union> insert a B"
    by auto
  with assms show "Min (insert a (A \<union> B)) = min (Min (insert a A)) (Min (insert a B))"
    and "Max (insert a (A \<union> B)) = max (Max (insert a A)) (Max (insert a B))"
    by (simp_all only: Min_Un Max_Un finite_insert insert_not_empty not_False_eq_True)
qed

lemma box_of_insert:
  "finite Q \<Longrightarrow> box_of fs data (insert (i, j) Q) =
    extend_box (int (shift_coord fs (n_rows data) j)) (int (shift_coord fs (n_cols data) i)) (box_of fs data Q)"
  unfolding extend_box_minmax box_of_def Let_def by (simp add: Min_Max_insert_other del: Min_insert Max_insert)

lemma box_of_Un:
  "finite Q \<Longrightarrow> finite R \<Longrightarrow> box_of fs data (Q \<union> R) = combine_box (box_of fs data Q) (box_of fs data R)"
  unfolding combine_box_minmax box_of_def Let_def image_Un
  by (simp add: Min_Max_insert_Un del: Min_insert Max_insert)

lemma summary_insert:
  assumes "finite Q" and "(i, j) \<notin> Q"
  shows "add_sample fs data fit i j (summary fs data fit Q) = summary fs data fit (insert (i, j) Q)"
  using assms by (auto simp: add_sample_def summary_def Let_def box_of_insert sample_moment_def fun_eq_iff algebra_simps)

lemma summary_Un:
  assumes "finite Q" and "finite R" and "Q \<inter> R = {}"
  shows "summary fs data fit (Q \<union> R) =
    \<lparr>acc_numsamples = acc_numsamples (summary fs data fit Q) + acc_numsamples (summary fs data fit R),
     acc_moments = (\<lambda>m. acc_moments (summary fs data fit Q) m + acc_moments (summary fs data fit R) m),
     acc_box = combine_box (acc_box (summary fs data fit Q)) (acc_box (summary fs data fit R))\<rparr>"
  using assms
  by (auto simp: summary_def card_Un_disjoint sum.union_disjoint box_of_Un combine_box_minmax init_box_def)

text \<open>The pixels of a detected label.\<close>

definition label_pixels ::
  "(nat \<Rightarrow> nat \<Rightarrow> int) \<Rightarrow> (sign \<Rightarrow> nat \<Rightarrow> int) \<Rightarrow> sign \<Rightarrow> nat \<Rightarrow> (nat \<times> nat) set \<Rightarrow> (nat \<times> nat) set"
where
  "label_pixels F ids s l Q = {(i, j) \<in> Q. F j i = to_label s (Suc l) \<and> ids s l \<noteq> 0}"

definition columns :: "real_t mat \<Rightarrow> nat set \<Rightarrow> (nat \<times> nat) set" where
  "columns data S = S \<times> {..<n_rows data}"

definition islands_ok ::
  "bool \<Rightarrow> real_t mat \<Rightarrow> bool \<Rightarrow> (nat \<Rightarrow> nat \<Rightarrow> int) \<Rightarrow> (sign \<Rightarrow> nat \<Rightarrow> int) \<Rightarrow> island_accs \<Rightarrow> (nat \<times> nat) set \<Rightarrow> bool"
where
  "islands_ok fs data fit F ids accs Q \<longleftrightarrow> finite Q \<and> (\<forall>s l. accs s l = summary fs data fit (label_pixels F ids s l Q))"

definition clean_label :: "bool \<Rightarrow> (sign \<Rightarrow> nat \<Rightarrow> int) \<Rightarrow> int \<Rightarrow> int" where
  "clean_label gen ids v =
     (if v = 0 then 0
      else let s = (if v > 0 then Pos else Neg) in if gen \<and> ids s (to_node s v - 1) = 0 then 0 else v)"

definition clean_inv ::
  "bool \<Rightarrow> (nat \<Rightarrow> nat \<Rightarrow> int) \<Rightarrow> (sign \<Rightarrow> nat \<Rightarrow> int) \<Rightarrow> (nat \<Rightarrow> nat \<Rightarrow> int) \<Rightarrow> (nat \<times> nat) set \<Rightarrow> bool"
where
  "clean_inv gen F ids L Q \<longleftrightarrow> (\<forall>j i. L j i = (if (i, j) \<in> Q then clean_label gen ids (F j i) else F j i))"

lemma to_label_eq: "v \<noteq> 0 \<Longrightarrow> v = to_label s (Suc l) \<longleftrightarrow> s = (if v > 0 then Pos else Neg) \<and> l = to_node s v - 1"
  by (cases s) (auto simp: to_label_def to_node_def)

lemma to_label_nonzero: "to_label s (Suc l) \<noteq> 0"
  by (cases s) (simp_all add: to_label_def)

lemma island_pixel_eq:
  fixes F :: "nat \<Rightarrow> nat \<Rightarrow> int"
  assumes "clean_inv gen F ids L U" and "(i, j) \<notin> U"
  defines "s \<equiv> if F j i > 0 then Pos else Neg"
  defines "l \<equiv> to_node s (F j i) - 1"
  shows "island_pixel fs gen fit data ids i j (L, accs) =
      (if F j i = 0 then (L, accs)
       else if ids s l = 0 then (if gen then (upd2 L j i 0, accs) else (L, accs))
       else (L, accs(s := (accs s)(l := add_sample fs data fit i j (accs s l)))))"
proof -
  have L: "L j i = F j i"
    using assms(1,2) by (simp add: clean_inv_def)
  show ?thesis
    by (simp add: island_pixel_def Let_def L s_def l_def)
qed

lemma island_pixel_clean:
  assumes clean: "clean_inv gen F ids L U" and ij: "(i, j) \<notin> U"
  shows "clean_inv gen F ids (fst (island_pixel fs gen fit data ids i j (L, accs))) (insert (i, j) U)"
  using clean ij unfolding island_pixel_eq [OF assms]
  by (auto simp: clean_inv_def clean_label_def Let_def)

lemma island_pixel_sums:
  assumes clean: "clean_inv gen F ids L U" and ok: "islands_ok fs data fit F ids accs Q"
    and ij: "(i, j) \<notin> U" "(i, j) \<notin> Q"
  shows "islands_ok fs data fit F ids (snd (island_pixel fs gen fit data ids i j (L, accs))) (insert (i, j) Q)"
proof -
  define s where "s = (if F j i > 0 then Pos else Neg)"
  define l where "l = to_node s (F j i) - 1"
  note step = island_pixel_eq [OF clean ij(1), folded s_def, folded l_def]
  have fin: "finite Q" and accs: "accs t k = summary fs data fit (label_pixels F ids t k Q)" for t k
    using ok by (auto simp: islands_ok_def)
  have fins: "finite (label_pixels F ids t k Q)" for t k
    by (rule finite_subset [OF _ fin]) (auto simp: label_pixels_def)
  have hit: "F j i = to_label t (Suc k) \<and> ids t k \<noteq> 0 \<longleftrightarrow> F j i \<noteq> 0 \<and> ids s l \<noteq> 0 \<and> t = s \<and> k = l" for t k
    using to_label_eq [of "F j i" t k] to_label_nonzero [of t k] by (auto simp: s_def l_def)
  have pixels: "label_pixels F ids t k (insert (i, j) Q) =
      (if F j i \<noteq> 0 \<and> ids s l \<noteq> 0 \<and> t = s \<and> k = l then insert (i, j) (label_pixels F ids t k Q)
       else label_pixels F ids t k Q)" for t k
    using hit [of t k] unfolding label_pixels_def by auto
  have notin: "(i, j) \<notin> label_pixels F ids s l Q"
    using ij(2) by (simp add: label_pixels_def)
  show ?thesis
    unfolding islands_ok_def step pixels using fin
    by (auto simp: accs summary_insert [OF fins notin])
qed

text \<open>One column, and the loop over the columns.\<close>

lemma columns_insert: "columns data (insert i S) = columns data S \<union> {i} \<times> {..<n_rows data}"
  by (auto simp: columns_def)

lemma prefix_Suc: "C \<union> {i} \<times> {..<Suc j} = insert (i, j) (C \<union> {i} \<times> {..<j})"
  by auto

lemma island_column_clean:
  assumes clean: "clean_inv gen F ids L (columns data U)" and i: "i \<notin> U"
  shows "clean_inv gen F ids (fst (island_column fs gen fit data ids i (L, accs))) (columns data (insert i U))"
proof -
  have "clean_inv gen F ids (fst (fold (island_pixel fs gen fit data ids i) [0..<n_rows data] (L, accs)))
      (columns data U \<union> {i} \<times> {..<n_rows data})"
  proof (rule fold_upt_invariant [where P = "\<lambda>j st. clean_inv gen F ids (fst st) (columns data U \<union> {i} \<times> {..<j})"])
    fix j and st :: "(nat \<Rightarrow> nat \<Rightarrow> int) \<times> island_accs"
    assume st: "clean_inv gen F ids (fst st) (columns data U \<union> {i} \<times> {..<j})"
    have "(i, j) \<notin> columns data U \<union> {i} \<times> {..<j}"
      using i by (auto simp: columns_def)
    from island_pixel_clean [OF st this, of fs fit data "snd st"]
    show "clean_inv gen F ids (fst (island_pixel fs gen fit data ids i j st)) (columns data U \<union> {i} \<times> {..<Suc j})"
      by (simp only: prefix_Suc prod.collapse)
  qed (use clean in simp_all)
  then show ?thesis
    by (simp add: island_column_def columns_insert)
qed

lemma island_column_sums:
  assumes clean: "clean_inv gen F ids L (columns data U)" and ok: "islands_ok fs data fit F ids accs (columns data S)"
    and i: "i \<notin> U" "i \<notin> S"
  shows "islands_ok fs data fit F ids (snd (island_column fs gen fit data ids i (L, accs))) (columns data (insert i S))"
proof -
  have "clean_inv gen F ids (fst (fold (island_pixel fs gen fit data ids i) [0..<n_rows data] (L, accs)))
      (columns data U \<union> {i} \<times> {..<n_rows data}) \<and>
    islands_ok fs data fit F ids (snd (fold (island_pixel fs gen fit data ids i) [0..<n_rows data] (L, accs)))
      (columns data S \<union> {i} \<times> {..<n_rows data})"
  proof (rule fold_upt_invariant [where P = "\<lambda>j st. clean_inv gen F ids (fst st) (columns data U \<union> {i} \<times> {..<j}) \<and>
      islands_ok fs data fit F ids (snd st) (columns data S \<union> {i} \<times> {..<j})"])
    fix j and st :: "(nat \<Rightarrow> nat \<Rightarrow> int) \<times> island_accs"
    assume st: "clean_inv gen F ids (fst st) (columns data U \<union> {i} \<times> {..<j}) \<and>
      islands_ok fs data fit F ids (snd st) (columns data S \<union> {i} \<times> {..<j})"
    have new: "(i, j) \<notin> columns data U \<union> {i} \<times> {..<j}" "(i, j) \<notin> columns data S \<union> {i} \<times> {..<j}"
      using i by (auto simp: columns_def)
    from island_pixel_clean [OF conjunct1 [OF st] new(1), of fs fit data "snd st"]
      island_pixel_sums [OF conjunct1 [OF st] conjunct2 [OF st] new]
    show "clean_inv gen F ids (fst (island_pixel fs gen fit data ids i j st)) (columns data U \<union> {i} \<times> {..<Suc j}) \<and>
      islands_ok fs data fit F ids (snd (island_pixel fs gen fit data ids i j st)) (columns data S \<union> {i} \<times> {..<Suc j})"
      by (simp only: prefix_Suc prod.collapse)
  qed (use clean ok in simp_all)
  then show ?thesis
    by (simp add: island_column_def columns_insert)
qed

interpretation islands: shared_loop "{0..<n_cols data}"
  "\<lambda>L U. clean_inv gen F ids L (columns data U)"
  "\<lambda>accs S. finite S \<and> islands_ok fs data fit F ids accs (columns data S)"
  "island_column fs gen fit data ids" combine_islands "\<lambda>s l. init_island data"
  for fs gen fit and data :: "real_t mat" and F ids
proof unfold_locales
  show "finite {} \<and> islands_ok fs data fit F ids (\<lambda>s l. init_island data) (columns data {})"
    by (simp add: islands_ok_def columns_def label_pixels_def summary_empty)
next
  fix i U L accs
  assume "i \<notin> U" "clean_inv gen F ids L (columns data U)"
  then show "clean_inv gen F ids (fst (island_column fs gen fit data ids i (L, accs))) (columns data (insert i U))"
    by (intro island_column_clean)
next
  fix i U L S accs
  assume "i \<notin> U" "S \<subseteq> U" "clean_inv gen F ids L (columns data U)"
    "finite S \<and> islands_ok fs data fit F ids accs (columns data S)"
  then show "finite (insert i S) \<and>
      islands_ok fs data fit F ids (snd (island_column fs gen fit data ids i (L, accs))) (columns data (insert i S))"
    by (auto intro: island_column_sums)
next
  fix a b :: island_accs and S T
  assume a: "finite S \<and> islands_ok fs data fit F ids a (columns data S)"
    and b: "finite T \<and> islands_ok fs data fit F ids b (columns data T)" and ST: "S \<inter> T = {}"
  have fin: "finite (label_pixels F ids s l (columns data R))" if "finite R" for s l R
  proof (rule finite_subset)
    show "label_pixels F ids s l (columns data R) \<subseteq> columns data R"
      unfolding label_pixels_def by blast
    show "finite (columns data R)"
      using that by (simp add: columns_def)
  qed
  have un: "label_pixels F ids s l (columns data (S \<union> T)) =
      label_pixels F ids s l (columns data S) \<union> label_pixels F ids s l (columns data T)" for s l
    by (auto simp: label_pixels_def columns_def)
  have disj: "label_pixels F ids s l (columns data S) \<inter> label_pixels F ids s l (columns data T) = {}" for s l
    using ST by (auto simp: label_pixels_def columns_def)
  show "finite (S \<union> T) \<and> islands_ok fs data fit F ids (combine_islands a b) (columns data (S \<union> T))"
  proof -
    have accs: "a s l = summary fs data fit (label_pixels F ids s l (columns data S))"
      "b s l = summary fs data fit (label_pixels F ids s l (columns data T))" for s l
      using a b by (simp_all add: islands_ok_def)
    have "combine_islands a b s l = summary fs data fit (label_pixels F ids s l (columns data (S \<union> T)))" for s l
      unfolding un summary_Un [OF fin [OF conjunct1 [OF a]] fin [OF conjunct1 [OF b]] disj]
      by (simp only: combine_islands_def accs)
    with a b show ?thesis
      by (simp add: islands_ok_def columns_def)
  qed
qed

text \<open>The count of the labels that are left.\<close>

lemma count_valid_eq:
  assumes "num \<le> n"
  shows "count_valid ids num n = n - card {l. l < num \<and> ids l = 0}"
proof -
  have "count_valid ids num n = n - card {l. l < num \<and> ids l = 0} \<and> card {l. l < num \<and> ids l = 0} \<le> num"
  proof (induction num)
    case 0
    then show ?case by (simp add: count_valid_def)
  next
    case (Suc num)
    have "{l. l < Suc num \<and> ids l = 0} = (if ids num = 0 then insert num {l. l < num \<and> ids l = 0} else {l. l < num \<and> ids l = 0})"
      by (auto simp: less_Suc_eq)
    moreover have "finite {l. l < num \<and> ids l = 0}"
      by simp
    ultimately show ?case
      using Suc by (simp add: count_valid_def)
  qed
  then show ?thesis by blast
qed

end
