(* ===== verification/Detection_Correct.thy ===== *)
theory Detection_Correct
  imports Detection_Loops
begin

text \<open>
  What the source detection finds: the detected labels are the components with a pixel beyond the
  detection threshold, with their extremum, their pixels, moments and bounding box, for all
  schedules of the three parallel stages.
\<close>

section \<open>The labelling that the detection starts from\<close>

definition detection_scene :: "bool \<Rightarrow> real_t mat \<Rightarrow> bool \<Rightarrow> real \<Rightarrow> real \<Rightarrow> real \<Rightarrow> scene" where
  "detection_scene fs data neg bg n_sigma rms =
     \<lparr>sc_neg = neg, sc_fs = fs, sc_img = data, sc_tp = bg + n_sigma * rms, sc_tn = bg - n_sigma * rms\<rparr>"

definition labelled :: "bool \<Rightarrow> scene \<Rightarrow> range list \<Rightarrow> (nat \<Rightarrow> nat \<Rightarrow> int) \<times> tree \<times> tree \<times> nat \<times> nat" where
  "labelled con4 X slices = (if con4 then label4 X slices else label8 X slices)"

text \<open>What the labelling functions assert or rely on.\<close>

definition labelling_ok :: "bool \<Rightarrow> scene \<Rightarrow> range list \<Rightarrow> bool" where
  "labelling_ok con4 X slices \<longleftrightarrow> scene_ok X \<and> covers 0 (cols X) slices \<and>
     labels_fit (rows X div 2) slices (snd (if con4 then scan4 X slices else scan8 X slices)) \<and>
     (con4 \<or> sc_fs X \<or> wrap_safe (cols X) slices)"

lemma mc_onto:
  assumes "scene_ok X" and "c < cols X"
  shows "\<exists>c'. c' < cols X \<and> mc X c' = c"
  using assms by (intro exI [of _ "mc X c"]) (auto simp: mc_def m_col_def scene_ok_def elim!: evenE)

lemma labelled_resolved:
  assumes ok: "labelling_ok con4 X slices" and rc: "r < rows X" "c < cols X"
  shows "label_resolved (labelled con4 X slices) r c"
proof -
  have X: "scene_ok X" and cov: "covers 0 (cols X) slices"
    using ok by (simp_all add: labelling_ok_def)
  obtain c' where c': "c' < cols X" "mc X c' = c"
    using mc_onto [OF X rc(2)] by blast
  show ?thesis
  proof (cases con4)
    case True
    then have fit: "labels_fit (rows X div 2) slices (snd (scan4 X slices))"
      using ok by (simp add: labelling_ok_def)
    obtain st data where run: "scan_and_merge scan_pixel_4con row_border_4con col_border_4con
      (sc_neg X) (sc_fs X) (sc_img X) (sc_tp X) (sc_tn X) slices = (st, data)"
      "labels_fit (rows X div 2) slices data" "label4 X slices = finish (sc_neg X) (st, data)"
      using scan4_run [OF fit] .
    from con4.labeling_resolved [OF X cov _ _ run rc(1) c'(1)] True show ?thesis
      by (simp add: c'(2) labelled_def)
  next
    case False
    then have fit: "labels_fit (rows X div 2) slices (snd (scan8 X slices))"
      using ok by (simp add: labelling_ok_def)
    obtain st data where run: "scan_and_merge scan_pixel_8con row_border_8con col_border_8con
      (sc_neg X) (sc_fs X) (sc_img X) (sc_tp X) (sc_tn X) slices = (st, data)"
      "labels_fit (rows X div 2) slices data" "label8 X slices = finish (sc_neg X) (st, data)"
      using scan8_run [OF fit] .
    have "True \<and> \<not> sc_fs X \<longrightarrow> wrap_safe (cols X) slices"
      using ok False by (auto simp: labelling_ok_def)
    from con8.labeling_resolved [OF X cov this order.refl run rc(1) c'(1)] False show ?thesis
      by (simp add: c'(2) labelled_def)
  qed
qed

text \<open>With resolved labels the loop counts a pixel for its final label.\<close>

lemma counts_for_final:
  assumes "label_resolved (L, P, N, np, nn) (i mod n_rows data) (i div n_rows data)"
  shows "counts_for data (\<lambda>s. case s of Pos \<Rightarrow> P | Neg \<Rightarrow> N) L s l i \<longleftrightarrow>
    final_label (L, P, N, np, nn) (i mod n_rows data) (i div n_rows data) = to_label s (Suc l)"
proof -
  define v where "v = L (i mod n_rows data) (i div n_rows data)"
  have res: "v > 0 \<Longrightarrow> 0 < P (nat v)" "v < 0 \<Longrightarrow> 0 < N (nat (- v))"
    using assms by (auto simp: label_resolved_def v_def)
  show ?thesis
    unfolding counts_for_def final_label_def Let_def prod.case v_def [symmetric]
    using res by (cases s) (auto simp: hit_def to_label_def to_node_def resolve_label_def Let_def)
qed

section \<open>The run\<close>

lemma detection_run:
  fixes data :: "real_t mat"
  assumes out: "labelled con4 (detection_scene fs data neg bg n_ana rms) slices = (L0, P, N, np, nn)"
    and thr: "thr = (\<lambda>s. case s of Pos \<Rightarrow> bg + n_det * rms | Neg \<Rightarrow> bg - n_det * rms)"
    and tr: "T = (\<lambda>s. case s of Pos \<Rightarrow> P | Neg \<Rightarrow> N)"
    and s1: "schedules 0 (n_elem data) sched1" and s2: "schedules 0 (n_cols data) sched2"
  obtains ext accs F L' where
    "extrema_ok data T L0 thr ext {0..<n_elem data}" and "labels_inv data T L0 F {0..<n_elem data}"
    and "clean_inv gen F (extrema_id thr ext) L' (columns data {0..<n_cols data})"
    and "islands_ok fs data fit F (extrema_id thr ext) accs (columns data {0..<n_cols data})"
    and "label_detection_islands fs gen data neg fit con4 bg n_det n_ana rms slices sched1 sched2 =
      (\<lparr>label_map = L', extrema_val = (\<lambda>s l. fst (ext s l)), extrema_linear_idx = (\<lambda>s l. snd (ext s l)),
         extrema_ids = extrema_id thr ext,
         extrema_moments = (\<lambda>s l. if extrema_id thr ext s l \<noteq> 0 then final_moments (acc_moments (accs s l)) else []),
         extrema_numsamples = (\<lambda>s l. acc_numsamples (accs s l)),
         extrema_boundingbox = (\<lambda>s l. if fit then acc_box (accs s l) else no_box),
         num_l = (\<lambda>s. case s of Pos \<Rightarrow> np | Neg \<Rightarrow> nn)\<rparr>,
       count_valid (extrema_id thr ext Neg) nn (count_valid (extrema_id thr ext Pos) np (np + nn)))"
proof -
  obtain F ext where one: "shared_reduce (label_pixel data T) combine_extrema (init_extrema thr) sched1 L0 = (F, ext)"
    by fastforce
  have "labels_inv data T L0 L0 {}"
    by (simp add: labels_inv_def)
  from final_labels.shared_reduce_correct [OF s1 refl this one]
  have r1: "labels_inv data T L0 F {0..<n_elem data}" "extrema_ok data T L0 thr ext {0..<n_elem data}"
    by simp_all
  obtain L' accs where two: "shared_reduce (island_column fs gen fit data (extrema_id thr ext)) combine_islands
      (\<lambda>s l. init_island data) sched2 F = (L', accs)"
    by fastforce
  have "clean_inv gen F (extrema_id thr ext) F (columns data {})"
    by (simp add: clean_inv_def columns_def)
  from islands.shared_reduce_correct [OF s2 refl this two]
  have r2: "clean_inv gen F (extrema_id thr ext) L' (columns data {0..<n_cols data})"
    "islands_ok fs data fit F (extrema_id thr ext) accs (columns data {0..<n_cols data})"
    by simp_all
  have lab: "(if con4 then labeling_4con neg fs data (bg + n_ana * rms) (bg - n_ana * rms) slices
      else labeling_8con neg fs data (bg + n_ana * rms) (bg - n_ana * rms) slices) = (L0, P, N, np, nn)"
    using out by (simp add: labelled_def detection_scene_def split: if_splits)
  show thesis
  proof (rule that [OF r1(2,1) r2])
    show "label_detection_islands fs gen data neg fit con4 bg n_det n_ana rms slices sched1 sched2 =
      (\<lparr>label_map = L', extrema_val = (\<lambda>s l. fst (ext s l)), extrema_linear_idx = (\<lambda>s l. snd (ext s l)),
         extrema_ids = extrema_id thr ext,
         extrema_moments = (\<lambda>s l. if extrema_id thr ext s l \<noteq> 0 then final_moments (acc_moments (accs s l)) else []),
         extrema_numsamples = (\<lambda>s l. acc_numsamples (accs s l)),
         extrema_boundingbox = (\<lambda>s l. if fit then acc_box (accs s l) else no_box),
         num_l = (\<lambda>s. case s of Pos \<Rightarrow> np | Neg \<Rightarrow> nn)\<rparr>,
       count_valid (extrema_id thr ext Neg) nn (count_valid (extrema_id thr ext Pos) np (np + nn)))"
      unfolding label_detection_islands_def process_labels_def Let_def lab prod.case
      unfolding tr [symmetric] thr [symmetric] one prod.case two by (rule refl)
  qed
qed

section \<open>Properties\<close>

lemma detection_thr_scene: "rows (detection_scene fs data neg bg n rms) = n_rows data"
  "cols (detection_scene fs data neg bg n rms) = n_cols data"
  by (simp_all add: rows_def cols_def detection_scene_def)

text \<open>The pixels of the matrix with a final label, as column and row.\<close>

definition component :: "real_t mat \<Rightarrow> (nat \<Rightarrow> nat \<Rightarrow> int) \<times> tree \<times> tree \<times> nat \<times> nat \<Rightarrow> sign \<Rightarrow> nat \<Rightarrow> (nat \<times> nat) set" where
  "component data out s l = {(i, j). i < n_cols data \<and> j < n_rows data \<and> final_label out j i = to_label s (Suc l)}"

definition threshold :: "real \<Rightarrow> real \<Rightarrow> real \<Rightarrow> sign \<Rightarrow> real" where
  "threshold bg n_sigma rms s = (case s of Pos \<Rightarrow> bg + n_sigma * rms | Neg \<Rightarrow> bg - n_sigma * rms)"

text \<open>What the extrema say, in terms of the components.\<close>

lemma extrema_component:
  assumes ext: "extrema_ok data (\<lambda>s. case s of Pos \<Rightarrow> P | Neg \<Rightarrow> N) L0 thr ext {0..<n_elem data}"
    and res: "\<And>r c. r < n_rows data \<Longrightarrow> c < n_cols data \<Longrightarrow> label_resolved (L0, P, N, np, nn) r c"
    and out: "out = (L0, P, N, np, nn)"
  shows "extrema_id thr ext s l \<noteq> 0 \<longleftrightarrow> (\<exists>(i, j) \<in> component data out s l. beats s (elt data j i) (thr s))"
    and "extrema_id thr ext s l \<noteq> 0 \<Longrightarrow>
      (\<exists>(i, j) \<in> component data out s l. snd (ext s l) = lin data j i \<and> fst (ext s l) = elt data j i) \<and>
      (\<forall>(i, j) \<in> component data out s l. \<not> beats s (elt data j i) (fst (ext s l)))"
proof -
  let ?T = "\<lambda>s. case s of Pos \<Rightarrow> P | Neg \<Rightarrow> N"
  have pixel: "(i div n_rows data, i mod n_rows data) \<in> component data out s l"
    if "i < n_elem data" "counts_for data ?T L0 s l i" for i
  proof -
    have rc: "i mod n_rows data < n_rows data" "i div n_rows data < n_cols data"
      using lin_inverse [OF that(1)] by simp_all
    show ?thesis
      using that(2) counts_for_final [OF res [OF rc], of s l] rc by (simp add: component_def out)
  qed
  have counts: "counts_for data ?T L0 s l (lin data j i)" "lin data j i < n_elem data" "at_lin data (lin data j i) = elt data j i"
    if "(i, j) \<in> component data out s l" for i j
  proof -
    have ij: "i < n_cols data" "j < n_rows data" "final_label out j i = to_label s (Suc l)"
      using that by (auto simp: component_def)
    note pos = lin_div_mod [OF ij(2), of i]
    show "lin data j i < n_elem data"
      by (rule lin_less [OF ij(2,1)])
    show "counts_for data ?T L0 s l (lin data j i)"
      using ij pos res counts_for_final [of L0 P N np nn "lin data j i" data s l] by (simp add: out)
    show "at_lin data (lin data j i) = elt data j i"
      using pos by (simp add: at_lin_def)
  qed
  have E: "key s (thr s) \<le> key s (fst (ext s l))"
    "\<And>i. i < n_elem data \<Longrightarrow> counts_for data ?T L0 s l i \<Longrightarrow> key s (at_lin data i) \<le> key s (fst (ext s l))"
    "fst (ext s l) = thr s \<or> snd (ext s l) < n_elem data \<and> counts_for data ?T L0 s l (snd (ext s l)) \<and>
      fst (ext s l) = at_lin data (snd (ext s l))"
    using ext by (auto simp: extrema_ok_def extremum_ok_def)
  have id: "extrema_id thr ext s l \<noteq> 0 \<longleftrightarrow> key s (thr s) < key s (fst (ext s l))"
    by (auto simp: extrema_id_def beats_key split: sign.splits)
  have below: "\<not> beats s (elt data j i) (fst (ext s l))" if "(i, j) \<in> component data out s l" for i j
    using E(2) [OF counts(2,1) [OF that]] counts(3) [OF that] by (simp add: beats_key)
  have at: "\<exists>(i, j) \<in> component data out s l. snd (ext s l) = lin data j i \<and> fst (ext s l) = elt data j i"
    if "extrema_id thr ext s l \<noteq> 0"
  proof -
    have "snd (ext s l) < n_elem data" "counts_for data ?T L0 s l (snd (ext s l))" "fst (ext s l) = at_lin data (snd (ext s l))"
      using E(3) that id by auto
    then show ?thesis
      using pixel [of "snd (ext s l)"] lin_inverse [of "snd (ext s l)" data]
      by (intro bexI [of _ "(snd (ext s l) div n_rows data, snd (ext s l) mod n_rows data)"]) (simp_all add: at_lin_def)
  qed
  show "extrema_id thr ext s l \<noteq> 0 \<longleftrightarrow> (\<exists>(i, j) \<in> component data out s l. beats s (elt data j i) (thr s))"
  proof
    assume nz: "extrema_id thr ext s l \<noteq> 0"
    from at [OF this] obtain i j where "(i, j) \<in> component data out s l" "fst (ext s l) = elt data j i"
      by blast
    with nz id show "\<exists>(i, j) \<in> component data out s l. beats s (elt data j i) (thr s)"
      by (intro bexI [of _ "(i, j)"]) (simp_all add: beats_key)
  next
    assume "\<exists>(i, j) \<in> component data out s l. beats s (elt data j i) (thr s)"
    then obtain i j where "(i, j) \<in> component data out s l" "beats s (elt data j i) (thr s)"
      by blast
    with below [of i j] show "extrema_id thr ext s l \<noteq> 0"
      by (auto simp: id beats_key)
  qed
  show "(\<exists>(i, j) \<in> component data out s l. snd (ext s l) = lin data j i \<and> fst (ext s l) = elt data j i) \<and>
      (\<forall>(i, j) \<in> component data out s l. \<not> beats s (elt data j i) (fst (ext s l)))"
    if "extrema_id thr ext s l \<noteq> 0"
    using at [OF that] below by blast
qed

text \<open>All that the run says, in terms of the components.\<close>

lemma detection_facts:
  assumes "labelling_ok con4 (detection_scene fs data neg bg n_ana rms) slices"
    and "schedules 0 (n_elem data) sched1" and "schedules 0 (n_cols data) sched2"
    and out_def: "out = labelled con4 (detection_scene fs data neg bg n_ana rms) slices"
    and det: "(det, num) = label_detection_islands fs gen data neg fit con4 bg n_det n_ana rms slices sched1 sched2"
  shows "extrema_ids det s l \<noteq> 0 \<longleftrightarrow>
      (\<exists>(i, j) \<in> component data out s l. beats s (elt data j i) (threshold bg n_det rms s))"
    and "extrema_ids det s l \<noteq> 0 \<Longrightarrow>
      (\<exists>(i, j) \<in> component data out s l. extrema_linear_idx det s l = lin data j i \<and> extrema_val det s l = elt data j i) \<and>
      (\<forall>(i, j) \<in> component data out s l. \<not> beats s (elt data j i) (extrema_val det s l))"
    and "extrema_ids det s l = (if extrema_ids det s l = 0 then 0 else to_label s (Suc l))"
    and "extrema_ids det s l \<noteq> 0 \<Longrightarrow> extrema_numsamples det s l = card (component data out s l)"
    and "extrema_ids det s l \<noteq> 0 \<Longrightarrow> extrema_moments det s l =
      final_moments (\<lambda>m. \<Sum>p \<in> component data out s l. sample_moment fs data m p)"
    and "extrema_ids det s l \<noteq> 0 \<Longrightarrow> fit \<Longrightarrow> extrema_boundingbox det s l = box_of fs data (component data out s l)"
    and "r < n_rows data \<Longrightarrow> c < n_cols data \<Longrightarrow>
      label_map det r c = clean_label gen (extrema_ids det) (final_label out r c)"
    and "num = card {l. l < num_labels Pos out \<and> extrema_ids det Pos l \<noteq> 0} +
      card {l. l < num_labels Neg out \<and> extrema_ids det Neg l \<noteq> 0}"
proof -
  obtain L0 P N np nn where out: "labelled con4 (detection_scene fs data neg bg n_ana rms) slices = (L0, P, N, np, nn)"
    by (cases "labelled con4 (detection_scene fs data neg bg n_ana rms) slices") auto
  have thr: "threshold bg n_det rms = (\<lambda>s. case s of Pos \<Rightarrow> bg + n_det * rms | Neg \<Rightarrow> bg - n_det * rms)"
    by (rule HOL.ext) (simp add: threshold_def)
  let ?thr = "threshold bg n_det rms" and ?T = "\<lambda>s. case s of Pos \<Rightarrow> P | Neg \<Rightarrow> N"
  obtain ext accs F L' where ext: "extrema_ok data ?T L0 ?thr ext {0..<n_elem data}"
    and F: "labels_inv data ?T L0 F {0..<n_elem data}"
    and clean: "clean_inv gen F (extrema_id ?thr ext) L' (columns data {0..<n_cols data})"
    and accs: "islands_ok fs data fit F (extrema_id ?thr ext) accs (columns data {0..<n_cols data})"
    and run: "label_detection_islands fs gen data neg fit con4 bg n_det n_ana rms slices sched1 sched2 =
      (\<lparr>label_map = L', extrema_val = (\<lambda>s l. fst (ext s l)), extrema_linear_idx = (\<lambda>s l. snd (ext s l)),
         extrema_ids = extrema_id ?thr ext,
         extrema_moments = (\<lambda>s l. if extrema_id ?thr ext s l \<noteq> 0 then final_moments (acc_moments (accs s l)) else []),
         extrema_numsamples = (\<lambda>s l. acc_numsamples (accs s l)),
         extrema_boundingbox = (\<lambda>s l. if fit then acc_box (accs s l) else no_box),
         num_l = (\<lambda>s. case s of Pos \<Rightarrow> np | Neg \<Rightarrow> nn)\<rparr>,
       count_valid (extrema_id ?thr ext Neg) nn (count_valid (extrema_id ?thr ext Pos) np (np + nn)))"
    by (rule detection_run [OF out thr refl assms(2,3)]) (rule that)
  have out': "out = (L0, P, N, np, nn)"
    by (simp only: out_def out)
  let ?ids = "extrema_id ?thr ext"
  have fields: "extrema_ids det = ?ids" "extrema_linear_idx det = (\<lambda>s l. snd (ext s l))" "extrema_val det = (\<lambda>s l. fst (ext s l))"
    "label_map det = L'" "extrema_numsamples det = (\<lambda>s l. acc_numsamples (accs s l))"
    "extrema_moments det = (\<lambda>s l. if ?ids s l \<noteq> 0 then final_moments (acc_moments (accs s l)) else [])"
    "extrema_boundingbox det = (\<lambda>s l. if fit then acc_box (accs s l) else no_box)"
    "num = count_valid (?ids Neg) nn (count_valid (?ids Pos) np (np + nn))"
    using det by (simp_all add: run)
  have res: "label_resolved (L0, P, N, np, nn) r c" if "r < n_rows data" "c < n_cols data" for r c
    using labelled_resolved [OF assms(1), of r c] that by (simp add: out detection_thr_scene)
  note comp = extrema_component [OF ext res out', where s = s and l = l]
  show "extrema_ids det s l \<noteq> 0 \<longleftrightarrow> (\<exists>(i, j) \<in> component data out s l. beats s (elt data j i) (?thr s))"
    unfolding fields by (rule comp(1))
  show "(\<exists>(i, j) \<in> component data out s l. extrema_linear_idx det s l = lin data j i \<and> extrema_val det s l = elt data j i) \<and>
      (\<forall>(i, j) \<in> component data out s l. \<not> beats s (elt data j i) (extrema_val det s l))" if "extrema_ids det s l \<noteq> 0"
    unfolding fields by (rule comp(2)) (use that in \<open>simp_all add: fields\<close>)
  show "extrema_ids det s l = (if extrema_ids det s l = 0 then 0 else to_label s (Suc l))"
    unfolding fields by (cases s) (simp_all add: extrema_id_def to_label_def)
  have F': "F r c = final_label out r c" if "r < n_rows data" "c < n_cols data" for r c
    using F that lin_less [OF that] by (simp add: labels_inv_def out' final_label_def tree_sel_def)
  have pixels: "label_pixels F ?ids s l (columns data {0..<n_cols data}) = component data out s l" if "?ids s l \<noteq> 0"
    using that F' by (auto simp: label_pixels_def columns_def component_def)
  have acc: "accs s l = summary fs data fit (component data out s l)" if "?ids s l \<noteq> 0"
    using accs pixels [OF that] by (simp add: islands_ok_def)
  show "extrema_numsamples det s l = card (component data out s l)" if "extrema_ids det s l \<noteq> 0"
    using that acc by (simp add: fields summary_def)
  show "extrema_moments det s l = final_moments (\<lambda>m. \<Sum>p \<in> component data out s l. sample_moment fs data m p)"
    if "extrema_ids det s l \<noteq> 0"
    using that acc by (simp add: fields summary_def)
  show "extrema_boundingbox det s l = box_of fs data (component data out s l)" if "extrema_ids det s l \<noteq> 0" fit
    using that acc by (simp add: fields summary_def)
  show "label_map det r c = clean_label gen (extrema_ids det) (final_label out r c)" if "r < n_rows data" "c < n_cols data"
    using clean that F' [OF that] by (simp add: fields clean_inv_def columns_def)
  have part: "n - card {l. l < n \<and> ids l = (0 :: int)} = card {l. l < n \<and> ids l \<noteq> 0}"
    "card {l. l < n \<and> ids l = (0 :: int)} \<le> n" for ids n
  proof -
    have "card ({l. l < n \<and> ids l = 0} \<union> {l. l < n \<and> ids l \<noteq> 0}) =
        card {l. l < n \<and> ids l = 0} + card {l. l < n \<and> ids l \<noteq> 0}"
      by (rule card_Un_disjoint) auto
    moreover have "{l. l < n \<and> ids l = 0} \<union> {l. l < n \<and> ids l \<noteq> 0} = {..<n}"
      by auto
    ultimately have "n = card {l. l < n \<and> ids l = 0} + card {l. l < n \<and> ids l \<noteq> 0}"
      by (simp only: card_lessThan)
    then show "n - card {l. l < n \<and> ids l = 0} = card {l. l < n \<and> ids l \<noteq> 0}" "card {l. l < n \<and> ids l = 0} \<le> n"
      by linarith+
  qed
  have "count_valid (?ids Pos) np (np + nn) = nn + card {l. l < np \<and> ?ids Pos l \<noteq> 0}"
    using part [of np "?ids Pos"] by (simp add: count_valid_eq)
  then have "num = card {l. l < np \<and> ?ids Pos l \<noteq> 0} + card {l. l < nn \<and> ?ids Neg l \<noteq> 0}"
    using part [of nn "?ids Neg"] by (simp add: fields count_valid_eq)
  then show "num = card {l. l < num_labels Pos out \<and> extrema_ids det Pos l \<noteq> 0} +
      card {l. l < num_labels Neg out \<and> extrema_ids det Neg l \<noteq> 0}"
    by (simp add: out' num_labels_def fields)
qed

text \<open>C12. A label is detected exactly when a pixel of its component is beyond the detection threshold, and
  then its extremum is the value of a pixel of the component, at the stored linear index, that
  no pixel of the component beats.\<close>

theorem detection_extrema:
  assumes "labelling_ok con4 (detection_scene fs data neg bg n_ana rms) slices"
    and "schedules 0 (n_elem data) sched1" and "schedules 0 (n_cols data) sched2"
    and "out = labelled con4 (detection_scene fs data neg bg n_ana rms) slices"
    and "(det, num) = label_detection_islands fs gen data neg fit con4 bg n_det n_ana rms slices sched1 sched2"
  shows "(extrema_ids det s l \<noteq> 0 \<longleftrightarrow>
      (\<exists>(i, j) \<in> component data out s l. beats s (elt data j i) (threshold bg n_det rms s))) \<and>
    (extrema_ids det s l \<noteq> 0 \<longrightarrow>
      (\<exists>(i, j) \<in> component data out s l. extrema_linear_idx det s l = lin data j i \<and> extrema_val det s l = elt data j i) \<and>
      (\<forall>(i, j) \<in> component data out s l. \<not> beats s (elt data j i) (extrema_val det s l)))"
  using detection_facts(1,2) [OF assms] by blast

text \<open>C11. The islands: a detected label has the number of pixels of its component, the moments of their sums,
  and their bounding box in the shifted image; the label map keeps the final labels, without those that are not
  detected if a label map is asked for; the returned number counts the detected labels.\<close>

theorem detection_islands:
  assumes "labelling_ok con4 (detection_scene fs data neg bg n_ana rms) slices"
    and "schedules 0 (n_elem data) sched1" and "schedules 0 (n_cols data) sched2"
    and "out = labelled con4 (detection_scene fs data neg bg n_ana rms) slices"
    and "(det, num) = label_detection_islands fs gen data neg fit con4 bg n_det n_ana rms slices sched1 sched2"
  shows "(extrema_ids det s l \<noteq> 0 \<longrightarrow>
      extrema_numsamples det s l = card (component data out s l) \<and>
      extrema_moments det s l = final_moments (\<lambda>m. \<Sum>p \<in> component data out s l. sample_moment fs data m p) \<and>
      (fit \<longrightarrow> extrema_boundingbox det s l = box_of fs data (component data out s l))) \<and>
    (r < n_rows data \<and> c < n_cols data \<longrightarrow>
      label_map det r c = clean_label gen (extrema_ids det) (final_label out r c)) \<and>
    num = card {l. l < num_labels Pos out \<and> extrema_ids det Pos l \<noteq> 0} +
      card {l. l < num_labels Neg out \<and> extrema_ids det Neg l \<noteq> 0}"
  using detection_facts(4-8) [OF assms] by blast

section \<open>A run\<close>

lemma demo_labelling: "labelling_ok True (detection_scene False demo_img True 0 0 1) [(1, 2), (0, 1)]"
proof -
  have "detection_scene False demo_img True 0 0 1 = demo False"
    by (simp add: detection_scene_def demo_def)
  then show ?thesis
    using demo_ok(1,2) demo_fit4(1) by (simp add: labelling_ok_def)
qed

lemma demo_schedules: "schedules 0 (n_elem demo_img) [[(4, 8)], [(0, 4)]]" "schedules 0 (n_cols demo_img) [[(1, 2)], [(0, 1)]]"
  by (simp_all add: schedules_def covers_def n_elem_def demo_img_def mat_of_rows_def)

theorem detection_extrema_witness:
  "\<exists>det num. (det, num) = label_detection_islands False True demo_img True True True 0 0 0 1 [(1, 2), (0, 1)]
      [[(4, 8)], [(0, 4)]] [[(1, 2)], [(0, 1)]] \<and>
    (extrema_ids det Pos 0 \<noteq> 0 \<longleftrightarrow>
      (\<exists>(i, j) \<in> component demo_img (labelled True (detection_scene False demo_img True 0 0 1) [(1, 2), (0, 1)]) Pos 0.
        beats Pos (elt demo_img j i) (threshold 0 0 1 Pos)))"
proof -
  obtain det num where run: "(det, num) = label_detection_islands False True demo_img True True True 0 0 0 1 [(1, 2), (0, 1)]
      [[(4, 8)], [(0, 4)]] [[(1, 2)], [(0, 1)]]"
    by (metis surj_pair)
  from detection_extrema [OF demo_labelling demo_schedules refl run, of Pos 0] run show ?thesis
    by blast
qed

theorem detection_islands_witness:
  "\<exists>det num. (det, num) = label_detection_islands False True demo_img True True True 0 0 0 1 [(1, 2), (0, 1)]
      [[(4, 8)], [(0, 4)]] [[(1, 2)], [(0, 1)]] \<and>
    num = card {l. l < num_labels Pos (labelled True (detection_scene False demo_img True 0 0 1) [(1, 2), (0, 1)]) \<and>
        extrema_ids det Pos l \<noteq> 0} +
      card {l. l < num_labels Neg (labelled True (detection_scene False demo_img True 0 0 1) [(1, 2), (0, 1)]) \<and>
        extrema_ids det Neg l \<noteq> 0}"
proof -
  obtain det num where run: "(det, num) = label_detection_islands False True demo_img True True True 0 0 0 1 [(1, 2), (0, 1)]
      [[(4, 8)], [(0, 4)]] [[(1, 2)], [(0, 1)]]"
    by (metis surj_pair)
  from detection_islands [OF demo_labelling demo_schedules refl run, of Pos 0 0 0] run show ?thesis
    by blast
qed

end
