(* ===== verification/Binmedian.thy ===== *)
theory Binmedian
  imports Binapprox
begin

text \<open>
  The exact median by successive binning, \<^verbatim>\<open>mat_binmedian\<close> of
  \<^verbatim>\<open>src/src/stp/common/matrix_math.cpp\<close>: that it terminates, and that it is exact. The
  conversion of a bin to \<^verbatim>\<open>int\<close> is modelled without overflow.
\<close>

section \<open>The function\<close>

definition min_medsize :: nat where
  "min_medsize = 100"

text \<open>The nearest bin at or below \<open>i\<close> that is not empty.\<close>

fun prev_bin :: "(nat \<Rightarrow> nat) \<Rightarrow> nat \<Rightarrow> nat option" where
  "prev_bin counts 0 = (if counts 0 = 0 then None else Some 0)"
| "prev_bin counts (Suc i) = (if counts (Suc i) = 0 then prev_bin counts i else Some (Suc i))"

text \<open>
  One search: whether the bins were found, the order \<open>k\<close> of the median within them, the
  left and the right bin if they were set, and the number of elements in them.
\<close>

definition find_medbins :: "nat \<Rightarrow> bin_counts \<Rightarrow> bool \<times> nat \<times> (nat \<times> nat) option \<times> nat" where
  "find_medbins n acc =
     (case find_bin (bincounts acc) (n div 2 + 1) 0 (bottomcount acc) of
        None \<Rightarrow> (False, n div 2 + 1, None, 0)
      | Some (i, cnt) \<Rightarrow>
          let k = n div 2 + 1 - (cnt - bincounts acc i);
              size = bincounts acc i
          in if even n \<and> k = 1 then
               if i > 0 then
                 (case prev_bin (bincounts acc) (i - 1) of
                    Some j \<Rightarrow> (True, k + bincounts acc j, Some (j, i), size + bincounts acc j)
                  | None \<Rightarrow> (False, k, Some (i, i), size))
               else (False, k, Some (i, i), size)
             else (True, k, Some (i, i), size))"

record binmedian_state =
  bm_leftend :: real
  bm_scale :: real
  bm_counts :: bin_counts
  bm_oldsize :: nat
  bm_old :: "(real \<times> real) option"
  bm_bins :: "(nat \<times> nat) option"
  bm_round :: nat

text \<open>
  How the loop ends: no bins were found in the first round; the bins to select from, with the left end and
  the scale factor they refer to and the order of the median; or the left end and the scale factor
  were never set.
\<close>

datatype medbins = All_data | Selected real real nat nat nat | Uninitialised

partial_function (option) binmedian_loop ::
  "nat \<Rightarrow> (nat \<Rightarrow> real) \<Rightarrow> (nat \<Rightarrow> schedule) \<Rightarrow> binmedian_state \<Rightarrow> medbins option"
where
  "binmedian_loop n d scheds st =
     (let (found, k, bins, size) = find_medbins n (bm_counts st);
          bins = (case bins of None \<Rightarrow> bm_bins st | Some b \<Rightarrow> Some b)
      in case bins of
           None \<Rightarrow> Some All_data
         | Some (left, right) \<Rightarrow>
             if found then
               let oldscale = bm_scale st;
                   oldleftend = bm_leftend st;
                   leftend = real left / oldscale + oldleftend;
                   rightend = real (right + 1) / oldscale + oldleftend;
                   scale = real num_bins / (rightend - leftend)
               in if size < min_medsize \<or> size < n div 10 \<or> rightend - leftend < binmedian_min_range \<or>
                     bm_oldsize st = size
                  then Some (Selected oldleftend oldscale left right k)
                  else binmedian_loop n d scheds
                    \<lparr>bm_leftend = leftend, bm_scale = scale,
                     bm_counts = count_bins (\<lambda>i. bin_index leftend scale (d i)) (scheds (bm_round st)),
                     bm_oldsize = size, bm_old = Some (oldleftend, oldscale), bm_bins = Some (left, right),
                     bm_round = bm_round st + 1\<rparr>
             else (case bm_old st of
                     None \<Rightarrow> Some Uninitialised
                   | Some (oldleftend, oldscale) \<Rightarrow> Some (Selected oldleftend oldscale left right k)))"

text \<open>
  The elements of the bins. The threads append them to one \<^verbatim>\<open>tbb::concurrent_vector\<close>; \<open>idx\<close>
  is the order in which they get to the elements, which may interleave the threads in any way.
\<close>

definition select_bins :: "nat list \<Rightarrow> (nat \<Rightarrow> real) \<Rightarrow> real \<Rightarrow> real \<Rightarrow> nat \<Rightarrow> nat \<Rightarrow> real list" where
  "select_bins idx d leftend scale left right =
     map d (filter (\<lambda>i. int left \<le> bin_index leftend scale (d i) \<and> bin_index leftend scale (d i) \<le> int right) idx)"

text \<open>None: the loop does not end, or reads a variable that was never set.\<close>

definition mat_binmedian ::
  "(nat \<Rightarrow> real_t list \<Rightarrow> real_t list) \<Rightarrow> real_t mat \<Rightarrow> schedule \<Rightarrow> (nat \<Rightarrow> schedule) \<Rightarrow> nat list \<Rightarrow> data_stats option"
where
  "mat_binmedian ne data sched scheds idx =
     (let n = n_elem data;
          d = at_lin data;
          stats = mat_mean_and_stddev data sched;
          mu = mean stats;
          sg = sigma stats
      in if sg * 2 < binmedian_min_range then Some (median_stats mu sg (mat_median_exact ne data))
         else
           let scale = real num_bins / (2 * sg);
               leftend = mu - sg;
               st = \<lparr>bm_leftend = leftend, bm_scale = scale,
                 bm_counts = count_bins (\<lambda>i. bin_index leftend scale (d i)) (scheds 0),
                 bm_oldsize = n, bm_old = None, bm_bins = None, bm_round = 1\<rparr>
           in case binmedian_loop n d scheds st of
                None \<Rightarrow> None
              | Some Uninitialised \<Rightarrow> None
              | Some All_data \<Rightarrow> Some (median_stats mu sg (mat_median_exact ne data))
              | Some (Selected oldleftend oldscale left right k) \<Rightarrow>
                  let auxdata = ne (k - 1) (select_bins idx d oldleftend oldscale left right)
                  in Some (median_stats mu sg
                       (if odd n then auxdata ! (k - 1)
                        else (auxdata ! (k - 1) + Max (set (take (k - 1) auxdata))) / 2)))"

section \<open>Selecting an interval of a sorted list\<close>

lemma sorted_split:
  assumes "sorted ys" and "\<And>x y. x \<le> y \<Longrightarrow> P y \<Longrightarrow> P x"
  shows "filter P ys = take (length (filter P ys)) ys" and "filter (\<lambda>x. \<not> P x) ys = drop (length (filter P ys)) ys"
proof -
  have "filter P ys = take (length (filter P ys)) ys \<and> filter (\<lambda>x. \<not> P x) ys = drop (length (filter P ys)) ys"
    using assms(1)
  proof (induction ys)
    case Nil
    then show ?case by simp
  next
    case (Cons y ys)
    show ?case
    proof (cases "P y")
      case True
      with Cons show ?thesis by simp
    next
      case False
      have "\<not> P x" if "x \<in> set ys" for x
        using Cons.prems that False assms(2) [of y x] by auto
      with False show ?thesis by (simp add: filter_empty_conv filter_id_conv)
    qed
  qed
  then show "filter P ys = take (length (filter P ys)) ys" and "filter (\<lambda>x. \<not> P x) ys = drop (length (filter P ys)) ys"
    by simp_all
qed

text \<open>The elements from one bin to another are a stretch of the sorted list.\<close>

lemma sorted_interval_nth:
  fixes b :: "real \<Rightarrow> int"
  assumes mono: "\<And>x y. x \<le> y \<Longrightarrow> b x \<le> b y"
    and m: "m < length (filter (\<lambda>x. lo \<le> b x \<and> b x \<le> hi) xs)"
  shows "sort (filter (\<lambda>x. lo \<le> b x \<and> b x \<le> hi) xs) ! m =
    sort xs ! (length (filter (\<lambda>x. b x < lo) xs) + m)"
proof -
  let ?ys = "sort xs"
  let ?c = "length (filter (\<lambda>x. b x < lo) ?ys)"
  have c: "length (filter (\<lambda>x. b x < lo) xs) = ?c"
    by (metis mset_filter mset_sort size_mset)
  have "sort (filter (\<lambda>x. lo \<le> b x \<and> b x \<le> hi) xs) = filter (\<lambda>x. lo \<le> b x \<and> b x \<le> hi) ?ys"
    by (simp add: filter_sort)
  also have "\<dots> = filter (\<lambda>x. b x \<le> hi) (filter (\<lambda>x. \<not> b x < lo) ?ys)"
    by (simp add: conj_commute not_less)
  also have "filter (\<lambda>x. \<not> b x < lo) ?ys = drop ?c ?ys"
    by (rule sorted_split(2)) (use mono in \<open>auto intro: le_less_trans\<close>)
  also have "filter (\<lambda>x. b x \<le> hi) (drop ?c ?ys) =
      take (length (filter (\<lambda>x. b x \<le> hi) (drop ?c ?ys))) (drop ?c ?ys)"
  proof (rule sorted_split(1))
    show "sorted (drop ?c ?ys)"
      by (simp add: sorted_wrt_drop)
    show "b x \<le> hi" if "x \<le> y" "b y \<le> hi" for x y
      using mono [OF that(1)] that(2) by (rule order_trans)
  qed
  finally have eq: "sort (filter (\<lambda>x. lo \<le> b x \<and> b x \<le> hi) xs) =
      take (length (filter (\<lambda>x. b x \<le> hi) (drop ?c ?ys))) (drop ?c ?ys)" (is "_ = take ?k _") .
  have "length (sort (filter (\<lambda>x. lo \<le> b x \<and> b x \<le> hi) xs)) \<le> ?k"
    unfolding eq by simp
  then have "m < ?k"
    using m by simp
  moreover have "?c \<le> length ?ys"
    by (rule length_filter_le)
  ultimately show ?thesis
    unfolding eq c by (simp add: nth_drop)
qed

section \<open>One search\<close>

text \<open>The two middle elements; they coincide for an odd number of elements.\<close>

definition low_mid :: "real list \<Rightarrow> real" where
  "low_mid xs = sort xs ! ((length xs - 1) div 2)"

definition high_mid :: "real list \<Rightarrow> real" where
  "high_mid xs = sort xs ! (length xs div 2)"

lemma low_high: "xs \<noteq> [] \<Longrightarrow> low_mid xs \<le> high_mid xs"
  unfolding low_mid_def high_mid_def by (intro sorted_nth_mono) (auto simp: div_le_mono)

definition counts_of :: "real list \<Rightarrow> real \<Rightarrow> real \<Rightarrow> bin_counts" where
  "counts_of xs l f = (\<Sum>i < length xs. bin_item (\<lambda>i. bin_index l f (xs ! i)) i)"

definition below_bin :: "real list \<Rightarrow> real \<Rightarrow> real \<Rightarrow> nat \<Rightarrow> nat" where
  "below_bin xs l f b = length (filter (\<lambda>x. bin_index l f x < int b) xs)"

lemma counts_prefix:
  assumes "b \<le> Suc num_bins"
  shows "bottomcount (counts_of xs l f) + (\<Sum>c < b. bincounts (counts_of xs l f) c) = below_bin xs l f b"
proof -
  let ?bin = "\<lambda>i. bin_index l f (xs ! i)"
  have one: "bottomcount (bin_item ?bin i) + (\<Sum>c < b. bincounts (bin_item ?bin i) c) = (if ?bin i < int b then 1 else 0)" for i
  proof (cases "?bin i < 0")
    case True
    then show ?thesis by (simp add: bin_item_def)
  next
    case False
    then obtain m where m: "?bin i = int m"
      by (metis nonneg_int_cases not_less)
    have "(\<Sum>c < b. bincounts (bin_item ?bin i) c) = (\<Sum>c < b. if c = m then 1 else 0)"
      using assms m by (intro sum.cong) (auto simp: bin_item_def)
    then show ?thesis
      using m by (simp add: bin_item_def)
  qed
  have "bottomcount (counts_of xs l f) + (\<Sum>c < b. bincounts (counts_of xs l f) c) =
      (\<Sum>i < length xs. bottomcount (bin_item ?bin i)) + (\<Sum>c < b. \<Sum>i < length xs. bincounts (bin_item ?bin i) c)"
    by (simp add: counts_of_def bincounts_sum)
  also have "\<dots> = (\<Sum>i < length xs. bottomcount (bin_item ?bin i) + (\<Sum>c < b. bincounts (bin_item ?bin i) c))"
    by (subst sum.swap) (simp add: sum.distrib)
  also have "\<dots> = (\<Sum>i < length xs. if ?bin i < int b then 1 else 0)"
    by (simp add: one)
  also have "\<dots> = card {i. i < length xs \<and> ?bin i < int b}"
    by (simp add: sum.If_cases Int_def)
  also have "\<dots> = below_bin xs l f b"
    using card_filter [of xs "\<lambda>x. bin_index l f x < int b"] by (simp add: below_bin_def)
  finally show ?thesis .
qed

lemma below_bin_Suc: "b \<le> num_bins \<Longrightarrow> below_bin xs l f (Suc b) = below_bin xs l f b + bincounts (counts_of xs l f) b"
  using counts_prefix [of "Suc b" xs l f] counts_prefix [of b xs l f] by simp

lemma below_bin_mono: "a \<le> b \<Longrightarrow> below_bin xs l f a \<le> below_bin xs l f b"
  unfolding below_bin_def by (induction xs) auto

lemma below_bin_iff:
  assumes "0 \<le> f" and "k < length xs"
  shows "k < below_bin xs l f b \<longleftrightarrow> bin_index l f (sort xs ! k) < int b"
proof -
  have "bin_index l f x < int b" if "x \<le> y" "bin_index l f y < int b" for x y
    using bin_index_mono [OF assms(1) that(1)] that(2) by (rule le_less_trans)
  then show ?thesis
    unfolding below_bin_def by (intro count_sorted) (use assms in auto)
qed

lemma prev_bin_first:
  "j \<le> i \<Longrightarrow> counts j \<noteq> 0 \<Longrightarrow> (\<And>c. j < c \<Longrightarrow> c \<le> i \<Longrightarrow> counts c = 0) \<Longrightarrow> prev_bin counts i = Some j"
proof (induction i)
  case 0
  then show ?case by simp
next
  case (Suc i)
  then show ?case by (cases "j = Suc i") auto
qed

lemma find_medbins_spec:
  assumes f: "0 \<le> f" and xs: "xs \<noteq> []"
    and low: "bin_index l f (low_mid xs) = int lm" and high: "bin_index l f (high_mid xs) = int rm" "rm \<le> num_bins"
  shows "find_medbins (length xs) (counts_of xs l f) =
      (True, length xs div 2 + 1 - below_bin xs l f lm, Some (lm, rm), below_bin xs l f (Suc rm) - below_bin xs l f lm)"
    and "below_bin xs l f lm \<le> (length xs - 1) div 2" and "length xs div 2 < below_bin xs l f (Suc rm)"
proof -
  let ?n = "length xs" and ?F = "below_bin xs l f" and ?c = "bincounts (counts_of xs l f)"
  define h where "h = ?n div 2"
  have n: "0 < ?n"
    using xs by simp
  then have hn: "h < ?n" "(?n - 1) div 2 < ?n"
    unfolding h_def by linarith+
  have lm: "lm \<le> rm"
    using bin_index_mono [OF f low_high [OF xs], of l] low high(1) by simp
  have iff: "h < ?F b \<longleftrightarrow> rm < b" "(?n - 1) div 2 < ?F b \<longleftrightarrow> lm < b" for b
    using below_bin_iff [OF f hn(1), of l b] below_bin_iff [OF f hn(2), of l b] low high(1)
    by (simp_all add: high_mid_def low_mid_def h_def)
  show "?F lm \<le> (?n - 1) div 2" and "?n div 2 < ?F (Suc rm)"
    using iff(2) [of lm] iff(1) [of "Suc rm"] by (simp_all add: h_def)
  have F: "?F (Suc b) = ?F b + ?c b" if "b \<le> num_bins" for b
    by (rule below_bin_Suc [OF that])
  define G where "G b = bottomcount (counts_of xs l f) + (\<Sum>c < b. ?c c)" for b
  have G: "G b = ?F b" if "b \<le> Suc num_bins" for b
    unfolding G_def by (rule counts_prefix [OF that])
  have "find_bin ?c (h + 1) 0 (G 0) = Some (rm, G (Suc rm))"
  proof (rule find_bin_first [where F = G])
    show "G (Suc b) = G b + ?c b" for b
      by (simp add: G_def)
    show "h + 1 \<le> G (Suc rm)"
      using iff(1) [of "Suc rm"] high(2) by (simp add: G)
    show "G (Suc a) < h + 1" if "a < rm" for a
      using iff(1) [of "Suc a"] that high(2) by (simp add: G not_less less_Suc_eq_le)
  qed (use high(2) in simp_all)
  moreover have "G 0 = bottomcount (counts_of xs l f)"
    by (simp add: G_def)
  moreover have "G (Suc rm) = ?F (Suc rm)"
    using high(2) by (intro G) simp
  ultimately have found: "find_bin ?c (?n div 2 + 1) 0 (bottomcount (counts_of xs l f)) = Some (rm, ?F (Suc rm))"
    by (simp only: h_def)
  have prev_cnt: "?F (Suc rm) - ?c rm = ?F rm"
    by (simp add: F [OF high(2)])
  have le: "?F rm \<le> h"
    using iff(1) [of rm] by simp
  show "find_medbins ?n (counts_of xs l f) = (True, ?n div 2 + 1 - ?F lm, Some (lm, rm), ?F (Suc rm) - ?F lm)"
  proof (cases "even ?n \<and> h + 1 - ?F rm = 1")
    case True
    then have "h + 1 - ?F rm = 1"
      by (rule conjunct2)
    with le have Frm: "?F rm = h"
      by linarith
    have h: "?n = 2 * h" "0 < h" "(?n - 1) div 2 = h - 1"
      using conjunct1 [OF True] xs by (simp_all only: h_def length_0_conv [symmetric]) presburger+
    have "h - 1 < ?F rm"
      using Frm h(2) by simp
    then have lr: "lm < rm"
      using iff(2) [of rm] h(3) by simp
    have Slm: "?F (Suc lm) = h"
    proof (rule antisym)
      show "?F (Suc lm) \<le> h"
        using below_bin_mono [of "Suc lm" rm xs l f] lr Frm by simp
      show "h \<le> ?F (Suc lm)"
        using iff(2) [of "Suc lm"] h(3) by simp
    qed
    have clm: "?F lm + ?c lm = h"
      using F [of lm] Slm lr high(2) by simp
    have Flm: "?F lm \<le> h - 1"
      using iff(2) [of lm] h(3) by simp
    have zero: "?c c = 0" if "lm < c" "c < rm" for c
    proof -
      have "?F (Suc c) = ?F c + ?c c"
        using that high(2) by (intro F) simp
      moreover have "h \<le> ?F c"
        using below_bin_mono [of "Suc lm" c xs l f] that Slm by simp
      moreover have "?F (Suc c) \<le> h"
        using below_bin_mono [of "Suc c" rm xs l f] that Frm by simp
      ultimately show ?thesis by simp
    qed
    have "prev_bin ?c (rm - 1) = Some lm"
    proof (rule prev_bin_first)
      show "?c lm \<noteq> 0"
        using clm Flm h(2) by simp
      show "?c c = 0" if "lm < c" "c \<le> rm - 1" for c
        using zero [of c] that by simp
    qed (use lr in simp)
    moreover have "1 + ?c lm = h + 1 - ?F lm"
      using clm by simp
    moreover have "?c rm + ?c lm = ?F (Suc rm) - ?F lm"
      using clm Frm F [OF high(2)] by simp
    ultimately show ?thesis
      unfolding find_medbins_def found option.case prod.case Let_def prev_cnt
      unfolding h_def [symmetric]
      using True lr by simp
  next
    case False
    have lr: "lm = rm"
    proof (cases "even ?n")
      case True
      then have h: "(?n - 1) div 2 = h - 1" "0 < h"
        using n unfolding h_def by presburger+
      have "?F rm \<noteq> h"
        using False True by auto
      with le h iff(2) [of rm] lm show ?thesis by auto
    next
      case False
      then have "(?n - 1) div 2 = h"
        by (auto simp: h_def elim!: oddE)
      with low high(1) show ?thesis
        by (simp add: low_mid_def high_mid_def h_def)
    qed
    have "?F (Suc rm) - ?F rm = ?c rm"
      by (simp add: F [OF high(2)])
    then have size: "?c rm = ?F (Suc rm) - ?F rm"
      by (rule sym)
    show ?thesis
      unfolding find_medbins_def found option.case prod.case Let_def prev_cnt
      unfolding h_def [symmetric] if_not_P [OF False] lr size by (rule refl)
  qed
qed


section \<open>The loop\<close>

definition left_bin :: "real list \<Rightarrow> real \<Rightarrow> real \<Rightarrow> nat" where
  "left_bin xs l f = nat (bin_index l f (low_mid xs))"

definition right_bin :: "real list \<Rightarrow> real \<Rightarrow> real \<Rightarrow> nat" where
  "right_bin xs l f = nat (bin_index l f (high_mid xs))"

definition bins_size :: "real list \<Rightarrow> real \<Rightarrow> real \<Rightarrow> nat" where
  "bins_size xs l f = below_bin xs l f (Suc (right_bin xs l f)) - below_bin xs l f (left_bin xs l f)"

text \<open>The interval holds both middle elements.\<close>

definition brackets :: "real list \<Rightarrow> real \<Rightarrow> real \<Rightarrow> bool" where
  "brackets xs l f \<longleftrightarrow> 0 < f \<and> l \<le> low_mid xs \<and> high_mid xs \<le> l + real num_bins / f"

definition new_left :: "real list \<Rightarrow> real \<Rightarrow> real \<Rightarrow> real" where
  "new_left xs l f = real (left_bin xs l f) / f + l"

definition new_right :: "real list \<Rightarrow> real \<Rightarrow> real \<Rightarrow> real" where
  "new_right xs l f = real (right_bin xs l f + 1) / f + l"

definition new_scale :: "real list \<Rightarrow> real \<Rightarrow> real \<Rightarrow> real" where
  "new_scale xs l f = real num_bins / (new_right xs l f - new_left xs l f)"

lemma bin_bounds:
  assumes "0 < f" and "l \<le> x"
  shows "real (nat (bin_index l f x)) / f + l \<le> x" and "x < real (nat (bin_index l f x) + 1) / f + l"
    and "bin_index l f x = int (nat (bin_index l f x))"
proof -
  have pos: "0 \<le> (x - l) * f"
    using assms by simp
  then have nonneg: "0 \<le> bin_index l f x"
    by (simp add: bin_index_def int_cast_def)
  then show nn: "bin_index l f x = int (nat (bin_index l f x))"
    by simp
  have b: "real (nat (bin_index l f x)) \<le> (x - l) * f" "(x - l) * f < real (nat (bin_index l f x)) + 1"
    using int_cast_bounds [OF pos] unfolding bin_index_def [symmetric] by (simp_all add: nonneg)
  then show "real (nat (bin_index l f x)) / f + l \<le> x" and "x < real (nat (bin_index l f x) + 1) / f + l"
    using assms(1) by (simp_all add: field_simps)
qed

lemma brackets_bins:
  assumes "brackets xs l f" and "xs \<noteq> []"
  shows "bin_index l f (low_mid xs) = int (left_bin xs l f)" and "bin_index l f (high_mid xs) = int (right_bin xs l f)"
    and "left_bin xs l f \<le> right_bin xs l f" and "right_bin xs l f \<le> num_bins"
proof -
  have f: "0 < f" and l: "l \<le> low_mid xs" "l \<le> high_mid xs" and h: "high_mid xs \<le> l + real num_bins / f"
    using assms(1) low_high [OF assms(2)] by (auto simp: brackets_def)
  show low: "bin_index l f (low_mid xs) = int (left_bin xs l f)" and high: "bin_index l f (high_mid xs) = int (right_bin xs l f)"
    unfolding left_bin_def right_bin_def by (rule bin_bounds(3) [OF f l(1)] bin_bounds(3) [OF f l(2)])+
  show "left_bin xs l f \<le> right_bin xs l f"
    using bin_index_mono [OF less_imp_le [OF f] low_high [OF assms(2)], of l] low high by simp
  have "real (right_bin xs l f) / f \<le> real num_bins / f"
    using bin_bounds(1) [OF f l(2)] h by (simp add: right_bin_def)
  then show "right_bin xs l f \<le> num_bins"
    using f by (simp add: divide_le_cancel)
qed

text \<open>The next interval holds them too, strictly on the right.\<close>

lemma brackets_next:
  assumes "brackets xs l f" and "xs \<noteq> []"
  shows "brackets xs (new_left xs l f) (new_scale xs l f)" and "right_bin xs (new_left xs l f) (new_scale xs l f) < num_bins"
    and "0 < new_right xs l f - new_left xs l f"
proof -
  have f: "0 < f" and l: "l \<le> low_mid xs" "l \<le> high_mid xs"
    using assms(1) low_high [OF assms(2)] by (auto simp: brackets_def)
  have w: "new_right xs l f - new_left xs l f = real (right_bin xs l f + 1 - left_bin xs l f) / f"
    using brackets_bins(3) [OF assms] by (simp add: new_right_def new_left_def of_nat_diff diff_divide_distrib)
  then show pos: "0 < new_right xs l f - new_left xs l f"
    using f brackets_bins(3) [OF assms] by simp
  have low: "new_left xs l f \<le> low_mid xs" and high: "high_mid xs < new_right xs l f"
    using bin_bounds(1) [OF f l(1)] bin_bounds(2) [OF f l(2)]
    by (simp_all add: new_left_def left_bin_def new_right_def right_bin_def)
  have len: "real num_bins / new_scale xs l f = new_right xs l f - new_left xs l f"
    by (simp add: new_scale_def num_bins_def)
  show br: "brackets xs (new_left xs l f) (new_scale xs l f)"
    using pos low high by (simp add: brackets_def len) (simp add: new_scale_def num_bins_def)
  have "new_left xs l f \<le> high_mid xs"
    using low low_high [OF assms(2)] by simp
  then have "real (right_bin xs (new_left xs l f) (new_scale xs l f)) / new_scale xs l f + new_left xs l f \<le> high_mid xs"
    using br bin_bounds(1) by (simp add: brackets_def right_bin_def)
  also note high
  also have "new_right xs l f = real num_bins / new_scale xs l f + new_left xs l f"
    by (simp add: len)
  finally show "right_bin xs (new_left xs l f) (new_scale xs l f) < num_bins"
    using br by (simp add: brackets_def divide_less_cancel)
qed


lemma loop_step:
  assumes "brackets xs l f" and "xs \<noteq> []"
    and "bm_leftend st = l" "bm_scale st = f" "bm_counts st = counts_of xs l f"
  shows "binmedian_loop (length xs) d scheds st =
    (if bins_size xs l f < min_medsize \<or> bins_size xs l f < length xs div 10 \<or>
        new_right xs l f - new_left xs l f < binmedian_min_range \<or> bm_oldsize st = bins_size xs l f
     then Some (Selected l f (left_bin xs l f) (right_bin xs l f)
       (length xs div 2 + 1 - below_bin xs l f (left_bin xs l f)))
     else binmedian_loop (length xs) d scheds
       \<lparr>bm_leftend = new_left xs l f, bm_scale = new_scale xs l f,
        bm_counts = count_bins (\<lambda>i. bin_index (new_left xs l f) (new_scale xs l f) (d i)) (scheds (bm_round st)),
        bm_oldsize = bins_size xs l f, bm_old = Some (l, f),
        bm_bins = Some (left_bin xs l f, right_bin xs l f), bm_round = bm_round st + 1\<rparr>)"
proof -
  have "0 \<le> f"
    using assms(1) by (simp add: brackets_def)
  note found = find_medbins_spec(1) [OF this assms(2) brackets_bins(1,2,4) [OF assms(1,2)]]
  show ?thesis
    by (subst binmedian_loop.simps)
      (simp only: assms(3-5) found prod.case option.case Let_def if_True new_left_def [symmetric]
        new_right_def [symmetric] new_scale_def [symmetric] bins_size_def [symmetric])
qed

lemma next_width: "real num_bins / new_scale xs l f = new_right xs l f - new_left xs l f"
  by (simp add: new_scale_def num_bins_def)

text \<open>Unless nothing moves, the next interval is shorter by a thousandth at least.\<close>

lemma interval_shrinks:
  assumes "brackets xs l f" and "xs \<noteq> []" and "right_bin xs l f < num_bins"
  shows "new_left xs l f = l \<and> new_scale xs l f = f \<or>
    new_right xs l f - new_left xs l f \<le> real num_bins / f * (999 / 1000)"
proof -
  let ?l = "left_bin xs l f" and ?r = "right_bin xs l f"
  have f: "0 < f"
    using assms(1) by (simp add: brackets_def)
  have w: "new_right xs l f - new_left xs l f = real (?r + 1 - ?l) / f"
    using brackets_bins(3) [OF assms(1,2)] by (simp add: new_right_def new_left_def of_nat_diff diff_divide_distrib)
  show ?thesis
  proof (cases "?l = 0 \<and> ?r + 1 = num_bins")
    case True
    then have "new_right xs l f - new_left xs l f = real num_bins / f"
      by (simp add: w)
    with True f show ?thesis
      by (simp add: new_left_def new_scale_def num_bins_def)
  next
    case False
    then have "?r + 1 - ?l \<le> 999"
      using assms(3) by (simp add: num_bins_def) linarith
    then have "real (?r + 1 - ?l) \<le> 999"
      by linarith
    with f show ?thesis
      by (simp add: w num_bins_def divide_right_mono)
  qed
qed

text \<open>What the loop ends with.\<close>

definition selected_ok :: "real list \<Rightarrow> medbins \<Rightarrow> bool" where
  "selected_ok xs r \<longleftrightarrow> (\<exists>l f. brackets xs l f \<and> r = Selected l f (left_bin xs l f) (right_bin xs l f)
     (length xs div 2 + 1 - below_bin xs l f (left_bin xs l f)))"

definition counts_at :: "real list \<Rightarrow> binmedian_state \<Rightarrow> bool" where
  "counts_at xs st \<longleftrightarrow> bm_counts st = counts_of xs (bm_leftend st) (bm_scale st)"

lemma rebinned:
  assumes "\<And>i. i < length xs \<Longrightarrow> d i = xs ! i" and "\<And>r. schedules 0 (length xs) (scheds r)"
  shows "count_bins (\<lambda>i. bin_index l f (d i)) (scheds r) = counts_of xs l f"
  unfolding counts_of_def count_bins_sum [OF assms(2)]
  by (intro sum.cong refl) (simp add: bin_item_def assms(1))

lemma loop_terminates:
  assumes "xs \<noteq> []" and d: "\<And>i. i < length xs \<Longrightarrow> d i = xs ! i" and "\<And>r. schedules 0 (length xs) (scheds r)"
  shows "counts_at xs st \<Longrightarrow> brackets xs (bm_leftend st) (bm_scale st) \<Longrightarrow>
    right_bin xs (bm_leftend st) (bm_scale st) < num_bins \<Longrightarrow>
    real num_bins / bm_scale st * (999 / 1000) ^ m < binmedian_min_range \<Longrightarrow>
    \<exists>r. binmedian_loop (length xs) d scheds st = Some r \<and> selected_ok xs r"
proof (induction m arbitrary: st)
  case (0 st)
  let ?l = "bm_leftend st" and ?f = "bm_scale st"
  have "new_right xs ?l ?f - new_left xs ?l ?f \<le> real num_bins / ?f"
    using interval_shrinks [OF 0(2) assms(1) 0(3)]
  proof
    assume "new_left xs ?l ?f = ?l \<and> new_scale xs ?l ?f = ?f"
    then show ?thesis
      using next_width [of xs ?l ?f] by simp
  next
    assume "new_right xs ?l ?f - new_left xs ?l ?f \<le> real num_bins / ?f * (999 / 1000)"
    also have "\<dots> \<le> real num_bins / ?f"
      using 0(2) by (simp add: brackets_def num_bins_def divide_right_mono)
    finally show ?thesis .
  qed
  with 0 show ?case
    by (subst loop_step [OF 0(2) assms(1) refl refl]) (auto simp: counts_at_def selected_ok_def)
next
  case (Suc m st)
  define l where "l = bm_leftend st"
  define f where "f = bm_scale st"
  have counts: "bm_counts st = counts_of xs l f" and br: "brackets xs l f" and right: "right_bin xs l f < num_bins"
    and small: "real num_bins / f * (999 / 1000) ^ Suc m < binmedian_min_range"
    using Suc.prems by (simp_all only: l_def f_def counts_at_def)
  define st' where "st' = \<lparr>bm_leftend = new_left xs l f, bm_scale = new_scale xs l f,
      bm_counts = count_bins (\<lambda>i. bin_index (new_left xs l f) (new_scale xs l f) (d i)) (scheds (bm_round st)),
      bm_oldsize = bins_size xs l f, bm_old = Some (l, f),
      bm_bins = Some (left_bin xs l f, right_bin xs l f), bm_round = bm_round st + 1\<rparr>"
  note next_br = brackets_next [OF br assms(1)]
  have counts': "counts_at xs st'"
    by (simp add: counts_at_def st'_def rebinned [OF d assms(3)])
  have st'_sel: "bm_leftend st' = new_left xs l f" "bm_scale st' = new_scale xs l f"
    "bm_oldsize st' = bins_size xs l f"
    by (simp_all add: st'_def)
  have sel: "selected_ok xs (Selected l f (left_bin xs l f) (right_bin xs l f)
       (length xs div 2 + 1 - below_bin xs l f (left_bin xs l f)))" if "brackets xs l f" for l f
    using that by (auto simp: selected_ok_def)
  have step: "binmedian_loop (length xs) d scheds st =
    (if bins_size xs l f < min_medsize \<or> bins_size xs l f < length xs div 10 \<or>
        new_right xs l f - new_left xs l f < binmedian_min_range \<or> bm_oldsize st = bins_size xs l f
     then Some (Selected l f (left_bin xs l f) (right_bin xs l f)
       (length xs div 2 + 1 - below_bin xs l f (left_bin xs l f)))
     else binmedian_loop (length xs) d scheds st')"
    unfolding st'_def by (rule loop_step [OF br assms(1)]) (simp_all add: l_def f_def counts [unfolded l_def f_def])
  have continue: "\<exists>r. binmedian_loop (length xs) d scheds st' = Some r \<and> selected_ok xs r"
    using interval_shrinks [OF br assms(1) right]
  proof
    assume same: "new_left xs l f = l \<and> new_scale xs l f = f"
    then have "binmedian_loop (length xs) d scheds st' =
        Some (Selected l f (left_bin xs l f) (right_bin xs l f)
          (length xs div 2 + 1 - below_bin xs l f (left_bin xs l f)))"
      using counts' by (subst loop_step [OF br assms(1)]) (simp_all add: st'_sel counts_at_def)
    with sel [OF br] show ?thesis by simp
  next
    assume "new_right xs l f - new_left xs l f \<le> real num_bins / f * (999 / 1000)"
    then have "real num_bins / new_scale xs l f \<le> real num_bins / f * (999 / 1000)"
      by (simp add: new_scale_def num_bins_def)
    then have "real num_bins / new_scale xs l f * (999 / 1000) ^ m \<le> real num_bins / f * (999 / 1000) * (999 / 1000) ^ m"
      by (rule mult_right_mono) simp
    also have "\<dots> < binmedian_min_range"
      using small by (simp only: power_Suc mult.assoc)
    finally show ?thesis
      using counts' next_br by (intro Suc.IH) (simp_all add: st'_sel)
  qed
  show ?case
    unfolding step using continue sel [OF br] by simp
qed

section \<open>The median\<close>

text \<open>The selected elements are those of the bins of the two middle elements.\<close>

lemma select_bins_mset:
  assumes "mset idx = mset [0..<n_elem data]"
  shows "mset (select_bins idx (at_lin data) l f a b) =
    mset (filter (\<lambda>x. int a \<le> bin_index l f x \<and> bin_index l f x \<le> int b) (elems data))"
proof -
  let ?P = "\<lambda>x. int a \<le> bin_index l f x \<and> bin_index l f x \<le> int b"
  have "select_bins idx (at_lin data) l f a b = filter ?P (map (at_lin data) idx)"
    by (simp add: select_bins_def filter_map o_def)
  moreover have "mset (map (at_lin data) idx) = mset (elems data)"
    using assms by (simp add: elems_def)
  ultimately show ?thesis
    by (metis mset_filter)
qed

lemma selected_middle:
  assumes br: "brackets xs l f" and xs: "xs \<noteq> []"
    and sel: "mset ys = mset (filter (\<lambda>x. int (left_bin xs l f) \<le> bin_index l f x \<and> bin_index l f x \<le> int (right_bin xs l f)) xs)"
    and k: "k = length xs div 2 + 1 - below_bin xs l f (left_bin xs l f)"
  shows "0 < k" and "k - 1 < length ys" and "sort ys ! (k - 1) = high_mid xs"
    and "even (length xs) \<Longrightarrow> 0 < k - 1" and "even (length xs) \<Longrightarrow> sort ys ! (k - 2) = low_mid xs"
proof -
  let ?n = "length xs" and ?a = "left_bin xs l f" and ?b = "right_bin xs l f" and ?F = "below_bin xs l f"
  let ?P = "\<lambda>x. int ?a \<le> bin_index l f x \<and> bin_index l f x \<le> int ?b"
  have f: "0 \<le> f"
    using br by (simp add: brackets_def)
  have F: "?F ?a \<le> (?n - 1) div 2" "?n div 2 < ?F (Suc ?b)"
    by (rule find_medbins_spec(2,3) [OF f xs brackets_bins(1,2,4) [OF br xs]])+
  have half: "(?n - 1) div 2 \<le> ?n div 2"
    by (simp add: div_le_mono)
  have "0 < ?n"
    using xs by simp
  show "0 < k"
    using F(1) half by (simp add: k)
  have ys: "sort ys = sort (filter ?P xs)"
    using sel by (metis properties_for_sort sorted_sort mset_sort)
  have len: "length ys = ?F (Suc ?b) - ?F ?a"
  proof -
    have "length (filter (\<lambda>x. int a \<le> g x \<and> g x \<le> int b) zs) + length (filter (\<lambda>x. g x < int a) zs) =
        length (filter (\<lambda>x. g x < int (Suc b)) zs)" if "a \<le> b" for a b and g :: "real \<Rightarrow> int" and zs
      using that by (induction zs) auto
    from this [OF brackets_bins(3) [OF br xs]] have "length (filter ?P xs) + ?F ?a = ?F (Suc ?b)"
      unfolding below_bin_def .
    then show ?thesis
      using mset_eq_length [OF sel] by linarith
  qed
  show "k - 1 < length ys"
    using F half by (simp add: k len)
  have nth: "sort ys ! m = sort xs ! (?F ?a + m)" if "m < length ys" for m
    unfolding ys below_bin_def
  proof (rule sorted_interval_nth)
    show "bin_index l f x \<le> bin_index l f y" if "x \<le> y" for x y
      by (rule bin_index_mono [OF f that])
    show "m < length (filter ?P xs)"
      using that mset_eq_length [OF sel] by simp
  qed
  show "sort ys ! (k - 1) = high_mid xs"
    using nth [OF \<open>k - 1 < length ys\<close>] F(1) half by (simp add: k high_mid_def)
  assume "even ?n"
  then have h: "(?n - 1) div 2 = ?n div 2 - 1" "0 < ?n div 2"
    using \<open>0 < ?n\<close> by presburger+
  then show "0 < k - 1"
    using F(1) by (simp add: k)
  have "k - 2 < length ys"
    using \<open>k - 1 < length ys\<close> by simp
  from nth [OF this] show "sort ys ! (k - 2) = low_mid xs"
    using F(1) h by (simp add: k low_mid_def)
qed

text \<open>The loop from the first interval on.\<close>

lemma loop_result:
  assumes xs: "xs \<noteq> []" and d: "\<And>i. i < length xs \<Longrightarrow> d i = xs ! i" and sched: "\<And>r. schedules 0 (length xs) (scheds r)"
    and br: "brackets xs l f" and st: "bm_leftend st = l" "bm_scale st = f" "bm_counts st = counts_of xs l f"
  shows "\<exists>r. binmedian_loop (length xs) d scheds st = Some r \<and> selected_ok xs r"
proof -
  let ?st = "\<lparr>bm_leftend = new_left xs l f, bm_scale = new_scale xs l f,
        bm_counts = count_bins (\<lambda>i. bin_index (new_left xs l f) (new_scale xs l f) (d i)) (scheds (bm_round st)),
        bm_oldsize = bins_size xs l f, bm_old = Some (l, f),
        bm_bins = Some (left_bin xs l f, right_bin xs l f), bm_round = bm_round st + 1\<rparr>"
  note next_br = brackets_next [OF br xs]
  have "0 < binmedian_min_range / (real num_bins / new_scale xs l f)"
    using next_br(1) by (simp add: brackets_def binmedian_min_range_def num_bins_def)
  then obtain m where "(999 / 1000) ^ m < binmedian_min_range / (real num_bins / new_scale xs l f)"
    using real_arch_pow_inv by fastforce
  then have "real num_bins / new_scale xs l f * (999 / 1000) ^ m < binmedian_min_range"
    using next_br(1) by (simp add: brackets_def num_bins_def field_simps)
  moreover have "counts_at xs ?st"
    by (simp add: counts_at_def rebinned [OF d sched])
  ultimately have "\<exists>r. binmedian_loop (length xs) d scheds ?st = Some r \<and> selected_ok xs r"
    using next_br by (intro loop_terminates [OF xs d sched]) simp_all
  moreover have "selected_ok xs (Selected l f (left_bin xs l f) (right_bin xs l f)
       (length xs div 2 + 1 - below_bin xs l f (left_bin xs l f)))"
    using br by (auto simp: selected_ok_def)
  ultimately show ?thesis
    by (subst loop_step [OF br xs st]) simp
qed

lemma first_interval:
  assumes "0 < n_elem data" and s: "s = sqrt (elem_variance data)" "0 < s"
  shows "brackets (elems data) (elem_mean data - s) (real num_bins / (2 * s))"
proof -
  let ?n = "n_elem data"
  have "(?n - 1) div 2 < ?n" "?n \<le> 2 * ((?n - 1) div 2 + 1)" "2 * ((?n - 1) div 2) \<le> ?n"
    "?n div 2 < ?n" "?n \<le> 2 * (?n div 2 + 1)" "2 * (?n div 2) \<le> ?n"
    using assms(1) by presburger+
  then have "\<bar>low_mid (elems data) - elem_mean data\<bar> \<le> s" "\<bar>high_mid (elems data) - elem_mean data\<bar> \<le> s"
    unfolding low_mid_def high_mid_def elems_length s(1) by (blast intro: middle_in_interval)+
  then have "elem_mean data - s \<le> low_mid (elems data)" "high_mid (elems data) \<le> elem_mean data + s"
    by linarith+
  then show ?thesis
    using s(2) by (simp add: brackets_def num_bins_def)
qed

lemma binmedian_value:
  assumes ne: "nth_selector ne" and n: "0 < n_elem data"
    and "schedules 0 (n_elem data) sched" and scheds: "\<And>r. schedules 0 (n_elem data) (scheds r)"
    and idx: "mset idx = mset [0..<n_elem data]"
  shows "mat_binmedian ne data sched scheds idx =
    Some (median_stats (elem_mean data) (sqrt (elem_variance data)) (exact_median (elems data)))"
proof -
  define s where "s = sqrt (elem_variance data)"
  define mu where "mu = elem_mean data"
  let ?xs = "elems data"
  have stats: "mean (mat_mean_and_stddev data sched) = mu" "sigma (mat_mean_and_stddev data sched) = s"
    using mean_and_stddev_value [OF assms(3) n] by (simp_all add: stats_defs mu_def s_def)
  show ?thesis
  proof (cases "s * 2 < binmedian_min_range")
    case True
    with stats median_exact_value [OF ne n] show ?thesis
      by (simp add: mat_binmedian_def Let_def mu_def s_def)
  next
    case False
    then have s: "0 < s"
      by (simp add: binmedian_min_range_def)
    define l where "l = mu - s"
    define f where "f = real num_bins / (2 * s)"
    have xs: "?xs \<noteq> []"
      using n by (simp flip: length_0_conv)
    have d: "at_lin data i = ?xs ! i" if "i < length ?xs" for i
      using that by (simp add: elems_def)
    have sched: "schedules 0 (length ?xs) (scheds r)" for r
      using scheds by simp
    have cnt: "count_bins (\<lambda>i. bin_index l f (at_lin data i)) (scheds r) = counts_of ?xs l f" for l f r
      by (rule rebinned [OF d sched])
    have br: "brackets ?xs l f"
      unfolding l_def f_def mu_def by (rule first_interval [OF n s_def s])
    let ?st = "\<lparr>bm_leftend = l, bm_scale = f,
       bm_counts = count_bins (\<lambda>i. bin_index l f (at_lin data i)) (scheds 0),
       bm_oldsize = n_elem data, bm_old = None, bm_bins = None, bm_round = 1\<rparr>"
    obtain r where r: "binmedian_loop (n_elem data) (at_lin data) scheds ?st = Some r" "selected_ok ?xs r"
    proof -
      have "\<exists>r. binmedian_loop (length ?xs) (at_lin data) scheds ?st = Some r \<and> selected_ok ?xs r"
        by (rule loop_result [OF xs d sched br]) (simp_all add: cnt)
      then show ?thesis
        using that by auto
    qed
    obtain l' f' where br': "brackets ?xs l' f'"
      and r': "r = Selected l' f' (left_bin ?xs l' f') (right_bin ?xs l' f')
        (length ?xs div 2 + 1 - below_bin ?xs l' f' (left_bin ?xs l' f'))" (is "_ = Selected _ _ ?a ?b ?k")
      using r(2) by (auto simp: selected_ok_def)
    let ?ys = "select_bins idx (at_lin data) l' f' ?a ?b"
    note mid = selected_middle [OF br' xs select_bins_mset [OF idx] refl]
    have nth: "ne (?k - 1) ?ys ! (?k - 1) = high_mid ?xs"
      using nth_selector.ne_nth [OF ne mid(2)] mid(3) by simp
    have max: "Max (set (take (?k - 1) (ne (?k - 1) ?ys))) = low_mid ?xs" if "even (length ?xs)"
      using nth_selector.ne_max [OF ne mid(2) mid(4) [OF that]] mid(5) [OF that] by (simp add: numeral_2_eq_2)
    have "(if odd (n_elem data) then high_mid ?xs else (high_mid ?xs + low_mid ?xs) / 2) = exact_median ?xs"
    proof (cases "odd (n_elem data)")
      case True
      then show ?thesis by (simp add: exact_median_def high_mid_def Let_def)
    next
      case False
      then have "(n_elem data - 1) div 2 = n_elem data div 2 - 1"
        using n by presburger
      with False show ?thesis by (simp add: exact_median_def high_mid_def low_mid_def Let_def)
    qed
    moreover have "mat_binmedian ne data sched scheds idx = Some (median_stats mu s
        (if odd (n_elem data) then high_mid ?xs else (high_mid ?xs + low_mid ?xs) / 2))"
      unfolding mat_binmedian_def Let_def stats if_not_P [OF False] l_def [symmetric] f_def [symmetric] r(1)
        option.case r' medbins.case using nth max by simp
    ultimately show ?thesis
      by (simp add: mu_def s_def)
  qed
qed



end
