(* ===== verification/Estimate_Rms.thy ===== *)
theory Estimate_Rms
  imports Binmedian
begin

text \<open>
  The noise estimate, \<^verbatim>\<open>estimate_rms\<close> of \<^verbatim>\<open>src/src/stp/sourcefind/sourcefind.cpp\<close>:
  sigma clipping that keeps running sums and subtracts what each round removes, and its refinement of
  clipping as it is defined. The comparisons are those of the commented lines of the code; that the code's
  integer comparisons are the same is shown in \<^verbatim>\<open>Float_Bits\<close>.
\<close>

section \<open>The function\<close>

text \<open>The two combinables: sum and sum of squares of the removed elements, and their number.\<close>

datatype clip_acc = ClipAcc (rem_accu: double_pair) (rem_elem: nat)

instantiation clip_acc :: comm_monoid_add
begin

definition zero_clip_acc :: clip_acc where
  "zero_clip_acc = ClipAcc (DoublePair 0 0) 0"

definition plus_clip_acc :: "clip_acc \<Rightarrow> clip_acc \<Rightarrow> clip_acc" where
  "plus_clip_acc x y = ClipAcc (rem_accu x + rem_accu y) (rem_elem x + rem_elem y)"

instance
  by standard (simp_all add: zero_clip_acc_def plus_clip_acc_def ac_simps zero_pair)

end

text \<open>A bound; None is the largest finite number, which no element exceeds.\<close>

definition exceeds :: "real option \<Rightarrow> real \<Rightarrow> bool" where
  "exceeds bound x = (case bound of None \<Rightarrow> False | Some u \<Rightarrow> \<bar>x\<bar> > u)"

definition clip_element ::
  "(nat \<Rightarrow> real) \<Rightarrow> real option \<Rightarrow> real option \<Rightarrow> nat \<Rightarrow> clip_acc \<Rightarrow> clip_acc"
where
  "clip_element v upper prev_upper j acc =
     (if exceeds upper (v j) then
        if \<not> exceeds prev_upper (v j) then
          ClipAcc (DoublePair (d1 (rem_accu acc) + v j) (d2 (rem_accu acc) + v j * v j)) (rem_elem acc + 1)
        else acc
      else acc)"

definition clip_outliers :: "(nat \<Rightarrow> real) \<Rightarrow> real option \<Rightarrow> real option \<Rightarrow> schedule \<Rightarrow> clip_acc" where
  "clip_outliers v upper prev_upper sched =
     parallel_bodies
       (unrolled 2 4 (\<lambda>j acc. clip_element v upper prev_upper (j + 1) (clip_element v upper prev_upper j acc))
          (clip_element v upper prev_upper))
       (+) 0 sched"

record clip_state =
  total_accu :: double_pair
  valid_n_elem :: nat
  clip_sigma :: real
  prev_upper_sigma :: "real option"

text \<open>
  The rounds that are left; the schedule of a round is indexed by its number. None: the last element was
  removed and the standard deviation is 0/0, not a number.
\<close>

fun sigma_clip :: "(nat \<Rightarrow> real) \<Rightarrow> real \<Rightarrow> (nat \<Rightarrow> schedule) \<Rightarrow> nat \<Rightarrow> nat \<Rightarrow> clip_state \<Rightarrow> real option" where
  "sigma_clip v num_sigma scheds 0 i st = Some (clip_sigma st)"
| "sigma_clip v num_sigma scheds (Suc iters) i st =
     (let upper = Some (num_sigma * clip_sigma st);
          acc = clip_outliers v upper (prev_upper_sigma st) (scheds i)
      in if rem_elem acc = 0 then Some (clip_sigma st)
         else
           let n = valid_n_elem st - rem_elem acc;
               t1 = d1 (total_accu st) - d1 (rem_accu acc);
               t2 = d2 (total_accu st) - d2 (rem_accu acc)
           in if n = 0 then None
              else sigma_clip v num_sigma scheds iters (i + 1)
                \<lparr>total_accu = DoublePair t1 t2, valid_n_elem = n,
                 clip_sigma = sqrt (t2 / real n - (t1 / real n) * (t1 / real n)), prev_upper_sigma = upper\<rparr>)"

definition estimate_rms ::
  "(nat \<Rightarrow> real_t list \<Rightarrow> real_t list) \<Rightarrow> real_t mat \<Rightarrow> real \<Rightarrow> nat \<Rightarrow> data_stats \<Rightarrow>
   schedule \<Rightarrow> (nat \<Rightarrow> schedule) \<Rightarrow> nat list \<Rightarrow> (nat \<Rightarrow> schedule) \<Rightarrow> real option"
where
  "estimate_rms ne data num_sigma iters stats sched1 scheds2 idx scheds =
     (let stats =
        (if \<not> median_valid stats then mat_binmedian ne data sched1 scheds2 idx
         else if \<not> mean_valid stats \<or> \<not> sigma_valid stats then
           let tmp_stats = mat_mean_and_stddev data sched1
           in Some (stats\<lparr>mean := mean tmp_stats, mean_valid := True, sigma := sigma tmp_stats, sigma_valid := True\<rparr>)
         else Some stats)
      in case stats of
           None \<Rightarrow> None
         | Some stats \<Rightarrow>
             let n = n_elem data;
                 med = median stats;
                 mu = mean stats - med;
                 sg = sigma stats
             in sigma_clip (\<lambda>j. at_lin data j - med) num_sigma scheds iters 0
                  \<lparr>total_accu = DoublePair (mu * real n) ((sg * sg + mu * mu) * real n),
                   valid_n_elem = n, clip_sigma = sg, prev_upper_sigma = None\<rparr>)"

section \<open>Clipping as it is defined\<close>

definition set_mean :: "(nat \<Rightarrow> real) \<Rightarrow> nat set \<Rightarrow> real" where
  "set_mean v K = (\<Sum>i \<in> K. v i) / real (card K)"

definition set_std :: "(nat \<Rightarrow> real) \<Rightarrow> nat set \<Rightarrow> real" where
  "set_std v K = sqrt ((\<Sum>i \<in> K. (v i - set_mean v K)\<^sup>2) / real (card K))"

text \<open>
  In each round keep the elements within \<open>num_sigma\<close> standard deviations of the centre, the deviation
  being that of the elements kept so far.
\<close>

fun clip_spec :: "(nat \<Rightarrow> real) \<Rightarrow> real \<Rightarrow> nat \<Rightarrow> nat set \<Rightarrow> real option" where
  "clip_spec v num_sigma 0 K = Some (set_std v K)"
| "clip_spec v num_sigma (Suc iters) K =
     (let K' = {i \<in> K. \<bar>v i\<bar> \<le> num_sigma * set_std v K}
      in if K' = K then Some (set_std v K) else if K' = {} then None else clip_spec v num_sigma iters K')"

lemma set_std_moments:
  assumes "finite K" and "K \<noteq> {}"
  shows "(\<Sum>i \<in> K. v i * v i) / real (card K) - (\<Sum>i \<in> K. v i) / real (card K) * ((\<Sum>i \<in> K. v i) / real (card K)) =
    (\<Sum>i \<in> K. (v i - set_mean v K)\<^sup>2) / real (card K)"
proof -
  define n where "n = real (card K)"
  define m where "m = set_mean v K"
  have n: "n \<noteq> 0"
    using assms by (simp add: n_def)
  have m: "(\<Sum>i \<in> K. v i) = n * m"
    using n by (simp add: m_def set_mean_def n_def)
  have "(\<Sum>i \<in> K. (v i - m)\<^sup>2) = (\<Sum>i \<in> K. v i * v i - 2 * m * v i + m * m)"
    by (intro sum.cong) (auto simp: power2_eq_square algebra_simps)
  also have "\<dots> = (\<Sum>i \<in> K. v i * v i) - 2 * m * (\<Sum>i \<in> K. v i) + n * m * m"
    by (simp add: sum.distrib sum_subtractf sum_distrib_left [symmetric] n_def)
  finally have "(\<Sum>i \<in> K. (v i - m)\<^sup>2) = (\<Sum>i \<in> K. v i * v i) - n * m * m"
    by (simp add: m)
  then show ?thesis
    unfolding n_def [symmetric] m_def [symmetric] m using n by (simp add: field_simps)
qed

section \<open>One round\<close>

definition clip_item :: "(nat \<Rightarrow> real) \<Rightarrow> real option \<Rightarrow> real option \<Rightarrow> nat \<Rightarrow> clip_acc" where
  "clip_item v upper prev_upper j =
     (if exceeds upper (v j) \<and> \<not> exceeds prev_upper (v j) then ClipAcc (DoublePair (v j) (v j * v j)) 1 else 0)"

interpretation clipped: sum_reduction "clip_item v upper prev_upper" for v upper prev_upper .

lemma clip_element_item: "clip_element v upper prev_upper = (\<lambda>j acc. acc + clip_item v upper prev_upper j)"
proof (intro ext)
  fix j acc
  show "clip_element v upper prev_upper j acc = acc + clip_item v upper prev_upper j"
  proof (cases "exceeds upper (v j) \<and> \<not> exceeds prev_upper (v j)")
    case True
    then show ?thesis
      by (simp add: clip_element_def clip_item_def plus_clip_acc_def plus_double_pair_def)
  next
    case False
    then show ?thesis
      by (auto simp: clip_element_def clip_item_def)
  qed
qed

lemma clip_sum:
  "d1 (rem_accu (\<Sum>j \<in> A. f j)) = (\<Sum>j \<in> A. d1 (rem_accu (f j)))"
  "d2 (rem_accu (\<Sum>j \<in> A. f j)) = (\<Sum>j \<in> A. d2 (rem_accu (f j)))"
  "rem_elem (\<Sum>j \<in> A. f j) = (\<Sum>j \<in> A. rem_elem (f j))"
  by (induction A rule: infinite_finite_induct) (simp_all add: zero_clip_acc_def plus_clip_acc_def plus_double_pair_def)

lemma clip_outliers_removed:
  fixes v :: "nat \<Rightarrow> real" and upper prev_upper :: "real option"
  assumes "schedules 0 n sched"
  defines "R \<equiv> {j. j < n \<and> exceeds upper (v j) \<and> \<not> exceeds prev_upper (v j)}"
  shows "d1 (rem_accu (clip_outliers v upper prev_upper sched)) = (\<Sum>j \<in> R. v j)"
    and "d2 (rem_accu (clip_outliers v upper prev_upper sched)) = (\<Sum>j \<in> R. v j * v j)"
    and "rem_elem (clip_outliers v upper prev_upper sched) = card R"
proof -
  have two: "[j..<j + 2] = [j, j + 1]" for j :: nat
    by (simp add: upt_rec)
  have "clip_outliers v upper prev_upper sched =
      parallel_reduce (\<lambda>j acc. acc + clip_item v upper prev_upper j) (+) 0 sched"
    unfolding clip_outliers_def clip_element_item
    by (rule parallel_bodies_reduce, rule unrolled_fold) (simp_all add: two)
  then have total: "clip_outliers v upper prev_upper sched = (\<Sum>j < n. clip_item v upper prev_upper j)"
    using clipped.parallel_sum [OF assms(1)] by (simp add: atLeast0)
  have filter: "(\<Sum>j < n. if exceeds upper (v j) \<and> \<not> exceeds prev_upper (v j) then g j else 0) = (\<Sum>j \<in> R. g j)"
    for g :: "nat \<Rightarrow> 'b :: comm_monoid_add"
    unfolding R_def by (simp add: sum.If_cases Int_def)
  show "d1 (rem_accu (clip_outliers v upper prev_upper sched)) = (\<Sum>j \<in> R. v j)"
    unfolding total clip_sum filter [symmetric]
    by (intro sum.cong) (simp_all add: clip_item_def zero_clip_acc_def)
  show "d2 (rem_accu (clip_outliers v upper prev_upper sched)) = (\<Sum>j \<in> R. v j * v j)"
    unfolding total clip_sum filter [symmetric]
    by (intro sum.cong) (simp_all add: clip_item_def zero_clip_acc_def)
  have "rem_elem (clip_outliers v upper prev_upper sched) = (\<Sum>j \<in> R. 1)"
    unfolding total clip_sum filter [symmetric]
    by (intro sum.cong) (simp_all add: clip_item_def zero_clip_acc_def)
  then show "rem_elem (clip_outliers v upper prev_upper sched) = card R"
    by simp
qed

section \<open>The rounds\<close>

definition kept :: "(nat \<Rightarrow> real) \<Rightarrow> nat \<Rightarrow> real option \<Rightarrow> nat set" where
  "kept v n bound = {j. j < n \<and> \<not> exceeds bound (v j)}"

lemma kept_finite [simp]: "finite (kept v n bound)"
  by (rule finite_subset [of _ "{..<n}"]) (auto simp: kept_def)

text \<open>What the state of a round says of the elements that are kept.\<close>

definition clip_inv :: "(nat \<Rightarrow> real) \<Rightarrow> nat \<Rightarrow> clip_state \<Rightarrow> bool" where
  "clip_inv v n st \<longleftrightarrow>
     (let K = kept v n (prev_upper_sigma st)
      in K \<noteq> {} \<and> total_accu st = DoublePair (\<Sum>j \<in> K. v j) (\<Sum>j \<in> K. v j * v j) \<and>
         valid_n_elem st = card K \<and> clip_sigma st = set_std v K)"

lemma sigma_clip_spec:
  assumes "\<And>r. schedules 0 n (scheds r)"
  shows "clip_inv v n st \<Longrightarrow>
    sigma_clip v num_sigma scheds iters i st = clip_spec v num_sigma iters (kept v n (prev_upper_sigma st))"
proof (induction iters arbitrary: i st)
  case 0
  then show ?case by (simp add: clip_inv_def Let_def)
next
  case (Suc iters i st)
  let ?prev = "prev_upper_sigma st"
  let ?upper = "Some (num_sigma * clip_sigma st)"
  let ?K = "kept v n ?prev"
  define R where "R = {j. j < n \<and> exceeds ?upper (v j) \<and> \<not> exceeds ?prev (v j)}"
  define K' where "K' = {j \<in> ?K. \<bar>v j\<bar> \<le> num_sigma * set_std v ?K}"
  note acc = clip_outliers_removed [OF assms [of i], where upper = ?upper and prev_upper = ?prev and v = v, folded R_def]
  have inv: "?K \<noteq> {}" "total_accu st = DoublePair (\<Sum>j \<in> ?K. v j) (\<Sum>j \<in> ?K. v j * v j)"
    "valid_n_elem st = card ?K" "clip_sigma st = set_std v ?K"
    using Suc.prems by (simp_all add: clip_inv_def Let_def)
  have over: "exceeds ?upper x \<longleftrightarrow> \<not> \<bar>x\<bar> \<le> num_sigma * set_std v ?K" for x
    unfolding inv(4) [symmetric] by (simp add: exceeds_def not_le)
  have in_kept: "j \<in> kept v n b \<longleftrightarrow> j < n \<and> \<not> exceeds b (v j)" for j b
    by (simp add: kept_def)
  have split: "?K = K' \<union> R" "K' \<inter> R = {}" "finite K'" "finite R"
    by (auto simp: K'_def R_def in_kept over)
  have diff: "(\<Sum>j \<in> ?K. g j) - (\<Sum>j \<in> R. g j) = (\<Sum>j \<in> K'. g j)" for g :: "nat \<Rightarrow> real"
    using split by (subst split(1)) (simp add: sum.union_disjoint)
  have card: "card ?K - card R = card K'"
    using split by (subst split(1)) (simp add: card_Un_disjoint)
  show ?case
  proof (cases "R = {}")
    case True
    then have "K' = ?K"
      using split(1) by simp
    with True show ?thesis
      unfolding sigma_clip.simps(2) clip_spec.simps(2) Let_def acc K'_def [symmetric] by (simp add: inv(4))
  next
    case False
    then have ne: "K' \<noteq> ?K" "card R \<noteq> 0"
      using split by auto
    have sc: "sigma_clip v num_sigma scheds (Suc iters) i st =
      (if card K' = 0 then None
       else sigma_clip v num_sigma scheds iters (i + 1)
         \<lparr>total_accu = DoublePair (\<Sum>j \<in> K'. v j) (\<Sum>j \<in> K'. v j * v j), valid_n_elem = card K',
          clip_sigma = sqrt ((\<Sum>j \<in> K'. v j * v j) / real (card K') -
            ((\<Sum>j \<in> K'. v j) / real (card K')) * ((\<Sum>j \<in> K'. v j) / real (card K'))), prev_upper_sigma = ?upper\<rparr>)"
      using ne(2) by (simp add: acc Let_def inv(2,3) diff card)
    show ?thesis
    proof (cases "K' = {}")
      case True
      with ne show ?thesis
        unfolding sc by (simp add: Let_def flip: K'_def)
    next
      case kept: False
      obtain x where x: "x \<in> R"
        using False by blast
      have K': "kept v n ?upper = K'"
      proof -
        have mono: "exceeds b z \<Longrightarrow> \<bar>y\<bar> \<ge> \<bar>z\<bar> \<Longrightarrow> exceeds b y" for b y z
          by (auto simp: exceeds_def split: option.splits)
        have "\<not> exceeds ?prev (v j)" if "\<not> exceeds ?upper (v j)" for j
          using mono [of ?prev "v j" "v x"] that x by (auto simp: R_def over)
        then show ?thesis
          by (auto simp: K'_def in_kept over)
      qed
      have "sigma_clip v num_sigma scheds (Suc iters) i st =
          clip_spec v num_sigma iters (kept v n ?upper)"
      proof -
        let ?st' = "\<lparr>total_accu = DoublePair (\<Sum>j \<in> K'. v j) (\<Sum>j \<in> K'. v j * v j), valid_n_elem = card K',
          clip_sigma = sqrt ((\<Sum>j \<in> K'. v j * v j) / real (card K') -
            ((\<Sum>j \<in> K'. v j) / real (card K')) * ((\<Sum>j \<in> K'. v j) / real (card K'))), prev_upper_sigma = ?upper\<rparr>"
        have "clip_inv v n ?st'"
          unfolding clip_inv_def Let_def clip_state.select_convs K' set_std_def
          by (intro conjI kept refl arg_cong [where f = sqrt] set_std_moments split(3))
        from Suc.IH [OF this, of "i + 1"] have "sigma_clip v num_sigma scheds iters (i + 1) ?st' =
            clip_spec v num_sigma iters (kept v n ?upper)"
          by (simp only: clip_state.select_convs)
        moreover have "card K' \<noteq> 0"
          using kept split(3) by simp
        ultimately show ?thesis
          unfolding sc by (simp only: if_False)
      qed
      with ne kept show ?thesis
        by (simp add: Let_def K' flip: K'_def)
    qed
  qed
qed

lemma set_std_elems: "set_std (\<lambda>j. at_lin data j - m) {..<n_elem data} = sqrt (elem_variance data)"
proof (cases "n_elem data = 0")
  case True
  then show ?thesis by (simp add: set_std_def elem_variance_def)
next
  case False
  then have "set_mean (\<lambda>j. at_lin data j - m) {..<n_elem data} = elem_mean data - m"
    by (simp add: set_mean_def sum_subtractf diff_divide_distrib elem_mean_def elem_sum_def)
  then show ?thesis
    by (simp add: set_std_def elem_variance_def)
qed

text \<open>The statistics that a caller may pass: what is valid in them belongs to the data.\<close>

definition stats_of :: "real_t mat \<Rightarrow> data_stats \<Rightarrow> bool" where
  "stats_of data stats \<longleftrightarrow> (median_valid stats \<and> mean_valid stats \<and> sigma_valid stats \<longrightarrow>
     mean stats = elem_mean data \<and> sigma stats = sqrt (elem_variance data))"

definition clip_centre :: "real_t mat \<Rightarrow> data_stats \<Rightarrow> real" where
  "clip_centre data stats = (if median_valid stats then median stats else exact_median (elems data))"

lemma estimate_rms_value:
  assumes "nth_selector ne" and n: "0 < n_elem data" and "stats_of data stats"
    and "schedules 0 (n_elem data) sched1" and "\<And>r. schedules 0 (n_elem data) (scheds2 r)"
    and "mset idx = mset [0..<n_elem data]" and scheds: "\<And>r. schedules 0 (n_elem data) (scheds r)"
  shows "estimate_rms ne data num_sigma iters stats sched1 scheds2 idx scheds =
    clip_spec (\<lambda>j. at_lin data j - clip_centre data stats) num_sigma iters {..<n_elem data}"
proof -
  define c where "c = clip_centre data stats"
  define v where "v = (\<lambda>j. at_lin data j - c)"
  define s where "s = sqrt (elem_variance data)"
  let ?n = "real (n_elem data)"
  let ?st = "\<lparr>total_accu = DoublePair ((elem_mean data - c) * ?n) ((s * s + (elem_mean data - c) * (elem_mean data - c)) * ?n),
                   valid_n_elem = n_elem data, clip_sigma = s, prev_upper_sigma = None\<rparr>"
  have all: "kept v (n_elem data) None = {..<n_elem data}"
    by (auto simp: kept_def exceeds_def)
  have n0: "?n \<noteq> 0"
    using n by simp
  have sum: "(\<Sum>j < n_elem data. v j) = (elem_mean data - c) * ?n"
    using n by (simp add: v_def sum_subtractf elem_mean_def elem_sum_def left_diff_distrib)
  have std: "set_std v {..<n_elem data} = s"
    by (simp add: v_def s_def set_std_elems)
  have "s * s = (\<Sum>j < n_elem data. (v j - set_mean v {..<n_elem data})\<^sup>2) / ?n"
    unfolding std [symmetric] set_std_def by (simp add: sum_nonneg)
  also have "\<dots> = (\<Sum>j < n_elem data. v j * v j) / ?n - (elem_mean data - c) * (elem_mean data - c)"
  proof -
    have "{..<n_elem data} \<noteq> {}"
      using n by auto
    from set_std_moments [OF finite_lessThan this, of v] sum n0 show ?thesis by simp
  qed
  finally have sq: "(\<Sum>j < n_elem data. v j * v j) = (s * s + (elem_mean data - c) * (elem_mean data - c)) * ?n"
    using n0 by (simp add: field_simps)
  have "clip_inv v (n_elem data) ?st"
    using n by (auto simp: clip_inv_def all sum sq std)
  then have clip: "sigma_clip v num_sigma scheds iters 0 ?st = clip_spec v num_sigma iters {..<n_elem data}"
    using sigma_clip_spec [where st = ?st and n = "n_elem data", OF scheds] by (simp add: all)
  have "estimate_rms ne data num_sigma iters stats sched1 scheds2 idx scheds = sigma_clip v num_sigma scheds iters 0 ?st"
    using assms(3) binmedian_value [OF assms(1,2,4,5,6)] mean_and_stddev_value [OF assms(4) n]
    by (auto simp: estimate_rms_def Let_def stats_of_def c_def clip_centre_def v_def s_def stats_defs)
  then show ?thesis
    by (simp only: clip) (simp only: v_def c_def)
qed



end
