(* ===== verification/Float_Bits.thy ===== *)
theory Float_Bits
  imports "HOL-Library.Word" Complex_Main
begin

unbundle bit_operations_syntax

text \<open>
  The comparison of doubles through their bits, the union \<^verbatim>\<open>FloatTwiddler\<close> of
  \<^verbatim>\<open>src/src/stp/sourcefind/sourcefind.h\<close> as \<^verbatim>\<open>estimate_rms\<close> uses it: the sign
  bit is masked and the rest is compared as a signed 64-bit integer.
\<close>

section \<open>Binary64\<close>

text \<open>
  The magnitude of a double, in units of the smallest positive one: exponent field \<open>e\<close> and fraction
  field \<open>f\<close>; the fields of a subnormal number have \<open>e = 0\<close>.
\<close>

definition magnitude :: "nat \<Rightarrow> nat" where
  "magnitude n =
     (let e = n div 2 ^ 52; f = n mod 2 ^ 52
      in if e = 0 then f else (2 ^ 52 + f) * 2 ^ (e - 1))"

definition float_sign :: "64 word \<Rightarrow> bool" where
  "float_sign w = bit w 63"

definition float_value :: "64 word \<Rightarrow> real" where
  "float_value w =
     (if float_sign w then - 1 else 1) * (real (magnitude (unat (w AND mask 63))) / 2 ^ 1074)"

text \<open>\<^verbatim>\<open>(val.i & 0x7FFFFFFFFFFFFFFF) > upper.i\<close>\<close>

definition twiddler_exceeds :: "64 word \<Rightarrow> 64 word \<Rightarrow> bool" where
  "twiddler_exceeds val upper = (sint upper < sint (val AND 0x7FFFFFFFFFFFFFFF))"

section \<open>Magnitudes are ordered as the bits\<close>

lemma magnitude_step: "magnitude n < magnitude (Suc n)"
proof -
  define e where "e = n div 2 ^ 52"
  define f where "f = n mod 2 ^ 52"
  have f: "f < 2 ^ 52"
    by (simp add: f_def)
  show ?thesis
  proof (cases "f + 1 < 2 ^ 52")
    case True
    then have "Suc n div 2 ^ 52 = e" "Suc n mod 2 ^ 52 = f + 1"
      by (simp_all add: e_def f_def div_Suc mod_Suc)
    then show ?thesis
      unfolding magnitude_def Let_def e_def [symmetric] f_def [symmetric] by simp
  next
    case False
    then have f': "f + 1 = 2 ^ 52"
      using f by simp
    then have "Suc n div 2 ^ 52 = e + 1" "Suc n mod 2 ^ 52 = 0"
      by (simp_all add: e_def f_def div_Suc mod_Suc)
    then show ?thesis
      unfolding magnitude_def Let_def e_def [symmetric] f_def [symmetric] using f f'
      by (cases e) simp_all
  qed
qed

lemma magnitude_less: "magnitude m < magnitude n \<longleftrightarrow> m < n"
  using lift_Suc_mono_less_iff [of magnitude, OF magnitude_step] .

lemma mask_63: "(0x7FFFFFFFFFFFFFFF :: 64 word) = mask 63"
  by (simp add: mask_eq_exp_minus_1)

lemma sint_small:
  fixes w :: "64 word"
  assumes "unat w < 2 ^ 63"
  shows "sint w = int (unat w)"
proof -
  have small: "int (unat w) < 2 ^ 63"
    using assms by (metis of_nat_less_iff of_nat_numeral of_nat_power)
  have "sint w = signed_take_bit 63 (int (unat w))"
    by (simp add: sint_uint)
  also have "\<dots> = int (unat w)"
    by (rule signed_take_bit_int_eq_self [OF _ small]) (rule order_trans [of _ 0], simp_all only: of_nat_0_le_iff, simp)
  finally show ?thesis .
qed

lemma masked_small:
  fixes w :: "64 word"
  shows "unat (w AND mask 63) < 2 ^ 63"
proof -
  have "unat (w AND mask 63) = take_bit 63 (unat w)"
    by (simp add: unsigned_take_bit_eq flip: take_bit_eq_mask)
  then show ?thesis
    by (simp only: take_bit_nat_less_exp)
qed

lemma positive_masked:
  fixes w :: "64 word"
  assumes "\<not> float_sign w"
  shows "w AND mask 63 = w"
proof (rule bit_word_eqI)
  fix n
  assume "n < LENGTH(64)"
  then show "bit (w AND mask 63) n = bit w n"
    using assms by (cases "n = 63") (auto simp: bit_and_iff bit_mask_iff float_sign_def)
qed

text \<open>Comparing the bits compares the numbers: for an upper bound without a sign bit the masked
  comparison of \<^verbatim>\<open>estimate_rms\<close> says whether the absolute value of the double exceeds the
  bound.\<close>

theorem twiddler_exceeds_abs:
  assumes "\<not> float_sign upper"
  shows "twiddler_exceeds val upper \<longleftrightarrow> float_value upper < \<bar>float_value val\<bar>"
proof -
  have u: "upper AND mask 63 = upper"
    by (rule positive_masked [OF assms])
  have "twiddler_exceeds val upper \<longleftrightarrow> unat upper < unat (val AND mask 63)"
    using masked_small [of upper] masked_small [of val]
    by (simp only: twiddler_exceeds_def mask_63 sint_small u of_nat_less_iff)
  also have "\<dots> \<longleftrightarrow> magnitude (unat upper) < magnitude (unat (val AND mask 63))"
    by (simp only: magnitude_less)
  also have "\<dots> \<longleftrightarrow> float_value upper < \<bar>float_value val\<bar>"
    using assms u by (simp add: float_value_def abs_mult divide_less_cancel)
  finally show ?thesis .
qed

text \<open>\<open>-3.0\<close> against the bound \<open>2.5\<close>, by their bits.\<close>

theorem twiddler_exceeds_abs_witness:
  "twiddler_exceeds 0xC008000000000000 0x4004000000000000 \<longleftrightarrow>
    float_value 0x4004000000000000 < \<bar>float_value 0xC008000000000000\<bar>"
  by (rule twiddler_exceeds_abs) (simp add: float_sign_def bit_numeral_word_iff)

end
