(* ===== verification/Stp_Types.thy ===== *)
theory Stp_Types
  imports Float_Bits
begin

text \<open>
  The enumerations and the settings of \<^verbatim>\<open>src/src/stp/types.h\<close>, and the arithmetic macros of
  \<^verbatim>\<open>src/src/stp/global_macros.h\<close>. \<^verbatim>\<open>uint\<close> members that only ever hold sizes are
  natural numbers.
\<close>

section \<open>Enumerations\<close>

datatype kernel_function = TopHat | Triangle | Sinc | Gaussian | GaussianSinc | PSWF

datatype fft_routine = FFTW_ESTIMATE_FFT | FFTW_MEASURE_FFT | FFTW_PATIENT_FFT | FFTW_WISDOM_FFT | FFTW_WISDOM_INPLACE_FFT

datatype interp_type = LINEAR | CUBIC | COSINE

datatype median_method = ZEROMEDIAN | BINMEDIAN | BINAPPROX | NTHELEMENT

datatype ceres_diff_method = AutoDiff | AutoDiff_SingleResBlk | AnalyticDiff | AnalyticDiff_SingleResBlk

datatype ceres_solver_type = LinearSearch_BFGS | LinearSearch_LBFGS | TrustRegion_DenseQR

definition fptolerance :: real where
  "fptolerance = 1 / 10 ^ 10"

section \<open>Settings\<close>

record imager_pars =
  image_size :: nat
  padded_image_size :: nat
  cell_size :: real
  padding_factor :: real
  kernel_func :: kernel_function
  kernel_support :: nat
  kernel_exact :: bool
  oversampling :: nat
  generate_beam :: bool
  gridding_correction :: bool
  analytic_gcf :: bool
  r_fft :: fft_routine
  fft_wisdom_filename :: string

definition default_imager_pars :: imager_pars where
  "default_imager_pars = \<lparr>image_size = 0, padded_image_size = 0, cell_size = 0, padding_factor = 1,
     kernel_func = PSWF, kernel_support = 0, kernel_exact = True, oversampling = 0, generate_beam = False,
     gridding_correction = False, analytic_gcf = False, r_fft = FFTW_ESTIMATE_FFT, fft_wisdom_filename = ''''\<rparr>"

text \<open>The padded size is the product, truncated to an integer.\<close>

definition make_imager_pars ::
  "nat \<Rightarrow> real \<Rightarrow> real \<Rightarrow> kernel_function \<Rightarrow> nat \<Rightarrow> bool \<Rightarrow> nat \<Rightarrow> bool \<Rightarrow> bool \<Rightarrow> bool \<Rightarrow> fft_routine \<Rightarrow> string \<Rightarrow> imager_pars"
where
  "make_imager_pars im_size cell padding kf support exact ovs beam correction analytic fft wisdom =
     \<lparr>image_size = im_size, padded_image_size = nat \<lfloor>real im_size * padding\<rfloor>, cell_size = cell, padding_factor = padding,
      kernel_func = kf, kernel_support = support, kernel_exact = exact, oversampling = ovs, generate_beam = beam,
      gridding_correction = correction, analytic_gcf = analytic, r_fft = fft, fft_wisdom_filename = wisdom\<rparr>"

record w_projection_pars =
  num_wplanes :: nat
  max_wpconv_support :: nat
  undersampling_opt :: nat
  kernel_trunc_perc :: real
  hankel_opt :: bool
  hankel_proj_slice :: bool
  w_interp_type :: interp_type
  wplanes_median :: bool

definition default_w_proj :: w_projection_pars where
  "default_w_proj = \<lparr>num_wplanes = 0, max_wpconv_support = 0, undersampling_opt = 1, kernel_trunc_perc = 0,
     hankel_opt = False, hankel_proj_slice = False, w_interp_type = LINEAR, wplanes_median = False\<rparr>"

definition w_enabled :: "w_projection_pars \<Rightarrow> bool" where
  "w_enabled p = (if num_wplanes p > 0 then True else False)"

record a_projection_pars =
  num_timesteps :: nat
  obs_dec :: real
  obs_ra :: real
  aproj_opt :: bool
  aproj_mask_perc :: real
  lha :: "real list"
  pbeam_coefs :: "real list"

definition default_a_proj :: a_projection_pars where
  "default_a_proj = \<lparr>num_timesteps = 0, obs_dec = 0, obs_ra = 0, aproj_opt = False, aproj_mask_perc = 0,
     lha = [], pbeam_coefs = []\<rparr>"

definition a_enabled :: "a_projection_pars \<Rightarrow> bool" where
  "a_enabled p = (if num_timesteps p > 0 then True else False)"

section \<open>Macros\<close>

definition ispowerof2 :: "32 word \<Rightarrow> bool" where
  "ispowerof2 X = (X \<noteq> 0 \<and> \<not> (X AND (X - 1)) \<noteq> 0)"

definition deg2rad :: "real \<Rightarrow> real" where
  "deg2rad X = (X * pi) / 180"

definition rad2deg :: "real \<Rightarrow> real" where
  "rad2deg X = (X * 180) / pi"

lemma and_pred_top_bit:
  fixes n :: nat
  assumes "2 ^ k < n" and "n < 2 ^ Suc k"
  shows "n AND (n - 1) \<noteq> 0"
proof -
  have "n div 2 ^ k = 1" "(n - 1) div 2 ^ k = 1"
    using assms by (auto simp: div_nat_eqI)
  then have "bit n k" "bit (n - 1) k"
    by (simp_all add: bit_iff_odd)
  then have "bit (n AND (n - 1)) k"
    by (simp add: bit_and_iff)
  then show ?thesis
    by (metis bit_0_eq bot_apply bot_bool_def)
qed

lemma and_pred_power: "(2 ^ k :: nat) AND (2 ^ k - 1) = 0"
proof (rule bit_eqI)
  fix n
  have "bit (2 ^ k - 1 :: nat) n \<longleftrightarrow> n < k"
    using bit_mask_iff [where 'a = nat, of k n] by (simp add: mask_eq_exp_minus_1)
  then show "bit ((2 ^ k :: nat) AND (2 ^ k - 1)) n = bit 0 n"
    by (auto simp only: bit_and_iff bit_exp_iff) simp_all
qed

text \<open>The macro ispowerof2, with its wrap-around at zero, holds of exactly the powers of two.\<close>

theorem ispowerof2_correct: "ispowerof2 X \<longleftrightarrow> (\<exists>k. unat X = 2 ^ k)"
proof (cases "X = 0")
  case True
  then show ?thesis by (simp add: ispowerof2_def)
next
  case False
  then have pos: "0 < unat X"
    by (simp add: unat_gt_0)
  have "ispowerof2 X \<longleftrightarrow> unat X AND (unat X - 1) = 0"
  proof -
    have "unat (X AND (X - 1)) = unat X AND (unat X - 1)"
      using False by (simp add: unsigned_and_eq unat_minus_one)
    then show ?thesis
      using False by (metis ispowerof2_def unat_eq_zero)
  qed
  also have "\<dots> \<longleftrightarrow> (\<exists>k. unat X = 2 ^ k)"
  proof
    assume zero: "unat X AND (unat X - 1) = 0"
    obtain k where k: "2 ^ k \<le> unat X" "unat X < 2 ^ Suc k"
      using ex_power_ivl1 [of 2 "unat X"] pos by auto
    then show "\<exists>k. unat X = 2 ^ k"
      using and_pred_top_bit [of k "unat X"] zero by (metis nat_less_le)
  next
    assume "\<exists>k. unat X = 2 ^ k"
    then show "unat X AND (unat X - 1) = 0"
      using and_pred_power by force
  qed
  finally show ?thesis .
qed

end
