(* ===== verification/Source_Find.thy ===== *)
theory Source_Find
  imports Detection_Correct Estimate_Rms Stp_Types
begin

text \<open>
  The class \<^verbatim>\<open>SourceFindImage\<close> of \<^verbatim>\<open>src/src/stp/sourcefind/sourcefind.cpp\<close>: its
  constructor, which puts statistics, noise estimate, detection and fitting together, and the islands it
  returns. A moments fit of which a parameter would be infinite or NaN in the code is None here; the model does
  not say which parameter it is. The solver is a parameter.
\<close>

section \<open>Islands\<close>

record island_params =
  label_idx :: int
  extremum_val :: real
  extremum_y_idx :: int
  extremum_x_idx :: int
  island_sign :: int
  num_samples :: nat
  island_box :: bounding_box
  moments_fit :: "gaussian2d_params option"
  leastsq_fit :: "gaussian2d_params option"
  ceres_report :: string

definition make_island :: "int \<Rightarrow> real \<Rightarrow> int \<Rightarrow> int \<Rightarrow> nat \<Rightarrow> bounding_box \<Rightarrow> island_params" where
  "make_island label l_extremum l_extremum_coord_y l_extremum_coord_x l_num_samples box =
     \<lparr>label_idx = label, extremum_val = l_extremum, extremum_y_idx = l_extremum_coord_y,
      extremum_x_idx = l_extremum_coord_x, island_sign = (if label < 0 then - 1 else 1),
      num_samples = l_num_samples, island_box = box, moments_fit = Some no_params, leastsq_fit = Some no_params,
      ceres_report = ''''\<rparr>"

text \<open>\<^verbatim>\<open>atan(a / b)\<close>, with the quotient infinite or not a number for a zero divisor.\<close>

definition atan_quotient :: "real \<Rightarrow> real \<Rightarrow> real option" where
  "atan_quotient a b =
     (if b \<noteq> 0 then Some (arctan (a / b))
      else if a > 0 then Some (pi / 2) else if a < 0 then Some (- (pi / 2)) else None)"

definition moments_gaussian ::
  "int \<Rightarrow> real \<Rightarrow> real \<Rightarrow> real \<Rightarrow> real \<Rightarrow> real \<Rightarrow> real \<Rightarrow> real \<Rightarrow> real \<Rightarrow> gaussian2d_params option"
where
  "moments_gaussian sgn_val ext x_bar y_bar xx_bar yy_bar xy_bar rms_est analysis_n_sigma =
     (let working1 = (xx_bar + yy_bar) / 2;
          working2 = sqrt ((xx_bar - yy_bar) * (xx_bar - yy_bar) / 4 + xy_bar * xy_bar);
          trunc_semimajor_sq = working1 + working2;
          trunc_semiminor_sq = working1 - working2;
          pixel_threshold = analysis_n_sigma * rms_est;
          cutoff_ratio = of_int sgn_val * ext / pixel_threshold;
          axes_scale_factor = 1 - ln cutoff_ratio / (cutoff_ratio - 1)
      in if pixel_threshold = 0 \<or> cutoff_ratio \<le> 0 \<or> cutoff_ratio = 1 \<or> axes_scale_factor = 0 \<or>
            trunc_semimajor_sq / axes_scale_factor < 0 \<or> trunc_semiminor_sq / axes_scale_factor < 0
         then None
         else
           (case atan_quotient (2 * xy_bar) (xx_bar - yy_bar) of
              None \<Rightarrow> None
            | Some t \<Rightarrow>
                let semimajor_est = sqrt (trunc_semimajor_sq / axes_scale_factor);
                    semiminor_est = sqrt (trunc_semiminor_sq / axes_scale_factor);
                    theta_est = 1 / 2 * t;
                    theta_est = (if theta_est * xy_bar < 0 then theta_est + pi / 2 else theta_est)
                in Some (convert_to_constrained_parameters
                     \<lparr>amplitude = ext, x_centre = x_bar, y_centre = y_bar, semimajor = semimajor_est,
                      semiminor = semiminor_est, theta = theta_est\<rparr>)))"

definition estimate_moments_fit :: "real list \<Rightarrow> real \<Rightarrow> real \<Rightarrow> island_params \<Rightarrow> island_params" where
  "estimate_moments_fit m rms_est analysis_n_sigma island =
     island\<lparr>moments_fit := moments_gaussian (island_sign island) (extremum_val island) (m ! 0) (m ! 1) (m ! 2) (m ! 3) (m ! 4)
       rms_est analysis_n_sigma\<rparr>"

section \<open>Fitting\<close>

text \<open>A residual block: for automatic differentiation the residuals, else with the analytic Jacobian.\<close>

datatype cost_block =
  Auto_block "gaussian2d_params \<Rightarrow> real list"
| Analytic_block "gaussian2d_params \<Rightarrow> jacobians \<Rightarrow> real list \<times> real list"

definition build_problem ::
  "bool \<Rightarrow> real_t mat \<Rightarrow> int mat \<Rightarrow> ceres_diff_method \<Rightarrow> island_params \<Rightarrow> cost_block list"
where
  "build_problem fs data lmat diffmethod island =
     (case diffmethod of
        AutoDiff \<Rightarrow>
          map (\<lambda>(i, j). Auto_block (\<lambda>g. [gaussian_residual (pixel_value fs data (i, j)) (real i) (real j) g]))
            (filter (has_label fs lmat (label_idx island)) (box_loop (island_box island)))
      | AutoDiff_SingleResBlk \<Rightarrow>
          [Auto_block (gaussian_all_residuals fs data lmat (island_box island) (label_idx island))]
      | AnalyticDiff \<Rightarrow>
          map (\<lambda>(i, j). Analytic_block (\<lambda>g jac.
              let (r, J) = gaussian_analytic (pixel_value fs data (i, j)) (real i) (real j) g jac in ([r], J)))
            (filter (has_label fs lmat (label_idx island)) (box_loop (island_box island)))
      | AnalyticDiff_SingleResBlk \<Rightarrow>
          [Analytic_block (gaussian_analytic_all_residuals fs data lmat (island_box island) (label_idx island))])"

type_synonym ceres_solver =
  "ceres_solver_type \<Rightarrow> cost_block list \<Rightarrow> gaussian2d_params option \<Rightarrow> gaussian2d_params option \<times> string"

definition leastsq_fit_gaussian_2d ::
  "bool \<Rightarrow> ceres_solver \<Rightarrow> real_t mat \<Rightarrow> int mat \<Rightarrow> ceres_diff_method \<Rightarrow> ceres_solver_type \<Rightarrow> island_params \<Rightarrow> island_params"
where
  "leastsq_fit_gaussian_2d fs solve data lmat diffmethod solvertype island =
     (if num_samples island < 3 then
        island\<lparr>leastsq_fit := Some (no_params\<lparr>amplitude := extremum_val island\<rparr>),
            ceres_report := ''ceres::Solve not called for too small source (1 or 2 pixels).''\<rparr>
      else
        let initial = map_option (\<lambda>g. g\<lparr>semimajor := (if semimajor g > 0 then semimajor g else 1),
                                        semiminor := (if semiminor g > 0 then semiminor g else 1)\<rparr>) (moments_fit island);
            (result, report) = solve solvertype (build_problem fs data lmat diffmethod island) initial
        in island\<lparr>leastsq_fit := map_option convert_to_constrained_parameters result, ceres_report := report\<rparr>)"

text \<open>Comparison of islands, with a tolerance for the extremum.\<close>

definition island_eq :: "island_params \<Rightarrow> island_params \<Rightarrow> bool" where
  "island_eq a b =
     (if island_sign a \<noteq> island_sign b then False
      else if extremum_x_idx a \<noteq> extremum_x_idx b then False
      else if extremum_y_idx a \<noteq> extremum_y_idx b then False
      else if \<bar>extremum_val a - extremum_val b\<bar> > fptolerance then False
      else True)"

section \<open>The constructor\<close>

text \<open>The schedules of the parallel loops: of the statistics, of their rounds of binning, the order of the selected
  elements, of the rounds of clipping, of the labelling, and of the two loops of the detection.\<close>

record sf_schedules =
  sf_stats :: schedule
  sf_bins :: "nat \<Rightarrow> schedule"
  sf_select :: "nat list"
  sf_clip :: "nat \<Rightarrow> schedule"
  sf_slices :: "range list"
  sf_labels :: schedule
  sf_islands :: schedule

definition background_stats ::
  "(nat \<Rightarrow> real_t list \<Rightarrow> real_t list) \<Rightarrow> real_t mat \<Rightarrow> median_method \<Rightarrow> sf_schedules \<Rightarrow> data_stats option"
where
  "background_stats ne data method scheds =
     (case method of
        ZEROMEDIAN \<Rightarrow> Some (no_stats\<lparr>median := 0, median_valid := True\<rparr>)
      | BINAPPROX \<Rightarrow> mat_median_binapprox ne data (sf_stats scheds) (sf_bins scheds 0)
      | BINMEDIAN \<Rightarrow> mat_binmedian ne data (sf_stats scheds) (sf_bins scheds) (sf_select scheds)
      | NTHELEMENT \<Rightarrow> Some (no_stats\<lparr>median := mat_median_exact ne data, median_valid := True\<rparr>))"

text \<open>The islands of one sign, in the order of their labels.\<close>

definition process_islands ::
  "bool \<Rightarrow> real_t mat \<Rightarrow> detection \<Rightarrow> real \<Rightarrow> real \<Rightarrow> nat \<Rightarrow> sign \<Rightarrow> island_params list"
where
  "process_islands fs data det rms_est analysis_n_sigma source_min_area s =
     fold (\<lambda>l islands.
       if extrema_ids det s l \<noteq> 0 then
         let idx = extrema_linear_idx det s l;
             y_idx = shift_coord fs (n_rows data) (idx mod n_rows data);
             x_idx = shift_coord fs (n_cols data) (idx div n_rows data)
         in if extrema_numsamples det s l \<ge> source_min_area then
              islands @ [estimate_moments_fit (extrema_moments det s l) rms_est analysis_n_sigma
                (make_island (extrema_ids det s l) (extrema_val det s l) (int y_idx) (int x_idx)
                   (extrema_numsamples det s l) (extrema_boundingbox det s l))]
            else islands
       else islands)
     [0..<num_l det s] []"

record source_find_image =
  sf_detection :: detection
  sf_rms_est :: real
  sf_bg_level :: real
  sf_island_list :: "island_params list"

definition source_find_image ::
  "bool \<Rightarrow> (nat \<Rightarrow> real_t list \<Rightarrow> real_t list) \<Rightarrow> ceres_solver \<Rightarrow> sf_schedules \<Rightarrow> real_t mat \<Rightarrow> real \<Rightarrow> real \<Rightarrow> real \<Rightarrow>
   bool \<Rightarrow> nat \<Rightarrow> median_method \<Rightarrow> bool \<Rightarrow> bool \<Rightarrow> bool \<Rightarrow> nat \<Rightarrow> ceres_diff_method \<Rightarrow> ceres_solver_type \<Rightarrow>
   source_find_image option"
where
  "source_find_image fs ne solve scheds data detection_n_sigma analysis_n_sigma input_rms_est find_negative_sources
     sigma_clip_iters method gaussian_fitting ccl_4connectivity generate_labelmap source_min_area diffmethod solvertype =
     (case background_stats ne data method scheds of
        None \<Rightarrow> None
      | Some stats \<Rightarrow>
          let bg_level = median stats
          in case (if \<bar>input_rms_est\<bar> > 0 then Some input_rms_est
                   else estimate_rms ne data 3 sigma_clip_iters stats (sf_stats scheds) (sf_bins scheds)
                     (sf_select scheds) (sf_clip scheds)) of
               None \<Rightarrow> None
             | Some rms_est \<Rightarrow>
                 let (det, numValidLabels) = label_detection_islands fs generate_labelmap data find_negative_sources
                       gaussian_fitting ccl_4connectivity bg_level detection_n_sigma analysis_n_sigma rms_est
                       (sf_slices scheds) (sf_labels scheds) (sf_islands scheds);
                     islands = process_islands fs data det rms_est analysis_n_sigma source_min_area Pos @
                       process_islands fs data det rms_est analysis_n_sigma source_min_area Neg;
                     lmat = \<lparr>n_rows = n_rows data, n_cols = n_cols data, elt = label_map det\<rparr>;
                     islands = (if gaussian_fitting then
                       map (leastsq_fit_gaussian_2d fs solve data lmat diffmethod solvertype) islands else islands)
                 in Some \<lparr>sf_detection = det, sf_rms_est = rms_est, sf_bg_level = bg_level, sf_island_list = islands\<rparr>)"

section \<open>Residuals of an island\<close>

definition block_residuals :: "gaussian2d_params \<Rightarrow> jacobians \<Rightarrow> cost_block \<Rightarrow> real list" where
  "block_residuals g jac b = (case b of Auto_block f \<Rightarrow> f g | Analytic_block f \<Rightarrow> fst (f g jac))"

text \<open>The residuals that the fit of an island minimises: one for each pixel of its label in its box.\<close>

lemma problem_residuals:
  "concat (map (block_residuals g jac) (build_problem fs data lmat diffmethod island)) =
    map (\<lambda>p. pixel_residual p) (island_pixels fs lmat (label_idx island) (island_box island))"
  if "pixel_residual = (\<lambda>(i, j). gaussian_residual (pixel_value fs data (i, j)) (real i) (real j) g)"
proof -
  have fst: "fst (gaussian_analytic d x y g jac) = gaussian_residual d x y g" for d x y
    by (cases jac) (simp_all add: gaussian_analytic_def gaussian_residual_def Let_def mult.assoc)
  show ?thesis
  proof (cases diffmethod)
    case AutoDiff
    then show ?thesis
      by (simp add: build_problem_def that island_pixels_def block_residuals_def comp_def split_beta)
  next
    case AnalyticDiff
    then show ?thesis
      by (simp add: build_problem_def that island_pixels_def block_residuals_def comp_def split_beta fst)
  qed (simp_all add: build_problem_def that block_residuals_def all_residuals_pixels analytic_all_residuals_pixels)
qed

lemma shift_coord_inverse: "fs \<or> even n \<Longrightarrow> i < n \<Longrightarrow> shift_coord fs n (shift_coord fs n i) = i"
  by (auto simp: shift_coord_def elim!: evenE)

lemma shift_coord_less: "fs \<or> even n \<Longrightarrow> i < n \<Longrightarrow> shift_coord fs n i < n"
  by (auto simp: shift_coord_def elim!: evenE)

lemma box_loop_distinct: "distinct (box_loop box)"
  unfolding box_loop_def by (simp add: distinct_product flip: product_concat_map)

lemma box_loop_set: "set (box_loop box) =
    {(i, j). nat (box_left box) \<le> i \<and> i < nat (box_right box + 1) \<and> nat (box_top box) \<le> j \<and> j < nat (box_bottom box + 1)}"
  by (auto simp: box_loop_def)

lemma clean_label_eq:
  assumes "ids s l \<noteq> 0"
  shows "clean_label gen ids v = to_label s (Suc l) \<longleftrightarrow> v = to_label s (Suc l)"
proof -
  have "clean_label gen ids (to_label s (Suc l)) = to_label s (Suc l)"
  proof -
    have "(if to_label s (Suc l) > 0 then Pos else Neg) = s"
      by (cases s) (simp_all add: to_label_def)
    then show ?thesis
      unfolding clean_label_def Let_def to_node_label using assms to_label_nonzero [of s l] by simp
  qed
  moreover have "clean_label gen ids v = v \<or> clean_label gen ids v = 0"
    by (auto simp: clean_label_def Let_def)
  ultimately show ?thesis
    using to_label_nonzero [of s l] by metis
qed

text \<open>The pixels of a bounding box of pixels of the image are pixels of the image.\<close>

lemma box_of_bounds:
  assumes "finite Q" and "Q \<noteq> {}" and "\<And>i j. (i, j) \<in> Q \<Longrightarrow> shift_coord fs (n_cols data) i < n_cols data \<and> shift_coord fs (n_rows data) j < n_rows data"
  shows "(i, j) \<in> Q \<Longrightarrow> (shift_coord fs (n_cols data) i, shift_coord fs (n_rows data) j) \<in> set (box_loop (box_of fs data Q))"
    and "(i, j) \<in> set (box_loop (box_of fs data Q)) \<Longrightarrow> i < n_cols data \<and> j < n_rows data"
proof -
  let ?xs = "(\<lambda>p. int (shift_coord fs (n_cols data) (fst p))) ` Q"
  let ?ys = "(\<lambda>p. int (shift_coord fs (n_rows data) (snd p))) ` Q"
  let ?b = "box_of fs data Q"
  have fin: "finite ?xs" "finite ?ys"
    using assms(1) by simp_all
  have b: "box_left ?b = Min (insert (int (n_cols data)) ?xs)" "box_right ?b = Max (insert (- 1) ?xs)"
    "box_top ?b = Min (insert (int (n_rows data)) ?ys)" "box_bottom ?b = Max (insert (- 1) ?ys)"
    by (simp_all only: box_of_def Let_def bounding_box.select_convs)
  have right: "box_right ?b < int (n_cols data)" "box_bottom ?b < int (n_rows data)"
    unfolding b using fin assms(3) by (auto simp del: Max_insert simp: Max_less_iff)
  show "(i, j) \<in> set (box_loop ?b) \<Longrightarrow> i < n_cols data \<and> j < n_rows data"
    using right by (auto simp: box_loop_set)
  assume ij: "(i, j) \<in> Q"
  have mem: "int (shift_coord fs (n_cols data) i) \<in> ?xs" "int (shift_coord fs (n_rows data) j) \<in> ?ys"
    using imageI [OF ij, of "\<lambda>p. int (shift_coord fs (n_cols data) (fst p))"]
      imageI [OF ij, of "\<lambda>p. int (shift_coord fs (n_rows data) (snd p))"] by simp_all
  have "box_left ?b \<le> int (shift_coord fs (n_cols data) i)" "box_top ?b \<le> int (shift_coord fs (n_rows data) j)"
    unfolding b by (rule Min_le, use fin mem in simp, use mem in blast)+
  moreover have "int (shift_coord fs (n_cols data) i) \<le> box_right ?b" "int (shift_coord fs (n_rows data) j) \<le> box_bottom ?b"
    unfolding b by (rule Max_ge, use fin mem in simp, use mem in blast)+
  ultimately show "(shift_coord fs (n_cols data) i, shift_coord fs (n_rows data) j) \<in> set (box_loop ?b)"
    by (auto simp: box_loop_set)
qed

lemma component_finite: "finite (component data out s l)"
  by (rule finite_subset [of _ "{..<n_cols data} \<times> {..<n_rows data}"]) (auto simp: component_def)

text \<open>The pixels over which the fit of a detected island runs are those of its component, once each.\<close>

lemma island_pixels_component:
  assumes ok: "labelling_ok con4 (detection_scene fs data neg bg n_ana rms) slices"
    and "schedules 0 (n_elem data) sched1" and "schedules 0 (n_cols data) sched2"
    and "out = labelled con4 (detection_scene fs data neg bg n_ana rms) slices"
    and "(det, num) = label_detection_islands fs gen data neg True con4 bg n_det n_ana rms slices sched1 sched2"
    and id: "extrema_ids det s l \<noteq> 0"
  defines "lmat \<equiv> \<lparr>n_rows = n_rows data, n_cols = n_cols data, elt = label_map det\<rparr>"
  shows "set (island_pixels fs lmat (extrema_ids det s l) (extrema_boundingbox det s l)) =
    (\<lambda>(i, j). (shift_coord fs (n_cols data) i, shift_coord fs (n_rows data) j)) ` component data out s l"
proof -
  note facts = detection_facts [OF ok assms(2-5)]
  have even: "even (n_cols data)" "even (n_rows data)"
    using ok by (simp_all add: labelling_ok_def scene_ok_def detection_thr_scene)
  let ?C = "component data out s l" and ?sx = "shift_coord fs (n_cols data)" and ?sy = "shift_coord fs (n_rows data)"
  have C: "?sx i < n_cols data \<and> ?sy j < n_rows data" if "(i, j) \<in> ?C" for i j
    using that even by (simp add: component_def shift_coord_less)
  have ne: "?C \<noteq> {}"
    using facts(1) [of s l] id by blast
  have box: "extrema_boundingbox det s l = box_of fs data ?C"
    using facts(6) [OF id] by simp
  note bounds = box_of_bounds [OF component_finite ne C]
  have label: "has_label fs lmat (extrema_ids det s l) (i, j) \<longleftrightarrow> (?sx i, ?sy j) \<in> ?C"
    if "i < n_cols data" "j < n_rows data" for i j
  proof -
    have "label_map det (?sy j) (?sx i) = extrema_ids det s l \<longleftrightarrow> final_label out (?sy j) (?sx i) = to_label s (Suc l)"
      using facts(7) [of "?sy j" "?sx i"] facts(3) [of s l] clean_label_eq [of "extrema_ids det" s l gen, OF id] id that even
      by (simp add: shift_coord_less)
    then show ?thesis
      using that even by (simp add: has_label_def lmat_def component_def shift_coord_less)
  qed
  show ?thesis
  proof (rule set_eqI, clarify)
    fix i j
    show "(i, j) \<in> set (island_pixels fs lmat (extrema_ids det s l) (extrema_boundingbox det s l)) \<longleftrightarrow>
        (i, j) \<in> (\<lambda>(i, j). (?sx i, ?sy j)) ` ?C"
    proof
      assume "(i, j) \<in> set (island_pixels fs lmat (extrema_ids det s l) (extrema_boundingbox det s l))"
      then have "(i, j) \<in> set (box_loop (box_of fs data ?C))" "has_label fs lmat (extrema_ids det s l) (i, j)"
        by (auto simp: island_pixels_def box)
      with bounds(2) label have "(?sx i, ?sy j) \<in> ?C" "i < n_cols data" "j < n_rows data"
        by blast+
      then show "(i, j) \<in> (\<lambda>(i, j). (?sx i, ?sy j)) ` ?C"
        using even by (intro image_eqI [of _ _ "(?sx i, ?sy j)"]) (simp_all add: shift_coord_inverse)
    next
      assume "(i, j) \<in> (\<lambda>(i, j). (?sx i, ?sy j)) ` ?C"
      then obtain a b where ab: "(a, b) \<in> ?C" "i = ?sx a" "j = ?sy b"
        by auto
      then have "a < n_cols data" "b < n_rows data"
        by (auto simp: component_def)
      then have "?sx i = a" "?sy j = b"
        using ab(2,3) even by (simp_all add: shift_coord_inverse)
      with ab C [OF ab(1)] bounds(1) [of a b] label [of i j]
      show "(i, j) \<in> set (island_pixels fs lmat (extrema_ids det s l) (extrema_boundingbox det s l))"
        by (simp add: island_pixels_def box)
    qed
  qed
qed

text \<open>The fit of a detected island, with each of the four differentiation methods, minimises exactly
  the residuals of the pixels of its component, one per pixel, and so as many as the number of residuals that is
  declared to the solver.\<close>

theorem fit_residuals:
  assumes "labelling_ok con4 (detection_scene fs data neg bg n_ana rms) slices"
    and "schedules 0 (n_elem data) sched1" and "schedules 0 (n_cols data) sched2"
    and "out = labelled con4 (detection_scene fs data neg bg n_ana rms) slices"
    and "(det, num) = label_detection_islands fs gen data neg True con4 bg n_det n_ana rms slices sched1 sched2"
    and "extrema_ids det s l \<noteq> 0"
    and "label_idx island = extrema_ids det s l" and "island_box island = extrema_boundingbox det s l"
    and "lmat = \<lparr>n_rows = n_rows data, n_cols = n_cols data, elt = label_map det\<rparr>"
    and "residuals = concat (map (block_residuals g jac) (build_problem fs data lmat diffmethod island))"
  shows "mset residuals = image_mset (\<lambda>(i, j). gaussian_residual (elt data j i)
      (real (shift_coord fs (n_cols data) i)) (real (shift_coord fs (n_rows data) j)) g) (mset_set (component data out s l)) \<and>
    length residuals = extrema_numsamples det s l"
proof -
  let ?C = "component data out s l" and ?sx = "shift_coord fs (n_cols data)" and ?sy = "shift_coord fs (n_rows data)"
  let ?shift = "\<lambda>(i, j). (?sx i, ?sy j)"
  let ?f = "\<lambda>(i, j). gaussian_residual (pixel_value fs data (i, j)) (real i) (real j) g"
  let ?pixels = "island_pixels fs lmat (label_idx island) (island_box island)"
  have even: "even (n_cols data)" "even (n_rows data)"
    using assms(1) by (simp_all add: labelling_ok_def scene_ok_def detection_thr_scene)
  have set: "set ?pixels = ?shift ` ?C"
    unfolding assms(7-9) by (rule island_pixels_component [OF assms(1-6)])
  have "distinct ?pixels"
    by (simp add: island_pixels_def box_loop_distinct)
  then have "mset ?pixels = mset_set (?shift ` ?C)"
    by (metis mset_set_set set)
  moreover have inj: "inj_on ?shift ?C"
  proof (rule inj_onI, clarify)
    fix a b c d
    assume "(a, b) \<in> ?C" "(c, d) \<in> ?C" and eq: "?sx a = ?sx c" "?sy b = ?sy d"
    then have "a < n_cols data" "c < n_cols data" "b < n_rows data" "d < n_rows data"
      by (auto simp: component_def)
    with eq even show "a = c \<and> b = d"
      by (metis shift_coord_inverse)
  qed
  ultimately have "mset ?pixels = image_mset ?shift (mset_set ?C)"
    by (simp add: image_mset_mset_set)
  moreover have "residuals = map ?f ?pixels"
    unfolding assms(10) by (rule problem_residuals [OF refl])
  ultimately have "mset residuals = image_mset (?f \<circ> ?shift) (mset_set ?C)"
    by (simp add: multiset.map_comp)
  also have "\<dots> = image_mset (\<lambda>(i, j). gaussian_residual (elt data j i) (real (?sx i)) (real (?sy j)) g) (mset_set ?C)"
    using even component_finite
    by (intro image_mset_cong) (auto simp: pixel_value_def component_def shift_coord_inverse)
  finally have res: "mset residuals = image_mset (\<lambda>(i, j). gaussian_residual (elt data j i) (real (?sx i)) (real (?sy j)) g) (mset_set ?C)" .
  have "length residuals = card ?C"
    using arg_cong [OF res, of size] by (simp only: size_mset size_image_mset size_mset_set)
  with res detection_facts(4) [OF assms(1-6)] show ?thesis by simp
qed

section \<open>The list of islands\<close>

lemma fold_append_if2:
  "fold (\<lambda>x acc. if P x then (if Q x then acc @ [f x] else acc) else acc) xs acc = acc @ map f (filter (\<lambda>x. P x \<and> Q x) xs)"
  by (induction xs arbitrary: acc) simp_all

definition island_of :: "bool \<Rightarrow> real_t mat \<Rightarrow> detection \<Rightarrow> real \<Rightarrow> real \<Rightarrow> sign \<Rightarrow> nat \<Rightarrow> island_params" where
  "island_of fs data det rms_est analysis_n_sigma s l =
     estimate_moments_fit (extrema_moments det s l) rms_est analysis_n_sigma
       (make_island (extrema_ids det s l) (extrema_val det s l)
          (int (shift_coord fs (n_rows data) (extrema_linear_idx det s l mod n_rows data)))
          (int (shift_coord fs (n_cols data) (extrema_linear_idx det s l div n_rows data)))
          (extrema_numsamples det s l) (extrema_boundingbox det s l))"

lemma process_islands_eq:
  "process_islands fs data det rms n_ana min_area s =
    map (island_of fs data det rms n_ana s)
      (filter (\<lambda>l. extrema_ids det s l \<noteq> 0 \<and> extrema_numsamples det s l \<ge> min_area) [0..<num_l det s])"
  unfolding process_islands_def Let_def island_of_def [symmetric] fold_append_if2 by simp

text \<open>What the fit leaves as it is.\<close>

lemma leastsq_fit_fields:
  "label_idx (leastsq_fit_gaussian_2d fs solve data lmat dm st island) = label_idx island"
  "extremum_val (leastsq_fit_gaussian_2d fs solve data lmat dm st island) = extremum_val island"
  "extremum_x_idx (leastsq_fit_gaussian_2d fs solve data lmat dm st island) = extremum_x_idx island"
  "extremum_y_idx (leastsq_fit_gaussian_2d fs solve data lmat dm st island) = extremum_y_idx island"
  "num_samples (leastsq_fit_gaussian_2d fs solve data lmat dm st island) = num_samples island"
  by (simp_all add: leastsq_fit_gaussian_2d_def Let_def split_beta)

lemma island_of_fields:
  "label_idx (island_of fs data det rms n_ana s l) = extrema_ids det s l"
  "extremum_val (island_of fs data det rms n_ana s l) = extrema_val det s l"
  "num_samples (island_of fs data det rms n_ana s l) = extrema_numsamples det s l"
  "extremum_y_idx (island_of fs data det rms n_ana s l) =
    int (shift_coord fs (n_rows data) (extrema_linear_idx det s l mod n_rows data))"
  "extremum_x_idx (island_of fs data det rms n_ana s l) =
    int (shift_coord fs (n_cols data) (extrema_linear_idx det s l div n_rows data))"
  by (simp_all add: island_of_def estimate_moments_fit_def make_island_def)

lemma label_detection_num_l:
  assumes "(det, num) = label_detection_islands fs gen data neg fit con4 bg n_det n_ana rms slices sched1 sched2"
  shows "num_l det s = num_labels s (labelled con4 (detection_scene fs data neg bg n_ana rms) slices)"
  using assms
  by (cases s) (auto simp: label_detection_islands_def process_labels_def Let_def labelled_def detection_scene_def
      num_labels_def split: prod.splits if_splits)

text \<open>The labels that make an island: a pixel beyond the detection threshold, and enough pixels.\<close>

definition makes_island :: "real_t mat \<Rightarrow> (nat \<Rightarrow> nat \<Rightarrow> int) \<times> tree \<times> tree \<times> nat \<times> nat \<Rightarrow> (sign \<Rightarrow> real) \<Rightarrow> nat \<Rightarrow> sign \<Rightarrow> nat \<Rightarrow> bool" where
  "makes_island data out thr min_area s l \<longleftrightarrow>
     (\<exists>(i, j) \<in> component data out s l. beats s (elt data j i) (thr s)) \<and> min_area \<le> card (component data out s l)"

text \<open>An island as it is to be: the extremum of its component, at its place in the shifted image.\<close>

definition island_correct ::
  "bool \<Rightarrow> real_t mat \<Rightarrow> (nat \<Rightarrow> nat \<Rightarrow> int) \<times> tree \<times> tree \<times> nat \<times> nat \<Rightarrow> (sign \<Rightarrow> real) \<Rightarrow> nat \<Rightarrow> island_params \<Rightarrow> bool"
where
  "island_correct fs data out thr min_area island \<longleftrightarrow> (\<exists>s l i j.
     label_idx island = to_label s (Suc l) \<and> makes_island data out thr min_area s l \<and>
     num_samples island = card (component data out s l) \<and>
     (i, j) \<in> component data out s l \<and> extremum_val island = elt data j i \<and>
     extremum_x_idx island = int (shift_coord fs (n_cols data) i) \<and>
     extremum_y_idx island = int (shift_coord fs (n_rows data) j) \<and>
     (\<forall>(i', j') \<in> component data out s l. \<not> beats s (elt data j' i') (elt data j i)))"

lemma source_find_run:
  assumes "source_find_image fs ne solve scheds data n_det n_ana input_rms neg iters method fit con4 gen min_area dm st = Some img"
  obtains det num where
    "(det, num) = label_detection_islands fs gen data neg fit con4 (sf_bg_level img) n_det n_ana (sf_rms_est img)
       (sf_slices scheds) (sf_labels scheds) (sf_islands scheds)"
    and "sf_detection img = det"
    and "sf_island_list img =
      map (if fit then leastsq_fit_gaussian_2d fs solve data
             \<lparr>n_rows = n_rows data, n_cols = n_cols data, elt = label_map det\<rparr> dm st else id)
        (process_islands fs data det (sf_rms_est img) n_ana min_area Pos @
         process_islands fs data det (sf_rms_est img) n_ana min_area Neg)"
  using assms unfolding source_find_image_def Let_def
  by (auto split: option.splits prod.splits if_splits simp: split_beta prod_eq_iff) 


text \<open>A stored linear index gives back the pixel.\<close>

lemma lin_coords: "j < n_rows data \<Longrightarrow> lin data j i mod n_rows data = j" "j < n_rows data \<Longrightarrow> lin data j i div n_rows data = i"
  by (simp_all add: lin_def)

lemma island_of_correct:
  assumes "labelling_ok con4 (detection_scene fs data neg bg n_ana rms) slices"
    and "schedules 0 (n_elem data) sched1" and "schedules 0 (n_cols data) sched2"
    and "out = labelled con4 (detection_scene fs data neg bg n_ana rms) slices"
    and "(det, num) = label_detection_islands fs gen data neg fit con4 bg n_det n_ana rms slices sched1 sched2"
    and l: "extrema_ids det s l \<noteq> 0" "min_area \<le> extrema_numsamples det s l"
  shows "island_correct fs data out (threshold bg n_det rms) min_area (island_of fs data det rms' n_ana' s l)"
proof -
  note facts = detection_facts [OF assms(1-5)]
  from facts(2) [OF l(1)] obtain i j where ij: "(i, j) \<in> component data out s l"
    "extrema_linear_idx det s l = lin data j i" "extrema_val det s l = elt data j i"
    "\<forall>(i', j') \<in> component data out s l. \<not> beats s (elt data j' i') (elt data j i)"
    by auto
  then have j: "j < n_rows data"
    by (simp add: component_def)
  have makes: "makes_island data out (threshold bg n_det rms) min_area s l"
    using facts(1) [of s l] facts(4) [OF l(1)] l by (simp add: makes_island_def)
  have "extrema_ids det s l = to_label s (Suc l)"
    using facts(3) [of s l] l(1) by simp
  then show ?thesis
    unfolding island_correct_def island_of_fields
    using ij makes facts(4) [OF l(1)] by (intro exI [of _ s] exI [of _ l] exI [of _ i] exI [of _ j]) (simp add: lin_coords [OF j])
qed

text \<open>C13. The islands that the constructor returns, with their labels, in the order positive before negative and by
  label: exactly one for every component with a pixel beyond the detection threshold and with at least the
  minimal number of pixels, and each island has the extremum of its component, at its
  coordinates in the shifted image.\<close>

theorem islands_detected:
  assumes run: "source_find_image fs ne solve scheds data n_det n_ana input_rms neg iters method fit con4 gen min_area dm st = Some img"
    and scene: "scene = detection_scene fs data neg (sf_bg_level img) n_ana (sf_rms_est img)"
    and ok: "labelling_ok con4 scene (sf_slices scheds)"
    and scheds: "schedules 0 (n_elem data) (sf_labels scheds)" "schedules 0 (n_cols data) (sf_islands scheds)"
    and out: "out = labelled con4 scene (sf_slices scheds)"
    and thr: "thr = threshold (sf_bg_level img) n_det (sf_rms_est img)"
  shows "map label_idx (sf_island_list img) =
      map (\<lambda>l. to_label Pos (Suc l)) (filter (makes_island data out thr min_area Pos) [0..<num_labels Pos out]) @
      map (\<lambda>l. to_label Neg (Suc l)) (filter (makes_island data out thr min_area Neg) [0..<num_labels Neg out]) \<and>
    (\<forall>island \<in> set (sf_island_list img). island_correct fs data out thr min_area island)"
proof -
  obtain det num where det: "(det, num) = label_detection_islands fs gen data neg fit con4 (sf_bg_level img) n_det n_ana
      (sf_rms_est img) (sf_slices scheds) (sf_labels scheds) (sf_islands scheds)"
    and islands: "sf_island_list img =
      map (if fit then leastsq_fit_gaussian_2d fs solve data
             \<lparr>n_rows = n_rows data, n_cols = n_cols data, elt = label_map det\<rparr> dm st else id)
        (process_islands fs data det (sf_rms_est img) n_ana min_area Pos @
         process_islands fs data det (sf_rms_est img) n_ana min_area Neg)"
    by (rule source_find_run [OF run])
  note facts = detection_facts [OF ok [unfolded scene] scheds out [unfolded scene] det]
  have num: "num_l det s = num_labels s out" for s
    unfolding out scene by (rule label_detection_num_l [OF det])
  have filt: "extrema_ids det s l \<noteq> 0 \<and> min_area \<le> extrema_numsamples det s l \<longleftrightarrow> makes_island data out thr min_area s l" for s l
    unfolding makes_island_def thr facts(1) [of s l, symmetric] using facts(4) [of s l] by auto
  have label: "label_idx (island_of fs data det rms n_ana s l) = to_label s (Suc l)"
    if "makes_island data out thr min_area s l" for rms s l
    using that facts(3) [of s l] filt [of s l] by (simp add: island_of_fields)
  have labels: "map label_idx (process_islands fs data det rms n_ana min_area s) =
      map (\<lambda>l. to_label s (Suc l)) (filter (makes_island data out thr min_area s) [0..<num_labels s out])" for rms s
    unfolding process_islands_eq filt num using label by simp
  have correct: "island_correct fs data out thr min_area island"
    if "island \<in> set (process_islands fs data det rms n_ana min_area s)" for island rms s
    using that island_of_correct [OF ok [unfolded scene] scheds out [unfolded scene] det]
    unfolding process_islands_eq thr by auto
  have fit_correct: "island_correct fs data out thr min_area (leastsq_fit_gaussian_2d fs solve data lmat dm st island) \<longleftrightarrow>
      island_correct fs data out thr min_area island" for lmat island
    by (simp add: island_correct_def leastsq_fit_fields)
  show ?thesis
    unfolding islands using labels correct by (auto simp: comp_def leastsq_fit_fields fit_correct)
qed

section \<open>A run\<close>

definition demo_scheds :: sf_schedules where
  "demo_scheds = \<lparr>sf_stats = [], sf_bins = (\<lambda>r. []), sf_select = [], sf_clip = (\<lambda>r. []), sf_slices = [(1, 2), (0, 1)],
     sf_labels = [[(4, 8)], [(0, 4)]], sf_islands = [[(1, 2)], [(0, 1)]]\<rparr>"

lemma demo_label: "final_label (labelled True (detection_scene False demo_img True 0 0 1) [(1, 2), (0, 1)]) 0 0 = 1"
  by code_simp

lemma demo_detected:
  assumes "(det, num) = label_detection_islands False gen demo_img True fit True 0 0 0 1 [(1, 2), (0, 1)]
    [[(4, 8)], [(0, 4)]] [[(1, 2)], [(0, 1)]]"
  shows "extrema_ids det Pos 0 \<noteq> 0"
proof -
  have "(0, 0) \<in> component demo_img (labelled True (detection_scene False demo_img True 0 0 1) [(1, 2), (0, 1)]) Pos 0"
    using demo_label by (simp add: component_def demo_img_def mat_of_rows_def to_label_def)
  moreover have "beats Pos (elt demo_img 0 0) (threshold 0 0 1 Pos)"
    by (simp add: beats_def threshold_def demo_img_def mat_of_rows_def)
  ultimately show ?thesis
    using detection_facts(1) [OF demo_labelling demo_schedules refl assms, of Pos 0] by blast
qed

theorem fit_residuals_witness:
  "\<exists>det num. (det, num) = label_detection_islands False True demo_img True True True 0 0 0 1 [(1, 2), (0, 1)]
      [[(4, 8)], [(0, 4)]] [[(1, 2)], [(0, 1)]] \<and>
    length (concat (map (block_residuals no_params No_jacobians) (build_problem False demo_img
      \<lparr>n_rows = n_rows demo_img, n_cols = n_cols demo_img, elt = label_map det\<rparr> AutoDiff
      (island_of False demo_img det 1 0 Pos 0)))) = extrema_numsamples det Pos 0"
proof -
  obtain det num where run: "(det, num) = label_detection_islands False True demo_img True True True 0 0 0 1 [(1, 2), (0, 1)]
      [[(4, 8)], [(0, 4)]] [[(1, 2)], [(0, 1)]]"
    by (metis surj_pair)
  have fields: "label_idx (island_of False demo_img det 1 0 Pos 0) = extrema_ids det Pos 0"
    "island_box (island_of False demo_img det 1 0 Pos 0) = extrema_boundingbox det Pos 0"
    by (simp_all add: island_of_def estimate_moments_fit_def make_island_def)
  from fit_residuals [OF demo_labelling demo_schedules refl run demo_detected [OF run] fields refl refl] run show ?thesis
    by blast
qed

theorem islands_detected_witness:
  "\<exists>img. source_find_image False (\<lambda>k. sort) (\<lambda>st blocks g. (g, [])) demo_scheds demo_img 0 0 1 True 5 ZEROMEDIAN True True True 0
      AutoDiff TrustRegion_DenseQR = Some img \<and> (\<exists>out. map label_idx (sf_island_list img) =
      map (\<lambda>l. to_label Pos (Suc l)) (filter (makes_island demo_img out (threshold 0 0 1) 0 Pos) [0..<num_labels Pos out]) @
      map (\<lambda>l. to_label Neg (Suc l)) (filter (makes_island demo_img out (threshold 0 0 1) 0 Neg) [0..<num_labels Neg out]))"
  (is "\<exists>img. ?run = Some img \<and> (\<exists>out. ?islands img out)")
proof -
  obtain img where img: "source_find_image False (\<lambda>k. sort) (\<lambda>st blocks g. (g, [])) demo_scheds demo_img 0 0 1 True 5
      ZEROMEDIAN True True True 0 AutoDiff TrustRegion_DenseQR = Some img" "sf_bg_level img = 0" "sf_rms_est img = 1"
    by (simp add: source_find_image_def background_stats_def Let_def split_beta)
  have ok: "labelling_ok True (detection_scene False demo_img True (sf_bg_level img) 0 (sf_rms_est img)) (sf_slices demo_scheds)"
    using demo_labelling by (simp add: demo_scheds_def img(2,3))
  have sch: "schedules 0 (n_elem demo_img) (sf_labels demo_scheds)" "schedules 0 (n_cols demo_img) (sf_islands demo_scheds)"
    using demo_schedules by (simp_all add: demo_scheds_def)
  have "?islands img (labelled True (detection_scene False demo_img True (sf_bg_level img) 0 (sf_rms_est img)) (sf_slices demo_scheds))"
    using islands_detected [OF img(1) refl ok sch refl refl] unfolding img(2,3) by (rule conjunct1)
  then show ?thesis
    using img(1) by blast
qed

end
