(* ===== verification/Gridder.thy ===== *)
theory Gridder
  imports Reduction
begin

text \<open>
  The gridding loops of \<^verbatim>\<open>convolve_to_grid\<close> in \<^verbatim>\<open>src/src/stp/gridder/gridder.h\<close>: the
  kernel of a visibility is multiplied with its value and added to the grid around its centre. The serial, the
  multi-threaded and the exact gridder are modelled; each is shown to add the same terms.
\<close>

section \<open>Grids and points\<close>

text \<open>The visibility grid and the sampling grid, by row and column.\<close>

type_synonym grid = "nat \<Rightarrow> nat \<Rightarrow> complex"
type_synonym grids = "grid \<times> grid"

text \<open>
  What does not change between the visibilities of a plane: the image size, the number of rows of the grids,
  the support of the kernels, and whether the sampling grid is filled.
\<close>

record grid_pars =
  image_size :: int
  image_rows :: int
  conv_support :: nat
  generate_beam_grid :: bool

definition kernel_size :: "grid_pars \<Rightarrow> nat" where
  "kernel_size P = conv_support P * 2 + 1"

lemma kernel_size_pos [simp]: "0 < kernel_size P"
  by (simp add: kernel_size_def)

lemma kernel_size_int: "int (kernel_size P) = 2 * int (conv_support P) + 1"
  by (simp add: kernel_size_def)

text \<open>One placement of a kernel: its centre, the kernel, the value and the weight of the visibility.\<close>

record grid_point =
  gc_x :: int
  gc_y :: int
  kernel_array :: "nat \<Rightarrow> nat \<Rightarrow> complex"
  vis_val :: complex
  vis_weight :: real

definition grid_add :: "bool \<Rightarrow> nat \<Rightarrow> nat \<Rightarrow> complex \<Rightarrow> complex \<Rightarrow> grids \<Rightarrow> grids" where
  "grid_add beam r c val kernel_val = (\<lambda>(G, S).
     (upd2 G r c (G r c + val * kernel_val), if beam then upd2 S r c (S r c + kernel_val) else S))"

section \<open>Rows\<close>

text \<open>
  The loop over the rows of a kernel column in the oversampled gridders. The row is carried along: rows above the grid
  are skipped, and behind the last row it starts again from the first.
\<close>

definition row_step ::
  "grid_pars \<Rightarrow> (nat \<Rightarrow> complex) \<Rightarrow> complex \<Rightarrow> real \<Rightarrow> nat \<Rightarrow> nat \<Rightarrow> int \<times> grids \<Rightarrow> int \<times> grids"
where
  "row_step P kernel_col val weight grid_col i = (\<lambda>(grid_row, Gs).
     if grid_row < 0 then (grid_row + 1, Gs)
     else
       let grid_row = (if grid_row \<ge> image_size P then grid_row - image_size P else grid_row)
       in if grid_row < image_rows P then
            (grid_row + 1,
             grid_add (generate_beam_grid P) (nat grid_row) grid_col val (kernel_col i * of_real weight) Gs)
          else (grid_row + 1, Gs))"

definition grid_column ::
  "grid_pars \<Rightarrow> grid_point \<Rightarrow> nat \<times> nat \<Rightarrow> grids \<Rightarrow> grids"
where
  "grid_column P p = (\<lambda>(grid_col, j) Gs.
     snd (fold (row_step P (\<lambda>i. kernel_array p i j) (vis_val p) (vis_weight p) grid_col) [0..<kernel_size P]
       (gc_y p - int (conv_support P), Gs)))"

text \<open>The row on which row \<open>i\<close> of a kernel falls, if it is on the grid.\<close>

definition hit_row :: "grid_pars \<Rightarrow> grid_point \<Rightarrow> nat \<Rightarrow> nat option" where
  "hit_row P p i =
     (let g = gc_y p - int (conv_support P) + int i
      in if g < 0 then None
         else let r = g mod image_size P in if r < image_rows P then Some (nat r) else None)"

text \<open>What a kernel column adds to a row of the visibility grid and of the sampling grid.\<close>

definition column_term :: "grid_pars \<Rightarrow> grid_point \<Rightarrow> nat \<Rightarrow> nat \<Rightarrow> complex" where
  "column_term P p j r = (\<Sum>i<kernel_size P. if hit_row P p i = Some r then kernel_array p i j * of_real (vis_weight p) else 0)"

text \<open>The state of the loop before row \<open>i\<close>.\<close>

definition row_inv :: "grid_pars \<Rightarrow> grid_point \<Rightarrow> nat \<Rightarrow> nat \<Rightarrow> grids \<Rightarrow> nat \<Rightarrow> int \<times> grids \<Rightarrow> bool" where
  "row_inv P p grid_col j Gs0 i st \<longleftrightarrow>
     (let g = gc_y p - int (conv_support P) + int i
      in (if g < 0 then fst st = g else fst st \<le> image_size P \<and> 0 \<le> fst st \<and> fst st mod image_size P = g mod image_size P)) \<and>
     (\<forall>r c. fst (snd st) r c = fst Gs0 r c +
        (if c = grid_col then vis_val p * (\<Sum>k<i. if hit_row P p k = Some r then kernel_array p k j * of_real (vis_weight p) else 0) else 0)) \<and>
     (\<forall>r c. snd (snd st) r c = snd Gs0 r c +
        (if generate_beam_grid P \<and> c = grid_col then (\<Sum>k<i. if hit_row P p k = Some r then kernel_array p k j * of_real (vis_weight p) else 0) else 0))"

lemma row_inv_step:
  assumes inv: "row_inv P p grid_col j Gs0 i st" and size: "0 < image_size P"
  shows "row_inv P p grid_col j Gs0 (Suc i)
    (row_step P (\<lambda>i. kernel_array p i j) (vis_val p) (vis_weight p) grid_col i st)"
proof -
  obtain g G S where st: "st = (g, G, S)"
    by (metis surj_pair)
  define g0 where "g0 = gc_y p - int (conv_support P) + int i"
  have g1: "gc_y p - int (conv_support P) + int (Suc i) = g0 + 1"
    by (simp add: g0_def)
  let ?t = "\<lambda>r k. if hit_row P p k = Some r then kernel_array p k j * of_real (vis_weight p) else 0"
  have row: "if g0 < 0 then g = g0 else g \<le> image_size P \<and> 0 \<le> g \<and> g mod image_size P = g0 mod image_size P"
    and G: "G r c = fst Gs0 r c + (if c = grid_col then vis_val p * (\<Sum>k<i. ?t r k) else 0)"
    and S: "S r c = snd Gs0 r c + (if generate_beam_grid P \<and> c = grid_col then (\<Sum>k<i. ?t r k) else 0)" for r c
    using inv unfolding row_inv_def st g0_def Let_def fst_conv snd_conv by blast+
  show ?thesis
  proof (cases "g0 < 0")
    case True
    then have hit: "hit_row P p i = None" and g: "g = g0"
      using row by (simp_all add: hit_row_def g0_def [symmetric])
    have next_row: "if g0 + 1 < 0 then g + 1 = g0 + 1 else g + 1 \<le> image_size P \<and> 0 \<le> g + 1 \<and>
        (g + 1) mod image_size P = (g0 + 1) mod image_size P"
      using True g size by auto
    have step: "row_step P (\<lambda>i. kernel_array p i j) (vis_val p) (vis_weight p) grid_col i st = (g + 1, G, S)"
      using True g by (simp add: st row_step_def)
    show ?thesis
      unfolding row_inv_def g1 step Let_def fst_conv snd_conv
      by (intro conjI allI, rule next_row) (simp_all add: hit G S)
  next
    case False
    define h where "h = (if g \<ge> image_size P then g - image_size P else g)"
    have h: "0 \<le> h" "h < image_size P" "h = g0 mod image_size P"
      using row False size unfolding h_def
      by (auto simp: mod_pos_pos_trivial split: if_splits)
    have next_row: "if g0 + 1 < 0 then h + 1 = g0 + 1 else h + 1 \<le> image_size P \<and> 0 \<le> h + 1 \<and>
        (h + 1) mod image_size P = (g0 + 1) mod image_size P"
      using False h by (simp add: mod_add_left_eq)
    show ?thesis
    proof (cases "h < image_rows P")
      case True
      have hit: "hit_row P p i = Some (nat h)"
        using False True h by (simp add: hit_row_def g0_def [symmetric])
      have step: "row_step P (\<lambda>i. kernel_array p i j) (vis_val p) (vis_weight p) grid_col i st =
          (h + 1, grid_add (generate_beam_grid P) (nat h) grid_col (vis_val p) (kernel_array p i j * of_real (vis_weight p)) (G, S))"
        using row False True unfolding st row_step_def h_def by (simp add: Let_def split: if_splits)
      have eq: "Some (nat h) = Some r \<longleftrightarrow> r = nat h" for r
        by auto
      show ?thesis
        unfolding row_inv_def g1 step Let_def fst_conv snd_conv
        by (intro conjI allI, rule next_row) (simp_all add: grid_add_def hit eq distrib_left G S)
    next
      case rows: False
      have hit: "hit_row P p i = None"
        using False rows h by (simp add: hit_row_def g0_def [symmetric])
      have step: "row_step P (\<lambda>i. kernel_array p i j) (vis_val p) (vis_weight p) grid_col i st = (h + 1, G, S)"
        using row False rows unfolding st row_step_def h_def by (simp add: Let_def split: if_splits)
      show ?thesis
        unfolding row_inv_def g1 step Let_def fst_conv snd_conv
        by (intro conjI allI, rule next_row) (simp_all add: hit G S)
    qed
  qed
qed

lemma grid_column_terms:
  assumes "0 < image_size P" and "gc_y p - int (conv_support P) \<le> image_size P"
  shows "fst (grid_column P p (grid_col, j) Gs) r c =
      fst Gs r c + (if c = grid_col then vis_val p * column_term P p j r else 0)"
    and "snd (grid_column P p (grid_col, j) Gs) r c =
      snd Gs r c + (if generate_beam_grid P \<and> c = grid_col then column_term P p j r else 0)"
proof -
  have "row_inv P p grid_col j Gs (kernel_size P)
    (fold (row_step P (\<lambda>i. kernel_array p i j) (vis_val p) (vis_weight p) grid_col) [0..<kernel_size P]
       (gc_y p - int (conv_support P), Gs))"
  proof (rule fold_upt_invariant)
    show "row_inv P p grid_col j Gs 0 (gc_y p - int (conv_support P), Gs)"
      using assms by (simp add: row_inv_def)
  qed (auto intro: row_inv_step [OF _ assms(1)])
  then show "fst (grid_column P p (grid_col, j) Gs) r c =
      fst Gs r c + (if c = grid_col then vis_val p * column_term P p j r else 0)"
    "snd (grid_column P p (grid_col, j) Gs) r c =
      snd Gs r c + (if generate_beam_grid P \<and> c = grid_col then column_term P p j r else 0)"
    by (simp_all add: row_inv_def grid_column_def column_term_def)
qed


section \<open>Columns\<close>

text \<open>The columns of the grid on which the columns of a kernel fall: in the serial gridder, around the edges of the grid.\<close>

definition wrap_col :: "grid_pars \<Rightarrow> int \<Rightarrow> int" where
  "wrap_col P grid_col =
     (let grid_col = (if grid_col < 0 then grid_col + image_size P else grid_col)
      in if grid_col \<ge> image_size P then grid_col - image_size P else grid_col)"

definition serial_columns :: "grid_pars \<Rightarrow> int \<Rightarrow> (nat \<times> nat) list" where
  "serial_columns P gx = map (\<lambda>j. (nat (wrap_col P (gx - int (conv_support P) + int j)), j)) [0..<kernel_size P]"

text \<open>The remainder of C, with the sign of the dividend.\<close>

definition c_rem :: "int \<Rightarrow> int \<Rightarrow> int" where
  "c_rem a b = (if a \<ge> 0 then a mod b else - ((- a) mod b))"

text \<open>
  The distance from the centre to the column of a thread, which has the columns that are \<open>rbegin\<close> modulo the
  kernel size; \<open>k\<close> kernel sizes keep the dividend positive.
\<close>

definition conv_col :: "grid_pars \<Rightarrow> int \<Rightarrow> nat \<Rightarrow> nat \<Rightarrow> int" where
  "conv_col P gx rbegin k =
     (let conv_col = c_rem (gx - int rbegin + int (kernel_size P * k)) (int (kernel_size P))
      in if conv_col > int (conv_support P) then conv_col - int (kernel_size P) else conv_col)"

definition thread_column :: "grid_pars \<Rightarrow> int \<Rightarrow> nat \<Rightarrow> nat \<Rightarrow> (nat \<times> nat) list" where
  "thread_column P gx rbegin k =
     (let conv_col = conv_col P gx rbegin k;
          grid_col = gx - conv_col
      in if grid_col < image_size P \<and> grid_col \<ge> 0 then [(nat grid_col, nat (int (conv_support P) - conv_col))] else [])"

definition thread_columns :: "grid_pars \<Rightarrow> int \<Rightarrow> nat \<Rightarrow> (nat \<times> nat) list" where
  "thread_columns P gx rbegin =
     thread_column P gx rbegin 1 @
     (if gx \<ge> image_size P - int (conv_support P) \<or> gx < int (conv_support P) then
        (if gx \<ge> image_size P - int (conv_support P) then thread_column P (gx - image_size P) rbegin 2
         else thread_column P (gx + image_size P) rbegin 1)
      else [])"

lemma conv_col_spec:
  assumes "0 \<le> gx - int rbegin + int (kernel_size P * k)"
  shows "- int (conv_support P) \<le> conv_col P gx rbegin k" "conv_col P gx rbegin k \<le> int (conv_support P)"
    and "(gx - conv_col P gx rbegin k) mod int (kernel_size P) = int rbegin mod int (kernel_size P)"
proof -
  define ks where "ks = int (kernel_size P)"
  define a where "a = gx - int rbegin + ks * int k"
  define m where "m = a mod ks"
  have ks: "ks = 2 * int (conv_support P) + 1"
    by (simp add: ks_def kernel_size_int)
  have m: "0 \<le> m" "m < ks"
    unfolding m_def using ks pos_mod_bound [of ks a] pos_mod_sign [of ks a] by linarith+
  have v: "conv_col P gx rbegin k = (if m > int (conv_support P) then m - ks else m)"
    using assms by (simp add: conv_col_def c_rem_def Let_def m_def a_def ks_def)
  show "- int (conv_support P) \<le> conv_col P gx rbegin k" "conv_col P gx rbegin k \<le> int (conv_support P)"
    unfolding v using m ks by auto
  have "(gx - conv_col P gx rbegin k) mod ks = (gx - m) mod ks"
  proof (cases "m > int (conv_support P)")
    case True
    then have "(gx - conv_col P gx rbegin k) mod ks = (gx - m + ks) mod ks"
      unfolding v by (simp add: algebra_simps)
    then show ?thesis by simp
  next
    case False
    then show ?thesis
      unfolding v by simp
  qed
  also have "\<dots> = (gx - a) mod ks"
    unfolding m_def by (simp add: mod_diff_right_eq)
  also have "gx - a = int rbegin + ks * (- int k)"
    by (simp add: a_def)
  also have "(int rbegin + ks * (- int k)) mod ks = int rbegin mod ks"
    by (rule mod_mult_self2)
  finally show "(gx - conv_col P gx rbegin k) mod int (kernel_size P) = int rbegin mod int (kernel_size P)"
    unfolding ks_def .
qed

lemma same_residue:
  fixes a b n :: int
  assumes "a mod n = b mod n" and "\<bar>a - b\<bar> < n"
  shows "a = b"
proof -
  have "n dvd a - b"
    using assms(1) by (simp add: mod_eq_dvd_iff)
  with assms(2) show ?thesis
    using dvd_imp_le_int [of "a - b" n] by fastforce
qed

lemma thread_column_mem:
  assumes "rbegin < kernel_size P" and "0 \<le> gx - int rbegin + int (kernel_size P * k)"
  shows "(c, j) \<in> set (thread_column P gx rbegin k) \<longleftrightarrow>
    int c < image_size P \<and> c mod kernel_size P = rbegin \<and> j < kernel_size P \<and> int c = gx - int (conv_support P) + int j"
proof -
  note spec = conv_col_spec [OF assms(2)]
  let ?v = "conv_col P gx rbegin k" and ?ks = "int (kernel_size P)"
  have rb: "(gx - ?v) mod ?ks = int rbegin"
    using spec(3) assms(1) by simp
  have "c mod kernel_size P = rbegin \<longleftrightarrow> int c mod ?ks = int rbegin"
    by (simp flip: of_nat_mod)
  also have "\<dots> \<longleftrightarrow> int c mod ?ks = (gx - ?v) mod ?ks"
    by (simp only: rb)
  finally have residue: "c mod kernel_size P = rbegin \<longleftrightarrow> int c mod ?ks = (gx - ?v) mod ?ks" .
  have "(c, j) \<in> set (thread_column P gx rbegin k) \<longleftrightarrow>
      int c < image_size P \<and> int c = gx - ?v \<and> int j = int (conv_support P) - ?v"
    using spec(1,2) by (auto simp: thread_column_def Let_def)
  also have "\<dots> \<longleftrightarrow> int c < image_size P \<and> c mod kernel_size P = rbegin \<and> j < kernel_size P \<and> int c = gx - int (conv_support P) + int j"
  proof
    assume "int c < image_size P \<and> int c = gx - ?v \<and> int j = int (conv_support P) - ?v"
    then show "int c < image_size P \<and> c mod kernel_size P = rbegin \<and> j < kernel_size P \<and> int c = gx - int (conv_support P) + int j"
      unfolding residue using spec(1,2) by (auto simp: kernel_size_def)
  next
    assume r: "int c < image_size P \<and> c mod kernel_size P = rbegin \<and> j < kernel_size P \<and> int c = gx - int (conv_support P) + int j"
    then have "int j < 2 * int (conv_support P) + 1"
      unfolding kernel_size_int [symmetric] by simp
    with r have "\<bar>int c - (gx - ?v)\<bar> < ?ks"
      unfolding kernel_size_int using spec(1,2) by linarith
    moreover have "int c mod ?ks = (gx - ?v) mod ?ks"
      using r residue by blast
    ultimately have "int c = gx - ?v"
      by (rule same_residue [rotated])
    with r show "int c < image_size P \<and> int c = gx - ?v \<and> int j = int (conv_support P) - ?v"
      by auto
  qed
  finally show ?thesis .
qed

text \<open>The two partitions of the columns of a kernel: by the serial loop, and over the threads.\<close>

definition column_of :: "grid_pars \<Rightarrow> int \<Rightarrow> nat \<Rightarrow> nat \<Rightarrow> bool" where
  "column_of P gx c j \<longleftrightarrow> int c < image_size P \<and> j < kernel_size P \<and>
     (int c = gx - int (conv_support P) + int j \<or>
      int c = gx - image_size P - int (conv_support P) + int j \<or>
      int c = gx + image_size P - int (conv_support P) + int j)"

lemma serial_columns_mem:
  assumes "int (kernel_size P) \<le> image_size P" and "0 \<le> gx" and "gx \<le> image_size P"
  shows "(c, j) \<in> set (serial_columns P gx) \<longleftrightarrow> column_of P gx c j"
proof -
  have "(c, j) \<in> set (serial_columns P gx) \<longleftrightarrow>
      j < kernel_size P \<and> c = nat (wrap_col P (gx - int (conv_support P) + int j))"
    by (auto simp: serial_columns_def)
  also have "\<dots> \<longleftrightarrow> column_of P gx c j"
  proof (cases "j < kernel_size P")
    case True
    then have "int j < 2 * int (conv_support P) + 1"
      by (simp flip: kernel_size_int)
    then show ?thesis
      using True assms unfolding column_of_def wrap_col_def Let_def kernel_size_int by auto
  next
    case False
    then show ?thesis
      by (simp add: column_of_def)
  qed
  finally show ?thesis .
qed

lemma thread_columns_mem:
  assumes "int (kernel_size P) \<le> image_size P" and "0 \<le> gx" and "gx \<le> image_size P" and "rbegin < kernel_size P"
  shows "(c, j) \<in> set (thread_columns P gx rbegin) \<longleftrightarrow> column_of P gx c j \<and> c mod kernel_size P = rbegin"
proof -
  have "0 \<le> gx - int rbegin + int (kernel_size P * 1)" "0 \<le> gx + image_size P - int rbegin + int (kernel_size P * 1)"
    using assms by auto
  note this [THEN thread_column_mem [OF assms(4)], of c j]
  moreover have "(c, j) \<in> set (thread_column P (gx - image_size P) rbegin 2) \<longleftrightarrow>
    int c < image_size P \<and> c mod kernel_size P = rbegin \<and> j < kernel_size P \<and>
      int c = gx - image_size P - int (conv_support P) + int j" if "gx \<ge> image_size P - int (conv_support P)"
    using assms that by (intro thread_column_mem) (auto simp: kernel_size_def)
  ultimately show ?thesis
    using assms unfolding thread_columns_def column_of_def set_append Un_iff
    by (auto simp: kernel_size_def split: if_splits)
qed

lemma thread_columns_distinct:
  assumes "int (kernel_size P) \<le> image_size P" and "0 \<le> gx" and "gx \<le> image_size P" and "rbegin < kernel_size P"
  shows "distinct (thread_columns P gx rbegin)"
proof -
  have "distinct (thread_column P gx rbegin k)" for gx k
    by (simp add: thread_column_def Let_def)
  moreover have "set (thread_column P gx rbegin 1) \<inter> set (thread_column P (gx - image_size P) rbegin 2) = {}"
    if "gx \<ge> image_size P - int (conv_support P)"
  proof -
    have "0 \<le> gx - int rbegin + int (kernel_size P * 1)" "0 \<le> gx - image_size P - int rbegin + int (kernel_size P * 2)"
      using assms that by (auto simp: kernel_size_def)
    note this [THEN thread_column_mem [OF assms(4)]]
    then show ?thesis
      using assms(1) by auto
  qed
  moreover have "set (thread_column P gx rbegin 1) \<inter> set (thread_column P (gx + image_size P) rbegin 1) = {}"
  proof -
    have "0 \<le> gx - int rbegin + int (kernel_size P * 1)" "0 \<le> gx + image_size P - int rbegin + int (kernel_size P * 1)"
      using assms by auto
    note this [THEN thread_column_mem [OF assms(4)]]
    then show ?thesis
      using assms(1) by auto
  qed
  ultimately show ?thesis
    unfolding thread_columns_def by simp
qed

lemma serial_columns_distinct: "distinct (serial_columns P gx)"
  by (auto simp: serial_columns_def distinct_map inj_on_def)

lemma thread_columns_serial:
  assumes P: "int (kernel_size P) \<le> image_size P" and gx: "0 \<le> gx" "gx \<le> image_size P"
    and threads: "mset rbegins = mset [0..<kernel_size P]"
  shows "mset (concat (map (thread_columns P gx) rbegins)) = mset (serial_columns P gx)"
proof -
  have rb: "distinct rbegins" "set rbegins = {0..<kernel_size P}"
    unfolding mset_eq_imp_distinct_iff [OF threads] mset_eq_setD [OF threads] by (rule distinct_upt, rule set_upt)
  have "distinct (concat (map (thread_columns P gx) rbegins))"
  proof -
    have "distinct (concat (map (thread_columns P gx) xs))" if "distinct xs" "set xs \<subseteq> {0..<kernel_size P}" for xs
      using that
    proof (induction xs)
      case (Cons x xs)
      have "set (thread_columns P gx x) \<inter> (\<Union>y \<in> set xs. set (thread_columns P gx y)) = {}"
        using Cons.prems thread_columns_mem [OF P gx] by (force simp: subset_iff)
      with Cons thread_columns_distinct [OF P gx] show ?case
        by simp
    qed simp
    with rb show ?thesis by simp
  qed
  moreover have "set (concat (map (thread_columns P gx) rbegins)) = set (serial_columns P gx)"
  proof (rule set_eqI, clarify)
    fix c j
    have "(c, j) \<in> set (concat (map (thread_columns P gx) rbegins)) \<longleftrightarrow>
        (\<exists>rbegin < kernel_size P. (c, j) \<in> set (thread_columns P gx rbegin))"
      using rb(2) by auto
    also have "\<dots> \<longleftrightarrow> column_of P gx c j"
      using thread_columns_mem [OF P gx] mod_less_divisor [OF kernel_size_pos] by blast
    finally show "(c, j) \<in> set (concat (map (thread_columns P gx) rbegins)) \<longleftrightarrow> (c, j) \<in> set (serial_columns P gx)"
      unfolding serial_columns_mem [OF P gx] .
  qed
  ultimately show ?thesis
    using set_eq_iff_mset_eq_distinct [OF _ serial_columns_distinct] by blast
qed


section \<open>The loops over the visibilities\<close>

text \<open>
  The arrays that the loops read, per visibility: the centre of the kernel on the grid (u and v), the index of the
  kernel in the cache, the value, the weight, how often the visibility is gridded (0: not, 2: with its
  conjugate), and w.
\<close>

record vis_arrays =
  kernel_centre :: "nat \<Rightarrow> int \<times> int"
  oversampled_offset :: "nat \<Rightarrow> int \<times> int"
  vis_values :: "nat \<Rightarrow> complex"
  vis_weights :: "nat \<Rightarrow> real"
  good_vis :: "nat \<Rightarrow> nat"
  w_values :: "nat \<Rightarrow> real"

type_synonym kernel_cache = "nat \<Rightarrow> nat \<Rightarrow> nat \<Rightarrow> nat \<Rightarrow> complex"

text \<open>The placement of visibility \<open>vi\<close> in round \<open>gv\<close>: its own, or that of its conjugate.\<close>

definition vis_point :: "int \<Rightarrow> nat \<Rightarrow> bool \<Rightarrow> kernel_cache \<Rightarrow> vis_arrays \<Rightarrow> nat \<Rightarrow> nat \<Rightarrow> grid_point" where
  "vis_point N oversampling use_wproj cache A vi gv =
     (let (kc_x, kc_y) = kernel_centre A vi;
          (off_x, off_y) = oversampled_offset A vi;
          gx = (if gv \<noteq> 0 then - kc_x + N else kc_x);
          gy = (if gv \<noteq> 0 then - kc_y + N else kc_y);
          cp_x = (if gv \<noteq> 0 \<and> oversampling > 1 then - off_x + int oversampling else off_x);
          cp_y = (if gv \<noteq> 0 \<and> oversampling > 1 then - off_y + int oversampling else off_y);
          val = (if gv \<noteq> 0 then cnj (vis_values A vi) else vis_values A vi);
          w = (if gv \<noteq> 0 then - w_values A vi else w_values A vi);
          K = cache (nat cp_y) (nat cp_x)
      in \<lparr>gc_x = gx, gc_y = gy,
          kernel_array = (if use_wproj \<and> w < 0 then (\<lambda>i j. cnj (K i j)) else K),
          vis_val = val, vis_weight = vis_weights A vi\<rparr>)"

definition vis_points :: "int \<Rightarrow> nat \<Rightarrow> bool \<Rightarrow> kernel_cache \<Rightarrow> vis_arrays \<Rightarrow> nat \<Rightarrow> nat \<Rightarrow> grid_point list" where
  "vis_points N oversampling use_wproj cache A vi_begin vi_end =
     concat (map (\<lambda>vi. map (vis_point N oversampling use_wproj cache A vi) [0..<good_vis A vi]) [vi_begin..<vi_end])"

text \<open>The serial gridder, and the multi-threaded one: thread \<open>rbegin\<close> goes through all visibilities.\<close>

definition serial_point :: "grid_pars \<Rightarrow> grid_point \<Rightarrow> grids \<Rightarrow> grids" where
  "serial_point P p = fold (grid_column P p) (serial_columns P (gc_x p))"

definition thread_point :: "grid_pars \<Rightarrow> nat \<Rightarrow> grid_point \<Rightarrow> grids \<Rightarrow> grids" where
  "thread_point P rbegin p = fold (grid_column P p) (thread_columns P (gc_x p) rbegin)"

definition serial_gridder :: "grid_pars \<Rightarrow> grid_point list \<Rightarrow> grids \<Rightarrow> grids" where
  "serial_gridder P ps = fold (serial_point P) ps"

definition parallel_gridder :: "grid_pars \<Rightarrow> nat list \<Rightarrow> grid_point list \<Rightarrow> grids \<Rightarrow> grids" where
  "parallel_gridder P rbegins ps = fold (\<lambda>rbegin. fold (thread_point P rbegin) ps) rbegins"

text \<open>The exact gridder, in which rows wrap around in both directions.\<close>

definition exact_element :: "grid_pars \<Rightarrow> grid_point \<Rightarrow> nat \<Rightarrow> nat \<Rightarrow> nat \<Rightarrow> grids \<Rightarrow> grids" where
  "exact_element P p grid_col j i Gs =
     (let grid_row = wrap_col P (gc_y p - int (conv_support P) + int i)
      in if grid_row < image_rows P then
           grid_add (generate_beam_grid P) (nat grid_row) grid_col (vis_val p) (of_real (vis_weight p) * kernel_array p i j) Gs
         else Gs)"

definition exact_point :: "grid_pars \<Rightarrow> grid_point \<Rightarrow> grids \<Rightarrow> grids" where
  "exact_point P p =
     fold (\<lambda>(grid_col, j) Gs. fold (exact_element P p grid_col j) [0..<kernel_size P] Gs) (serial_columns P (gc_x p))"

definition exact_gridder :: "grid_pars \<Rightarrow> grid_point list \<Rightarrow> grids \<Rightarrow> grids" where
  "exact_gridder P ps = fold (exact_point P) ps"

section \<open>What is added\<close>

definition point_ok :: "grid_pars \<Rightarrow> grid_point \<Rightarrow> bool" where
  "point_ok P p \<longleftrightarrow> 0 \<le> gc_x p \<and> gc_x p \<le> image_size P \<and> 0 \<le> gc_y p \<and> gc_y p \<le> image_size P"

definition point_term :: "grid_pars \<Rightarrow> grid_point \<Rightarrow> nat \<Rightarrow> nat \<Rightarrow> complex" where
  "point_term P p r c = (\<Sum>(c', j) \<leftarrow> serial_columns P (gc_x p). if c' = c then column_term P p j r else 0)"

lemma fold_columns:
  assumes "0 < image_size P" and "gc_y p \<le> image_size P"
  shows "fst (fold (grid_column P p) cols Gs) r c =
      fst Gs r c + vis_val p * (\<Sum>(c', j) \<leftarrow> cols. if c' = c then column_term P p j r else 0)"
    and "snd (fold (grid_column P p) cols Gs) r c =
      snd Gs r c + (if generate_beam_grid P then (\<Sum>(c', j) \<leftarrow> cols. if c' = c then column_term P p j r else 0) else 0)"
  using assms
  by (induction cols arbitrary: Gs) (auto simp: grid_column_terms algebra_simps)

lemma sum_list_swap:
  fixes f :: "'a \<Rightarrow> 'b \<Rightarrow> 'c::comm_monoid_add"
  shows "(\<Sum>x \<leftarrow> xs. \<Sum>y \<leftarrow> ys. f x y) = (\<Sum>y \<leftarrow> ys. \<Sum>x \<leftarrow> xs. f x y)"
  by (induction xs) (simp_all add: sum_list_addf)

lemma sum_list_concat_map:
  fixes f :: "'b \<Rightarrow> 'c::comm_monoid_add"
  shows "(\<Sum>x \<leftarrow> xs. \<Sum>y \<leftarrow> g x. f y) = (\<Sum>y \<leftarrow> concat (map g xs). f y)"
  by (induction xs) simp_all

lemma sum_list_mset_eq:
  fixes f :: "'b \<Rightarrow> 'c::comm_monoid_add"
  assumes "mset xs = mset ys"
  shows "(\<Sum>x \<leftarrow> xs. f x) = (\<Sum>x \<leftarrow> ys. f x)"
  using assms by (metis mset_map sum_mset_sum_list)

lemma serial_gridder_terms:
  assumes "0 < image_size P" and "\<forall>p \<in> set ps. point_ok P p"
  shows "fst (serial_gridder P ps Gs) r c = fst Gs r c + (\<Sum>p \<leftarrow> ps. vis_val p * point_term P p r c)"
    and "snd (serial_gridder P ps Gs) r c =
      snd Gs r c + (if generate_beam_grid P then \<Sum>p \<leftarrow> ps. point_term P p r c else 0)"
  unfolding serial_gridder_def using assms
  by (induction ps arbitrary: Gs) (simp_all add: serial_point_def fold_columns point_ok_def point_term_def algebra_simps)

lemma thread_terms:
  assumes "0 < image_size P" and "\<forall>p \<in> set ps. point_ok P p"
  shows "fst (fold (thread_point P rbegin) ps Gs) r c =
      fst Gs r c + (\<Sum>p \<leftarrow> ps. vis_val p * (\<Sum>(c', j) \<leftarrow> thread_columns P (gc_x p) rbegin. if c' = c then column_term P p j r else 0))"
    and "snd (fold (thread_point P rbegin) ps Gs) r c =
      snd Gs r c + (if generate_beam_grid P then
        \<Sum>p \<leftarrow> ps. \<Sum>(c', j) \<leftarrow> thread_columns P (gc_x p) rbegin. if c' = c then column_term P p j r else 0 else 0)"
  using assms
  by (induction ps arbitrary: Gs) (simp_all add: thread_point_def fold_columns point_ok_def algebra_simps)

lemma parallel_gridder_terms:
  assumes P: "0 < image_size P" "int (kernel_size P) \<le> image_size P" and ps: "\<forall>p \<in> set ps. point_ok P p"
    and threads: "mset rbegins = mset [0..<kernel_size P]"
  shows "fst (parallel_gridder P rbegins ps Gs) r c = fst Gs r c + (\<Sum>p \<leftarrow> ps. vis_val p * point_term P p r c)"
    and "snd (parallel_gridder P rbegins ps Gs) r c =
      snd Gs r c + (if generate_beam_grid P then \<Sum>p \<leftarrow> ps. point_term P p r c else 0)"
proof -
  let ?t = "\<lambda>p rbegin. \<Sum>(c', j) \<leftarrow> thread_columns P (gc_x p) rbegin. if c' = c then column_term P p j r else 0"
  have "fst (parallel_gridder P rs ps Gs) r c = fst Gs r c + (\<Sum>rbegin \<leftarrow> rs. \<Sum>p \<leftarrow> ps. vis_val p * ?t p rbegin)"
    "snd (parallel_gridder P rs ps Gs) r c =
      snd Gs r c + (if generate_beam_grid P then \<Sum>rbegin \<leftarrow> rs. \<Sum>p \<leftarrow> ps. ?t p rbegin else 0)" for rs
    unfolding parallel_gridder_def
    by (induction rs arbitrary: Gs) (simp_all add: thread_terms [OF P(1) ps] algebra_simps)
  moreover have sum: "(\<Sum>rbegin \<leftarrow> rbegins. ?t p rbegin) = point_term P p r c" if "p \<in> set ps" for p
  proof -
    have "0 \<le> gc_x p" "gc_x p \<le> image_size P"
      using ps that by (auto simp: point_ok_def)
    then show ?thesis
      unfolding sum_list_concat_map point_term_def
      by (intro sum_list_mset_eq thread_columns_serial P(2) threads)
  qed
  moreover have "(\<Sum>rbegin \<leftarrow> rbegins. \<Sum>p \<leftarrow> ps. vis_val p * ?t p rbegin) = (\<Sum>p \<leftarrow> ps. vis_val p * point_term P p r c)"
    by (subst sum_list_swap) (simp add: sum_list_const_mult sum cong: map_cong)
  moreover have "(\<Sum>rbegin \<leftarrow> rbegins. \<Sum>p \<leftarrow> ps. ?t p rbegin) = (\<Sum>p \<leftarrow> ps. point_term P p r c)"
    by (subst sum_list_swap) (simp add: sum cong: map_cong)
  ultimately show "fst (parallel_gridder P rbegins ps Gs) r c = fst Gs r c + (\<Sum>p \<leftarrow> ps. vis_val p * point_term P p r c)"
    "snd (parallel_gridder P rbegins ps Gs) r c =
      snd Gs r c + (if generate_beam_grid P then \<Sum>p \<leftarrow> ps. point_term P p r c else 0)"
    by simp_all
qed

text \<open>C14. The multi-threaded gridder computes what the serial gridder computes, on any list of kernel placements and in
  whatever order its threads run.\<close>

theorem parallel_gridder_serial:
  assumes "int (kernel_size P) \<le> image_size P" and "\<forall>p \<in> set ps. point_ok P p"
    and "mset rbegins = mset [0..<kernel_size P]"
  shows "parallel_gridder P rbegins ps Gs = serial_gridder P ps Gs"
proof -
  have "0 < image_size P"
    using assms(1) kernel_size_pos [of P] by linarith
  then show ?thesis
    using assms by (intro prod_eqI ext) (simp_all add: parallel_gridder_terms serial_gridder_terms)
qed



section \<open>The exact gridder\<close>

definition exact_hit :: "grid_pars \<Rightarrow> grid_point \<Rightarrow> nat \<Rightarrow> nat option" where
  "exact_hit P p i =
     (let r = wrap_col P (gc_y p - int (conv_support P) + int i) in if r < image_rows P then Some (nat r) else None)"

lemma exact_rows:
  shows "fst (fold (exact_element P p grid_col j) is Gs) r c = fst Gs r c + (if c = grid_col then
      vis_val p * (\<Sum>i \<leftarrow> is. if exact_hit P p i = Some r then kernel_array p i j * of_real (vis_weight p) else 0) else 0)"
    and "snd (fold (exact_element P p grid_col j) is Gs) r c = snd Gs r c + (if generate_beam_grid P \<and> c = grid_col then
      (\<Sum>i \<leftarrow> is. if exact_hit P p i = Some r then kernel_array p i j * of_real (vis_weight p) else 0) else 0)"
  by (induction "is" arbitrary: Gs)
    (auto simp: exact_element_def exact_hit_def grid_add_def Let_def split_beta algebra_simps)

text \<open>With half of the plane, and centres in that half, the rows of the two gridders are the same.\<close>

lemma exact_hit_halfplane:
  assumes "0 \<le> gc_y p" and "gc_y p \<le> image_size P" and "image_rows P + int (conv_support P) \<le> image_size P"
    and "int (kernel_size P) \<le> image_size P" and "i < kernel_size P"
  shows "exact_hit P p i = hit_row P p i"
proof -
  define g where "g = gc_y p - int (conv_support P) + int i"
  have "int i < 2 * int (conv_support P) + 1"
    using assms(5) by (simp flip: kernel_size_int)
  then have g: "- int (conv_support P) \<le> g" "g < 2 * image_size P"
    using assms unfolding g_def kernel_size_int by linarith+
  have hit: "hit_row P p i = (if g < 0 then None
      else let r = g mod image_size P in if r < image_rows P then Some (nat r) else None)"
    by (simp add: hit_row_def g_def [symmetric] Let_def)
  show ?thesis
  proof (cases "g < 0")
    case True
    then have "\<not> g + image_size P < image_rows P" "\<not> image_size P \<le> g + image_size P"
      using assms g by linarith+
    then show ?thesis
      unfolding hit using True by (simp add: exact_hit_def g_def [symmetric] wrap_col_def)
  next
    case False
    have "wrap_col P g = g mod image_size P"
    proof (cases "g < image_size P")
      case True
      then show ?thesis
        using False by (simp add: wrap_col_def mod_pos_pos_trivial)
    next
      case big: False
      then have "g mod image_size P = (g - image_size P) mod image_size P"
        by simp
      also have "\<dots> = g - image_size P"
        using big g by (intro mod_pos_pos_trivial) linarith+
      finally show ?thesis
        using big False by (simp add: wrap_col_def)
    qed
    then show ?thesis
      unfolding hit using False by (simp add: exact_hit_def g_def [symmetric])
  qed
qed

lemma exact_gridder_value:
  assumes P: "int (kernel_size P) \<le> image_size P" "image_rows P + int (conv_support P) \<le> image_size P"
    and ps: "\<forall>p \<in> set ps. point_ok P p"
  shows "exact_gridder P ps Gs = serial_gridder P ps Gs"
proof -
  have size: "0 < image_size P"
    using P(1) kernel_size_pos [of P] by linarith
  have column: "fold (exact_element P p c j) [0..<kernel_size P] Gs = grid_column P p (c, j) Gs" if "point_ok P p" for p c j Gs
  proof -
    have "(\<Sum>i \<leftarrow> [0..<kernel_size P]. if exact_hit P p i = Some r then kernel_array p i j * of_real (vis_weight p) else 0) =
        column_term P p j r" for r
      unfolding column_term_def interv_sum_list_conv_sum_set_nat
      using that P exact_hit_halfplane [of p P] by (intro sum.cong) (auto simp: point_ok_def)
    then show ?thesis
      using that size by (intro prod_eqI ext) (simp_all add: exact_rows grid_column_terms point_ok_def)
  qed
  have "exact_point P p Gs = serial_point P p Gs" if "point_ok P p" for p Gs
    unfolding exact_point_def serial_point_def
    by (rule fold_cong) (auto simp: column [OF that])
  then show ?thesis
    unfolding exact_gridder_def serial_gridder_def using ps by (intro fold_cong) auto
qed

text \<open>C28. Gridding half of the plane, the exact and the oversampled gridder add the same kernels to the same places.\<close>

theorem exact_gridder_serial:
  assumes "int (kernel_size P) \<le> image_size P" and "image_rows P + int (conv_support P) \<le> image_size P"
    and "\<forall>p \<in> set ps. point_ok P p"
  shows "exact_gridder P ps Gs = serial_gridder P ps Gs"
  using assms by (rule exact_gridder_value)

section \<open>Runs\<close>

definition grid_demo :: grid_pars where
  "grid_demo = \<lparr>image_size = 8, image_rows = 5, conv_support = 1, generate_beam_grid = True\<rparr>"

definition points_demo :: "grid_point list" where
  "points_demo = [\<lparr>gc_x = 0, gc_y = 1, kernel_array = (\<lambda>i j. of_nat (i + 3 * j)), vis_val = \<i>, vis_weight = 2\<rparr>,
     \<lparr>gc_x = 8, gc_y = 7, kernel_array = (\<lambda>i j. of_nat (i * j)), vis_val = 1, vis_weight = 1\<rparr>]"

lemma demo_grid_ok: "int (kernel_size grid_demo) \<le> image_size grid_demo"
  "image_rows grid_demo + int (conv_support grid_demo) \<le> image_size grid_demo"
  "\<forall>p \<in> set points_demo. point_ok grid_demo p"
  by (simp_all add: grid_demo_def points_demo_def kernel_size_def point_ok_def)

theorem parallel_gridder_serial_witness:
  "parallel_gridder grid_demo [2, 0, 1] points_demo (\<lambda>r c. 0, \<lambda>r c. 0) =
    serial_gridder grid_demo points_demo (\<lambda>r c. 0, \<lambda>r c. 0)"
  by (rule parallel_gridder_serial [OF demo_grid_ok(1,3)]) (simp add: grid_demo_def kernel_size_def numeral_eq_Suc)


theorem exact_gridder_serial_witness: 
  "exact_gridder grid_demo points_demo (\<lambda>r c. 0, \<lambda>r c. 0) =
    serial_gridder grid_demo points_demo (\<lambda>r c. 0, \<lambda>r c. 0)"
  by (rule exact_gridder_serial [OF demo_grid_ok])

text \<open>
  In the whole plane they differ: the oversampled gridder drops the rows above the first one, which the exact
  gridder wraps around.
\<close>

lemma oversampled_drops_rows:
  defines "P \<equiv> \<lparr>image_size = 4, image_rows = 4, conv_support = 1, generate_beam_grid = False\<rparr>"
    and "p \<equiv> \<lparr>gc_x = 0, gc_y = 0, kernel_array = (\<lambda>i j. 1), vis_val = 1, vis_weight = 1\<rparr>"
  shows "fst (exact_gridder P [p] (\<lambda>r c. 0, \<lambda>r c. 0)) 3 0 = 1"
    and "fst (serial_gridder P [p] (\<lambda>r c. 0, \<lambda>r c. 0)) 3 0 = 0"
proof -
  show "fst (exact_gridder P [p] (\<lambda>r c. 0, \<lambda>r c. 0)) 3 0 = 1"
    by (simp add: P_def p_def exact_gridder_def exact_point_def serial_columns_def kernel_size_def wrap_col_def
        exact_element_def grid_add_def upt_rec Let_def)
  show "fst (serial_gridder P [p] (\<lambda>r c. 0, \<lambda>r c. 0)) 3 0 = 0"
    by (simp add: P_def p_def serial_gridder_def serial_point_def grid_column_def row_step_def serial_columns_def
        kernel_size_def wrap_col_def grid_add_def upt_rec Let_def)
qed

end
