(* ===== verification/Gridder_Prep.thy ===== *)
theory Gridder_Prep
  imports Gridder
begin

text \<open>
  The preparation of the visibilities before gridding, \<^verbatim>\<open>src/src/stp/gridder/gridder.cpp\<close> and the
  first part of \<^verbatim>\<open>convolve_to_grid\<close>: conversion to half a plane, centres of the kernels and
  their fractions, the bounds check, the shift of the origin, and the index of the kernel in the cache. The
  conversion of a coordinate to \<^verbatim>\<open>int\<close> is exact.
\<close>

section \<open>Rounding\<close>

text \<open>\<^verbatim>\<open>rint\<close>: the nearest integer, the even one if there are two.\<close>

definition rint :: "real \<Rightarrow> int" where
  "rint x =
     (let f = \<lfloor>x\<rfloor>; d = x - of_int f
      in if d < 1 / 2 then f else if d > 1 / 2 then f + 1 else if even f then f else f + 1)"

lemma rint_error: "\<bar>x - of_int (rint x)\<bar> \<le> 1 / 2"
  unfolding rint_def Let_def by (auto simp: abs_if) linarith+

lemma rint_unique:
  assumes "\<bar>x - of_int n\<bar> \<le> 1 / 2" and "\<bar>x - of_int n\<bar> = 1 / 2 \<Longrightarrow> even n"
  shows "rint x = n"
proof -
  have "\<lfloor>x\<rfloor> = n \<or> \<lfloor>x\<rfloor> = n - 1"
    using assms(1) by linarith
  then show ?thesis
  proof
    assume f: "\<lfloor>x\<rfloor> = n"
    then have "0 \<le> x - of_int n"
      by linarith
    with f assms show ?thesis
      by (auto simp: rint_def Let_def abs_if)
  next
    assume f: "\<lfloor>x\<rfloor> = n - 1"
    then have x: "x - of_int n < 0" "x - of_int (n - 1) = x - of_int n + 1"
      by (linarith, simp)
    with assms have "x - of_int (n - 1) \<ge> 1 / 2" "x - of_int (n - 1) = 1 / 2 \<Longrightarrow> even n"
      by (auto simp: abs_if)
    with f show ?thesis
      by (auto simp: rint_def Let_def)
  qed
qed

lemma rint_tie:
  assumes "\<bar>x - of_int (rint x)\<bar> = 1 / 2"
  shows "even (rint x)"
proof -
  let ?f = "\<lfloor>x\<rfloor>"
  have f: "0 \<le> x - of_int ?f" "x - of_int ?f < 1"
    by linarith+
  consider "x - of_int ?f < 1 / 2" | "x - of_int ?f > 1 / 2" | "x - of_int ?f = 1 / 2"
    by linarith
  then show ?thesis
  proof cases
    case 1
    then have "rint x = ?f"
      by (simp add: rint_def Let_def)
    with 1 f assms show ?thesis by simp
  next
    case 2
    then have "rint x = ?f + 1"
      by (simp add: rint_def Let_def)
    with 2 f assms show ?thesis by (simp add: abs_if split: if_splits)
  next
    case 3
    then have "rint x = (if even ?f then ?f else ?f + 1)"
      by (simp add: rint_def Let_def)
    then show ?thesis by simp
  qed
qed

lemma rint_minus: "rint (- x) = - rint x"
proof (rule rint_unique)
  have eq: "\<bar>- x - of_int (- rint x)\<bar> = \<bar>x - of_int (rint x)\<bar>"
    by (simp add: abs_minus_commute)
  show "\<bar>- x - of_int (- rint x)\<bar> \<le> 1 / 2"
    unfolding eq by (rule rint_error)
  show "even (- rint x)" if "\<bar>- x - of_int (- rint x)\<bar> = 1 / 2"
    using rint_tie [of x] that unfolding eq by simp
qed

lemma rint_nonneg: "0 \<le> x \<Longrightarrow> 0 \<le> rint x"
  using rint_error [of x] by (simp add: abs_if split: if_splits)

section \<open>Half of the plane\<close>

text \<open>The arrays of the visibilities; \<open>good\<close> is 1 for each of them at first.\<close>

record vis_data =
  u_lambda :: "nat \<Rightarrow> real"
  v_lambda :: "nat \<Rightarrow> real"
  w_lambda :: "nat \<Rightarrow> real"
  vis :: "nat \<Rightarrow> complex"
  good :: "nat \<Rightarrow> nat"

definition halfplane_step :: "bool \<Rightarrow> int \<Rightarrow> nat \<Rightarrow> vis_data \<Rightarrow> vis_data" where
  "halfplane_step with_w kernel_support i d =
     (if v_lambda d i < 0 then
        let d = (if v_lambda d i > - (of_int kernel_support + 1) then d\<lparr>good := (good d)(i := 2)\<rparr> else d);
            d = d\<lparr>u_lambda := (u_lambda d)(i := - u_lambda d i), v_lambda := (v_lambda d)(i := - v_lambda d i)\<rparr>;
            d = (if with_w then d\<lparr>w_lambda := (w_lambda d)(i := - w_lambda d i)\<rparr> else d)
        in d\<lparr>vis := (vis d)(i := cnj (vis d i))\<rparr>
      else if v_lambda d i < of_int kernel_support + 1 then d\<lparr>good := (good d)(i := 2)\<rparr>
      else d)"

definition convert_to_halfplane_visibilities :: "bool \<Rightarrow> nat \<Rightarrow> int \<Rightarrow> vis_data \<Rightarrow> vis_data" where
  "convert_to_halfplane_visibilities with_w n kernel_support d =
     fold (halfplane_step with_w kernel_support) [0..<n] d"

text \<open>The visibility at an index; the step of another index does not touch it.\<close>

definition vis_at :: "vis_data \<Rightarrow> nat \<Rightarrow> real \<times> real \<times> real \<times> complex \<times> nat" where
  "vis_at d i = (u_lambda d i, v_lambda d i, w_lambda d i, vis d i, good d i)"

lemma vis_at_other: "j \<notin> set ks \<Longrightarrow> vis_at (fold (halfplane_step with_w s) ks d) j = vis_at d j"
proof (induction ks arbitrary: d)
  case (Cons k ks)
  then have "vis_at (halfplane_step with_w s k d) j = vis_at d j"
    by (simp add: vis_at_def halfplane_step_def Let_def)
  with Cons show ?case by simp
qed simp

lemma halfplane_visibility:
  assumes "i < n" and d'_def: "d' = convert_to_halfplane_visibilities with_w n s d"
    and neg_def: "neg \<longleftrightarrow> v_lambda d i < 0"
  shows "u_lambda d' i = (if neg then - u_lambda d i else u_lambda d i)"
    and "v_lambda d' i = \<bar>v_lambda d i\<bar>"
    and "w_lambda d' i = (if neg \<and> with_w then - w_lambda d i else w_lambda d i)"
    and "vis d' i = (if neg then cnj (vis d i) else vis d i)"
    and "good d' i = (if \<bar>v_lambda d i\<bar> < of_int s + 1 then 2 else good d i)"
proof -
  have split: "[0..<n] = [0..<i] @ i # [Suc i..<n]"
    using assms(1) by (metis upt_conv_Cons upt_add_eq_append le_add1 less_imp_le_nat le_add_diff_inverse zero_le)
  let ?e = "fold (halfplane_step with_w s) [0..<i] d"
  have "vis_at d' i = vis_at (halfplane_step with_w s i ?e) i"
    unfolding d'_def convert_to_halfplane_visibilities_def split by (simp add: vis_at_other)
  moreover have "vis_at ?e i = vis_at d i"
    by (simp add: vis_at_other)
  ultimately show "u_lambda d' i = (if neg then - u_lambda d i else u_lambda d i)"
    "v_lambda d' i = \<bar>v_lambda d i\<bar>"
    "w_lambda d' i = (if neg \<and> with_w then - w_lambda d i else w_lambda d i)"
    "vis d' i = (if neg then cnj (vis d i) else vis d i)"
    "good d' i = (if \<bar>v_lambda d i\<bar> < of_int s + 1 then 2 else good d i)"
    unfolding neg_def vis_at_def by (auto simp: halfplane_step_def Let_def)
qed

section \<open>Centres, bounds and cache indices\<close>

text \<open>The centre of a kernel on the grid, and how far the coordinate is from it.\<close>

definition grid_centre :: "int \<Rightarrow> real \<Rightarrow> int" where
  "grid_centre half_image_size x = rint x + half_image_size"

definition uv_frac :: "real \<Rightarrow> real" where
  "uv_frac x = x - of_int (rint x)"

definition out_of_bounds :: "int \<Rightarrow> int \<Rightarrow> int \<times> int \<Rightarrow> bool" where
  "out_of_bounds N support = (\<lambda>(kc_x, kc_y).
     kc_x - support \<le> 0 \<or> kc_y - support \<le> 0 \<or> kc_x + support \<ge> N \<or> kc_y + support \<ge> N)"

definition bounds_check_kernel_centre_locations ::
  "nat \<Rightarrow> (nat \<Rightarrow> int \<times> int) \<Rightarrow> int \<Rightarrow> int \<Rightarrow> (nat \<Rightarrow> nat) \<Rightarrow> nat \<Rightarrow> nat"
where
  "bounds_check_kernel_centre_locations n kernel_centre_on_grid N support gv =
     fold (\<lambda>i gv. if out_of_bounds N support (kernel_centre_on_grid i) then gv(i := 0) else gv) [0..<n] gv"

lemma bounds_check_good:
  "i < n \<Longrightarrow> bounds_check_kernel_centre_locations n kc N s gv i = (if out_of_bounds N s (kc i) then 0 else gv i)"
proof -
  have "fold (\<lambda>i gv. if out_of_bounds N s (kc i) then gv(i := 0) else gv) ks gv i =
      (if i \<in> set ks \<and> out_of_bounds N s (kc i) then 0 else gv i)" for ks
    by (induction ks arbitrary: gv) auto
  then show "i < n \<Longrightarrow> ?thesis"
    by (simp add: bounds_check_kernel_centre_locations_def)
qed

definition shift_centre :: "int \<Rightarrow> int \<times> int \<Rightarrow> int \<times> int" where
  "shift_centre shift_offset = (\<lambda>(x, y).
     (if x < shift_offset then x + shift_offset else x - shift_offset,
      if y < shift_offset then y + shift_offset else y - shift_offset))"

definition calculate_oversampled_kernel_index :: "nat \<Rightarrow> real \<Rightarrow> int" where
  "calculate_oversampled_kernel_index oversampling subpixel_coord =
     (let range_max = int (oversampling div 2);
          range_min = - 1 * range_max;
          val = rint (subpixel_coord * real oversampling)
      in if val > range_max then range_max else if val < range_min then range_min else val)"

lemma oversampled_index_range:
  "- int (os div 2) \<le> calculate_oversampled_kernel_index os x" "calculate_oversampled_kernel_index os x \<le> int (os div 2)"
  by (auto simp: calculate_oversampled_kernel_index_def Let_def)

lemma oversampled_index_minus: "calculate_oversampled_kernel_index os (- x) = - calculate_oversampled_kernel_index os x"
  by (simp add: calculate_oversampled_kernel_index_def Let_def rint_minus)

lemma uv_frac_minus: "uv_frac (- x) = - uv_frac x"
  by (simp add: uv_frac_def rint_minus)

text \<open>The index is the one of the nearest oversampled pixel: with an even oversampling no index is cut off.\<close>

lemma oversampled_index_nearest:
  assumes "even os" and "\<bar>x\<bar> \<le> 1 / 2"
  shows "\<bar>x * real os - of_int (calculate_oversampled_kernel_index os x)\<bar> \<le> 1 / 2"
proof -
  obtain k where k: "os = 2 * k"
    using assms(1) by blast
  have "\<bar>x * real os\<bar> \<le> real k"
    using mult_right_mono [OF assms(2), of "real os"] by (simp add: k abs_mult)
  then have "rint (x * real os) \<le> int k" "- int k \<le> rint (x * real os)"
    using rint_error [of "x * real os"] by (simp_all add: abs_if split: if_splits)
  then have "calculate_oversampled_kernel_index os x = rint (x * real os)"
    by (simp add: calculate_oversampled_kernel_index_def k)
  then show ?thesis
    using rint_error [of "x * real os"] by simp
qed

end
