(* ===== verification/Conv_Func.thy ===== *)
theory Conv_Func
  imports Gridder
begin

text \<open>
  The convolution kernels of \<^verbatim>\<open>src/src/stp/convolution\<close>: the kernel functions, which the code applies
  to the elements of a vector, the kernel arrays made from them, and the cache of
  kernels of \<^verbatim>\<open>gridder.h\<close>. A vector is a list.
\<close>

section \<open>Kernel functions\<close>

text \<open>\<open>result.elem(find(abs(radius) > trunc)).zeros()\<close>, done if the truncation is positive.\<close>

definition truncated :: "real \<Rightarrow> real \<Rightarrow> real \<Rightarrow> real" where
  "truncated trunc radius result = (if trunc > 0 \<and> \<bar>radius\<bar> > trunc then 0 else result)"

definition triangle_kernel :: "real \<Rightarrow> real \<Rightarrow> real" where
  "triangle_kernel half_base_width radius = max (1 - \<bar>radius\<bar> / half_base_width) 0"

definition tophat_kernel :: "real \<Rightarrow> real \<Rightarrow> real" where
  "tophat_kernel half_base_width radius = (if \<bar>radius\<bar> < half_base_width then 1 else 0)"

definition sinc_kernel :: "real \<Rightarrow> real \<Rightarrow> real \<Rightarrow> real" where
  "sinc_kernel trunc width_normalization radius =
     (let x = radius * (pi / width_normalization);
          x = (if x = 0 then 1 / 10 ^ 20 else x)
      in truncated trunc radius (sin x / x))"

definition gaussian_kernel :: "real \<Rightarrow> real \<Rightarrow> real \<Rightarrow> real" where
  "gaussian_kernel trunc width_normalization radius =
     truncated trunc radius (exp (- 1 / (width_normalization * width_normalization) * radius\<^sup>2))"

definition gaussian_sinc_kernel :: "real \<Rightarrow> real \<Rightarrow> real \<Rightarrow> real \<Rightarrow> real" where
  "gaussian_sinc_kernel trunc width_gaussian width_sinc radius =
     truncated trunc radius (gaussian_kernel 0 width_gaussian radius * sinc_kernel 0 width_sinc radius)"

text \<open>The rational approximation of the spheroidal function.\<close>

definition grdsf_p :: "nat \<Rightarrow> real list" where
  "grdsf_p part =
     (if part = 0 then [0.08203343, - 0.3644705, 0.6278660, - 0.5335581, 0.2312756]
      else [0.004028559, - 0.03697768, 0.1021332, - 0.1201436, 0.06412774])"

definition grdsf_q :: "nat \<Rightarrow> real list" where
  "grdsf_q part = (if part = 0 then [1, 0.8212018, 0.2078043] else [1, 0.9599102, 0.2918724])"

definition grdsf_sum :: "real list \<Rightarrow> real \<Rightarrow> real" where
  "grdsf_sum coefs delnusq = fold (\<lambda>k acc. acc + coefs ! k * delnusq ^ k) [1..<length coefs] (coefs ! 0)"

definition grdsf :: "real \<Rightarrow> real" where
  "grdsf nu0 =
     (let nu = \<bar>nu0\<bar>;
          (part, nuend) =
            (if 0 \<le> nu \<and> nu < 0.75 then (0, 0.75)
             else if 0.75 \<le> nu \<and> nu \<le> 1 then (1, 1)
             else (0::nat, 0::real));
          delnusq = nu ^ 2 - nuend ^ 2;
          top = grdsf_sum (grdsf_p part) delnusq;
          bot = grdsf_sum (grdsf_q part) delnusq
      in if bot > 0 then top / bot else if \<bar>nu\<bar> > 1 then 0 else 0)"

definition pswf_kernel :: "real \<Rightarrow> real \<Rightarrow> real" where
  "pswf_kernel trunc radius =
     (let nu = radius / trunc in truncated trunc radius (grdsf nu * (1 - nu ^ 2)))"

text \<open>Grid correction functions; None where the code asserts that it is not called.\<close>

definition sinc_gcf :: "real \<Rightarrow> real \<Rightarrow> real" where
  "sinc_gcf width_normalization radius = (if \<bar>radius\<bar> < 1 * width_normalization then 1 else 0)"

definition gaussian_gcf :: "real \<Rightarrow> real \<Rightarrow> real" where
  "gaussian_gcf width_normalization radius = exp (- 1 * (radius * pi / (width_normalization * 2))\<^sup>2)"

definition pswf_gcf :: "real \<Rightarrow> real" where
  "pswf_gcf radius = grdsf radius"

text \<open>A kernel creator: its kernel function and its grid correction function.\<close>

record kernel_creator =
  kernel_fun :: "real \<Rightarrow> real"
  kernel_gcf :: "(real \<Rightarrow> real) option"

definition TopHat_creator :: "real \<Rightarrow> kernel_creator" where
  "TopHat_creator half_base_width = \<lparr>kernel_fun = tophat_kernel half_base_width, kernel_gcf = None\<rparr>"

definition Triangle_creator :: "real \<Rightarrow> kernel_creator" where
  "Triangle_creator half_base_width = \<lparr>kernel_fun = triangle_kernel half_base_width, kernel_gcf = None\<rparr>"

definition Sinc_creator :: "real \<Rightarrow> real \<Rightarrow> kernel_creator" where
  "Sinc_creator trunc width = \<lparr>kernel_fun = sinc_kernel trunc width, kernel_gcf = Some (sinc_gcf width)\<rparr>"

definition Gaussian_creator :: "real \<Rightarrow> real \<Rightarrow> kernel_creator" where
  "Gaussian_creator trunc width = \<lparr>kernel_fun = gaussian_kernel trunc width, kernel_gcf = Some (gaussian_gcf width)\<rparr>"

definition GaussianSinc_creator :: "real \<Rightarrow> real \<Rightarrow> real \<Rightarrow> kernel_creator" where
  "GaussianSinc_creator trunc width_gaussian width_sinc =
     \<lparr>kernel_fun = gaussian_sinc_kernel trunc width_gaussian width_sinc, kernel_gcf = None\<rparr>"

definition PSWF_creator :: "real \<Rightarrow> kernel_creator" where
  "PSWF_creator trunc = \<lparr>kernel_fun = pswf_kernel trunc, kernel_gcf = Some pswf_gcf\<rparr>"

section \<open>Kernel arrays\<close>

definition linspace0 :: "nat \<Rightarrow> real list" where
  "linspace0 n = map real [0..<n]"

text \<open>The distances of the samples from the centre.\<close>

definition distance_vec :: "nat \<Rightarrow> nat \<Rightarrow> bool \<Rightarrow> real list" where
  "distance_vec support oversampling pad =
     (let localPad = (if pad then 1 else 0);
          array_size = 2 * (support + localPad) * oversampling + 1;
          centre_idx = (support + localPad) * oversampling
      in map (\<lambda>x. (x - real centre_idx) / real oversampling) (linspace0 array_size))"

definition make_1D_kernel :: "(real \<Rightarrow> real) \<Rightarrow> nat \<Rightarrow> real \<Rightarrow> nat \<Rightarrow> bool \<Rightarrow> bool \<Rightarrow> real list" where
  "make_1D_kernel kern support offset oversampling pad normed =
     (let result = map (\<lambda>x. kern (x - offset)) (distance_vec support oversampling pad)
      in if normed then map (\<lambda>x. x / sum_list result) result else result)"

definition make_kernel_array ::
  "(real \<Rightarrow> real) \<Rightarrow> nat \<Rightarrow> real \<times> real \<Rightarrow> nat \<Rightarrow> bool \<Rightarrow> bool \<Rightarrow> real mat"
where
  "make_kernel_array kern support = (\<lambda>(offset_x, offset_y) oversampling pad normed.
     let distance = distance_vec support oversampling pad;
         x_kernel_coeffs = map (\<lambda>x. kern (x - offset_x)) distance;
         y_kernel_coeffs = map (\<lambda>x. kern (x - offset_y)) distance;
         n = length distance;
         accu = (\<Sum>j<n. \<Sum>i<n. y_kernel_coeffs ! i * x_kernel_coeffs ! j)
     in \<lparr>n_rows = n, n_cols = n,
         elt = (\<lambda>i j. if normed then y_kernel_coeffs ! i * x_kernel_coeffs ! j / accu
                      else y_kernel_coeffs ! i * x_kernel_coeffs ! j)\<rparr>)"

text \<open>The cache of kernels at the oversampled offsets, by the index of the row offset and of the column offset.\<close>

definition cache_offset :: "nat \<Rightarrow> nat \<Rightarrow> real" where
  "cache_offset oversampling i = (real i - real (oversampling div 2)) / real oversampling"

text \<open>Entry \<open>(j, i)\<close> from two one-dimensional kernels, and its transpose at \<open>(i, j)\<close>.\<close>

definition cache_step :: "(nat \<Rightarrow> real list) \<Rightarrow> nat \<Rightarrow> nat \<Rightarrow> kernel_cache \<Rightarrow> kernel_cache" where
  "cache_step kernel1D_cache i j cache =
     (let cache = cache(j := (cache j)(i := (\<lambda>jj ii. of_real (kernel1D_cache j ! jj * kernel1D_cache i ! ii))))
      in if i \<noteq> j then cache(i := (cache i)(j := (\<lambda>r c. cache j i c r))) else cache)"

definition populate_kernel_cache :: "(real \<Rightarrow> real) \<Rightarrow> nat \<Rightarrow> nat \<Rightarrow> bool \<Rightarrow> bool \<Rightarrow> kernel_cache" where
  "populate_kernel_cache kern support oversampling pad normed =
     (let cache_size = oversampling div 2 * 2 + 1;
          kernel1D_cache = (\<lambda>i. make_1D_kernel kern support (cache_offset oversampling i) 1 pad normed)
      in fold (\<lambda>i. fold (cache_step kernel1D_cache i) [0..<i + 1]) [0..<cache_size] (\<lambda>j i r c. 0))"

section \<open>Symmetry\<close>

definition even_kernel :: "(real \<Rightarrow> real) \<Rightarrow> bool" where
  "even_kernel kern \<longleftrightarrow> (\<forall>x. kern (- x) = kern x)"

lemma truncated_even: "truncated trunc (- radius) = truncated trunc radius"
  by (simp add: truncated_def fun_eq_iff)

lemma sinc_even: "sinc_kernel trunc width (- x) = sinc_kernel trunc width x"
  by (simp add: sinc_kernel_def Let_def truncated_even)

lemma gaussian_even: "gaussian_kernel trunc width (- x) = gaussian_kernel trunc width x"
  by (simp add: gaussian_kernel_def truncated_even)

lemma creators_even:
  "even_kernel (kernel_fun (TopHat_creator h))" "even_kernel (kernel_fun (Triangle_creator h))"
  "even_kernel (kernel_fun (Sinc_creator t w))" "even_kernel (kernel_fun (Gaussian_creator t w))"
  "even_kernel (kernel_fun (GaussianSinc_creator t w w'))" "even_kernel (kernel_fun (PSWF_creator t))"
  unfolding even_kernel_def TopHat_creator_def Triangle_creator_def Sinc_creator_def Gaussian_creator_def
    GaussianSinc_creator_def PSWF_creator_def kernel_creator.select_convs
  by (simp_all add: tophat_kernel_def triangle_kernel_def sinc_even gaussian_even gaussian_sinc_kernel_def pswf_kernel_def
      truncated_even grdsf_def Let_def)


text \<open>The kernels that the gridders use: no oversampling of the array itself, no padding.\<close>

lemma distance_vec_unit: "distance_vec s 1 False = map (\<lambda>i. real i - real s) [0..<2 * s + 1]"
  by (simp add: distance_vec_def linspace0_def Let_def comp_def del: upt_Suc)

definition kernel_sum :: "(real \<Rightarrow> real) \<Rightarrow> nat \<Rightarrow> real \<Rightarrow> real" where
  "kernel_sum kern s offset = (\<Sum>i<2 * s + 1. kern (real i - real s - offset))"

lemma make_1D_kernel_unit:
  assumes "i < 2 * s + 1"
  shows "make_1D_kernel kern s offset 1 False True ! i = kern (real i - real s - offset) / kernel_sum kern s offset"
  using assms unfolding make_1D_kernel_def Let_def distance_vec_unit kernel_sum_def
  by (simp add: comp_def interv_sum_list_conv_sum_set_nat atLeast0LessThan del: upt_Suc)

lemma make_kernel_array_unit:
  assumes "i < 2 * s + 1" and "j < 2 * s + 1"
  shows "elt (make_kernel_array kern s (ox, oy) 1 False True) i j =
    kern (real i - real s - oy) / kernel_sum kern s oy * (kern (real j - real s - ox) / kernel_sum kern s ox)"
proof -
  let ?n = "2 * s + 1"
  have "(\<Sum>j<?n. \<Sum>i<?n. map (\<lambda>i. kern (real i - real s - oy)) [0..<?n] ! i * map (\<lambda>i. kern (real i - real s - ox)) [0..<?n] ! j) =
      (\<Sum>j<?n. \<Sum>i<?n. kern (real i - real s - oy) * kern (real j - real s - ox))"
    by (intro sum.cong refl) (simp del: upt_Suc)
  also have "\<dots> = (\<Sum>i<?n. \<Sum>j<?n. kern (real i - real s - oy) * kern (real j - real s - ox))"
    by (rule sum.swap)
  also have "\<dots> = kernel_sum kern s oy * kernel_sum kern s ox"
    unfolding kernel_sum_def by (rule sum_product [symmetric])
  finally show ?thesis
    using assms unfolding make_kernel_array_def prod.case Let_def distance_vec_unit map_map comp_def length_map length_upt
    by (simp del: upt_Suc)
qed

section \<open>The cache\<close>

lemma cache_offset_mirror: "even os \<Longrightarrow> a \<le> os \<Longrightarrow> cache_offset os (os - a) = - cache_offset os a"
  by (auto simp: cache_offset_def of_nat_diff minus_divide_left elim!: evenE)

lemma kernel_sum_mirror:
  assumes "even_kernel kern"
  shows "kernel_sum kern s (- offset) = kernel_sum kern s offset"
proof -
  have "kernel_sum kern s (- offset) = (\<Sum>i<2 * s + 1. kern (real (2 * s + 1 - Suc i) - real s - (- offset)))"
    unfolding kernel_sum_def by (rule sum.nat_diff_reindex [symmetric])
  also have "\<dots> = kernel_sum kern s offset"
    unfolding kernel_sum_def
  proof (rule sum.cong [OF refl])
    fix i
    assume "i \<in> {..<2 * s + 1}"
    then have "real (2 * s + 1 - Suc i) - real s - (- offset) = - (real i - real s - offset)"
      by (simp add: of_nat_diff)
    then show "kern (real (2 * s + 1 - Suc i) - real s - (- offset)) = kern (real i - real s - offset)"
      using assms unfolding even_kernel_def by metis
  qed
  finally show ?thesis .
qed

definition outer_kernel :: "(nat \<Rightarrow> real list) \<Rightarrow> nat \<Rightarrow> nat \<Rightarrow> nat \<Rightarrow> nat \<Rightarrow> complex" where
  "outer_kernel k1 a b = (\<lambda>r c. of_real (k1 a ! r * k1 b ! c))"

lemma outer_kernel_transpose: "(\<lambda>r c. outer_kernel k1 a b c r) = outer_kernel k1 b a"
  by (simp add: outer_kernel_def fun_eq_iff)

text \<open>What is filled in after \<open>i\<close> rounds of the outer loop and \<open>j\<close> of the inner one.\<close>

definition cache_filled :: "(nat \<Rightarrow> real list) \<Rightarrow> nat \<Rightarrow> nat \<Rightarrow> kernel_cache \<Rightarrow> bool" where
  "cache_filled k1 i j cache \<longleftrightarrow> (\<forall>a b. a < i \<and> b < i \<or> a = i \<and> b < j \<or> b = i \<and> a < j \<longrightarrow> cache a b = outer_kernel k1 a b)"

lemma cache_step_filled:
  assumes "cache_filled k1 i j cache" and "j \<le> i"
  shows "cache_filled k1 i (Suc j) (cache_step k1 i j cache)"
proof -
  have "cache_step k1 i j cache a b =
      (if a = i \<and> b = j \<or> a = j \<and> b = i then outer_kernel k1 a b else cache a b)" for a b
    by (auto simp: cache_step_def Let_def outer_kernel_def fun_eq_iff)
  then show ?thesis
    using assms by (auto simp: cache_filled_def less_Suc_eq)
qed

lemma cache_row_filled:
  "cache_filled k1 i 0 cache \<Longrightarrow> cache_filled k1 (Suc i) 0 (fold (cache_step k1 i) [0..<i + 1] cache)"
proof -
  assume "cache_filled k1 i 0 cache"
  then have "cache_filled k1 i (i + 1) (fold (cache_step k1 i) [0..<i + 1] cache)"
    by (intro fold_upt_invariant [where P = "cache_filled k1 i"] cache_step_filled) simp_all
  then show ?thesis
    by (auto simp: cache_filled_def less_Suc_eq)
qed

lemma cache_all_filled: "cache_filled k1 n 0 (fold (\<lambda>i. fold (cache_step k1 i) [0..<i + 1]) [0..<n] cache)"
proof (rule fold_upt_invariant [where P = "\<lambda>i. cache_filled k1 i 0"])
  show "cache_filled k1 0 0 cache"
    by (simp add: cache_filled_def)
qed (rule le0, rule cache_row_filled)

lemma populate_kernel_cache_entry:
  assumes "a < os div 2 * 2 + 1" and "b < os div 2 * 2 + 1"
  shows "populate_kernel_cache kern s os False True a b =
    outer_kernel (\<lambda>i. make_1D_kernel kern s (cache_offset os i) 1 False True) a b"
  using cache_all_filled [of "\<lambda>i. make_1D_kernel kern s (cache_offset os i) 1 False True" "os div 2 * 2 + 1" "\<lambda>j i r c. 0"] assms
  unfolding populate_kernel_cache_def Let_def cache_filled_def by blast

lemma populate_kernel_cache_value:
  assumes "a < os div 2 * 2 + 1" and "b < os div 2 * 2 + 1" and "i < 2 * s + 1" and "j < 2 * s + 1"
  shows "populate_kernel_cache kern s os False True a b i j =
    of_real (kern (real i - real s - cache_offset os a) / kernel_sum kern s (cache_offset os a) *
      (kern (real j - real s - cache_offset os b) / kernel_sum kern s (cache_offset os b)))"
  unfolding populate_kernel_cache_entry [OF assms(1,2)] outer_kernel_def make_1D_kernel_unit [OF assms(3)]
    make_1D_kernel_unit [OF assms(4)] by (rule refl)

lemma kernel_mirror:
  assumes "even_kernel kern" and "i < 2 * s + 1"
  shows "kern (real (2 * s - i) - real s - (- offset)) = kern (real i - real s - offset)"
proof -
  have "real (2 * s - i) - real s - (- offset) = - (real i - real s - offset)"
    using assms(2) by (simp add: of_nat_diff)
  then show ?thesis
    using assms(1) unfolding even_kernel_def by metis
qed

lemma populate_kernel_cache_mirror:
  assumes "even_kernel kern" and "even os" and "a \<le> os" and "b \<le> os" and "i < 2 * s + 1" and "j < 2 * s + 1"
  shows "populate_kernel_cache kern s os False True (os - a) (os - b) (2 * s - i) (2 * s - j) =
    populate_kernel_cache kern s os False True a b i j"
proof -
  have "os div 2 * 2 + 1 = os + 1"
    using assms(2) by simp
  then have "populate_kernel_cache kern s os False True (os - a) (os - b) (2 * s - i) (2 * s - j) =
      of_real (kern (real (2 * s - i) - real s - cache_offset os (os - a)) / kernel_sum kern s (cache_offset os (os - a)) *
        (kern (real (2 * s - j) - real s - cache_offset os (os - b)) / kernel_sum kern s (cache_offset os (os - b))))"
    by (intro populate_kernel_cache_value) simp_all
  then show ?thesis
    using assms \<open>os div 2 * 2 + 1 = os + 1\<close>
    by (simp only: cache_offset_mirror kernel_sum_mirror kernel_mirror) (simp add: populate_kernel_cache_value)
qed

text \<open>C29. The kernels of the cache are the exact kernels at the oversampled offsets, of sum 1, and those of opposite
  offsets are mirror images of each other.\<close>

theorem kernel_cache_exact:
  assumes "even_kernel kern" and "even os" and "a \<le> os" and "b \<le> os" and "i < 2 * s + 1" and "j < 2 * s + 1"
    and "kernel_sum kern s (cache_offset os a) \<noteq> 0" and "kernel_sum kern s (cache_offset os b) \<noteq> 0"
  shows "populate_kernel_cache kern s os False True a b i j =
      of_real (elt (make_kernel_array kern s (cache_offset os b, cache_offset os a) 1 False True) i j) \<and>
    (\<Sum>i<2 * s + 1. \<Sum>j<2 * s + 1. populate_kernel_cache kern s os False True a b i j) = 1 \<and>
    populate_kernel_cache kern s os False True (os - a) (os - b) (2 * s - i) (2 * s - j) =
      populate_kernel_cache kern s os False True a b i j"
proof -
  let ?n = "2 * s + 1"
  have n: "os div 2 * 2 + 1 = os + 1"
    using assms(2) by simp
  have ab: "a < os div 2 * 2 + 1" "b < os div 2 * 2 + 1"
    using assms n by simp_all
  have "(\<Sum>i<?n. kern (real i - real s - o') / kernel_sum kern s o') = 1" if "kernel_sum kern s o' \<noteq> 0" for o'
    using that by (simp add: kernel_sum_def flip: sum_divide_distrib)
  note one = this [OF assms(7)] this [OF assms(8)]
  have "(\<Sum>i<?n. \<Sum>j<?n. populate_kernel_cache kern s os False True a b i j) =
      (\<Sum>i<?n. \<Sum>j<?n. of_real (kern (real i - real s - cache_offset os a) / kernel_sum kern s (cache_offset os a) *
        (kern (real j - real s - cache_offset os b) / kernel_sum kern s (cache_offset os b))))"
    by (intro sum.cong refl populate_kernel_cache_value ab) auto
  also have "\<dots> = of_real ((\<Sum>i<?n. kern (real i - real s - cache_offset os a) / kernel_sum kern s (cache_offset os a)) *
      (\<Sum>j<?n. kern (real j - real s - cache_offset os b) / kernel_sum kern s (cache_offset os b)))"
    unfolding sum_product by simp
  also have "\<dots> = 1"
    unfolding one by simp
  finally show ?thesis
    using populate_kernel_cache_value [OF ab assms(5,6)] make_kernel_array_unit [OF assms(5,6)]
      populate_kernel_cache_mirror [OF assms(1-6)] by simp
qed

theorem kernel_cache_exact_witness:
  "populate_kernel_cache (triangle_kernel 2) 1 4 False True 3 1 0 2 =
    of_real (elt (make_kernel_array (triangle_kernel 2) 1 (cache_offset 4 1, cache_offset 4 3) 1 False True) 0 2)"
proof -
  have "kernel_sum (triangle_kernel 2) 1 (cache_offset 4 3) \<noteq> 0" "kernel_sum (triangle_kernel 2) 1 (cache_offset 4 1) \<noteq> 0"
    by (simp_all add: kernel_sum_def triangle_kernel_def cache_offset_def lessThan_nat_numeral lessThan_Suc)
  from kernel_cache_exact [OF creators_even(2) [unfolded Triangle_creator_def kernel_creator.select_convs] _ _ _ _ _ this, of 0 2]
  show ?thesis by simp
qed

end
