(* ===== verification/Convolve.thy ===== *)
theory Convolve
  imports Gridder_Prep Conv_Func
begin

text \<open>
  The composition of \<^verbatim>\<open>convolve_to_grid\<close>: the preparation of the visibilities, the planes
  with their kernels, and the gridding. The grid of half of the plane is shown to be half of the
  grid of all visibilities together with their conjugates.
\<close>

section \<open>Preparation\<close>

text \<open>The arrays after the conversion to half a plane, the bounds check and the shift; and the fractions.\<close>

definition prepare_visibilities ::
  "bool \<Rightarrow> bool \<Rightarrow> bool \<Rightarrow> nat \<Rightarrow> int \<Rightarrow> nat \<Rightarrow> nat \<Rightarrow> vis_data \<Rightarrow> (nat \<Rightarrow> real) \<Rightarrow> vis_arrays \<times> (nat \<Rightarrow> real \<times> real)"
where
  "prepare_visibilities use_wproj halfplane_gridding shift_uv n N support oversampling d weights =
     (let half_image_size = N div 2;
          d = (if halfplane_gridding then convert_to_halfplane_visibilities use_wproj n (int support) d else d);
          fracs = (\<lambda>i. (uv_frac (u_lambda d i), uv_frac (v_lambda d i)));
          kc = (\<lambda>i. (grid_centre half_image_size (u_lambda d i), grid_centre half_image_size (v_lambda d i)));
          good_vis = bounds_check_kernel_centre_locations n kc N (int support) (good d);
          kc = (if shift_uv then (\<lambda>i. shift_centre half_image_size (kc i)) else kc)
      in (\<lparr>kernel_centre = kc,
           oversampled_offset = (\<lambda>i.
             (calculate_oversampled_kernel_index oversampling (fst (fracs i)) + int (oversampling div 2),
              calculate_oversampled_kernel_index oversampling (snd (fracs i)) + int (oversampling div 2))),
           vis_values = vis d, vis_weights = weights, good_vis = good_vis, w_values = w_lambda d\<rparr>, fracs))"

text \<open>The sum of the weights of the visibilities that are gridded, doubled.\<close>

definition sample_grid_total :: "nat \<Rightarrow> vis_arrays \<Rightarrow> real" where
  "sample_grid_total n A = fold (\<lambda>i t. if good_vis A i \<noteq> 0 then t + vis_weights A i else t) [0..<n] 0 * 2"

text \<open>A multiple of 2, or 1.\<close>

definition even_oversampling :: "bool \<Rightarrow> nat \<Rightarrow> nat" where
  "even_oversampling kernel_exact oversampling =
     (if kernel_exact then 1
      else let os = oversampling div 2 * 2 in if os = 0 then 1 else os)"

section \<open>Planes\<close>

text \<open>A plane: its first visibility and the one behind its last, its kernels, and their support.\<close>

record grid_plane =
  vi_begin :: nat
  vi_end :: nat
  plane_cache :: kernel_cache
  plane_support :: nat

definition plane_pars :: "int \<Rightarrow> int \<Rightarrow> bool \<Rightarrow> grid_plane \<Rightarrow> grid_pars" where
  "plane_pars N rows beam pl =
     \<lparr>image_size = N, image_rows = rows, conv_support = plane_support pl, generate_beam_grid = beam\<rparr>"

definition grid_planes ::
  "int \<Rightarrow> int \<Rightarrow> bool \<Rightarrow> nat \<Rightarrow> bool \<Rightarrow> (nat \<Rightarrow> nat list) \<Rightarrow> vis_arrays \<Rightarrow> grid_plane list \<Rightarrow> grids"
where
  "grid_planes N rows beam oversampling use_wproj rbegins A planes =
     fold (\<lambda>(pi, pl). parallel_gridder (plane_pars N rows beam pl) (rbegins pi)
         (vis_points N oversampling use_wproj (plane_cache pl) A (vi_begin pl) (vi_end pl)))
       (zip [0..<length planes] planes) (\<lambda>r c. 0, \<lambda>r c. 0)"

section \<open>Placements on the torus\<close>

text \<open>What a kernel around \<open>(y, x)\<close> adds at \<open>(r, c)\<close>, rows and columns taken modulo the image size.\<close>

definition torus_term :: "int \<Rightarrow> nat \<Rightarrow> (nat \<Rightarrow> nat \<Rightarrow> complex) \<Rightarrow> int \<Rightarrow> int \<Rightarrow> nat \<Rightarrow> nat \<Rightarrow> complex" where
  "torus_term N s K y x r c = (\<Sum>j<2 * s + 1. \<Sum>i<2 * s + 1.
     if (x - int s + int j) mod N = int c \<and> (y - int s + int i) mod N = int r then K i j else 0)"

lemma wrap_col_mod:
  assumes "- image_size P \<le> g" and "g < 2 * image_size P"
  shows "wrap_col P g = g mod image_size P"
proof -
  consider "g < 0" | "0 \<le> g" "g < image_size P" | "image_size P \<le> g"
    by linarith
  then show ?thesis
  proof cases
    case 1
    then have "g mod image_size P = (g + image_size P) mod image_size P"
      by simp
    also have "\<dots> = g + image_size P"
      using 1 assms by (intro mod_pos_pos_trivial) linarith+
    finally show ?thesis
      using 1 by (simp add: wrap_col_def)
  next
    case 2
    then show ?thesis
      by (simp add: wrap_col_def mod_pos_pos_trivial)
  next
    case 3
    then have "g mod image_size P = (g - image_size P) mod image_size P"
      by simp
    also have "\<dots> = g - image_size P"
      using 3 assms by (intro mod_pos_pos_trivial) linarith+
    finally show ?thesis
      using 3 assms by (simp add: wrap_col_def)
  qed
qed

lemma point_term_torus:
  assumes ok: "point_ok P p" and ks: "int (kernel_size P) \<le> image_size P" and c: "int c < image_size P"
    and rows: "\<And>i. i < kernel_size P \<Longrightarrow>
      hit_row P p i = Some r \<longleftrightarrow> (y - int (conv_support P) + int i) mod image_size P = int r"
    and x: "gc_x p mod image_size P = x mod image_size P"
  shows "point_term P p r c = of_real (vis_weight p) * torus_term (image_size P) (conv_support P) (kernel_array p) y x r c"
proof -
  let ?s = "int (conv_support P)" and ?N = "image_size P"
  have ks_eq: "kernel_size P = 2 * conv_support P + 1"
    by (simp add: kernel_size_def)
  have col: "nat (wrap_col P (gc_x p - ?s + int j)) = c \<longleftrightarrow> (x - ?s + int j) mod ?N = int c" if "j < kernel_size P" for j
  proof -
    have "wrap_col P (gc_x p - ?s + int j) = (gc_x p - ?s + int j) mod ?N"
      using ok ks that by (intro wrap_col_mod) (auto simp: point_ok_def kernel_size_def)
    also have "\<dots> = (x - ?s + int j) mod ?N"
      using mod_add_cong [OF x refl [of "(int j - ?s) mod ?N"]] by (simp add: algebra_simps)
    finally have "wrap_col P (gc_x p - ?s + int j) = (x - ?s + int j) mod ?N" .
    moreover have "0 \<le> (x - ?s + int j) mod ?N"
      using c by (intro pos_mod_sign) linarith
    ultimately show ?thesis
      by auto
  qed
  have "point_term P p r c = (\<Sum>j<kernel_size P. if nat (wrap_col P (gc_x p - ?s + int j)) = c then column_term P p j r else 0)"
    by (simp add: point_term_def serial_columns_def comp_def interv_sum_list_conv_sum_set_nat atLeast0LessThan)
  also have "\<dots> = (\<Sum>j<kernel_size P. \<Sum>i<kernel_size P. of_real (vis_weight p) *
      (if (x - ?s + int j) mod ?N = int c \<and> (y - ?s + int i) mod ?N = int r then kernel_array p i j else 0))"
    unfolding column_term_def by (intro sum.cong refl) (auto simp: col rows intro!: sum.cong)
  also have "\<dots> = of_real (vis_weight p) * torus_term ?N (conv_support P) (kernel_array p) y x r c"
    unfolding torus_term_def ks_eq by (simp only: sum_distrib_left)
  finally show ?thesis .
qed


section \<open>The placement of a visibility\<close>

text \<open>
  A visibility \<open>(u, v, w, V)\<close>; its kernel, from the fractions of its coordinates and the sign of its w; and what it
  adds, on its own and together with its conjugate at the opposite place.
\<close>

type_synonym visibility = "real \<times> real \<times> real \<times> complex"

definition conjugate_vis :: "visibility \<Rightarrow> visibility" where
  "conjugate_vis = (\<lambda>(u, v, w, V). (- u, - v, - w, cnj V))"

definition vis_kernel :: "nat \<Rightarrow> bool \<Rightarrow> kernel_cache \<Rightarrow> visibility \<Rightarrow> nat \<Rightarrow> nat \<Rightarrow> complex" where
  "vis_kernel os use_wproj cache = (\<lambda>(u, v, w, V).
     let K = cache (nat (calculate_oversampled_kernel_index os (uv_frac v) + int (os div 2)))
           (nat (calculate_oversampled_kernel_index os (uv_frac u) + int (os div 2)))
     in if use_wproj \<and> w < 0 then (\<lambda>i j. cnj (K i j)) else K)"

type_synonym vis_kernels = "visibility \<Rightarrow> nat \<Rightarrow> nat \<Rightarrow> complex"

definition vis_term :: "int \<Rightarrow> vis_kernels \<Rightarrow> nat \<Rightarrow> visibility \<Rightarrow> nat \<Rightarrow> nat \<Rightarrow> complex" where
  "vis_term N K s = (\<lambda>(u, v, w, V) r c. V * torus_term N s (K (u, v, w, V)) (rint v) (rint u) r c)"

definition sym_term :: "int \<Rightarrow> vis_kernels \<Rightarrow> nat \<Rightarrow> visibility \<Rightarrow> nat \<Rightarrow> nat \<Rightarrow> complex" where
  "sym_term N K s q r c = vis_term N K s q r c + vis_term N K s (conjugate_vis q) r c"

lemma sym_term_conjugate: "sym_term N K s (conjugate_vis q) r c = sym_term N K s q r c"
  by (cases q) (simp add: sym_term_def conjugate_vis_def add.commute)

text \<open>The same for the sampling grid, on which every visibility counts as 1.\<close>

definition unit_vis :: "visibility \<Rightarrow> visibility" where
  "unit_vis = (\<lambda>(u, v, w, V). (u, v, w, 1))"

definition centre_in_bounds :: "int \<Rightarrow> nat \<Rightarrow> visibility \<Rightarrow> bool" where
  "centre_in_bounds N support = (\<lambda>(u, v, w, V). \<bar>rint u\<bar> < N div 2 - int support \<and> \<bar>rint v\<bar> < N div 2 - int support)"

definition vis_of :: "vis_data \<Rightarrow> nat \<Rightarrow> visibility" where
  "vis_of d i = (u_lambda d i, v_lambda d i, w_lambda d i, vis d i)"

text \<open>What the preparation makes of a visibility: itself or its conjugate, in the half with \<open>v \<ge> 0\<close>.\<close>

definition oriented :: "visibility \<Rightarrow> visibility" where
  "oriented q = (case q of (u, v, w, V) \<Rightarrow> if v < 0 then conjugate_vis q else q)"

lemma sym_term_oriented: "sym_term N K s (oriented q) = sym_term N K s q"
  by (intro ext) (simp add: oriented_def sym_term_conjugate split: prod.split)

lemma centre_in_bounds_oriented: "centre_in_bounds N support (oriented q) = centre_in_bounds N support q"
  by (cases q) (simp add: oriented_def centre_in_bounds_def conjugate_vis_def rint_minus)

text \<open>The even oversamplings, or 1: the index of the opposite fraction.\<close>

definition oversampling_ok :: "nat \<Rightarrow> bool" where
  "oversampling_ok os \<longleftrightarrow> os = 1 \<or> even os \<and> 0 < os"

lemma opposite_index:
  assumes "oversampling_ok os"
  shows "(if os > 1 then - (calculate_oversampled_kernel_index os x + int (os div 2)) + int os
      else calculate_oversampled_kernel_index os x + int (os div 2)) =
    calculate_oversampled_kernel_index os (- x) + int (os div 2)"
proof (cases "os = 1")
  case True
  then have "calculate_oversampled_kernel_index os y = 0" for y
    using oversampled_index_range [of os y] by simp
  with True show ?thesis by simp
next
  case False
  then obtain k where "os = 2 * k" "0 < k"
    using assms by (auto simp: oversampling_ok_def elim!: evenE)
  then show ?thesis
    by (simp add: oversampled_index_minus)
qed

section \<open>Half of the plane\<close>

text \<open>The arrays of a visibility in the half \<open>v \<ge> 0\<close>, as the preparation leaves them.\<close>

definition prepared :: "int \<Rightarrow> nat \<Rightarrow> nat \<Rightarrow> bool \<Rightarrow> vis_arrays \<Rightarrow> nat \<Rightarrow> visibility \<Rightarrow> real \<Rightarrow> bool" where
  "prepared N support os use_wproj A i q wt = (case q of (u, v, w, V) \<Rightarrow>
     0 \<le> v \<and>
     (centre_in_bounds N support q \<longrightarrow> kernel_centre A i = (rint u mod N, rint v mod N)) \<and>
     oversampled_offset A i = (calculate_oversampled_kernel_index os (uv_frac u) + int (os div 2),
       calculate_oversampled_kernel_index os (uv_frac v) + int (os div 2)) \<and>
     vis_values A i = V \<and> vis_weights A i = wt \<and> (use_wproj \<longrightarrow> w_values A i = w) \<and>
     good_vis A i = (if \<not> centre_in_bounds N support q then 0 else if v < real support + 1 then 2 else 1))"

lemma shifted_mod:
  assumes "even N" and "\<bar>x\<bar> < N div 2 - int s"
  shows "(if x + N div 2 < N div 2 then x + N div 2 + N div 2 else x + N div 2 - N div 2) = x mod N"
proof -
  obtain h where h: "N = 2 * h"
    using assms(1) by blast
  show ?thesis
  proof (cases "x < 0")
    case True
    then have "x mod N = (x + N) mod N"
      by simp
    also have "\<dots> = x + N"
      using True assms(2) h by (intro mod_pos_pos_trivial) linarith+
    finally show ?thesis
      using True h by simp
  next
    case False
    then show ?thesis
      using assms(2) h by (simp add: mod_pos_pos_trivial)
  qed
qed

text \<open>A kernel below the half is dropped: its rows are in the other half.\<close>

lemma torus_other_half:
  assumes "even N" and "int support \<le> y - 1" and "y < N div 2 - int support" and "s \<le> support" and "int r \<le> N div 2"
  shows "torus_term N s K (- y) x r c = 0"
proof -
  obtain h where h: "N = 2 * h"
    using assms(1) by blast
  have "(- y - int s + int i) mod N \<noteq> int r" if "i < 2 * s + 1" for i
  proof -
    have "(- y - int s + int i) mod N = (- y - int s + int i + N) mod N"
      by simp
    also have "\<dots> = - y - int s + int i + N"
      using assms that h by (intro mod_pos_pos_trivial) linarith+
    finally show ?thesis
      using assms that h by linarith
  qed
  then show ?thesis
    unfolding torus_term_def by (intro sum.neutral ballI) simp
qed

text \<open>The rows of a kernel in the half, and of its conjugate.\<close>

lemma hit_row_mod:
  assumes "0 < image_size P" and "int r < image_rows P" and "int r < image_size P"
    and "gc_y p mod image_size P = y mod image_size P"
    and "gc_y p - int (conv_support P) + int i < 0 \<Longrightarrow> (y - int (conv_support P) + int i) mod image_size P \<noteq> int r"
  shows "hit_row P p i = Some r \<longleftrightarrow> (y - int (conv_support P) + int i) mod image_size P = int r"
proof -
  define g where "g = gc_y p - int (conv_support P) + int i"
  define m where "m = (y - int (conv_support P) + int i) mod image_size P"
  have g: "g mod image_size P = m"
    using mod_add_cong [OF assms(4) refl [of "(int i - int (conv_support P)) mod image_size P"]]
    by (simp add: g_def m_def algebra_simps)
  have m: "0 \<le> m"
    using assms(1) by (simp add: m_def)
  have none: "g < 0 \<Longrightarrow> m \<noteq> int r"
    using assms(5) by (simp add: g_def m_def)
  have "hit_row P p i = (if g < 0 then None else if m < image_rows P then Some (nat m) else None)"
    by (simp add: hit_row_def g_def [symmetric] g Let_def)
  then show ?thesis
    unfolding m_def [symmetric] using assms(2) m none by auto
qed

text \<open>
  The placements \<open>p 0\<close> of a visibility in the half and \<open>p 1\<close> of its conjugate, with kernels
  \<open>K\<close> that do not depend on the value.
\<close>

definition placed :: "int \<Rightarrow> vis_kernels \<Rightarrow> (nat \<Rightarrow> grid_point) \<Rightarrow> visibility \<Rightarrow> real \<Rightarrow> bool" where
  "placed N K p q wt = (case q of (u, v, w, V) \<Rightarrow>
     gc_x (p 0) = rint u mod N \<and> gc_y (p 0) = rint v \<and> kernel_array (p 0) = K q \<and>
     gc_x (p 1) = - (rint u mod N) + N \<and> gc_y (p 1) = - rint v + N \<and> kernel_array (p 1) = K (conjugate_vis q) \<and>
     vis_val (p 0) = V \<and> vis_val (p 1) = cnj V \<and> vis_weight (p 0) = wt \<and> vis_weight (p 1) = wt)"

definition value_free :: "vis_kernels \<Rightarrow> bool" where
  "value_free K \<longleftrightarrow> (\<forall>u v w V. K (u, v, w, V) = K (u, v, w, 1))"

lemma placed_terms:
  assumes N: "even N" and p: "placed N K p q wt" and inb: "centre_in_bounds N support q" and v: "0 \<le> fst (snd q)"
    and s: "conv_support P \<le> support" and r: "int r \<le> N div 2" and c: "int c < N"
    and P: "image_size P = N" "image_rows P = N div 2 + 1"
  shows "point_ok P (p 0)" and "point_ok P (p 1)"
    and "point_term P (p 0) r c = of_real wt * torus_term N (conv_support P) (K q) (rint (fst (snd q))) (rint (fst q)) r c"
    and "point_term P (p 1) r c =
      of_real wt * torus_term N (conv_support P) (K (conjugate_vis q)) (- rint (fst (snd q))) (- rint (fst q)) r c"
proof -
  obtain u v w V where q: "q = (u, v, w, V)"
    by (metis surj_pair)
  obtain h where h: "N = 2 * h"
    using N by blast
  let ?s = "conv_support P"
  have p0: "gc_x (p 0) = rint u mod N" "gc_y (p 0) = rint v" "kernel_array (p 0) = K q" "vis_weight (p 0) = wt"
    and p1: "gc_x (p 1) = - (rint u mod N) + N" "gc_y (p 1) = - rint v + N" "kernel_array (p 1) = K (conjugate_vis q)"
      "vis_weight (p 1) = wt"
    using p by (simp_all add: placed_def q)
  have b: "\<bar>rint u\<bar> < h - int support" "\<bar>rint v\<bar> < h - int support"
    using inb by (simp_all add: centre_in_bounds_def q h)
  have N0: "0 < N"
    using b h by linarith
  have y: "0 \<le> rint v"
    using v rint_nonneg [of v] by (simp add: q)
  have x: "0 \<le> rint u mod N" "rint u mod N < N"
    using N0 by simp_all
  show ok: "point_ok P (p 0)" "point_ok P (p 1)"
    unfolding point_ok_def p0 p1 P using x y b h by linarith+
  have ks: "int (kernel_size P) \<le> image_size P"
    unfolding kernel_size_int P using b s h by linarith
  have none: "(rint v - int ?s + int i) mod N \<noteq> int r" if "rint v - int ?s + int i < 0" for i
  proof -
    have "(rint v - int ?s + int i) mod N = (rint v - int ?s + int i + N) mod N"
      by simp
    also have "\<dots> = rint v - int ?s + int i + N"
      using that y b s h by (intro mod_pos_pos_trivial) linarith+
    finally show ?thesis
      using y b s h r by linarith
  qed
  have "point_term P (p 0) r c = of_real (vis_weight (p 0)) * torus_term (image_size P) ?s (kernel_array (p 0)) (rint v) (rint u) r c"
  proof (rule point_term_torus [OF ok(1) ks])
    fix i
    show "hit_row P (p 0) i = Some r \<longleftrightarrow> (rint v - int ?s + int i) mod image_size P = int r"
    proof (rule hit_row_mod)
      show "gc_y (p 0) - int ?s + int i < 0 \<Longrightarrow> (rint v - int ?s + int i) mod image_size P \<noteq> int r"
        unfolding p0 P by (rule none)
    qed (use N0 r h in \<open>simp_all add: P p0\<close>)
  qed (use c in \<open>simp_all add: P p0\<close>)
  then show "point_term P (p 0) r c = of_real wt * torus_term N ?s (K q) (rint (fst (snd q))) (rint (fst q)) r c"
    unfolding p0 P by (simp add: q)
  have "point_term P (p 1) r c = of_real (vis_weight (p 1)) * torus_term (image_size P) ?s (kernel_array (p 1)) (- rint v) (- rint u) r c"
  proof (rule point_term_torus [OF ok(2) ks])
    fix i
    show "hit_row P (p 1) i = Some r \<longleftrightarrow> (- rint v - int ?s + int i) mod image_size P = int r"
    proof (rule hit_row_mod)
      show "gc_y (p 1) - int ?s + int i < 0 \<Longrightarrow> (- rint v - int ?s + int i) mod image_size P \<noteq> int r"
        unfolding p1 P using b s h by linarith
    qed (use N0 r h in \<open>simp_all add: P p1 [simplified]\<close>)
  next
    show "gc_x (p 1) mod image_size P = - rint u mod image_size P"
      unfolding p1 P by (simp add: mod_minus_eq)
  qed (use c in \<open>simp_all add: P\<close>)
  then show "point_term P (p 1) r c =
      of_real wt * torus_term N ?s (K (conjugate_vis q)) (- rint (fst (snd q))) (- rint (fst q)) r c"
    unfolding p1 P by (simp add: q)
qed

text \<open>The placements of the oversampled gridder.\<close>

lemma vis_kernel_value_free: "value_free (vis_kernel os use_wproj cache)"
  by (simp add: value_free_def vis_kernel_def)

lemma vis_point_placed:
  assumes prep: "prepared N support os use_wproj A i q wt" and inb: "centre_in_bounds N support q" and os: "oversampling_ok os"
  shows "placed N (vis_kernel os use_wproj cache) (vis_point N os use_wproj cache A i) q wt"
proof -
  obtain u v w V where q: "q = (u, v, w, V)"
    by (metis surj_pair)
  note A = prep [unfolded prepared_def q prod.case]
  have b: "\<bar>rint v\<bar> < N div 2 - int support"
    using inb by (simp add: centre_in_bounds_def q)
  then have "rint v mod N = rint v"
    using A rint_nonneg [of v] by (intro mod_pos_pos_trivial) linarith+
  then have kc: "kernel_centre A i = (rint u mod N, rint v)"
    using A inb by (simp add: q)
  have own: "kernel_array (vis_point N os use_wproj cache A i 0) = vis_kernel os use_wproj cache q"
    using A by (cases use_wproj; simp add: vis_point_def vis_kernel_def Let_def q kc)
  have conj: "kernel_array (vis_point N os use_wproj cache A i 1) = vis_kernel os use_wproj cache (conjugate_vis q)"
    using A opposite_index [OF os, of "uv_frac u"] opposite_index [OF os, of "uv_frac v"]
    by (cases use_wproj; simp add: vis_point_def vis_kernel_def conjugate_vis_def q uv_frac_minus Let_def kc)
  show ?thesis
    using A own conj unfolding placed_def q prod.case by (simp add: vis_point_def Let_def kc)
qed


lemma prepare_visibilities_prepared:
  assumes N: "even N" and i: "i < n" and good: "good d i = 1"
    and A: "(A, fracs) = prepare_visibilities use_wproj True True n N support os d weights"
  shows "prepared N support os use_wproj A i (oriented (vis_of d i)) (weights i)"
proof -
  define d' where "d' = convert_to_halfplane_visibilities use_wproj n (int support) d"
  note half = halfplane_visibility [OF i d'_def refl]
  obtain u v w V where q: "oriented (vis_of d i) = (u, v, w, V)"
    by (metis surj_pair)
  have uv: "u_lambda d' i = u" "v_lambda d' i = v" "vis d' i = V" "use_wproj \<longrightarrow> w_lambda d' i = w" "0 \<le> v"
    using q half by (auto simp: oriented_def vis_of_def conjugate_vis_def split: if_splits)
  have good': "good d' i = (if v < real support + 1 then 2 else 1)"
    using half(2,5) uv(2) good by simp
  let ?kc = "\<lambda>i. (grid_centre (N div 2) (u_lambda d' i), grid_centre (N div 2) (v_lambda d' i))"
  have A': "kernel_centre A i = shift_centre (N div 2) (?kc i)"
    "oversampled_offset A i = (calculate_oversampled_kernel_index os (uv_frac u) + int (os div 2),
       calculate_oversampled_kernel_index os (uv_frac v) + int (os div 2))"
    "vis_values A i = V" "vis_weights A i = weights i" "use_wproj \<longrightarrow> w_values A i = w"
    "good_vis A i = (if out_of_bounds N (int support) (?kc i) then 0 else good d' i)"
    using A uv i by (simp_all add: prepare_visibilities_def d'_def [symmetric] Let_def bounds_check_good)
  obtain h where h: "N = 2 * h"
    using N by blast
  have bounds: "out_of_bounds N (int support) (?kc i) \<longleftrightarrow> \<not> centre_in_bounds N support (u, v, w, V)"
    by (auto simp: out_of_bounds_def grid_centre_def centre_in_bounds_def uv h)
  have centre: "shift_centre (N div 2) (?kc i) = (rint u mod N, rint v mod N)" if "centre_in_bounds N support (u, v, w, V)"
    using that shifted_mod [OF N, of "rint u" support] shifted_mod [OF N, of "rint v" support]
    by (simp add: centre_in_bounds_def shift_centre_def grid_centre_def uv)
  show ?thesis
    using A' bounds centre good' uv(5) unfolding q prepared_def prod.case
    by (cases "centre_in_bounds N support (u, v, w, V)") simp_all
qed


section \<open>The grid\<close>

text \<open>
  The placements of a visibility, together: none if it is out of bounds, two if it is near the border of the half, else one.
\<close>

definition placements_good :: "int \<Rightarrow> nat \<Rightarrow> visibility \<Rightarrow> nat" where
  "placements_good N support q =
     (if \<not> centre_in_bounds N support q then 0 else if fst (snd q) < real support + 1 then 2 else 1)"

lemma placed_sums:
  assumes N: "even N" and p: "centre_in_bounds N support q \<Longrightarrow> placed N K p q wt" and v: "0 \<le> fst (snd q)"
    and free: "value_free K" and s: "conv_support P \<le> support" and r: "int r \<le> N div 2" and c: "int c < N"
    and P: "image_size P = N" "image_rows P = N div 2 + 1" and good: "gvs = placements_good N support q"
  shows "(\<Sum>gv \<leftarrow> [0..<gvs]. vis_val (p gv) * point_term P (p gv) r c) =
      (if centre_in_bounds N support q then of_real wt * sym_term N K (conv_support P) q r c else 0)"
    and "(\<Sum>gv \<leftarrow> [0..<gvs]. point_term P (p gv) r c) =
      (if centre_in_bounds N support q then of_real wt * sym_term N K (conv_support P) (unit_vis q) r c else 0)"
    and "gv < gvs \<Longrightarrow> centre_in_bounds N support q \<and> point_ok P (p gv)"
proof -
  obtain u v w V where q: "q = (u, v, w, V)"
    by (metis surj_pair)
  let ?s = "conv_support P"
  note terms = placed_terms [OF N p _ v s r c P]
  have "K (a, b, d, V') = K (a, b, d, 1)" for a b d V'
    using free by (simp add: value_free_def)
  note kernels = this [of _ _ _ V] this [of _ _ _ "cnj V"]
  have sym: "sym_term N K ?s q r c = V * torus_term N ?s (K q) (rint v) (rint u) r c +
      cnj V * torus_term N ?s (K (conjugate_vis q)) (- rint v) (- rint u) r c"
    "sym_term N K ?s (unit_vis q) r c = torus_term N ?s (K q) (rint v) (rint u) r c +
      torus_term N ?s (K (conjugate_vis q)) (- rint v) (- rint u) r c"
    by (simp_all add: sym_term_def vis_term_def conjugate_vis_def unit_vis_def q rint_minus kernels)
  consider (out) "\<not> centre_in_bounds N support q" "gvs = 0" | (two) "centre_in_bounds N support q" "gvs = 2"
    | (one) "centre_in_bounds N support q" "gvs = 1" "real support + 1 \<le> v"
    using good by (auto simp: placements_good_def q split: if_splits)
  then have "(\<Sum>gv \<leftarrow> [0..<gvs]. vis_val (p gv) * point_term P (p gv) r c) =
      (if centre_in_bounds N support q then of_real wt * sym_term N K ?s q r c else 0) \<and>
    (\<Sum>gv \<leftarrow> [0..<gvs]. point_term P (p gv) r c) =
      (if centre_in_bounds N support q then of_real wt * sym_term N K ?s (unit_vis q) r c else 0) \<and>
    (\<forall>gv < gvs. centre_in_bounds N support q \<and> point_ok P (p gv))"
  proof cases
    case out
    then show ?thesis by simp
  next
    case two
    have gvs: "[0..<gvs] = [0, 1]" "\<forall>gv < gvs. gv = 0 \<or> gv = 1"
      using two(2) by (auto simp: upt_rec)
    have "vis_val (p 0) = V" "vis_val (p 1) = cnj V"
      using p [OF two(1)] by (simp_all add: placed_def q)
    then show ?thesis
      using two(1) terms(1,2) [OF two(1) two(1)] gvs(2) unfolding sym gvs(1)
      by (simp add: terms(3,4) [OF two(1) two(1), simplified] q algebra_simps) fastforce
  next
    case one
    have gvs: "[0..<gvs] = [0]" "\<forall>gv < gvs. gv = 0"
      using one(2) by auto
    have zero: "torus_term N ?s K' (- rint v) x r c = 0" for K' x
    proof (rule torus_other_half [OF N _ _ s r])
      show "int support \<le> rint v - 1"
        using rint_error [of v] one(3) by linarith
      show "rint v < N div 2 - int support"
        using one(1) by (auto simp: centre_in_bounds_def q)
    qed
    have "vis_val (p 0) = V"
      using p [OF one(1)] by (simp add: placed_def q)
    then show ?thesis
      using one(1) terms(1) [OF one(1) one(1)] gvs(2) unfolding sym gvs(1) zero
      by (auto simp: terms(3) [OF one(1) one(1)] q algebra_simps)
  qed
  then show "(\<Sum>gv \<leftarrow> [0..<gvs]. vis_val (p gv) * point_term P (p gv) r c) =
      (if centre_in_bounds N support q then of_real wt * sym_term N K ?s q r c else 0)"
    "(\<Sum>gv \<leftarrow> [0..<gvs]. point_term P (p gv) r c) =
      (if centre_in_bounds N support q then of_real wt * sym_term N K ?s (unit_vis q) r c else 0)"
    "gv < gvs \<Longrightarrow> centre_in_bounds N support q \<and> point_ok P (p gv)"
    by blast+
qed

lemma prepared_terms:
  assumes N: "even N" and prep: "prepared N support os use_wproj A i q wt" and os: "oversampling_ok os"
    and s: "plane_support pl \<le> support" and r: "int r \<le> N div 2" and c: "int c < N"
    and P: "P = plane_pars N (N div 2 + 1) beam pl"
  shows "(\<Sum>gv \<leftarrow> [0..<good_vis A i]. vis_val (vis_point N os use_wproj (plane_cache pl) A i gv) *
      point_term P (vis_point N os use_wproj (plane_cache pl) A i gv) r c) =
      (if centre_in_bounds N support q then of_real wt * sym_term N (vis_kernel os use_wproj (plane_cache pl)) (plane_support pl) q r c else 0)"
    and "(\<Sum>gv \<leftarrow> [0..<good_vis A i]. point_term P (vis_point N os use_wproj (plane_cache pl) A i gv) r c) =
      (if centre_in_bounds N support q then
         of_real wt * sym_term N (vis_kernel os use_wproj (plane_cache pl)) (plane_support pl) (unit_vis q) r c else 0)"
    and "gv < good_vis A i \<Longrightarrow> centre_in_bounds N support q \<and> point_ok P (vis_point N os use_wproj (plane_cache pl) A i gv)"
proof -
  have P': "image_size P = N" "image_rows P = N div 2 + 1" "conv_support P = plane_support pl"
    by (simp_all add: P plane_pars_def)
  have "0 \<le> fst (snd q)" "good_vis A i = placements_good N support q"
    using prep by (auto simp: prepared_def placements_good_def)
  from placed_sums [OF N vis_point_placed [OF prep _ os] this(1) vis_kernel_value_free _ r c P'(1,2) this(2), unfolded P'(3), OF _ s]
  show "(\<Sum>gv \<leftarrow> [0..<good_vis A i]. vis_val (vis_point N os use_wproj (plane_cache pl) A i gv) *
      point_term P (vis_point N os use_wproj (plane_cache pl) A i gv) r c) =
      (if centre_in_bounds N support q then of_real wt * sym_term N (vis_kernel os use_wproj (plane_cache pl)) (plane_support pl) q r c else 0)"
    "(\<Sum>gv \<leftarrow> [0..<good_vis A i]. point_term P (vis_point N os use_wproj (plane_cache pl) A i gv) r c) =
      (if centre_in_bounds N support q then
         of_real wt * sym_term N (vis_kernel os use_wproj (plane_cache pl)) (plane_support pl) (unit_vis q) r c else 0)"
    "gv < good_vis A i \<Longrightarrow> centre_in_bounds N support q \<and> point_ok P (vis_point N os use_wproj (plane_cache pl) A i gv)"
    by blast+
qed

text \<open>The whole grid of a list of planes: what every visibility in bounds and its conjugate add on the torus.\<close>

definition grid_sum ::
  "int \<Rightarrow> nat \<Rightarrow> nat \<Rightarrow> bool \<Rightarrow> grid_plane list \<Rightarrow> (nat \<Rightarrow> visibility) \<Rightarrow> (nat \<Rightarrow> real) \<Rightarrow> nat \<Rightarrow> nat \<Rightarrow> complex"
where
  "grid_sum N support os use_wproj planes q weights r c =
     (\<Sum>pl \<leftarrow> planes. \<Sum>vi \<leftarrow> [vi_begin pl..<vi_end pl].
        if centre_in_bounds N support (q vi) then
          of_real (weights vi) * sym_term N (vis_kernel os use_wproj (plane_cache pl)) (plane_support pl) (q vi) r c
        else 0)"

definition plane_ok :: "nat \<Rightarrow> nat \<Rightarrow> grid_plane \<Rightarrow> bool" where
  "plane_ok n support pl \<longleftrightarrow> plane_support pl \<le> support \<and> vi_end pl \<le> n"

text \<open>The visibilities of a list, with the kernels of a plane.\<close>

definition list_sum ::
  "int \<Rightarrow> nat \<Rightarrow> nat \<Rightarrow> bool \<Rightarrow> grid_plane \<Rightarrow> nat list \<Rightarrow> (nat \<Rightarrow> visibility) \<Rightarrow> (nat \<Rightarrow> real) \<Rightarrow> nat \<Rightarrow> nat \<Rightarrow> complex"
where
  "list_sum N support os use_wproj pl vis_list q weights r c =
     (\<Sum>vi \<leftarrow> vis_list.
        if centre_in_bounds N support (q vi) then
          of_real (weights vi) * sym_term N (vis_kernel os use_wproj (plane_cache pl)) (plane_support pl) (q vi) r c
        else 0)"

definition list_points :: "int \<Rightarrow> nat \<Rightarrow> bool \<Rightarrow> kernel_cache \<Rightarrow> vis_arrays \<Rightarrow> nat list \<Rightarrow> grid_point list" where
  "list_points N os use_wproj cache A vis_list = concat (map (\<lambda>vi. map (vis_point N os use_wproj cache A vi) [0..<good_vis A vi]) vis_list)"

lemma list_points_terms:
  "(\<Sum>p \<leftarrow> list_points N os use_wproj cache A vis_list. f p) =
    (\<Sum>vi \<leftarrow> vis_list. \<Sum>gv \<leftarrow> [0..<good_vis A vi]. f (vis_point N os use_wproj cache A vi gv))"
  by (induction vis_list) (simp_all add: list_points_def comp_def)

lemma grid_list_terms:
  assumes N: "even N" and os: "oversampling_ok os" and s: "plane_support pl \<le> support" and vi: "\<And>vi. vi \<in> set vis_list \<Longrightarrow> vi < n"
    and A: "\<And>i. i < n \<Longrightarrow> prepared N support os use_wproj A i (q i) (weights i)"
    and rb: "mset rbegins = mset [0..<2 * plane_support pl + 1]"
    and r: "int r \<le> N div 2" and c: "int c < N"
    and Gs'_def: "Gs' = parallel_gridder (plane_pars N (N div 2 + 1) beam pl) rbegins
    (list_points N os use_wproj (plane_cache pl) A vis_list) Gs"
  shows "fst Gs' r c = fst Gs r c + list_sum N support os use_wproj pl vis_list q weights r c"
    and "snd Gs' r c = snd Gs r c + (if beam then list_sum N support os use_wproj pl vis_list (unit_vis \<circ> q) weights r c else 0)"
proof -
  let ?P = "plane_pars N (N div 2 + 1) beam pl"
  let ?ps = "list_points N os use_wproj (plane_cache pl) A vis_list"
  have P: "image_size ?P = N" "conv_support ?P = plane_support pl" "generate_beam_grid ?P = beam"
    by (simp_all add: plane_pars_def)
  note terms = prepared_terms [OF N A os s r c refl]
  have unit: "centre_in_bounds N support (unit_vis q) = centre_in_bounds N support q" for q
    by (cases q) (simp add: centre_in_bounds_def unit_vis_def)
  have sums: "(\<Sum>p \<leftarrow> ?ps. vis_val p * point_term ?P p r c) = list_sum N support os use_wproj pl vis_list q weights r c"
    "(\<Sum>p \<leftarrow> ?ps. point_term ?P p r c) = list_sum N support os use_wproj pl vis_list (unit_vis \<circ> q) weights r c"
    unfolding list_points_terms list_sum_def
    by (intro arg_cong [where f = sum_list] map_cong refl, simp only: terms(1) [OF vi])
      (intro arg_cong [where f = sum_list] map_cong refl, simp only: terms(2) [OF vi] unit comp_apply)
  have ok: "\<forall>p \<in> set ?ps. point_ok ?P p"
    using terms(3) vi by (auto simp: list_points_def)
  have "fst Gs' r c = fst Gs r c + (\<Sum>p \<leftarrow> ?ps. vis_val p * point_term ?P p r c) \<and>
      snd Gs' r c = snd Gs r c + (if beam then \<Sum>p \<leftarrow> ?ps. point_term ?P p r c else 0)"
  proof (cases "?ps = []")
    case True
    then show ?thesis
      unfolding Gs'_def by (simp add: parallel_gridder_def fold_invariant [where P = "\<lambda>G. G = Gs" and Q = "\<lambda>x. True"])
  next
    case False
    then obtain vi gv where "vi \<in> set vis_list" "gv < good_vis A vi"
      by (auto simp: list_points_def)
    then have "centre_in_bounds N support (q vi)"
      using terms(3) vi by blast
    then have "int support < N div 2"
      by (auto simp: centre_in_bounds_def split: prod.splits)
    then have "int (kernel_size ?P) \<le> image_size ?P" "0 < image_size ?P"
      unfolding kernel_size_int P using s by linarith+
    moreover have "mset rbegins = mset [0..<kernel_size ?P]"
      using rb by (simp add: kernel_size_def P mult.commute)
    ultimately show ?thesis
      unfolding Gs'_def using ok by (simp add: parallel_gridder_terms P)
  qed
  then show "fst Gs' r c = fst Gs r c + list_sum N support os use_wproj pl vis_list q weights r c"
    "snd Gs' r c = snd Gs r c + (if beam then list_sum N support os use_wproj pl vis_list (unit_vis \<circ> q) weights r c else 0)"
    unfolding sums by blast+
qed

lemma grid_plane_terms:
  assumes "even N" and "oversampling_ok os" and "plane_ok n support pl"
    and "\<And>i. i < n \<Longrightarrow> prepared N support os use_wproj A i (q i) (weights i)"
    and "mset rbegins = mset [0..<2 * plane_support pl + 1]"
    and "int r \<le> N div 2" and "int c < N"
    and "Gs' = parallel_gridder (plane_pars N (N div 2 + 1) beam pl) rbegins
    (vis_points N os use_wproj (plane_cache pl) A (vi_begin pl) (vi_end pl)) Gs"
  shows "fst Gs' r c = fst Gs r c + grid_sum N support os use_wproj [pl] q weights r c"
    and "snd Gs' r c = snd Gs r c + (if beam then grid_sum N support os use_wproj [pl] (unit_vis \<circ> q) weights r c else 0)"
proof -
  have pl: "plane_support pl \<le> support" "\<And>vi. vi \<in> set [vi_begin pl..<vi_end pl] \<Longrightarrow> vi < n"
    using assms(3) by (auto simp: plane_ok_def)
  have sum: "grid_sum N support os use_wproj [pl] q weights r c = list_sum N support os use_wproj pl [vi_begin pl..<vi_end pl] q weights r c" for q
    by (simp add: grid_sum_def list_sum_def)
  show "fst Gs' r c = fst Gs r c + grid_sum N support os use_wproj [pl] q weights r c"
    "snd Gs' r c = snd Gs r c + (if beam then grid_sum N support os use_wproj [pl] (unit_vis \<circ> q) weights r c else 0)"
    unfolding sum
    by (rule grid_list_terms [OF assms(1,2) pl assms(4-7)]; simp add: assms(8) vis_points_def list_points_def)+
qed

lemma grid_sum_planes:
  "grid_sum N support os use_wproj (pl # planes) q weights r c =
    grid_sum N support os use_wproj [pl] q weights r c + grid_sum N support os use_wproj planes q weights r c"
  by (simp add: grid_sum_def)

lemma grid_planes_value:
  assumes N: "even N" and os: "oversampling_ok os" and planes: "\<forall>pl \<in> set planes. plane_ok n support pl"
    and A: "\<And>i. i < n \<Longrightarrow> prepared N support os use_wproj A i (q i) (weights i)"
    and rb: "\<forall>pi < length planes. mset (rbegins pi) = mset [0..<2 * plane_support (planes ! pi) + 1]"
    and r: "int r \<le> N div 2" and c: "int c < N"
  shows "fst (grid_planes N (N div 2 + 1) beam os use_wproj rbegins A planes) r c =
      grid_sum N support os use_wproj planes q weights r c"
    and "snd (grid_planes N (N div 2 + 1) beam os use_wproj rbegins A planes) r c =
      (if beam then grid_sum N support os use_wproj planes (unit_vis \<circ> q) weights r c else 0)"
proof -
  let ?step = "\<lambda>(pi, pl). parallel_gridder (plane_pars N (N div 2 + 1) beam pl) (rbegins pi)
    (vis_points N os use_wproj (plane_cache pl) A (vi_begin pl) (vi_end pl))"
  have run: "fst (fold ?step xs Gs) r c = fst Gs r c + grid_sum N support os use_wproj (map snd xs) q weights r c \<and>
      snd (fold ?step xs Gs) r c =
        snd Gs r c + (if beam then grid_sum N support os use_wproj (map snd xs) (unit_vis \<circ> q) weights r c else 0)"
    if "\<forall>(pi, pl) \<in> set xs. plane_ok n support pl \<and> mset (rbegins pi) = mset [0..<2 * plane_support pl + 1]" for xs Gs
    using that
  proof (induction xs arbitrary: Gs)
    case Nil
    then show ?case
      by (simp add: grid_sum_def)
  next
    case (Cons x xs)
    obtain pi pl where x: "x = (pi, pl)"
      by fastforce
    have pl: "plane_ok n support pl" "mset (rbegins pi) = mset [0..<2 * plane_support pl + 1]"
      using Cons.prems by (simp_all add: x del: upt_Suc)
    note step = grid_plane_terms [OF N os pl(1) A pl(2) r c refl]
    have rest: "\<forall>(pi, pl) \<in> set xs. plane_ok n support pl \<and> mset (rbegins pi) = mset [0..<2 * plane_support pl + 1]"
      using Cons.prems by (auto simp del: upt_Suc)
    show ?case
      using Cons.IH [OF rest, of "?step x Gs"] step [of beam Gs]
        grid_sum_planes [of N support os use_wproj pl "map snd xs" q weights r c]
        grid_sum_planes [of N support os use_wproj pl "map snd xs" "unit_vis \<circ> q" weights r c]
      by (simp add: x)
  qed
  have xs: "\<forall>(pi, pl) \<in> set (zip [0..<length planes] planes).
      plane_ok n support pl \<and> mset (rbegins pi) = mset [0..<2 * plane_support pl + 1]"
    using planes rb by (auto simp: set_zip)
  show "fst (grid_planes N (N div 2 + 1) beam os use_wproj rbegins A planes) r c =
      grid_sum N support os use_wproj planes q weights r c"
    "snd (grid_planes N (N div 2 + 1) beam os use_wproj rbegins A planes) r c =
      (if beam then grid_sum N support os use_wproj planes (unit_vis \<circ> q) weights r c else 0)"
    using run [OF xs, of "(\<lambda>r c. 0, \<lambda>r c. 0)"] by (simp_all add: grid_planes_def)
qed

lemma oriented_unit: "unit_vis (oriented q) = oriented (unit_vis q)"
  by (cases q) (simp add: oriented_def unit_vis_def conjugate_vis_def)

lemma grid_sum_oriented:
  "grid_sum N support os use_wproj planes (\<lambda>i. oriented (q i)) weights = grid_sum N support os use_wproj planes q weights"
  unfolding grid_sum_def sym_term_oriented centre_in_bounds_oriented ..

lemma halfplane_grid:
  assumes "even N" and "oversampling_ok os" and "\<forall>i < n. good d i = 1"
    and "(A, fracs) = prepare_visibilities use_wproj True True n N support os d weights"
    and "\<forall>pl \<in> set planes. plane_ok n support pl"
    and "\<forall>pi < length planes. mset (rbegins pi) = mset [0..<2 * plane_support (planes ! pi) + 1]"
    and "int r \<le> N div 2" and "int c < N"
  shows "fst (grid_planes N (N div 2 + 1) beam os use_wproj rbegins A planes) r c =
      grid_sum N support os use_wproj planes (vis_of d) weights r c"
    and "snd (grid_planes N (N div 2 + 1) beam os use_wproj rbegins A planes) r c =
      (if beam then grid_sum N support os use_wproj planes (unit_vis \<circ> vis_of d) weights r c else 0)"
proof -
  have A: "prepared N support os use_wproj A i (oriented (vis_of d i)) (weights i)" if "i < n" for i
    using prepare_visibilities_prepared [OF assms(1) that _ assms(4)] assms(3) that by blast
  note vals = grid_planes_value [OF assms(1,2,5) A assms(6-8)]
  have comp: "unit_vis \<circ> (\<lambda>i. oriented (vis_of d i)) = (\<lambda>i. oriented ((unit_vis \<circ> vis_of d) i))"
    by (simp add: fun_eq_iff oriented_unit)
  show "fst (grid_planes N (N div 2 + 1) beam os use_wproj rbegins A planes) r c =
      grid_sum N support os use_wproj planes (vis_of d) weights r c"
    "snd (grid_planes N (N div 2 + 1) beam os use_wproj rbegins A planes) r c =
      (if beam then grid_sum N support os use_wproj planes (unit_vis \<circ> vis_of d) weights r c else 0)"
    using vals [of beam] unfolding grid_sum_oriented comp by blast+
qed

text \<open>C3. Gridding only half of the plane loses nothing: on every row of that half the visibility grid, and the sampling
  grid if it is wanted, is that of all visibilities in bounds and their conjugates, placed on the torus of the whole
  plane, although the code moves visibilities into the half, and grids the conjugate only of those near its
  border.\<close>

theorem halfplane_gridding:
  assumes "even N" and "oversampling_ok os" and "\<forall>i < n. good d i = 1"
    and "(A, fracs) = prepare_visibilities use_wproj True True n N support os d weights"
    and "\<forall>pl \<in> set planes. plane_ok n support pl"
    and "\<forall>pi < length planes. mset (rbegins pi) = mset [0..<2 * plane_support (planes ! pi) + 1]"
    and "int r \<le> N div 2" and "int c < N"
  shows "fst (grid_planes N (N div 2 + 1) beam os use_wproj rbegins A planes) r c =
      grid_sum N support os use_wproj planes (vis_of d) weights r c \<and>
    snd (grid_planes N (N div 2 + 1) beam os use_wproj rbegins A planes) r c =
      (if beam then grid_sum N support os use_wproj planes (unit_vis \<circ> vis_of d) weights r c else 0)"
  using halfplane_grid [OF assms] by blast

section \<open>The other half\<close>

lemma mod_minus_iff:
  fixes a c N :: int
  assumes "0 \<le> c" and "c < N"
  shows "(- a) mod N = c \<longleftrightarrow> a mod N = (- c) mod N"
proof -
  have c: "c mod N = c"
    using assms by (simp add: mod_pos_pos_trivial)
  have "(- a) mod N = c \<longleftrightarrow> (- a) mod N = c mod N"
    by (simp only: c)
  also have "\<dots> \<longleftrightarrow> a mod N = (- c) mod N"
    by (metis minus_minus mod_minus_cong)
  finally show ?thesis .
qed

text \<open>The position opposite on the torus.\<close>

definition opposite :: "int \<Rightarrow> nat \<Rightarrow> nat" where
  "opposite N r = nat ((- int r) mod N)"

lemma torus_opposite:
  assumes r: "int r < N" and c: "int c < N"
  shows "torus_term N s K (- y) (- x) r c = torus_term N s (\<lambda>i j. K (2 * s - i) (2 * s - j)) y x (opposite N r) (opposite N c)"
proof -
  let ?n = "2 * s + 1"
  have N: "0 < N"
    using r by linarith
  have opp: "int (opposite N k) = (- int k) mod N" for k
    using N by (simp add: opposite_def)
  have flip: "- x - int s + int (?n - Suc j) = - (x - int s + int j)" if "j < ?n" for x j
    using that by (simp add: of_nat_diff)
  have "torus_term N s K (- y) (- x) r c = (\<Sum>j<?n. \<Sum>i<?n.
     if (- x - int s + int (?n - Suc j)) mod N = int c \<and> (- y - int s + int (?n - Suc i)) mod N = int r
     then K (?n - Suc i) (?n - Suc j) else 0)"
    unfolding torus_term_def by (subst sum.nat_diff_reindex [symmetric], subst sum.nat_diff_reindex [symmetric]) (rule refl)
  also have "\<dots> = (\<Sum>j<?n. \<Sum>i<?n.
     if (x - int s + int j) mod N = int (opposite N c) \<and> (y - int s + int i) mod N = int (opposite N r)
     then K (2 * s - i) (2 * s - j) else 0)"
  proof (intro sum.cong refl)
    fix j i
    assume "j \<in> {..<?n}" "i \<in> {..<?n}"
    then have i: "i < ?n" and j: "j < ?n"
      by simp_all
    have k: "?n - Suc i = 2 * s - i" "?n - Suc j = 2 * s - j"
      by simp_all
    have "(- x - int s + int (?n - Suc j)) mod N = int c \<longleftrightarrow> (x - int s + int j) mod N = int (opposite N c)"
      unfolding flip [OF j] opp using c by (intro mod_minus_iff) simp_all
    moreover have "(- y - int s + int (?n - Suc i)) mod N = int r \<longleftrightarrow> (y - int s + int i) mod N = int (opposite N r)"
      unfolding flip [OF i] opp using r by (intro mod_minus_iff) simp_all
    ultimately show "(if (- x - int s + int (?n - Suc j)) mod N = int c \<and> (- y - int s + int (?n - Suc i)) mod N = int r
       then K (?n - Suc i) (?n - Suc j) else 0) =
      (if (x - int s + int j) mod N = int (opposite N c) \<and> (y - int s + int i) mod N = int (opposite N r)
       then K (2 * s - i) (2 * s - j) else 0)"
      unfolding k by simp
  qed
  finally show ?thesis
    unfolding torus_term_def .
qed


text \<open>
  The kernels of opposite visibilities are conjugate mirror images. The cache of the kernel functions has this for
  the kernels without W-projection, which are real and even.
\<close>

definition mirrored_at :: "vis_kernels \<Rightarrow> nat \<Rightarrow> visibility \<Rightarrow> bool" where
  "mirrored_at K s q \<longleftrightarrow> (\<forall>i j. i < 2 * s + 1 \<longrightarrow> j < 2 * s + 1 \<longrightarrow>
     K (conjugate_vis q) (2 * s - i) (2 * s - j) = cnj (K q i j))"

definition mirrored_kernels :: "vis_kernels \<Rightarrow> nat \<Rightarrow> bool" where
  "mirrored_kernels K s \<longleftrightarrow> (\<forall>q. mirrored_at K s q)"

definition mirrored_cache :: "nat \<Rightarrow> bool \<Rightarrow> kernel_cache \<Rightarrow> nat \<Rightarrow> bool" where
  "mirrored_cache os use_wproj cache s \<longleftrightarrow> mirrored_kernels (vis_kernel os use_wproj cache) s"

lemma vis_term_opposite:
  assumes mirror: "mirrored_at K s q" and r: "int r < N" and c: "int c < N"
  shows "vis_term N K s (conjugate_vis q) r c =
    cnj (vis_term N K s q (opposite N r) (opposite N c))"
proof -
  obtain u v w V where q: "q = (u, v, w, V)"
    by (metis surj_pair)
  let ?K = "K q" and ?K' = "K (conjugate_vis q)"
  have "torus_term N s ?K' (- rint v) (- rint u) r c =
      torus_term N s (\<lambda>i j. ?K' (2 * s - i) (2 * s - j)) (rint v) (rint u) (opposite N r) (opposite N c)"
    by (rule torus_opposite [OF r c])
  also have "\<dots> = cnj (torus_term N s ?K (rint v) (rint u) (opposite N r) (opposite N c))"
    unfolding torus_term_def cnj_sum
  proof (intro sum.cong refl)
    fix j i
    assume "j \<in> {..<2 * s + 1}" "i \<in> {..<2 * s + 1}"
    then have "?K' (2 * s - i) (2 * s - j) = cnj (?K i j)"
      using mirror unfolding mirrored_at_def by blast
    then show "(if (rint u - int s + int j) mod N = int (opposite N c) \<and> (rint v - int s + int i) mod N = int (opposite N r)
        then ?K' (2 * s - i) (2 * s - j) else 0) =
      cnj (if (rint u - int s + int j) mod N = int (opposite N c) \<and> (rint v - int s + int i) mod N = int (opposite N r)
        then ?K i j else 0)"
      by simp
  qed
  finally show ?thesis
    by (simp add: vis_term_def conjugate_vis_def q rint_minus)
qed

lemma opposite_opposite: "int r < N \<Longrightarrow> opposite N (opposite N r) = r"
  by (simp add: opposite_def mod_minus_eq)

lemma opposite_less: "0 < N \<Longrightarrow> int (opposite N r) < N"
  by (simp add: opposite_def)

lemma sym_term_opposite:
  assumes mirror: "mirrored_at K s q" and r: "int r < N" and c: "int c < N"
  shows "sym_term N K s q (opposite N r) (opposite N c) = cnj (sym_term N K s q r c)"
proof -
  have N: "0 < N"
    using r by linarith
  have "vis_term N K s (conjugate_vis q) (opposite N r) (opposite N c) = cnj (vis_term N K s q r c)"
    using vis_term_opposite [OF mirror opposite_less [OF N] opposite_less [OF N], of r c]
    by (simp add: opposite_opposite r c)
  moreover have "vis_term N K s q (opposite N r) (opposite N c) =
      cnj (vis_term N K s (conjugate_vis q) r c)"
    using vis_term_opposite [OF mirror r c] by simp
  ultimately show ?thesis
    by (simp add: sym_term_def)
qed

lemma cnj_sum_list: "cnj (sum_list xs) = sum_list (map cnj xs)"
  by (induction xs) simp_all

lemma grid_sum_opposite:
  assumes mirror: "\<And>pl vi. pl \<in> set planes \<Longrightarrow> vi_begin pl \<le> vi \<Longrightarrow> vi < vi_end pl \<Longrightarrow> centre_in_bounds N support (q vi) \<Longrightarrow>
      mirrored_at (vis_kernel os use_wproj (plane_cache pl)) (plane_support pl) (q vi)"
    and "int r < N" and "int c < N"
  shows "grid_sum N support os use_wproj planes q weights (opposite N r) (opposite N c) =
    cnj (grid_sum N support os use_wproj planes q weights r c)"
proof -
  let ?t = "\<lambda>pl vi r c. if centre_in_bounds N support (q vi) then of_real (weights vi) *
        sym_term N (vis_kernel os use_wproj (plane_cache pl)) (plane_support pl) (q vi) r c else 0"
  have "?t pl vi (opposite N r) (opposite N c) = cnj (?t pl vi r c)"
    if "pl \<in> set planes" "vi \<in> set [vi_begin pl..<vi_end pl]" for pl vi
    using assms that by (simp add: sym_term_opposite)
  then show ?thesis
    unfolding grid_sum_def cnj_sum_list map_map comp_def
    by (intro arg_cong [where f = sum_list] map_cong refl) (simp only: cnj_sum_list map_map comp_def cong: map_cong)
qed

lemma populate_kernel_cache_mirrored:
  assumes kern: "even_kernel kern" and os: "oversampling_ok os"
  shows "mirrored_cache os False (populate_kernel_cache kern s os False True) s"
  unfolding mirrored_cache_def mirrored_kernels_def mirrored_at_def
proof (intro allI impI)
  fix q :: visibility and i j
  assume ij: "i < 2 * s + 1" "j < 2 * s + 1"
  obtain u v w V where q: "q = (u, v, w, V)"
    by (metis surj_pair)
  let ?idx = "\<lambda>x. calculate_oversampled_kernel_index os (uv_frac x)"
  let ?a = "\<lambda>x. nat (?idx x + int (os div 2))"
  let ?K = "populate_kernel_cache kern s os False True"
  have range: "- int (os div 2) \<le> ?idx x" "?idx x \<le> int (os div 2)" for x
    using oversampled_index_range by blast+
  have a: "?a x < os div 2 * 2 + 1" for x
    using range [of x] by linarith
  have real: "cnj (?K (?a v) (?a u) i j) = ?K (?a v) (?a u) i j"
    by (simp add: populate_kernel_cache_value [OF a a ij])
  have "?K (?a (- v)) (?a (- u)) (2 * s - i) (2 * s - j) = ?K (?a v) (?a u) i j"
  proof (cases "os = 1")
    case True
    then have "?a x = 0" for x
      using range [of x] by simp
    then show ?thesis
      using populate_kernel_cache_value [of 0 os 0 "2 * s - i" s "2 * s - j" kern] populate_kernel_cache_value [of 0 os 0 i s j kern]
        kernel_mirror [OF kern ij(1), of 0] kernel_mirror [OF kern ij(2), of 0] True ij
      by (simp add: cache_offset_def)
  next
    case False
    then have even: "even os"
      using os by (simp add: oversampling_ok_def)
    have "?a (- x) = os - ?a x" for x
      using range [of x] even by (auto simp: uv_frac_minus oversampled_index_minus elim!: evenE)
    moreover have "?a x \<le> os" for x
      using a [of x] even by simp
    ultimately show ?thesis
      using populate_kernel_cache_mirror [OF kern even _ _ ij] by simp
  qed
  with real show "vis_kernel os False ?K (conjugate_vis q) (2 * s - i) (2 * s - j) = cnj (vis_kernel os False ?K q i j)"
    by (simp add: vis_kernel_def conjugate_vis_def q Let_def)
qed

text \<open>C30. The grid of the whole plane is Hermitian for all kernel functions, so that half of it determines it: the value at the
  opposite place is the conjugate value.\<close>

theorem grid_hermitian:
  assumes "even_kernel kern" and "oversampling_ok os"
    and "\<forall>pl \<in> set planes. plane_cache pl = populate_kernel_cache kern (plane_support pl) os False True"
    and "int r < N" and "int c < N"
  shows "grid_sum N support os False planes q weights (opposite N r) (opposite N c) =
    cnj (grid_sum N support os False planes q weights r c)"
  using assms populate_kernel_cache_mirrored
  by (intro grid_sum_opposite) (simp_all add: mirrored_cache_def mirrored_kernels_def del: split_paired_All)


section \<open>Runs\<close>

definition vis_demo :: vis_data where
  "vis_demo = \<lparr>u_lambda = (\<lambda>i. 1 / 4), v_lambda = (\<lambda>i. - 5 / 4), w_lambda = (\<lambda>i. 0), vis = (\<lambda>i. \<i>), good = (\<lambda>i. 1)\<rparr>"

definition planes_demo :: "grid_plane list" where
  "planes_demo = [\<lparr>vi_begin = 0, vi_end = 1, plane_cache = populate_kernel_cache (triangle_kernel 2) 1 2 False True,
     plane_support = 1\<rparr>]"

theorem halfplane_gridding_witness:
  "fst (grid_planes 8 5 True 2 False (\<lambda>pi. [2, 0, 1])
      (fst (prepare_visibilities False True True 1 8 1 2 vis_demo (\<lambda>i. 3))) planes_demo) 0 0 =
    grid_sum 8 1 2 False planes_demo (vis_of vis_demo) (\<lambda>i. 3) 0 0"
proof -
  obtain A fracs where A: "(A, fracs) = prepare_visibilities False True True 1 8 1 2 vis_demo (\<lambda>i. 3)"
    by (metis surj_pair)
  have rb: "\<forall>pi < length planes_demo. mset [2, 0, 1] = mset [0..<2 * plane_support (planes_demo ! pi) + 1]"
    by (simp add: planes_demo_def upt_rec)
  have ok: "\<forall>pl \<in> set planes_demo. plane_ok 1 1 pl" "\<forall>i < 1. good vis_demo i = 1" "even (8::int)"
    by (simp_all add: planes_demo_def plane_ok_def vis_demo_def)
  have os: "oversampling_ok 2"
    by (simp add: oversampling_ok_def)
  have "fst (grid_planes 8 (8 div 2 + 1) True 2 False (\<lambda>pi. [2, 0, 1]) A planes_demo) 0 0 =
      grid_sum 8 1 2 False planes_demo (vis_of vis_demo) (\<lambda>i. 3) 0 0"
    using halfplane_gridding [OF ok(3) os ok(2) A ok(1) rb, of 0 0 True] by simp
  moreover have "fst (prepare_visibilities False True True 1 8 1 2 vis_demo (\<lambda>i. 3)) = A"
    unfolding A [symmetric] by (rule fst_conv)
  ultimately show ?thesis
    by simp
qed

theorem grid_hermitian_witness:
  "grid_sum 8 1 2 False planes_demo (vis_of vis_demo) (\<lambda>i. 3) (opposite 8 1) (opposite 8 2) =
    cnj (grid_sum 8 1 2 False planes_demo (vis_of vis_demo) (\<lambda>i. 3) 1 2)"
  by (rule grid_hermitian [OF creators_even(2) [of 2, unfolded Triangle_creator_def kernel_creator.select_convs]])
    (simp_all add: oversampling_ok_def planes_demo_def)

end
