(* ===== verification/Convolve_Exact.thy ===== *)
theory Convolve_Exact
  imports Convolve
begin

text \<open>
  The exact gridder within \<^verbatim>\<open>convolve_to_grid\<close> (\<^verbatim>\<open>src/src/stp/gridder/gridder.h\<close>): every
  visibility has a kernel of its own, at the exact fraction of its coordinates.
\<close>

text \<open>The placement of visibility \<open>vi\<close> in round \<open>gv\<close>.\<close>

definition exact_vis_point ::
  "(real \<Rightarrow> real) \<Rightarrow> nat \<Rightarrow> int \<Rightarrow> vis_arrays \<Rightarrow> (nat \<Rightarrow> real \<times> real) \<Rightarrow> nat \<Rightarrow> nat \<Rightarrow> grid_point"
where
  "exact_vis_point kern support N A fracs vi gv =
     (let (kc_x, kc_y) = kernel_centre A vi;
          (f_x, f_y) = fracs vi;
          (gx, gy, fr, val) =
            (if gv = 1 then (- kc_x + N, - kc_y + N, (f_x * - 1, f_y * - 1), cnj (vis_values A vi))
             else (kc_x, kc_y, (f_x, f_y), vis_values A vi));
          normed_kernel_array = make_kernel_array kern support fr 1 False True
      in \<lparr>gc_x = gx, gc_y = gy, kernel_array = (\<lambda>i j. of_real (elt normed_kernel_array i j)),
          vis_val = val, vis_weight = vis_weights A vi\<rparr>)"

definition exact_vis_points ::
  "(real \<Rightarrow> real) \<Rightarrow> nat \<Rightarrow> int \<Rightarrow> vis_arrays \<Rightarrow> (nat \<Rightarrow> real \<times> real) \<Rightarrow> nat \<Rightarrow> grid_point list"
where
  "exact_vis_points kern support N A fracs n =
     concat (map (\<lambda>vi. map (exact_vis_point kern support N A fracs vi) [0..<good_vis A vi]) [0..<n])"

text \<open>The exact kernel of a visibility, and what a list of visibilities adds on the torus with it.\<close>

definition exact_kernel :: "(real \<Rightarrow> real) \<Rightarrow> nat \<Rightarrow> vis_kernels" where
  "exact_kernel kern support = (\<lambda>(u, v, w, V) i j.
     of_real (elt (make_kernel_array kern support (uv_frac u, uv_frac v) 1 False True) i j))"

definition exact_sum ::
  "int \<Rightarrow> nat \<Rightarrow> (real \<Rightarrow> real) \<Rightarrow> nat \<Rightarrow> (nat \<Rightarrow> visibility) \<Rightarrow> (nat \<Rightarrow> real) \<Rightarrow> nat \<Rightarrow> nat \<Rightarrow> complex"
where
  "exact_sum N support kern n q weights r c =
     (\<Sum>vi \<leftarrow> [0..<n]. if centre_in_bounds N support (q vi) then
        of_real (weights vi) * sym_term N (exact_kernel kern support) support (q vi) r c else 0)"

lemma exact_kernel_value_free: "value_free (exact_kernel kern s)"
  by (simp add: value_free_def exact_kernel_def)

lemma exact_kernel_mirrored:
  assumes "even_kernel kern"
  shows "mirrored_kernels (exact_kernel kern s) s"
  unfolding mirrored_kernels_def mirrored_at_def
proof (intro allI impI)
  fix q :: visibility and i j
  assume ij: "i < 2 * s + 1" "j < 2 * s + 1"
  obtain u v w V where q: "q = (u, v, w, V)"
    by (metis surj_pair)
  have m: "2 * s - i < 2 * s + 1" "2 * s - j < 2 * s + 1"
    by simp_all
  show "exact_kernel kern s (conjugate_vis q) (2 * s - i) (2 * s - j) = cnj (exact_kernel kern s q i j)"
    unfolding exact_kernel_def q conjugate_vis_def prod.case uv_frac_minus make_kernel_array_unit [OF m]
      make_kernel_array_unit [OF ij] kernel_sum_mirror [OF assms] kernel_mirror [OF assms ij(1)] kernel_mirror [OF assms ij(2)]
    by simp
qed

lemma exact_vis_point_placed:
  assumes prep: "prepared N support os use_wproj A i q wt" and inb: "centre_in_bounds N support q"
    and fr: "fracs i = (uv_frac (fst q), uv_frac (fst (snd q)))"
  shows "placed N (exact_kernel kern s) (exact_vis_point kern s N A fracs i) q wt"
proof -
  obtain u v w V where q: "q = (u, v, w, V)"
    by (metis surj_pair)
  note A = prep [unfolded prepared_def q prod.case]
  have b: "\<bar>rint v\<bar> < N div 2 - int support"
    using inb by (simp add: centre_in_bounds_def q)
  then have "rint v mod N = rint v"
    using A rint_nonneg [of v] by (intro mod_pos_pos_trivial) linarith+
  then have "kernel_centre A i = (rint u mod N, rint v)"
    using A inb by (simp add: q)
  then show ?thesis
    using A fr unfolding placed_def q prod.case
    by (simp add: exact_vis_point_def Let_def exact_kernel_def conjugate_vis_def uv_frac_minus q)
qed

lemma prepare_visibilities_fracs:
  assumes "i < n" and "(A, fracs) = prepare_visibilities use_wproj True True n N support os d weights"
  shows "fracs i = (uv_frac (fst (oriented (vis_of d i))), uv_frac (fst (snd (oriented (vis_of d i)))))"
proof -
  define d' where "d' = convert_to_halfplane_visibilities use_wproj n (int support) d"
  have "fracs i = (uv_frac (u_lambda d' i), uv_frac (v_lambda d' i))"
    using assms(2) by (simp add: prepare_visibilities_def d'_def [symmetric] Let_def)
  then show ?thesis
    using halfplane_visibility [OF assms(1) d'_def refl] by (simp add: oriented_def vis_of_def conjugate_vis_def abs_if)
qed

text \<open>The grid of the exact gridder on half of the plane.\<close>

lemma exact_points_sums:
  assumes N: "even N" and prep: "\<And>i. i < n \<Longrightarrow> prepared N support os use_wproj A i (q i) (weights i)"
    and fr: "\<And>i. i < n \<Longrightarrow> fracs i = (uv_frac (fst (q i)), uv_frac (fst (snd (q i))))"
    and r: "int r \<le> N div 2" and c: "int c < N"
    and P: "image_size P = N" "image_rows P = N div 2 + 1" "conv_support P = support"
    and ps: "ps = exact_vis_points kern support N A fracs n"
  shows "(\<Sum>p \<leftarrow> ps. vis_val p * point_term P p r c) = exact_sum N support kern n q weights r c"
    and "(\<Sum>p \<leftarrow> ps. point_term P p r c) = exact_sum N support kern n (unit_vis \<circ> q) weights r c"
    and "p \<in> set ps \<Longrightarrow> point_ok P p" and "p \<in> set ps \<Longrightarrow> int support < N div 2"
proof -
  let ?K = "exact_kernel kern support"
  let ?p = "exact_vis_point kern support N A fracs"
  have unit: "centre_in_bounds N support (unit_vis q) = centre_in_bounds N support q" for q
    by (cases q) (simp add: centre_in_bounds_def unit_vis_def)
  have terms: "(\<Sum>gv \<leftarrow> [0..<good_vis A i]. vis_val (?p i gv) * point_term P (?p i gv) r c) =
        (if centre_in_bounds N support (q i) then of_real (weights i) * sym_term N ?K support (q i) r c else 0)"
      "(\<Sum>gv \<leftarrow> [0..<good_vis A i]. point_term P (?p i gv) r c) =
        (if centre_in_bounds N support (q i) then of_real (weights i) * sym_term N ?K support (unit_vis (q i)) r c else 0)"
      "gv < good_vis A i \<Longrightarrow> centre_in_bounds N support (q i) \<and> point_ok P (?p i gv)" if "i < n" for i gv
  proof -
    have v: "0 \<le> fst (snd (q i))" "good_vis A i = placements_good N support (q i)"
      using prep [OF that] by (auto simp: prepared_def placements_good_def)
    note sums = placed_sums [OF N exact_vis_point_placed [where fracs = fracs and i = i, OF prep [OF that] _ fr [OF that]] v(1) exact_kernel_value_free _ r c P(1,2) v(2),
        unfolded P(3), OF _ order_refl]
    show "(\<Sum>gv \<leftarrow> [0..<good_vis A i]. vis_val (?p i gv) * point_term P (?p i gv) r c) =
        (if centre_in_bounds N support (q i) then of_real (weights i) * sym_term N ?K support (q i) r c else 0)"
      "(\<Sum>gv \<leftarrow> [0..<good_vis A i]. point_term P (?p i gv) r c) =
        (if centre_in_bounds N support (q i) then of_real (weights i) * sym_term N ?K support (unit_vis (q i)) r c else 0)"
      "gv < good_vis A i \<Longrightarrow> centre_in_bounds N support (q i) \<and> point_ok P (?p i gv)"
      using sums by blast+
  qed
  have flat: "(\<Sum>p \<leftarrow> ps. f p) = (\<Sum>vi \<leftarrow> [0..<n]. \<Sum>gv \<leftarrow> [0..<good_vis A vi]. f (?p vi gv))" for f :: "grid_point \<Rightarrow> complex"
  proof -
    have "(\<Sum>p \<leftarrow> concat (map (\<lambda>vi. map (?p vi) [0..<good_vis A vi]) xs). f p) =
        (\<Sum>vi \<leftarrow> xs. \<Sum>gv \<leftarrow> [0..<good_vis A vi]. f (?p vi gv))" for xs
      by (induction xs) (simp_all add: comp_def)
    then show ?thesis
      by (simp add: ps exact_vis_points_def)
  qed
  show "(\<Sum>p \<leftarrow> ps. vis_val p * point_term P p r c) = exact_sum N support kern n q weights r c"
    unfolding flat exact_sum_def
    by (intro arg_cong [where f = sum_list] map_cong refl) (simp only: set_upt atLeastLessThan_iff terms(1))
  show "(\<Sum>p \<leftarrow> ps. point_term P p r c) = exact_sum N support kern n (unit_vis \<circ> q) weights r c"
    unfolding flat exact_sum_def
    by (intro arg_cong [where f = sum_list] map_cong refl) (simp only: set_upt atLeastLessThan_iff terms(2) unit comp_apply)
  show "point_ok P p" "int support < N div 2" if mem: "p \<in> set ps"
  proof -
    obtain i gv where "i < n" "gv < good_vis A i" "p = ?p i gv"
      using mem by (auto simp: ps exact_vis_points_def)
    then show "point_ok P p" "int support < N div 2"
      using terms(3) [of i gv] by (auto simp: centre_in_bounds_def split: prod.splits)
  qed
qed

lemma exact_halfplane_grid:
  assumes "even N" and "\<forall>i < n. good d i = 1"
    and A: "(A, fracs) = prepare_visibilities use_wproj True True n N support os d weights"
    and "int r \<le> N div 2" and "int c < N"
    and P: "image_size P = N" "image_rows P = N div 2 + 1" "conv_support P = support"
  shows "fst (exact_gridder P (exact_vis_points kern support N A fracs n) (\<lambda>r c. 0, \<lambda>r c. 0)) r c =
      exact_sum N support kern n (vis_of d) weights r c"
    and "snd (exact_gridder P (exact_vis_points kern support N A fracs n) (\<lambda>r c. 0, \<lambda>r c. 0)) r c =
      (if generate_beam_grid P then exact_sum N support kern n (unit_vis \<circ> vis_of d) weights r c else 0)"
proof -
  let ?ps = "exact_vis_points kern support N A fracs n"
  have prep: "prepared N support os use_wproj A i (oriented (vis_of d i)) (weights i)" if "i < n" for i
    using prepare_visibilities_prepared [OF assms(1) that _ A] assms(2) that by blast
  have fr: "fracs i = (uv_frac (fst (oriented (vis_of d i))), uv_frac (fst (snd (oriented (vis_of d i)))))" if "i < n" for i
    by (rule prepare_visibilities_fracs [OF that A])
  have sums: "(\<Sum>p \<leftarrow> ?ps. vis_val p * point_term P p r c) = exact_sum N support kern n (\<lambda>i. oriented (vis_of d i)) weights r c"
      "(\<Sum>p \<leftarrow> ?ps. point_term P p r c) = exact_sum N support kern n (unit_vis \<circ> (\<lambda>i. oriented (vis_of d i))) weights r c"
      "p \<in> set ?ps \<Longrightarrow> point_ok P p" "p \<in> set ?ps \<Longrightarrow> int support < N div 2" for p
    using exact_points_sums [where kern = kern, OF assms(1) prep fr assms(4,5) P refl] by blast+
  have oriented: "exact_sum N support kern n (\<lambda>i. oriented (q i)) weights = exact_sum N support kern n q weights" for q
    unfolding exact_sum_def sym_term_oriented centre_in_bounds_oriented ..
  have comp: "unit_vis \<circ> (\<lambda>i. oriented (vis_of d i)) = (\<lambda>i. oriented ((unit_vis \<circ> vis_of d) i))"
    by (simp add: fun_eq_iff oriented_unit)
  have "fst (exact_gridder P ?ps (\<lambda>r c. 0, \<lambda>r c. 0)) r c = (\<Sum>p \<leftarrow> ?ps. vis_val p * point_term P p r c) \<and>
    snd (exact_gridder P ?ps (\<lambda>r c. 0, \<lambda>r c. 0)) r c = (if generate_beam_grid P then \<Sum>p \<leftarrow> ?ps. point_term P p r c else 0)"
  proof (cases "?ps = []")
    case True
    then show ?thesis
      by (simp add: exact_gridder_def)
  next
    case False
    then obtain p where "p \<in> set ?ps"
      by (cases ?ps) auto
    then have s: "int support < N div 2"
      by (rule sums(4))
    obtain h where "N = 2 * h"
      using assms(1) by blast
    with s have size: "int (kernel_size P) \<le> image_size P" "image_rows P + int (conv_support P) \<le> image_size P" "0 < image_size P"
      unfolding kernel_size_int P by simp_all
    have ok: "\<forall>p \<in> set ?ps. point_ok P p"
      using sums(3) by blast
    show ?thesis
      unfolding exact_gridder_value [OF size(1,2) ok] by (simp add: serial_gridder_terms [OF size(3) ok])
  qed
  then show "fst (exact_gridder P ?ps (\<lambda>r c. 0, \<lambda>r c. 0)) r c = exact_sum N support kern n (vis_of d) weights r c"
    "snd (exact_gridder P ?ps (\<lambda>r c. 0, \<lambda>r c. 0)) r c =
      (if generate_beam_grid P then exact_sum N support kern n (unit_vis \<circ> vis_of d) weights r c else 0)"
    unfolding sums(1,2) oriented comp by simp_all
qed

lemma exact_sum_opposite:
  assumes "even_kernel kern" and "int r < N" and "int c < N"
  shows "exact_sum N support kern n q weights (opposite N r) (opposite N c) = cnj (exact_sum N support kern n q weights r c)"
proof -
  have cnj_list: "cnj (sum_list xs) = sum_list (map cnj xs)" for xs
    by (induction xs) simp_all
  show ?thesis
    unfolding exact_sum_def cnj_list map_map comp_def
    using assms by (intro arg_cong [where f = sum_list] map_cong refl) (simp add: sym_term_opposite exact_kernel_mirrored [unfolded mirrored_kernels_def])
qed

end
