(* ===== verification/Band_Matrix.thy ===== *)
theory Band_Matrix
  imports Prelude
begin

text \<open>
  The band matrices of \<^verbatim>\<open>src/src/stp/common/spline.h\<close> and \<^verbatim>\<open>spline.cpp\<close>, with
  their LU decomposition and the solution of linear equations by it. An assertion that fails is \<open>None\<close>.
\<close>

section \<open>The matrix\<close>

record band_matrix =
  m_upper :: "real mat"
  m_lower :: "real mat"

text \<open>The memory of a new matrix is not initialised: its contents are a parameter.\<close>

definition bm_setsize :: "(nat \<Rightarrow> nat \<Rightarrow> real) \<Rightarrow> (nat \<Rightarrow> nat \<Rightarrow> real) \<Rightarrow> nat \<Rightarrow> nat \<Rightarrow> nat \<Rightarrow> band_matrix" where
  "bm_setsize mem_u mem_l n n_u n_l =
     \<lparr>m_upper = \<lparr>n_rows = n, n_cols = n_u + 1, elt = mem_u\<rparr>, m_lower = \<lparr>n_rows = n, n_cols = n_l + 1, elt = mem_l\<rparr>\<rparr>"

definition bm_dim :: "band_matrix \<Rightarrow> nat" where
  "bm_dim A = (if n_cols (m_upper A) > 0 then n_rows (m_upper A) else 0)"

definition num_upper :: "band_matrix \<Rightarrow> nat" where
  "num_upper A = n_cols (m_upper A) - 1"

definition num_lower :: "band_matrix \<Rightarrow> nat" where
  "num_lower A = n_cols (m_lower A) - 1"

text \<open>The operator (): \<open>j - i\<close> is the band of the entry; the diagonal is in the upper matrix.\<close>

definition bm_get :: "band_matrix \<Rightarrow> nat \<Rightarrow> nat \<Rightarrow> real" where
  "bm_get A i j = (if j \<ge> i then elt (m_upper A) i (j - i) else elt (m_lower A) i (i - j))"

definition bm_set :: "nat \<Rightarrow> nat \<Rightarrow> real \<Rightarrow> band_matrix \<Rightarrow> band_matrix" where
  "bm_set i j v A =
     (if j \<ge> i then A\<lparr>m_upper := (m_upper A)\<lparr>elt := upd2 (elt (m_upper A)) i (j - i) v\<rparr>\<rparr>
      else A\<lparr>m_lower := (m_lower A)\<lparr>elt := upd2 (elt (m_lower A)) i (i - j) v\<rparr>\<rparr>)"

definition saved_diag :: "band_matrix \<Rightarrow> nat \<Rightarrow> real" where
  "saved_diag A i = elt (m_lower A) i 0"

definition set_saved_diag :: "nat \<Rightarrow> real \<Rightarrow> band_matrix \<Rightarrow> band_matrix" where
  "set_saved_diag i v A = A\<lparr>m_lower := (m_lower A)\<lparr>elt := upd2 (elt (m_lower A)) i 0 v\<rparr>\<rparr>"

section \<open>LU decomposition\<close>

text \<open>Scales a row so that its entry on the diagonal is 1.\<close>

definition precondition_row :: "nat \<Rightarrow> band_matrix \<Rightarrow> band_matrix option" where
  "precondition_row i A =
     (if bm_get A i i = 0 then None
      else
        let A = set_saved_diag i (1 / bm_get A i i) A;
            j_min = i - num_lower A;
            j_max = min (bm_dim A - 1) (i + num_upper A);
            A = fold (\<lambda>j A. bm_set i j (bm_get A i j * saved_diag A i) A) [j_min..<j_max + 1] A
        in Some (bm_set i i 1 A))"

text \<open>Clears the entry of row \<open>i\<close> below the pivot \<open>k\<close>, which keeps the factor.\<close>

definition eliminate :: "nat \<Rightarrow> nat \<Rightarrow> band_matrix \<Rightarrow> band_matrix option" where
  "eliminate k i A =
     (if bm_get A k k = 0 then None
      else
        let x = - bm_get A i k / bm_get A k k;
            A = bm_set i k (- x) A;
            j_max = min (bm_dim A - 1) (k + num_upper A)
        in Some (fold (\<lambda>j A. bm_set i j (bm_get A i j + x * bm_get A k j) A) [k + 1..<j_max + 1] A))"

definition lu_decompose :: "band_matrix \<Rightarrow> band_matrix option" where
  "lu_decompose A =
     fold (\<lambda>k m. Option.bind m (\<lambda>A.
         fold (\<lambda>i m. Option.bind m (eliminate k i)) [k + 1..<min (bm_dim A - 1) (k + num_lower A) + 1] (Some A)))
       [0..<bm_dim A]
       (fold (\<lambda>i m. Option.bind m (precondition_row i)) [0..<bm_dim A] (Some A))"

definition l_solve :: "band_matrix \<Rightarrow> (nat \<Rightarrow> real) \<Rightarrow> nat \<Rightarrow> real" where
  "l_solve A b = fold (\<lambda>i x.
       let s = (\<Sum>j \<leftarrow> [i - num_lower A..<i]. bm_get A i j * x j)
       in x(i := b i * saved_diag A i - s))
     [0..<bm_dim A] (\<lambda>i. 0)"

definition r_solve :: "band_matrix \<Rightarrow> (nat \<Rightarrow> real) \<Rightarrow> nat \<Rightarrow> real" where
  "r_solve A b = fold (\<lambda>i x.
       let s = (\<Sum>j \<leftarrow> [i + 1..<min (bm_dim A - 1) (i + num_upper A) + 1]. bm_get A i j * x j)
       in x(i := (b i - s) / bm_get A i i))
     (rev [0..<bm_dim A]) (\<lambda>i. 0)"

definition lu_solve :: "band_matrix \<Rightarrow> (nat \<Rightarrow> real) \<Rightarrow> bool \<Rightarrow> (nat \<Rightarrow> real) option" where
  "lu_solve A b is_lu_decomposed =
     Option.bind (if is_lu_decomposed then Some A else lu_decompose A)
       (\<lambda>A. Some (r_solve A (l_solve A b)))"

section \<open>The dense matrix of a band matrix\<close>

text \<open>The entries outside of the band are 0.\<close>

definition ent :: "band_matrix \<Rightarrow> nat \<Rightarrow> nat \<Rightarrow> real" where
  "ent A i j = (if i < bm_dim A \<and> j < bm_dim A \<and> j \<le> i + num_upper A \<and> i \<le> j + num_lower A then bm_get A i j else 0)"

definition same_shape :: "band_matrix \<Rightarrow> band_matrix \<Rightarrow> bool" where
  "same_shape A B \<longleftrightarrow> bm_dim A = bm_dim B \<and> num_upper A = num_upper B \<and> num_lower A = num_lower B"

lemma same_shape_refl [simp]: "same_shape A A"
  by (simp add: same_shape_def)

lemma same_shape_trans: "same_shape A B \<Longrightarrow> same_shape B C \<Longrightarrow> same_shape A C"
  by (simp add: same_shape_def)

lemma shape_set [simp]:
  "bm_dim (bm_set i j v A) = bm_dim A" "num_upper (bm_set i j v A) = num_upper A" "num_lower (bm_set i j v A) = num_lower A"
  "bm_dim (set_saved_diag i v A) = bm_dim A" "num_upper (set_saved_diag i v A) = num_upper A"
  "num_lower (set_saved_diag i v A) = num_lower A"
  by (simp_all add: bm_set_def set_saved_diag_def bm_dim_def num_upper_def num_lower_def)

lemma get_set [simp]: "bm_get (bm_set i j v A) k l = (if k = i \<and> l = j then v else bm_get A k l)"
  by (auto simp: bm_get_def bm_set_def)

lemma saved_diag_set [simp]:
  "saved_diag (bm_set i j v A) k = saved_diag A k" "bm_get (set_saved_diag i v A) k l = bm_get A k l"
  "saved_diag (set_saved_diag i v A) k = (if k = i then v else saved_diag A k)"
  by (auto simp: bm_get_def bm_set_def saved_diag_def set_saved_diag_def)

text \<open>A loop over the columns of a row, where a new entry depends on the old one and on other rows.\<close>

lemma row_loop:
  assumes "\<And>j A B. bm_get A i j = bm_get B i j \<Longrightarrow> (\<And>k l. k \<noteq> i \<Longrightarrow> bm_get A k l = bm_get B k l) \<Longrightarrow>
      (\<And>k. saved_diag A k = saved_diag B k) \<Longrightarrow> f j A = f j B"
    and "distinct js"
  shows "bm_get (fold (\<lambda>j A. bm_set i j (f j A) A) js A) k l = (if k = i \<and> l \<in> set js then f l A else bm_get A k l) \<and>
    saved_diag (fold (\<lambda>j A. bm_set i j (f j A) A) js A) k = saved_diag A k \<and>
    same_shape (fold (\<lambda>j A. bm_set i j (f j A) A) js A) A"
  using assms(2)
proof (induction js arbitrary: A)
  case Nil
  then show ?case by simp
next
  case (Cons j js)
  let ?A = "bm_set i j (f j A) A"
  have "f l ?A = f l A" if "l \<noteq> j" for l
    using that by (intro assms(1)) auto
  then show ?case
    using Cons.IH [of ?A] Cons.prems by (auto simp: same_shape_def)
qed

lemma precondition_row_ent:
  assumes "precondition_row i A = Some B" and "i < bm_dim A"
  shows "same_shape B A" and "ent A i i \<noteq> 0"
    and "ent B k l = (if k = i then ent A i l / ent A i i else ent A k l)"
    and "saved_diag B k = (if k = i then 1 / ent A i i else saved_diag A k)"
proof -
  define js where "js = [i - num_lower A..<min (bm_dim A - 1) (i + num_upper A) + 1]"
  define A1 where "A1 = set_saved_diag i (1 / bm_get A i i) A"
  define C where "C = fold (\<lambda>j A. bm_set i j (bm_get A i j * saved_diag A i) A) js A1"
  have B: "bm_get A i i \<noteq> 0" "B = bm_set i i 1 C"
    using assms(1) by (auto simp: precondition_row_def Let_def js_def A1_def C_def split: if_splits)
  have "distinct js"
    by (simp add: js_def)
  then have C: "bm_get C k l = (if k = i \<and> l \<in> set js then bm_get A i l / bm_get A i i else bm_get A k l)"
    "saved_diag C k = (if k = i then 1 / bm_get A i i else saved_diag A k)" "same_shape C A" for k l
    using row_loop [of i "\<lambda>j A. bm_get A i j * saved_diag A i" js A1 k l]
    by (simp_all add: C_def A1_def same_shape_def)
  show shape: "same_shape B A"
    using C(3) by (simp add: B same_shape_def)
  have diag: "ent A i i = bm_get A i i"
    using assms(2) by (simp add: ent_def)
  then show "ent A i i \<noteq> 0"
    using B by simp
  show "saved_diag B k = (if k = i then 1 / ent A i i else saved_diag A k)"
    using C(2) diag by (simp add: B)
  show "ent B k l = (if k = i then ent A i l / ent A i i else ent A k l)"
  proof (cases "k = i \<and> l < bm_dim A \<and> l \<le> i + num_upper A \<and> i \<le> l + num_lower A")
    case True
    then have "l \<in> set js" and A: "ent A i l = bm_get A i l" and band: "ent B i l = bm_get B i l"
      using shape assms(2) by (auto simp: ent_def same_shape_def js_def)
    then show ?thesis
      using True B(1) by (simp add: A band diag) (simp add: B(2) C(1))
  next
    case False
    then have "ent B k l = (if k = i then 0 else ent A k l)"
      using shape by (auto simp: ent_def same_shape_def B(2) C(1))
    moreover have "ent A i l = 0" if "k = i"
      using False that by (auto simp: ent_def)
    ultimately show ?thesis
      by simp
  qed
qed

text \<open>The rows below a pivot, as one step of the elimination on the dense matrix.\<close>

definition gauss_step :: "nat \<Rightarrow> (nat \<Rightarrow> nat \<Rightarrow> real) \<Rightarrow> nat \<Rightarrow> nat \<Rightarrow> real" where
  "gauss_step k M i j =
     (if k < i \<and> j = k then M i k / M k k
      else if k < i \<and> k < j then M i j - M i k / M k k * M k j else M i j)"

lemma eliminate_ent:
  assumes "eliminate k i A = Some B" and "k < i" and "i < bm_dim A" and "i \<le> k + num_lower A"
  shows "same_shape B A" and "saved_diag B r = saved_diag A r" and "ent A k k \<noteq> 0"
    and "ent B r c = (if r = i then gauss_step k (ent A) r c else ent A r c)"
proof -
  define js where "js = [k + 1..<min (bm_dim A - 1) (k + num_upper A) + 1]"
  define x where "x = - bm_get A i k / bm_get A k k"
  define A1 where "A1 = bm_set i k (- x) A"
  have B: "bm_get A k k \<noteq> 0" "B = fold (\<lambda>j A. bm_set i j (bm_get A i j + x * bm_get A k j) A) js A1"
    using assms(1) by (auto simp: eliminate_def Let_def x_def js_def A1_def split: if_splits)
  have k: "distinct js" "k \<notin> set js"
    by (simp_all add: js_def del: upt_Suc)
  then have C: "bm_get B r c = (if r = i \<and> c \<in> set js then bm_get A i c + x * bm_get A k c
      else if r = i \<and> c = k then - x else bm_get A r c)"
    "saved_diag B r = saved_diag A r" "same_shape B A" for r c
    using row_loop [of i "\<lambda>j A. bm_get A i j + x * bm_get A k j" js A1 r c] assms(2)
    by (auto simp: B(2) A1_def same_shape_def)
  show shape: "same_shape B A" and "saved_diag B r = saved_diag A r"
    by (fact C(3), fact C(2))
  have ents: "ent A k k = bm_get A k k" "ent A i k = bm_get A i k"
    using assms by (simp_all add: ent_def)
  then show "ent A k k \<noteq> 0"
    using B by simp
  show "ent B r c = (if r = i then gauss_step k (ent A) r c else ent A r c)"
  proof (cases "r = i \<and> c < bm_dim A \<and> c \<le> i + num_upper A \<and> i \<le> c + num_lower A")
    case True
    then have A: "ent A i c = bm_get A i c" and band: "ent B r c = bm_get B i c"
      using shape assms(3) by (auto simp: ent_def same_shape_def)
    have js: "c \<in> set js \<longleftrightarrow> k < c \<and> c \<le> k + num_upper A"
      using True by (auto simp: js_def)
    have "ent A k c = (if c \<le> k + num_upper A then bm_get A k c else 0)" if "k < c"
      using True assms(2,3) that by (auto simp: ent_def)
    then have "bm_get B i c = gauss_step k (ent A) i c"
      unfolding C(1) js gauss_step_def x_def using assms(2) A ents by (cases "k < c") auto
    then show ?thesis
      using True band by simp
  next
    case False
    then have "ent B r c = (if r = i then 0 else ent A r c)"
      using shape assms(2-4) by (auto simp: ent_def same_shape_def C(1))
    moreover have "gauss_step k (ent A) i c = 0" if "r = i"
      using False that assms(2-4) by (auto simp: ent_def gauss_step_def)
    ultimately show ?thesis
      by simp
  qed
qed

text \<open>Loops whose steps may fail.\<close>

lemma fold_bind_None [simp]: "fold (\<lambda>i m. Option.bind m (f i)) xs None = None"
  by (induction xs) simp_all

lemma fold_bind_upt:
  assumes "fold (\<lambda>i m. Option.bind m (f i)) [lo..<hi] (Some A) = Some B" and "lo \<le> hi" and "P lo A"
    and step: "\<And>i A B. lo \<le> i \<Longrightarrow> i < hi \<Longrightarrow> P i A \<Longrightarrow> f i A = Some B \<Longrightarrow> P (Suc i) B"
  shows "P hi B"
proof -
  have "P hi B" if "fold (\<lambda>i m. Option.bind m (f i)) [k..<hi] (Some A) = Some B" "lo \<le> k" "k \<le> hi" "P k A" for k A
    using that(3,1,2,4)
  proof (induction k arbitrary: A rule: inc_induct)
    case base
    then show ?case by simp
  next
    case (step n)
    then obtain A' where A': "f n A = Some A'" "fold (\<lambda>i m. Option.bind m (f i)) [Suc n..<hi] (Some A') = Some B"
      by (cases "f n A") (auto simp: upt_conv_Cons)
    then show ?case
      using step.IH [of A'] step.prems step.hyps assms(4) by auto
  qed
  from this [of lo A] assms(1-3) show ?thesis by simp
qed

lemma precondition_ent:
  assumes "fold (\<lambda>i m. Option.bind m (precondition_row i)) [0..<bm_dim A] (Some A) = Some B"
  shows "same_shape B A \<and> (\<forall>k < bm_dim A. ent A k k \<noteq> 0 \<and> saved_diag B k = 1 / ent A k k) \<and>
    (\<forall>k l. ent B k l = ent A k l / ent A k k)"
proof -
  have "same_shape B A \<and> (\<forall>k < bm_dim A. ent A k k \<noteq> 0 \<and> saved_diag B k = 1 / ent A k k) \<and>
    (\<forall>k l. ent B k l = (if k < bm_dim A then ent A k l / ent A k k else ent A k l))"
  proof (rule fold_bind_upt [where P = "\<lambda>i B. same_shape B A \<and>
      (\<forall>k < i. ent A k k \<noteq> 0 \<and> saved_diag B k = 1 / ent A k k) \<and>
      (\<forall>k l. ent B k l = (if k < i then ent A k l / ent A k k else ent A k l))", OF assms])
    fix i B C
    assume i: "i < bm_dim A" and B: "same_shape B A \<and>
      (\<forall>k < i. ent A k k \<noteq> 0 \<and> saved_diag B k = 1 / ent A k k) \<and>
      (\<forall>k l. ent B k l = (if k < i then ent A k l / ent A k k else ent A k l))"
      and C: "precondition_row i B = Some C"
    have dim: "i < bm_dim B"
      using i B by (simp add: same_shape_def)
    from precondition_row_ent [OF C dim] B
    show "same_shape C A \<and>
      (\<forall>k < Suc i. ent A k k \<noteq> 0 \<and> saved_diag C k = 1 / ent A k k) \<and>
      (\<forall>k l. ent C k l = (if k < Suc i then ent A k l / ent A k k else ent A k l))"
      by (auto simp: less_Suc_eq intro: same_shape_trans)
  qed simp_all
  moreover have "ent A k l = 0" if "\<not> k < bm_dim A" for k l
    using that by (simp add: ent_def)
  ultimately show ?thesis
    by auto
qed

lemma eliminate_rows_ent:
  assumes "fold (\<lambda>i m. Option.bind m (eliminate k i)) [k + 1..<min (bm_dim A - 1) (k + num_lower A) + 1] (Some A) = Some B"
    and k: "k < bm_dim A"
  shows "same_shape B A \<and> (\<forall>r. saved_diag B r = saved_diag A r) \<and> ent B = gauss_step k (ent A)"
proof -
  define hi where "hi = min (bm_dim A - 1) (k + num_lower A) + 1"
  have "same_shape B A \<and> (\<forall>r. saved_diag B r = saved_diag A r) \<and>
    (\<forall>r c. ent B r c = (if r < hi then gauss_step k (ent A) r c else ent A r c))"
  proof (rule fold_bind_upt [where P = "\<lambda>i B. same_shape B A \<and> (\<forall>r. saved_diag B r = saved_diag A r) \<and>
      (\<forall>r c. ent B r c = (if r < i then gauss_step k (ent A) r c else ent A r c))", OF assms(1) [folded hi_def]])
    show "k + 1 \<le> hi"
      using k by (simp add: hi_def)
    show "same_shape A A \<and> (\<forall>r. saved_diag A r = saved_diag A r) \<and>
      (\<forall>r c. ent A r c = (if r < k + 1 then gauss_step k (ent A) r c else ent A r c))"
      by (simp add: gauss_step_def)
  next
    fix i B C
    assume i: "k + 1 \<le> i" "i < hi" and B: "same_shape B A \<and> (\<forall>r. saved_diag B r = saved_diag A r) \<and>
      (\<forall>r c. ent B r c = (if r < i then gauss_step k (ent A) r c else ent A r c))"
      and C: "eliminate k i B = Some C"
    have bounds: "k < i" "i < bm_dim B" "i \<le> k + num_lower B"
      using i B k by (auto simp: same_shape_def hi_def)
    have "gauss_step k (ent B) i c = gauss_step k (ent A) i c" for c
      using B i by (simp add: gauss_step_def)
    with eliminate_ent [OF C bounds] B
    show "same_shape C A \<and> (\<forall>r. saved_diag C r = saved_diag A r) \<and>
      (\<forall>r c. ent C r c = (if r < Suc i then gauss_step k (ent A) r c else ent A r c))"
      by (auto simp: less_Suc_eq intro: same_shape_trans)
  qed
  moreover have "gauss_step k (ent A) r c = ent A r c" if "\<not> r < hi" for r c
    using that k by (auto simp: gauss_step_def hi_def ent_def)
  ultimately show ?thesis
    by (auto intro!: ext)
qed

text \<open>The whole decomposition: the rows scaled, and the elimination on the dense matrix.\<close>

definition scaled :: "(nat \<Rightarrow> nat \<Rightarrow> real) \<Rightarrow> nat \<Rightarrow> nat \<Rightarrow> real" where
  "scaled M i j = M i j / M i i"

definition gauss :: "(nat \<Rightarrow> nat \<Rightarrow> real) \<Rightarrow> nat \<Rightarrow> nat \<Rightarrow> nat \<Rightarrow> real" where
  "gauss M K = fold gauss_step [0..<K] M"

lemma gauss_simps [simp]: "gauss M 0 = M" "gauss M (Suc K) = gauss_step K (gauss M K)"
  by (simp_all add: gauss_def)

lemma lu_decompose_ent:
  assumes "lu_decompose A = Some B"
  shows "same_shape B A" and "\<forall>k < bm_dim A. ent A k k \<noteq> 0 \<and> saved_diag B k = 1 / ent A k k"
    and "ent B = gauss (scaled (ent A)) (bm_dim A)"
proof -
  let ?rows = "\<lambda>k A. fold (\<lambda>i m. Option.bind m (eliminate k i)) [k + 1..<min (bm_dim A - 1) (k + num_lower A) + 1] (Some A)"
  obtain A1 where A1: "fold (\<lambda>i m. Option.bind m (precondition_row i)) [0..<bm_dim A] (Some A) = Some A1"
    using assms by (cases "fold (\<lambda>i m. Option.bind m (precondition_row i)) [0..<bm_dim A] (Some A)")
      (simp_all add: lu_decompose_def)
  note pre = precondition_ent [OF A1]
  then have scale: "ent A1 = scaled (ent A)"
    by (auto simp: scaled_def intro!: ext)
  have B: "fold (\<lambda>k m. Option.bind m (?rows k)) [0..<bm_dim A] (Some A1) = Some B"
    using assms by (simp add: lu_decompose_def A1)
  have "same_shape B A1 \<and> (\<forall>r. saved_diag B r = saved_diag A1 r) \<and> ent B = gauss (ent A1) (bm_dim A)"
  proof (rule fold_bind_upt [where P = "\<lambda>k B. same_shape B A1 \<and> (\<forall>r. saved_diag B r = saved_diag A1 r) \<and> ent B = gauss (ent A1) k",
        OF B])
    fix k B C
    assume k: "k < bm_dim A" and B: "same_shape B A1 \<and> (\<forall>r. saved_diag B r = saved_diag A1 r) \<and> ent B = gauss (ent A1) k"
      and C: "?rows k B = Some C"
    have dim: "k < bm_dim B"
      using k B pre by (simp add: same_shape_def)
    from eliminate_rows_ent [OF C dim] B
    show "same_shape C A1 \<and> (\<forall>r. saved_diag C r = saved_diag A1 r) \<and> ent C = gauss (ent A1) (Suc k)"
      by (auto intro: same_shape_trans)
  qed simp_all
  then show "same_shape B A" "\<forall>k < bm_dim A. ent A k k \<noteq> 0 \<and> saved_diag B k = 1 / ent A k k"
    "ent B = gauss (scaled (ent A)) (bm_dim A)"
    using pre scale by (auto intro: same_shape_trans)
qed

section \<open>The factors\<close>

text \<open>A row is final once it was the pivot, and so is a column.\<close>

lemma gauss_final:
  assumes "k \<le> K"
  shows "i \<le> k \<Longrightarrow> gauss M K i j = gauss M k i j" and "j < k \<Longrightarrow> gauss M K i j = gauss M k i j"
  using assms by (induction rule: dec_induct) (simp_all add: gauss_step_def)

text \<open>The product of the factors is the matrix, as far as the elimination has come.\<close>

lemma gauss_product:
  assumes "\<And>k. k < K \<Longrightarrow> gauss M K k k \<noteq> 0"
  shows "M i j = (\<Sum>k < min K (min i j). gauss M K i k * gauss M K k j) +
    (if j < K \<and> j < i then gauss M K i j * gauss M K j j else gauss M K i j)"
  using assms
proof (induction K)
  case 0
  then show ?case by simp
next
  case (Suc K)
  let ?G = "gauss M K" and ?G' = "gauss M (Suc K)"
  have row: "?G' r c = ?G r c" if "r \<le> K" for r c
    using that by (simp add: gauss_step_def)
  have col: "?G' r c = ?G r c" if "c < K" for r c
    using that by (simp add: gauss_step_def)
  have pivot: "?G K K \<noteq> 0"
    using Suc.prems [of K] row by simp
  have IH: "M i j = (\<Sum>k < min K (min i j). ?G i k * ?G k j) + (if j < K \<and> j < i then ?G i j * ?G j j else ?G i j)"
    using Suc.prems row by (intro Suc.IH) (metis less_Suc_eq less_imp_le)
  also have "(\<Sum>k < min K (min i j). ?G i k * ?G k j) = (\<Sum>k < min K (min i j). ?G' i k * ?G' k j)"
    using row col by (intro sum.cong refl arg_cong2 [where f = "(*)"]) simp_all
  finally have M: "M i j = (\<Sum>k < min K (min i j). ?G' i k * ?G' k j) + (if j < K \<and> j < i then ?G i j * ?G j j else ?G i j)" .
  consider "i \<le> K" | "K < i" "j < K" | "K < i" "j = K" | "K < i" "K < j"
    by linarith
  then show ?case
  proof cases
    case 1
    then have "min (Suc K) (min i j) = min K (min i j)" "j < Suc K \<and> j < i \<longleftrightarrow> j < K \<and> j < i"
      by auto
    then show ?thesis
      using M row [of i j] row [of j j] 1 by (simp del: gauss_simps)
  next
    case 2
    then have "min (Suc K) (min i j) = min K (min i j)"
      by auto
    then show ?thesis
      using M col [of j i] col [of j j] 2 by (simp del: gauss_simps)
  next
    case 3
    then have "?G' i j * ?G' j j = ?G i j"
      using pivot by (simp add: gauss_step_def)
    moreover have "min (Suc K) (min i j) = min K (min i j)"
      using 3 by auto
    ultimately show ?thesis
      using M 3 by (simp del: gauss_simps)
  next
    case 4
    then have "?G' i K * ?G' K j + ?G' i j = ?G i j"
      by (simp add: gauss_step_def)
    moreover have "min (Suc K) (min i j) = Suc K" "min K (min i j) = K"
      using 4 by auto
    ultimately show ?thesis
      using M 4 by (simp del: gauss_simps)
  qed
qed

section \<open>Solving\<close>

lemma sum_upto_split: "i < n \<Longrightarrow> (\<Sum>j<n. f j) = (\<Sum>j<i. f j) + f i + (\<Sum>j \<in> {i<..<n}. f j)"
  for f :: "nat \<Rightarrow> real"
proof -
  assume "i < n"
  then have "{..<n} = {..<i} \<union> {i} \<union> {i<..<n}"
    by auto
  then have "(\<Sum>j<n. f j) = sum f ({..<i} \<union> {i} \<union> {i<..<n})"
    by simp
  also have "\<dots> = (\<Sum>j<i. f j) + f i + (\<Sum>j \<in> {i<..<n}. f j)"
    by (subst sum.union_disjoint, auto)+
  finally show ?thesis .
qed

lemma l_solve_eq:
  assumes "i < bm_dim A"
  shows "l_solve A b i = b i * saved_diag A i - (\<Sum>j<i. ent A i j * l_solve A b j)"
proof -
  have band: "(\<Sum>j \<leftarrow> [i - num_lower A..<i]. bm_get A i j * x j) = (\<Sum>j<i. ent A i j * x j)" if "i < bm_dim A" for i x
  proof -
    have "(\<Sum>j \<leftarrow> [i - num_lower A..<i]. bm_get A i j * x j) = (\<Sum>j = i - num_lower A..<i. bm_get A i j * x j)"
      by (simp add: interv_sum_list_conv_sum_set_nat)
    also have "\<dots> = (\<Sum>j = i - num_lower A..<i. ent A i j * x j)"
      using that by (intro sum.cong refl) (auto simp: ent_def)
    also have "\<dots> = (\<Sum>j<i. ent A i j * x j)"
      by (intro sum.mono_neutral_left) (auto simp: ent_def)
    finally show ?thesis .
  qed
  have "\<forall>k < bm_dim A. l_solve A b k = b k * saved_diag A k - (\<Sum>j<k. ent A k j * l_solve A b j)"
    unfolding l_solve_def Let_def
    by (rule fold_upt_invariant [where P = "\<lambda>i x. \<forall>k < i. x k = b k * saved_diag A k - (\<Sum>j<k. ent A k j * x j)"])
      (auto simp: less_Suc_eq band)
  with assms show ?thesis by blast
qed

lemma fold_downto_invariant:
  assumes "P n s" and "\<And>i s. i < n \<Longrightarrow> P (Suc i) s \<Longrightarrow> P i (f i s)"
  shows "P 0 (fold f (rev [0..<n]) s)"
  using assms
proof (induction n arbitrary: s)
  case 0
  then show ?case by simp
next
  case (Suc n)
  have "P 0 (fold f (rev [0..<n]) (f n s))"
    using Suc.prems by (intro Suc.IH) auto
  then show ?case by simp
qed

lemma r_solve_eq:
  assumes "i < bm_dim A" and "\<And>k. k < bm_dim A \<Longrightarrow> ent A k k \<noteq> 0"
  shows "(\<Sum>j \<in> {i..<bm_dim A}. ent A i j * r_solve A b j) = b i"
proof -
  let ?n = "bm_dim A"
  have band: "(\<Sum>j \<leftarrow> [i + 1..<min (?n - 1) (i + num_upper A) + 1]. bm_get A i j * x j) = (\<Sum>j \<in> {i<..<?n}. ent A i j * x j)"
    if "i < ?n" for i x
  proof -
    have "(\<Sum>j \<leftarrow> [i + 1..<min (?n - 1) (i + num_upper A) + 1]. bm_get A i j * x j) =
        (\<Sum>j = i + 1..<min (?n - 1) (i + num_upper A) + 1. bm_get A i j * x j)"
      by (simp add: interv_sum_list_conv_sum_set_nat del: upt_Suc)
    also have "\<dots> = (\<Sum>j = i + 1..<min (?n - 1) (i + num_upper A) + 1. ent A i j * x j)"
      using that by (intro sum.cong refl) (auto simp: ent_def)
    also have "\<dots> = (\<Sum>j \<in> {i<..<?n}. ent A i j * x j)"
      using that by (intro sum.mono_neutral_left) (auto simp: ent_def)
    finally show ?thesis .
  qed
  have "\<forall>k. 0 \<le> k \<and> k < ?n \<longrightarrow> r_solve A b k = (b k - (\<Sum>j \<in> {k<..<?n}. ent A k j * r_solve A b j)) / ent A k k"
    unfolding r_solve_def Let_def
  proof (rule fold_downto_invariant [where P = "\<lambda>i x. \<forall>k. i \<le> k \<and> k < ?n \<longrightarrow>
      x k = (b k - (\<Sum>j \<in> {k<..<?n}. ent A k j * x j)) / ent A k k"])
    fix i x
    assume i: "i < ?n" and x: "\<forall>k. Suc i \<le> k \<and> k < ?n \<longrightarrow> x k = (b k - (\<Sum>j \<in> {k<..<?n}. ent A k j * x j)) / ent A k k"
    let ?v = "(b i - (\<Sum>j \<leftarrow> [i + 1..<min (?n - 1) (i + num_upper A) + 1]. bm_get A i j * x j)) / bm_get A i i"
    have diag: "bm_get A i i = ent A i i"
      using i by (simp add: ent_def)
    have later: "(\<Sum>j \<in> {k<..<?n}. ent A k j * (x(i := ?v)) j) = (\<Sum>j \<in> {k<..<?n}. ent A k j * x j)" if "i \<le> k" for k
      using that by (intro sum.cong refl) auto
    show "\<forall>k. i \<le> k \<and> k < ?n \<longrightarrow>
        (x(i := ?v)) k = (b k - (\<Sum>j \<in> {k<..<?n}. ent A k j * (x(i := ?v)) j)) / ent A k k"
    proof (intro allI impI)
      fix k
      assume k: "i \<le> k \<and> k < ?n"
      show "(x(i := ?v)) k = (b k - (\<Sum>j \<in> {k<..<?n}. ent A k j * (x(i := ?v)) j)) / ent A k k"
        unfolding later [OF conjunct1 [OF k]] using k x band [OF i, of x] diag by (cases "k = i") (auto simp del: upt_Suc)
    qed
  qed simp
  then have "r_solve A b i * ent A i i = b i - (\<Sum>j \<in> {i<..<?n}. ent A i j * r_solve A b j)"
    using assms by (simp add: field_simps)
  moreover have "{i..<?n} = insert i {i<..<?n}"
    using assms(1) by auto
  ultimately show ?thesis
    by (simp add: algebra_simps)
qed

text \<open>If no pivot is 0, the result solves the equations.\<close>

lemma lu_solve_correct:
  assumes B: "lu_decompose A = Some B" and pivots: "\<And>k. k < bm_dim A \<Longrightarrow> ent B k k \<noteq> 0" and i: "i < bm_dim A"
  shows "(\<Sum>j<bm_dim A. ent A i j * r_solve B (l_solve B b) j) = b i"
proof -
  let ?n = "bm_dim A" and ?x = "r_solve B (l_solve B b)" and ?y = "l_solve B b"
  note lu = lu_decompose_ent [OF B]
  have n: "bm_dim B = ?n"
    using lu(1) by (simp add: same_shape_def)
  define L where "L r k = (if k < r then ent B r k else if k = r then 1 else 0)" for r k
  define U where "U k c = (if k \<le> c then ent B k c else 0)" for k c
  have product: "scaled (ent A) i j = (\<Sum>k<?n. L i k * U k j)" if j: "j < ?n" for j
  proof -
    have "scaled (ent A) i j = (\<Sum>k < min ?n (min i j). ent B i k * ent B k j) +
        (if j < ?n \<and> j < i then ent B i j * ent B j j else ent B i j)"
      unfolding lu(3) using pivots lu(3) by (intro gauss_product) auto
    also have "\<dots> = (\<Sum>k < min i j. L i k * U k j) + L i (min i j) * U (min i j) j"
      using i j by (auto simp: L_def U_def min_def)
    also have "\<dots> = (\<Sum>k < Suc (min i j). L i k * U k j)"
      by simp
    also have "\<dots> = (\<Sum>k<?n. L i k * U k j)"
      using i j by (intro sum.mono_neutral_left) (auto simp: L_def U_def)
    finally show ?thesis .
  qed
  have Ux: "(\<Sum>j<?n. U k j * ?x j) = ?y k" if "k < ?n" for k
  proof -
    have "(\<Sum>j<?n. U k j * ?x j) = (\<Sum>j \<in> {k..<?n}. ent B k j * ?x j)"
      using that by (intro sum.mono_neutral_cong_right) (auto simp: U_def)
    also have "\<dots> = ?y k"
      using r_solve_eq [of k B ?y] that pivots by (simp add: n)
    finally show ?thesis .
  qed
  have Ly: "(\<Sum>k<?n. L i k * ?y k) = b i / ent A i i"
  proof -
    have "(\<Sum>k<?n. L i k * ?y k) = (\<Sum>k<i. ent B i k * ?y k) + ?y i"
      unfolding sum_upto_split [OF i] by (simp add: L_def)
    then show ?thesis
      using l_solve_eq [of i B b] lu(2) i by (simp add: n)
  qed
  have "(\<Sum>j<?n. scaled (ent A) i j * ?x j) = (\<Sum>j<?n. \<Sum>k<?n. L i k * (U k j * ?x j))"
    using product by (intro sum.cong refl) (simp add: sum_distrib_right mult.assoc)
  also have "\<dots> = (\<Sum>k<?n. L i k * (\<Sum>j<?n. U k j * ?x j))"
    by (subst sum.swap) (simp add: sum_distrib_left)
  also have "\<dots> = b i / ent A i i"
    using Ux Ly by simp
  finally have "(\<Sum>j<?n. ent A i j * ?x j) / ent A i i = b i / ent A i i"
    by (simp add: scaled_def sum_divide_distrib)
  then show ?thesis
    using lu(2) i by simp
qed

section \<open>Tridiagonal matrices with a dominant diagonal\<close>

lemma fold_bind_total:
  assumes "lo \<le> hi" and "P lo A"
    and "\<And>i A. lo \<le> i \<Longrightarrow> i < hi \<Longrightarrow> P i A \<Longrightarrow> \<exists>B. f i A = Some B \<and> P (Suc i) B"
  shows "\<exists>B. fold (\<lambda>i m. Option.bind m (f i)) [lo..<hi] (Some A) = Some B \<and> P hi B"
proof -
  have "\<exists>B. fold (\<lambda>i m. Option.bind m (f i)) [lo..<hi] m = Some B \<and> P hi B" if "m = Some A" for m
    using fold_upt_invariant [where P = "\<lambda>i m. \<exists>A. m = Some A \<and> P i A", OF assms(1), of m "\<lambda>i m. Option.bind m (f i)"]
      assms(2,3) that by fastforce
  then show ?thesis by blast
qed

lemma precondition_total:
  assumes "\<And>k. k < bm_dim A \<Longrightarrow> ent A k k \<noteq> 0"
  shows "\<exists>B. fold (\<lambda>i m. Option.bind m (precondition_row i)) [0..<bm_dim A] (Some A) = Some B"
proof -
  have "\<exists>B. precondition_row i C = Some B \<and> (same_shape B A \<and>
      (\<forall>k l. ent B k l = (if k < Suc i then ent A k l / ent A k k else ent A k l)))"
    if i: "i < bm_dim A" and C: "same_shape C A \<and> (\<forall>k l. ent C k l = (if k < i then ent A k l / ent A k k else ent A k l))" for i C
  proof -
    have dim: "i < bm_dim C"
      using i C by (simp add: same_shape_def)
    then have "bm_get C i i = ent C i i"
      by (simp add: ent_def)
    then have "bm_get C i i = ent A i i"
      using C by simp
    then obtain B where B: "precondition_row i C = Some B"
      using assms [OF i] by (simp add: precondition_row_def Let_def)
    from precondition_row_ent [OF B dim] C show ?thesis
      by (intro exI [of _ B]) (auto simp: B less_Suc_eq intro: same_shape_trans)
  qed
  then have "\<exists>B. fold (\<lambda>i m. Option.bind m (precondition_row i)) [0..<bm_dim A] (Some A) = Some B \<and> (same_shape B A \<and>
      (\<forall>k l. ent B k l = (if k < bm_dim A then ent A k l / ent A k k else ent A k l)))"
    by (intro fold_bind_total [where P = "\<lambda>i B. same_shape B A \<and>
      (\<forall>k l. ent B k l = (if k < i then ent A k l / ent A k k else ent A k l))"]) simp_all
  then show ?thesis by blast
qed

lemma eliminate_rows_total:
  assumes "ent A k k \<noteq> 0" and k: "k < bm_dim A"
  shows "\<exists>B. fold (\<lambda>i m. Option.bind m (eliminate k i)) [k + 1..<min (bm_dim A - 1) (k + num_lower A) + 1] (Some A) = Some B"
proof -
  define hi where "hi = min (bm_dim A - 1) (k + num_lower A) + 1"
  have "\<exists>B. eliminate k i C = Some B \<and> (same_shape B A \<and> ent B k k = ent A k k)"
    if i: "k + 1 \<le> i" "i < hi" and C: "same_shape C A \<and> ent C k k = ent A k k" for i C
  proof -
    have bounds: "k < i" "i < bm_dim C" "i \<le> k + num_lower C"
      using i C k by (auto simp: same_shape_def hi_def)
    have "bm_get C k k = ent C k k"
      using bounds by (simp add: ent_def)
    then obtain B where B: "eliminate k i C = Some B"
      using assms C by (simp add: eliminate_def Let_def)
    from eliminate_ent [OF B bounds] C bounds show ?thesis
      by (intro exI [of _ B]) (auto simp: B intro: same_shape_trans)
  qed
  then have "\<exists>B. fold (\<lambda>i m. Option.bind m (eliminate k i)) [k + 1..<hi] (Some A) = Some B \<and> (same_shape B A \<and> ent B k k = ent A k k)"
    using k by (intro fold_bind_total [where P = "\<lambda>i B. same_shape B A \<and> ent B k k = ent A k k"]) (simp_all add: hi_def)
  then show ?thesis
    unfolding hi_def by blast
qed

definition dominant :: "nat \<Rightarrow> (nat \<Rightarrow> nat \<Rightarrow> real) \<Rightarrow> bool" where
  "dominant n M \<longleftrightarrow> (\<forall>i < n. (if i = 0 then 0 else \<bar>M i (i - 1)\<bar>) + \<bar>M i (i + 1)\<bar> < \<bar>M i i\<bar>)"

lemma gauss_tridiagonal:
  assumes tri: "\<And>i j. j > i + 1 \<or> i > j + 1 \<Longrightarrow> M i j = 0" and one: "\<And>i. i < n \<Longrightarrow> M i i = 1" and dom: "dominant n M"
    and K: "K < n"
  shows "(\<forall>r c. K < r \<longrightarrow> gauss M K r c = M r c) \<and> (\<forall>c > K. gauss M K K c = M K c) \<and> \<bar>M K (K + 1)\<bar> < gauss M K K K"
  using K
proof (induction K)
  case 0
  then show ?case
    using dom one by (auto simp: dominant_def)
next
  case (Suc K)
  let ?G = "gauss M K" and ?G' = "gauss M (Suc K)"
  have IH: "\<forall>r c. K < r \<longrightarrow> ?G r c = M r c" "\<forall>c > K. ?G K c = M K c" "\<bar>M K (K + 1)\<bar> < ?G K K"
    using Suc by auto
  have "?G' r c = M r c" if "Suc K < r" for r c
    using that IH(1) tri [where i = r and j = K] by (simp add: gauss_step_def)
  moreover have "?G' (Suc K) c = M (Suc K) c" if "Suc K < c" for c
    using that IH tri [where i = K and j = c] by (simp add: gauss_step_def)
  moreover have "\<bar>M (Suc K) (Suc K + 1)\<bar> < ?G' (Suc K) (Suc K)"
  proof -
    have pos: "0 < ?G K K"
      using IH(3) by linarith
    have eq: "?G' (Suc K) (Suc K) = 1 - M (Suc K) K * (M K (K + 1) / ?G K K)"
      using IH one [OF Suc.prems] by (simp add: gauss_step_def)
    have "\<bar>M K (K + 1) / ?G K K\<bar> \<le> 1"
      using IH(3) pos by (simp add: abs_divide)
    then have "\<bar>M (Suc K) K * (M K (K + 1) / ?G K K)\<bar> \<le> \<bar>M (Suc K) K\<bar>"
      unfolding abs_mult by (intro mult_left_le) auto
    moreover have "\<bar>M (Suc K) K\<bar> + \<bar>M (Suc K) (Suc K + 1)\<bar> < 1"
      using dom Suc.prems one [OF Suc.prems] unfolding dominant_def by (auto dest!: spec [of _ "Suc K"])
    ultimately show ?thesis
      unfolding eq by linarith
  qed
  ultimately show ?case
    by simp
qed

text \<open>The decomposition succeeds, and no pivot is 0.\<close>

lemma lu_decompose_total:
  assumes shape: "num_upper A = 1" "num_lower A = 1" and dom: "dominant (bm_dim A) (ent A)"
  shows "\<exists>B. lu_decompose A = Some B \<and> (\<forall>k < bm_dim A. ent B k k \<noteq> 0)"
proof -
  let ?n = "bm_dim A" and ?M = "scaled (ent A)"
  let ?rows = "\<lambda>k A. fold (\<lambda>i m. Option.bind m (eliminate k i)) [k + 1..<min (bm_dim A - 1) (k + num_lower A) + 1] (Some A)"
  have diag: "ent A k k \<noteq> 0" if "k < ?n" for k
    using dom that by (auto simp: dominant_def split: if_splits)
  then obtain A1 where A1: "fold (\<lambda>i m. Option.bind m (precondition_row i)) [0..<?n] (Some A) = Some A1"
    using precondition_total by blast
  note pre = precondition_ent [OF A1]
  then have scale: "ent A1 = ?M"
    by (auto simp: scaled_def intro!: ext)
  have pivot: "gauss ?M k k k \<noteq> 0" if "k < ?n" for k
  proof -
    have "dominant ?n ?M"
      unfolding dominant_def
    proof (intro allI impI)
      fix i assume i: "i < ?n"
      have "((if i = 0 then 0 else \<bar>ent A i (i - 1)\<bar>) + \<bar>ent A i (i + 1)\<bar>) / \<bar>ent A i i\<bar> < 1"
        using dom diag [OF i] i by (simp add: dominant_def)
      then show "(if i = 0 then 0 else \<bar>?M i (i - 1)\<bar>) + \<bar>?M i (i + 1)\<bar> < \<bar>?M i i\<bar>"
        using diag [OF i] by (auto simp: scaled_def abs_divide add_divide_distrib split: if_splits)
    qed
    moreover have "?M i j = 0" if "j > i + 1 \<or> i > j + 1" for i j
      using that shape by (auto simp: scaled_def ent_def)
    moreover have "?M i i = 1" if "i < ?n" for i
      using diag [OF that] by (simp add: scaled_def)
    ultimately show ?thesis
      using gauss_tridiagonal [of ?M ?n k] that by fastforce
  qed
  have "\<exists>C. ?rows k B = Some C \<and> (same_shape C A1 \<and> ent C = gauss ?M (Suc k))"
    if k: "k < ?n" and B: "same_shape B A1 \<and> ent B = gauss ?M k" for k B
  proof -
    have dim: "k < bm_dim B"
      using k B pre by (simp add: same_shape_def)
    then obtain C where C: "?rows k B = Some C"
      using eliminate_rows_total [of B k] pivot [OF k] B by auto
    with eliminate_rows_ent [OF C dim] B show ?thesis
      by (auto intro: same_shape_trans)
  qed
  then have "\<exists>B. fold (\<lambda>k m. Option.bind m (?rows k)) [0..<?n] (Some A1) = Some B \<and> (same_shape B A1 \<and> ent B = gauss ?M ?n)"
    by (intro fold_bind_total [where P = "\<lambda>k B. same_shape B A1 \<and> ent B = gauss ?M k"]) (simp_all add: scale)
  then obtain B where B: "lu_decompose A = Some B" "ent B = gauss ?M ?n"
    by (auto simp: lu_decompose_def A1)
  have "ent B k k \<noteq> 0" if "k < ?n" for k
    using pivot [OF that] gauss_final(1) [of k ?n k ?M k] that by (simp add: B(2))
  with B(1) show ?thesis by blast
qed

end
