(* ===== verification/Spline.thy ===== *)
theory Spline
  imports Band_Matrix
begin

text \<open>
  The interpolation by cubic and linear splines in \<^verbatim>\<open>src/src/stp/common/spline.h\<close> and
  \<^verbatim>\<open>spline.cpp\<close>, which the Hankel form of the w-kernels uses. A cubic spline is shown to go through its points
  and to be twice continuously differentiable, with the derivatives that \<^verbatim>\<open>deriv\<close> returns.
\<close>

section \<open>The class\<close>

datatype bd_type = First_Deriv | Second_Deriv

record spline =
  m_x :: "real list"
  m_y :: "real list"
  m_a :: "nat \<Rightarrow> real"
  m_b :: "nat \<Rightarrow> real"
  m_c :: "nat \<Rightarrow> real"
  m_b0 :: real
  m_c0 :: real
  m_left :: bd_type
  m_right :: bd_type
  m_left_value :: real
  m_right_value :: real
  m_force_linear_extrapolation :: bool

definition new_spline :: spline where
  "new_spline = \<lparr>m_x = [], m_y = [], m_a = (\<lambda>i. 0), m_b = (\<lambda>i. 0), m_c = (\<lambda>i. 0), m_b0 = 0, m_c0 = 0,
     m_left = Second_Deriv, m_right = Second_Deriv, m_left_value = 0, m_right_value = 0,
     m_force_linear_extrapolation = False\<rparr>"

text \<open>It asserts that there are no points yet.\<close>

definition set_boundary :: "bd_type \<Rightarrow> real \<Rightarrow> bd_type \<Rightarrow> real \<Rightarrow> bool \<Rightarrow> spline \<Rightarrow> spline option" where
  "set_boundary left left_value right right_value force S =
     (if m_x S = [] then
        Some (S\<lparr>m_left := left, m_right := right, m_left_value := left_value, m_right_value := right_value,
          m_force_linear_extrapolation := force\<rparr>)
      else None)"

text \<open>The equations for the coefficients \<open>b\<close>: an inner row, and the rows of the boundaries.\<close>

definition inner_row :: "real list \<Rightarrow> real list \<Rightarrow> nat \<Rightarrow> band_matrix \<times> (nat \<Rightarrow> real) \<Rightarrow> band_matrix \<times> (nat \<Rightarrow> real)" where
  "inner_row x y i = (\<lambda>(A, rhs).
     (bm_set i (i + 1) (1 / 3 * (x ! (i + 1) - x ! i))
        (bm_set i i (2 / 3 * (x ! (i + 1) - x ! (i - 1)))
          (bm_set i (i - 1) (1 / 3 * (x ! i - x ! (i - 1))) A)),
      rhs(i := (y ! (i + 1) - y ! i) / (x ! (i + 1) - x ! i) - (y ! i - y ! (i - 1)) / (x ! i - x ! (i - 1)))))"

definition left_row :: "spline \<Rightarrow> real list \<Rightarrow> real list \<Rightarrow> band_matrix \<times> (nat \<Rightarrow> real) \<Rightarrow> band_matrix \<times> (nat \<Rightarrow> real)" where
  "left_row S x y = (\<lambda>(A, rhs). case m_left S of
       Second_Deriv \<Rightarrow> (bm_set 0 1 0 (bm_set 0 0 2 A), rhs(0 := m_left_value S))
     | First_Deriv \<Rightarrow> (bm_set 0 1 (1 * (x ! 1 - x ! 0)) (bm_set 0 0 (2 * (x ! 1 - x ! 0)) A),
         rhs(0 := 3 * ((y ! 1 - y ! 0) / (x ! 1 - x ! 0) - m_left_value S))))"

definition right_row :: "spline \<Rightarrow> real list \<Rightarrow> real list \<Rightarrow> band_matrix \<times> (nat \<Rightarrow> real) \<Rightarrow> band_matrix \<times> (nat \<Rightarrow> real)" where
  "right_row S x y = (\<lambda>(A, rhs). let n = length x in case m_right S of
       Second_Deriv \<Rightarrow> (bm_set (n - 1) (n - 2) 0 (bm_set (n - 1) (n - 1) 2 A), rhs(n - 1 := m_right_value S))
     | First_Deriv \<Rightarrow> (bm_set (n - 1) (n - 2) (1 * (x ! (n - 1) - x ! (n - 2)))
           (bm_set (n - 1) (n - 1) (2 * (x ! (n - 1) - x ! (n - 2))) A),
         rhs(n - 1 := 3 * (m_right_value S - (y ! (n - 1) - y ! (n - 2)) / (x ! (n - 1) - x ! (n - 2))))))"

text \<open>\<open>mem_u\<close> and \<open>mem_l\<close> are what the memory of the matrix holds before.\<close>

definition spline_equations ::
  "(nat \<Rightarrow> nat \<Rightarrow> real) \<Rightarrow> (nat \<Rightarrow> nat \<Rightarrow> real) \<Rightarrow> spline \<Rightarrow> real list \<Rightarrow> real list \<Rightarrow> band_matrix \<times> (nat \<Rightarrow> real)"
where
  "spline_equations mem_u mem_l S x y =
     (let n = length x
      in right_row S x y (left_row S x y
           (fold (inner_row x y) [1..<n - 1] (bm_setsize mem_u mem_l n 1 1, \<lambda>i. 0))))"

definition cubic_coefs :: "real list \<Rightarrow> real list \<Rightarrow> (nat \<Rightarrow> real) \<Rightarrow> spline \<Rightarrow> spline" where
  "cubic_coefs x y b S =
     (let n = length x;
          (a, c) = fold (\<lambda>i (a, c).
              (a(i := 1 / 3 * (b (i + 1) - b i) / (x ! (i + 1) - x ! i)),
               c(i := (y ! (i + 1) - y ! i) / (x ! (i + 1) - x ! i) - 1 / 3 * (2 * b i + b (i + 1)) * (x ! (i + 1) - x ! i))))
            [0..<n - 1] (\<lambda>i. 0, \<lambda>i. 0);
          b0 = (if \<not> m_force_linear_extrapolation S then b 0 else 0);
          c0 = c 0;
          h = x ! (n - 1) - x ! (n - 2);
          a = a(n - 1 := 0);
          c = c(n - 1 := 3 * a (n - 2) * h * h + 2 * b (n - 2) * h + c (n - 2));
          b = (if m_force_linear_extrapolation S then b(n - 1 := 0) else b)
      in S\<lparr>m_a := a, m_b := b, m_c := c, m_b0 := b0, m_c0 := c0\<rparr>)"

definition linear_coefs :: "real list \<Rightarrow> real list \<Rightarrow> nat \<Rightarrow> real" where
  "linear_coefs x y =
     (let n = length x;
          c = fold (\<lambda>i c. c(i := (y ! (i + 1) - y ! i) / (x ! (i + 1) - x ! i))) [0..<n - 1] (\<lambda>i. 0)
      in c(n - 1 := c (n - 2)))"

definition points_ok :: "real list \<Rightarrow> real list \<Rightarrow> bool" where
  "points_ok x y \<longleftrightarrow> length x = length y \<and> length x > 2 \<and> (\<forall>i < length x - 1. x ! i < x ! (i + 1))"

definition set_points ::
  "bool \<Rightarrow> (nat \<Rightarrow> nat \<Rightarrow> real) \<Rightarrow> (nat \<Rightarrow> nat \<Rightarrow> real) \<Rightarrow> real list \<Rightarrow> real list \<Rightarrow> bool \<Rightarrow> spline \<Rightarrow> spline option"
where
  "set_points isCubic mem_u mem_l x y copy S =
     (if \<not> points_ok x y then None
      else
        let S = (if copy then S\<lparr>m_x := x, m_y := y\<rparr> else S)
        in if isCubic then
             let (A, rhs) = spline_equations mem_u mem_l S x y
             in Option.bind (lu_solve A rhs False) (\<lambda>b. Some (cubic_coefs x y b S))
           else let c = linear_coefs x y in Some (S\<lparr>m_c := c, m_c0 := c 0\<rparr>))"

text \<open>The binary search, which ends one before the first point that is not below \<open>t\<close>.\<close>

function lower_bound :: "real list \<Rightarrow> nat \<Rightarrow> nat \<Rightarrow> real \<Rightarrow> nat" where
  "lower_bound xs first past t =
     (if first < past then
        let mid = (first + past) div 2
        in if t > xs ! mid then lower_bound xs (mid + 1) past t else lower_bound xs first mid t
      else first - 1)"
  by pat_completeness auto
termination
  by (relation "measure (\<lambda>(xs, first, past, t). past - first)") auto

declare lower_bound.simps [simp del]

definition spline_at :: "bool \<Rightarrow> spline \<Rightarrow> real \<Rightarrow> real" where
  "spline_at isCubic S t =
     (let n = length (m_x S);
          idx = lower_bound (m_x S) 0 n t;
          h = t - m_x S ! idx
      in if t < m_x S ! 0 then
           (if isCubic then (m_b0 S * h + m_c0 S) * h + m_y S ! 0 else m_c0 S * h + m_y S ! 0)
         else if t > m_x S ! (n - 1) then
           (if isCubic then (m_b S (n - 1) * h + m_c S (n - 1)) * h + m_y S ! (n - 1)
            else m_c S (n - 1) * h + m_y S ! (n - 1))
         else
           (if isCubic then ((m_a S idx * h + m_b S idx) * h + m_c S idx) * h + m_y S ! idx
            else m_c S idx * h + m_y S ! idx))"

text \<open>The operator that gets the point below \<open>t\<close> from its caller.\<close>

definition spline_at_index :: "bool \<Rightarrow> spline \<Rightarrow> real \<Rightarrow> nat \<Rightarrow> real \<Rightarrow> real \<Rightarrow> real" where
  "spline_at_index isCubic S t idx dm_x dm_y =
     (let h = t - dm_x
      in if isCubic then ((m_a S idx * h + m_b S idx) * h + m_c S idx) * h + dm_y
         else m_c S idx * h + dm_y)"

definition spline_deriv :: "spline \<Rightarrow> nat \<Rightarrow> real \<Rightarrow> real" where
  "spline_deriv S order t =
     (let n = length (m_x S);
          idx = lower_bound (m_x S) 0 n t;
          h = t - m_x S ! idx
      in if t < m_x S ! 0 then
           (if order = 1 then 2 * m_b0 S * h + m_c0 S
            else if order = 2 then 2 * m_b0 S * h
            else 0)
         else if t > m_x S ! (n - 1) then
           (if order = 1 then 2 * m_b S (n - 1) * h + m_c S (n - 1)
            else if order = 2 then 2 * m_b S (n - 1)
            else 0)
         else
           (if order = 1 then (3 * m_a S idx * h + 2 * m_b S idx) * h + m_c S idx
            else if order = 2 then 6 * m_a S idx * h + 2 * m_b S idx
            else if order = 3 then 6 * m_a S idx
            else 0))"

section \<open>The class linearspline\<close>

record linearspline =
  l_x :: "real list"
  l_y :: "real list"
  l_a :: "nat \<Rightarrow> real"

definition linearspline_set_points :: "real list \<Rightarrow> real list \<Rightarrow> bool \<Rightarrow> linearspline \<Rightarrow> linearspline option" where
  "linearspline_set_points x y copy S =
     (if \<not> points_ok x y then None
      else
        let S = (if copy then S\<lparr>l_x := x, l_y := y\<rparr> else S);
            n = length x;
            a = fold (\<lambda>i a. a(i := (y ! (i + 1) - y ! i) / (x ! (i + 1) - x ! i))) [0..<n - 1] (\<lambda>i. 0)
        in Some (S\<lparr>l_a := a(n - 1 := a (n - 2))\<rparr>))"

definition linearspline_at :: "linearspline \<Rightarrow> real \<Rightarrow> real" where
  "linearspline_at S t =
     (let n = length (l_x S);
          idx = lower_bound (l_x S) 0 n t;
          h = t - l_x S ! idx
      in if t < l_x S ! 0 then l_a S 0 * h + l_y S ! 0
         else if t > l_x S ! (n - 1) then l_a S (n - 1) * h + l_y S ! (n - 1)
         else l_a S idx * h + l_y S ! idx)"

definition linearspline_at_index :: "linearspline \<Rightarrow> real \<Rightarrow> nat \<Rightarrow> real \<Rightarrow> real \<Rightarrow> real" where
  "linearspline_at_index S t idx dm_x dm_y = (let h = t - dm_x in l_a S idx * h + dm_y)"

section \<open>The binary search\<close>

definition strictly_increasing :: "real list \<Rightarrow> bool" where
  "strictly_increasing x \<longleftrightarrow> (\<forall>i < length x - 1. x ! i < x ! (i + 1))"

lemma increasing_less:
  assumes "strictly_increasing x" and "i < j" and "j < length x"
  shows "x ! i < x ! j"
  using assms(2,3)
proof (induction j)
  case 0
  then show ?case by simp
next
  case (Suc j)
  then have step: "x ! j < x ! (j + 1)"
    using assms(1) by (auto simp: strictly_increasing_def)
  show ?case
    using Suc step by (cases "i = j") auto
qed

lemma increasing_le: "strictly_increasing x \<Longrightarrow> i \<le> j \<Longrightarrow> j < length x \<Longrightarrow> x ! i \<le> x ! j"
  using increasing_less [of x i j] by (cases "i = j") auto

lemma increasing_ends:
  assumes "strictly_increasing x" and "i < length x"
  shows "x ! 0 \<le> x ! i" and "x ! i \<le> x ! (length x - 1)"
  using assms by (auto intro!: increasing_le)

text \<open>The number of points below \<open>t\<close>.\<close>

definition below_at :: "real list \<Rightarrow> real \<Rightarrow> nat \<Rightarrow> bool" where
  "below_at x t k \<longleftrightarrow> k \<le> length x \<and> (\<forall>i < k. x ! i < t) \<and> (\<forall>i. k \<le> i \<and> i < length x \<longrightarrow> t \<le> x ! i)"

lemma below_at_unique: "below_at x t k \<Longrightarrow> below_at x t l \<Longrightarrow> k = l"
  unfolding below_at_def by (metis linorder_not_less nat_neq_iff order_less_le_trans)

lemma lower_bound_below:
  "strictly_increasing x \<Longrightarrow> first \<le> past \<Longrightarrow> past \<le> length x \<Longrightarrow> (\<forall>i < first. x ! i < t) \<Longrightarrow>
    (\<forall>i. past \<le> i \<and> i < length x \<longrightarrow> t \<le> x ! i) \<Longrightarrow> \<exists>k. below_at x t k \<and> lower_bound x first past t = k - 1"
proof (induction x first past t rule: lower_bound.induct)
  case (1 x first past t)
  show ?case
  proof (cases "first < past")
    case False
    then have "first = past"
      using 1 by simp
    then show ?thesis
      using 1 by (intro exI [of _ first]) (simp add: lower_bound.simps [of x past past] below_at_def)
  next
    case True
    define mid where "mid = (first + past) div 2"
    have mid: "first \<le> mid" "mid < past"
      using True by (auto simp: mid_def)
    show ?thesis
    proof (cases "t > x ! mid")
      case upper: True
      have "x ! i < t" if "i < mid + 1" for i
        using increasing_le [of x i mid] "1.prems" mid upper that by auto
      then show ?thesis
        using "1.IH"(1) [OF True mid_def upper] "1.prems" mid True upper
        by (simp add: lower_bound.simps [of x first past] mid_def [symmetric])
    next
      case lower: False
      have "t \<le> x ! i" if "mid \<le> i" "i < length x" for i
        using increasing_le [of x mid i] "1.prems" lower that by auto
      then show ?thesis
        using "1.IH"(2) [OF True mid_def lower] "1.prems" mid True lower
        by (simp add: lower_bound.simps [of x first past] mid_def [symmetric])
    qed
  qed
qed

lemma lower_bound_correct:
  assumes "strictly_increasing x"
  shows "\<exists>k. below_at x t k \<and> lower_bound x 0 (length x) t = k - 1"
  using lower_bound_below [of x 0 "length x" t] assms by simp

section \<open>Glueing pieces\<close>

lemma has_derivative_glue:
  fixes f l r :: "real \<Rightarrow> real"
  assumes "(l has_real_derivative D) (at t)" and "(r has_real_derivative D) (at t)"
    and "\<forall>\<^sub>F s in at_left t. f s = l s" and "\<forall>\<^sub>F s in at_right t. f s = r s" and "f t = l t" and "f t = r t"
  shows "(f has_real_derivative D) (at t)"
proof -
  have lim: "((\<lambda>s. (l s - l t) / (s - t)) \<longlongrightarrow> D) (at_left t)" "((\<lambda>s. (r s - r t) / (s - t)) \<longlongrightarrow> D) (at_right t)"
    using assms(1,2) unfolding has_field_derivative_iff by (simp_all add: filterlim_at_split)
  have "((\<lambda>s. (f s - f t) / (s - t)) \<longlongrightarrow> D) (at_left t)"
    by (rule Lim_transform_eventually [OF lim(1)]) (use assms(3) in \<open>eventually_elim, simp add: assms(5)\<close>)
  moreover have "((\<lambda>s. (f s - f t) / (s - t)) \<longlongrightarrow> D) (at_right t)"
    by (rule Lim_transform_eventually [OF lim(2)]) (use assms(4) in \<open>eventually_elim, simp add: assms(6)\<close>)
  ultimately show ?thesis
    unfolding has_field_derivative_iff by (simp add: filterlim_at_split)
qed

text \<open>
  A function that is \<open>q k\<close> where \<open>k\<close> points are below, from the piece \<open>m\<close> on: it has a derivative if the pieces agree
  at the points, with their derivatives.
\<close>

lemma piecewise_derivative:
  fixes q q' :: "nat \<Rightarrow> real \<Rightarrow> real"
  assumes inc: "strictly_increasing x" and F: "\<And>s k. below_at x s k \<Longrightarrow> m \<le> k \<Longrightarrow> F s = q k s"
    and deriv: "\<And>k. (q k has_real_derivative q' k t) (at t)"
    and nodes: "\<And>j. j < length x \<Longrightarrow> m \<le> j \<Longrightarrow> t = x ! j \<Longrightarrow> q j t = q (j + 1) t \<and> q' j t = q' (j + 1) t"
    and k: "below_at x t k" "m \<le> k"
  shows "(F has_real_derivative q' k t) (at t)"
proof -
  let ?n = "length x"
  have t: "k \<le> ?n" "\<And>i. i < k \<Longrightarrow> x ! i < t" "\<And>i. k \<le> i \<Longrightarrow> i < ?n \<Longrightarrow> t \<le> x ! i"
    using k by (auto simp: below_at_def)
  have left: "\<forall>\<^sub>F s in at_left t. F s = q k s"
  proof -
    have "\<forall>\<^sub>F s in at_left t. (if k = 0 then t - 1 else x ! (k - 1)) < s \<and> s < t"
      using eventually_at_left_real [of "if k = 0 then t - 1 else x ! (k - 1)" t] t(2) [of "k - 1"] by simp
    then show ?thesis
    proof eventually_elim
      case (elim s)
      have "x ! i < s" if "i < k" for i
      proof -
        have "x ! i \<le> x ! (k - 1)"
          by (intro increasing_le [OF inc]) (use that t(1) in linarith)+
        then show ?thesis
          using elim that by simp
      qed
      moreover have "s \<le> x ! i" if "k \<le> i" "i < ?n" for i
        using t(3) [OF that] elim by linarith
      ultimately have "below_at x s k"
        using t(1) by (auto simp: below_at_def)
      with F k(2) show ?case by blast
    qed
  qed
  show ?thesis
  proof (cases "k < ?n \<and> t = x ! k")
    case True
    have "\<forall>\<^sub>F s in at_right t. t < s \<and> s < (if k + 1 < ?n then x ! (k + 1) else t + 1)"
      using eventually_at_right_real [of t "if k + 1 < ?n then x ! (k + 1) else t + 1"] increasing_less [OF inc, of k "k + 1"] True
      by simp
    then have right: "\<forall>\<^sub>F s in at_right t. F s = q (k + 1) s"
    proof eventually_elim
      case (elim s)
      have "x ! i < s" if "i < k + 1" for i
        using increasing_le [OF inc, of i k] that True elim by auto
      moreover have "s \<le> x ! i" if "k + 1 \<le> i" "i < ?n" for i
        using increasing_le [OF inc, of "k + 1" i] that elim by auto
      ultimately have "below_at x s (k + 1)"
        using True by (auto simp: below_at_def)
      with F k(2) show ?case by simp
    qed
    have "F t = q k t"
      using F k by blast
    with nodes [of k] True k(2) show ?thesis
      using deriv [of k] deriv [of "k + 1"] by (intro has_derivative_glue [OF _ _ left right]) simp_all
  next
    case False
    have "t < (if k < ?n then x ! k else t + 1)"
      using t(3) [of k] False by auto
    then have "\<forall>\<^sub>F s in at_right t. t < s \<and> s < (if k < ?n then x ! k else t + 1)"
      using eventually_at_right_real [of t "if k < ?n then x ! k else t + 1"] by simp
    then have right: "\<forall>\<^sub>F s in at_right t. F s = q k s"
    proof eventually_elim
      case (elim s)
      have "x ! i < s" if "i < k" for i
        using t(2) [OF that] elim by linarith
      moreover have "s \<le> x ! i" if "k \<le> i" "i < ?n" for i
        using increasing_le [OF inc, of k i] that elim by auto
      ultimately have "below_at x s k"
        using t(1) by (auto simp: below_at_def)
      with F k(2) show ?case by blast
    qed
    have "F t = q k t"
      using F k by blast
    then show ?thesis
      using deriv [of k] by (intro has_derivative_glue [OF _ _ left right]) simp_all
  qed
qed

section \<open>The equations\<close>

lemma fold_pair_upd:
  "fold (\<lambda>i (a, c). (a(i := f i), c(i := g i))) [0..<m] (a, c) =
    ((\<lambda>i. if i < m then f i else a i), (\<lambda>i. if i < m then g i else c i))"
  by (induction m) (auto simp: fun_eq_iff)

lemma fold_upd: "fold (\<lambda>i a. a(i := f i)) [0..<m] a = (\<lambda>i. if i < m then f i else a i)"
  by (induction m) (auto simp: fun_eq_iff)

definition gap :: "real list \<Rightarrow> nat \<Rightarrow> real" where
  "gap x i = x ! (i + 1) - x ! i"

definition slope :: "real list \<Rightarrow> real list \<Rightarrow> nat \<Rightarrow> real" where
  "slope x y i = (y ! (i + 1) - y ! i) / gap x i"

lemma inner_rows:
  assumes "fold (inner_row x y) [1..<m] (A0, r0) = (A, rhs)" and "1 \<le> m"
  shows "same_shape A A0 \<and> (\<forall>i. 1 \<le> i \<and> i < m \<longrightarrow>
    bm_get A i (i - 1) = 1 / 3 * gap x (i - 1) \<and> bm_get A i i = 2 / 3 * (gap x (i - 1) + gap x i) \<and>
    bm_get A i (i + 1) = 1 / 3 * gap x i \<and> rhs i = slope x y i - slope x y (i - 1))"
proof -
  let ?P = "\<lambda>m (A, rhs). same_shape A A0 \<and> (\<forall>i. 1 \<le> i \<and> i < m \<longrightarrow>
    bm_get A i (i - 1) = 1 / 3 * gap x (i - 1) \<and> bm_get A i i = 2 / 3 * (gap x (i - 1) + gap x i) \<and>
    bm_get A i (i + 1) = 1 / 3 * gap x i \<and> rhs i = slope x y i - slope x y (i - 1))"
  have "?P m (fold (inner_row x y) [1..<m] (A0, r0))"
    by (rule fold_upt_invariant [where P = ?P, OF assms(2)])
      (auto simp: inner_row_def less_Suc_eq same_shape_def gap_def slope_def split: prod.splits)
  with assms(1) show ?thesis by simp
qed

text \<open>The equations, by rows.\<close>

lemma tridiagonal_sum:
  fixes M :: "nat \<Rightarrow> nat \<Rightarrow> real"
  assumes "i < n" and "\<And>j. j > i + 1 \<or> i > j + 1 \<Longrightarrow> M i j = 0"
  shows "(\<Sum>j<n. M i j * f j) =
    (if i = 0 then 0 else M i (i - 1) * f (i - 1)) + M i i * f i + (if i + 1 < n then M i (i + 1) * f (i + 1) else 0)"
proof -
  have "(\<Sum>j<i. M i j * f j) = (\<Sum>j \<in> (if i = 0 then {} else {i - 1}). M i j * f j)"
    using assms(2) by (intro sum.mono_neutral_right) auto
  moreover have "(\<Sum>j \<in> {i<..<n}. M i j * f j) = (\<Sum>j \<in> (if i + 1 < n then {i + 1} else {}). M i j * f j)"
    using assms(2) by (intro sum.mono_neutral_right) auto
  ultimately show ?thesis
    using sum_upto_split [OF assms(1), of "\<lambda>j. M i j * f j"] by simp
qed

lemma points_increasing: "points_ok x y \<Longrightarrow> strictly_increasing x"
  by (simp add: points_ok_def strictly_increasing_def)

lemma gap_pos: "points_ok x y \<Longrightarrow> i + 1 < length x \<Longrightarrow> 0 < gap x i"
  using increasing_less [OF points_increasing, of x y i "i + 1"] by (simp add: gap_def)

lemma spline_equations_rows:
  assumes eq: "spline_equations mem_u mem_l S x y = (A, rhs)" and "2 < length x" and n: "n = length x"
  shows "bm_dim A = n" "num_upper A = 1" "num_lower A = 1"
    and "1 \<le> i \<Longrightarrow> i < n - 1 \<Longrightarrow> bm_get A i (i - 1) = 1 / 3 * gap x (i - 1) \<and> bm_get A i i = 2 / 3 * (gap x (i - 1) + gap x i) \<and>
      bm_get A i (i + 1) = 1 / 3 * gap x i \<and> rhs i = slope x y i - slope x y (i - 1)"
    and "bm_get A 0 0 = (case m_left S of Second_Deriv \<Rightarrow> 2 | First_Deriv \<Rightarrow> 2 * gap x 0)"
    and "bm_get A 0 1 = (case m_left S of Second_Deriv \<Rightarrow> 0 | First_Deriv \<Rightarrow> gap x 0)"
    and "rhs 0 = (case m_left S of Second_Deriv \<Rightarrow> m_left_value S | First_Deriv \<Rightarrow> 3 * (slope x y 0 - m_left_value S))"
    and "bm_get A (n - 1) (n - 1) = (case m_right S of Second_Deriv \<Rightarrow> 2 | First_Deriv \<Rightarrow> 2 * gap x (n - 2))"
    and "bm_get A (n - 1) (n - 2) = (case m_right S of Second_Deriv \<Rightarrow> 0 | First_Deriv \<Rightarrow> gap x (n - 2))"
    and "rhs (n - 1) = (case m_right S of Second_Deriv \<Rightarrow> m_right_value S | First_Deriv \<Rightarrow> 3 * (m_right_value S - slope x y (n - 2)))"
proof -
  define A0 where "A0 = bm_setsize mem_u mem_l n 1 1"
  have n_gt: "2 < n"
    using assms by simp
  obtain A1 r1 where A1: "fold (inner_row x y) [1..<n - 1] (A0, \<lambda>i. 0) = (A1, r1)"
    by fastforce
  have inner: "same_shape A1 A0 \<and> (\<forall>i. 1 \<le> i \<and> i < n - 1 \<longrightarrow>
    bm_get A1 i (i - 1) = 1 / 3 * gap x (i - 1) \<and> bm_get A1 i i = 2 / 3 * (gap x (i - 1) + gap x i) \<and>
    bm_get A1 i (i + 1) = 1 / 3 * gap x i \<and> r1 i = slope x y i - slope x y (i - 1))"
    using n_gt by (intro inner_rows [OF A1]) simp
  obtain A2 r2 where A2: "(A2, r2) = left_row S x y (A1, r1)"
    by (metis prod.collapse)
  have A: "(A, rhs) = right_row S x y (A2, r2)"
    using eq unfolding spline_equations_def Let_def n [symmetric] A0_def [symmetric] A1 A2 by simp
  have "same_shape A2 A1"
    using A2 by (auto simp: left_row_def same_shape_def split: bd_type.splits)
  moreover have "same_shape A A2"
    using A by (auto simp: right_row_def Let_def same_shape_def split: bd_type.splits)
  ultimately show "bm_dim A = n" "num_upper A = 1" "num_lower A = 1"
    using inner by (auto simp: same_shape_def A0_def bm_setsize_def bm_dim_def num_upper_def num_lower_def)
  have idx: "Suc (n - 2) = n - 1" "n - 1 \<noteq> 0" "n - 2 \<noteq> 0"
    using n_gt by simp_all
  have A2_rest: "bm_get A2 i j = bm_get A1 i j" "r2 i = r1 i" if "1 \<le> i" for i j
    using A2 that by (auto simp: left_row_def split: bd_type.splits)
  have A_rest: "bm_get A i j = bm_get A2 i j" "rhs i = r2 i" if "i < n - 1" for i j
    using A that by (auto simp: right_row_def Let_def n split: bd_type.splits)
  show "1 \<le> i \<Longrightarrow> i < n - 1 \<Longrightarrow> bm_get A i (i - 1) = 1 / 3 * gap x (i - 1) \<and> bm_get A i i = 2 / 3 * (gap x (i - 1) + gap x i) \<and>
    bm_get A i (i + 1) = 1 / 3 * gap x i \<and> rhs i = slope x y i - slope x y (i - 1)"
    using inner by (simp add: A_rest A2_rest)
  show "bm_get A 0 0 = (case m_left S of Second_Deriv \<Rightarrow> 2 | First_Deriv \<Rightarrow> 2 * gap x 0)"
    "bm_get A 0 1 = (case m_left S of Second_Deriv \<Rightarrow> 0 | First_Deriv \<Rightarrow> gap x 0)"
    "rhs 0 = (case m_left S of Second_Deriv \<Rightarrow> m_left_value S | First_Deriv \<Rightarrow> 3 * (slope x y 0 - m_left_value S))"
    using A2 A_rest [of 0] idx by (auto simp: left_row_def gap_def slope_def split: bd_type.splits)
  show "bm_get A (n - 1) (n - 1) = (case m_right S of Second_Deriv \<Rightarrow> 2 | First_Deriv \<Rightarrow> 2 * gap x (n - 2))"
    "bm_get A (n - 1) (n - 2) = (case m_right S of Second_Deriv \<Rightarrow> 0 | First_Deriv \<Rightarrow> gap x (n - 2))"
    "rhs (n - 1) = (case m_right S of Second_Deriv \<Rightarrow> m_right_value S | First_Deriv \<Rightarrow> 3 * (m_right_value S - slope x y (n - 2)))"
    using A idx by (auto simp: right_row_def Let_def gap_def slope_def n [symmetric] split: bd_type.splits)
qed

text \<open>They have a dominant diagonal, so they are solved.\<close>

lemma index_cases: "1 \<le> i \<and> i < n - 1 \<or> i = 0 \<or> i = n - 1" if "i < n" for i n :: nat
  using that by linarith

lemma row_dominant:
  fixes a b c g h :: real
  assumes "a = 1 / 3 * g" and "b = 2 / 3 * (g + h)" and "c = 1 / 3 * h" and "0 < h" and "0 < g"
  shows "\<bar>a\<bar> + \<bar>c\<bar> < \<bar>b\<bar>"
proof -
  have "0 < a" "0 < c" "b = 2 * a + 2 * c"
    using assms by simp_all
  then show ?thesis by simp
qed

lemma spline_solve:
  assumes points: "points_ok x y" and eq: "spline_equations mem_u mem_l S x y = (A, rhs)" and n: "n = length x"
  shows "\<exists>b. lu_solve A rhs False = Some b \<and>
    (\<forall>i. 1 \<le> i \<and> i < n - 1 \<longrightarrow>
      1 / 3 * gap x (i - 1) * b (i - 1) + 2 / 3 * (gap x (i - 1) + gap x i) * b i + 1 / 3 * gap x i * b (i + 1) =
        slope x y i - slope x y (i - 1)) \<and>
    (case m_left S of Second_Deriv \<Rightarrow> 2 * b 0 = m_left_value S
      | First_Deriv \<Rightarrow> gap x 0 * (2 * b 0 + b 1) = 3 * (slope x y 0 - m_left_value S)) \<and>
    (case m_right S of Second_Deriv \<Rightarrow> 2 * b (n - 1) = m_right_value S
      | First_Deriv \<Rightarrow> gap x (n - 2) * (b (n - 2) + 2 * b (n - 1)) = 3 * (m_right_value S - slope x y (n - 2)))"
proof -
  have n_gt: "2 < n"
    using points n by (simp add: points_ok_def)
  note rows = spline_equations_rows [OF eq n_gt [unfolded n] n]
  have ent: "ent A i j = (if i < n \<and> j < n \<and> j \<le> i + 1 \<and> i \<le> j + 1 then bm_get A i j else 0)" for i j
    by (simp add: ent_def rows(1-3))
  have pos: "0 < gap x i" if "i < n - 1" for i
    using gap_pos [OF points, of i] that n by simp
  have edge: "ent A 0 0 = bm_get A 0 0" "ent A 0 1 = bm_get A 0 1" "ent A (n - 1) (n - 1) = bm_get A (n - 1) (n - 1)"
    "ent A (n - 1) (n - 2) = bm_get A (n - 1) (n - 2)" "ent A (n - 1) n = 0"
    using n_gt by (auto simp: ent)
  have "dominant n (ent A)"
    unfolding dominant_def
  proof (intro allI impI)
    fix i assume "i < n"
    then consider "1 \<le> i" "i < n - 1" | "i = 0" | "i = n - 1"
      using index_cases by blast
    then show "(if i = 0 then 0 else \<bar>ent A i (i - 1)\<bar>) + \<bar>ent A i (i + 1)\<bar> < \<bar>ent A i i\<bar>"
    proof cases
      case 1
      then have "ent A i (i - 1) = 1 / 3 * gap x (i - 1)" "ent A i i = 2 / 3 * (gap x (i - 1) + gap x i)"
        "ent A i (i + 1) = 1 / 3 * gap x i"
        using rows(4) [of i] by (auto simp: ent)
      moreover have "0 < gap x i" "0 < gap x (i - 1)"
        using pos 1 by simp_all
      moreover have "i \<noteq> 0"
        using 1 by simp
      ultimately show ?thesis
        unfolding if_not_P [OF \<open>i \<noteq> 0\<close>] using row_dominant by blast
    next
      case 2
      then show ?thesis
        using edge rows(5,6) pos [of 0] n_gt by (simp split: bd_type.splits)
    next
      case 3
      have "n - 1 - 1 = n - 2" "n - 1 + 1 = n" "n - 1 \<noteq> 0"
        using n_gt by simp_all
      moreover have "0 < gap x (n - 2)"
        using pos [of "n - 2"] n_gt by simp
      ultimately show ?thesis
        unfolding 3 using edge rows(8,9) by (simp split: bd_type.splits)
    qed
  qed
  then obtain B where B: "lu_decompose A = Some B" "\<forall>k < bm_dim A. ent B k k \<noteq> 0"
    using lu_decompose_total [of A] rows(1-3) by auto
  define b where "b = r_solve B (l_solve B rhs)"
  have solve: "lu_solve A rhs False = Some b"
    by (simp add: lu_solve_def B b_def)
  have eqs: "(if i = 0 then 0 else ent A i (i - 1) * b (i - 1)) + ent A i i * b i + (if i + 1 < n then ent A i (i + 1) * b (i + 1) else 0) = rhs i"
    if i: "i < n" for i
  proof -
    have "(\<Sum>j<n. ent A i j * b j) = rhs i"
      using lu_solve_correct [OF B(1), of i rhs] B(2) i by (simp add: rows(1) b_def)
    moreover have "(\<Sum>j<n. ent A i j * b j) =
        (if i = 0 then 0 else ent A i (i - 1) * b (i - 1)) + ent A i i * b i + (if i + 1 < n then ent A i (i + 1) * b (i + 1) else 0)"
      by (rule tridiagonal_sum [OF i]) (auto simp: ent)
    ultimately show ?thesis by simp
  qed
  have "1 / 3 * gap x (i - 1) * b (i - 1) + 2 / 3 * (gap x (i - 1) + gap x i) * b i + 1 / 3 * gap x i * b (i + 1) =
        slope x y i - slope x y (i - 1)" if i: "1 \<le> i" "i < n - 1" for i
  proof -
    have "ent A i (i - 1) = 1 / 3 * gap x (i - 1)" "ent A i i = 2 / 3 * (gap x (i - 1) + gap x i)"
      "ent A i (i + 1) = 1 / 3 * gap x i" "i < n" "i + 1 < n" "i \<noteq> 0"
      using rows(4) [OF i] i by (auto simp: ent)
    with eqs [of i] rows(4) [OF i] show ?thesis
      by (simp only: if_True if_False simp_thms)
  qed
  moreover have "case m_left S of Second_Deriv \<Rightarrow> 2 * b 0 = m_left_value S
      | First_Deriv \<Rightarrow> gap x 0 * (2 * b 0 + b 1) = 3 * (slope x y 0 - m_left_value S)"
    using eqs [of 0] rows(5-7) n_gt edge by (simp add: algebra_simps split: bd_type.splits)
  moreover have "case m_right S of Second_Deriv \<Rightarrow> 2 * b (n - 1) = m_right_value S
      | First_Deriv \<Rightarrow> gap x (n - 2) * (b (n - 2) + 2 * b (n - 1)) = 3 * (m_right_value S - slope x y (n - 2))"
  proof -
    have "ent A (n - 1) (n - 2) * b (n - 2) + ent A (n - 1) (n - 1) * b (n - 1) = rhs (n - 1)"
      using eqs [of "n - 1"] n_gt by (auto simp: numeral_2_eq_2)
    then show ?thesis
      unfolding edge rows(8-10) by (simp add: algebra_simps split: bd_type.splits)
  qed
  ultimately show ?thesis
    using solve by blast
qed

section \<open>The spline is smooth and goes through its points\<close>

text \<open>The coefficients of the pieces: extrapolation to the left, the intervals, extrapolation to the right.\<close>

definition piece :: "spline \<Rightarrow> nat \<Rightarrow> real \<Rightarrow> real" where
  "piece S k t =
     (if k = 0 then (m_b0 S * (t - m_x S ! 0) + m_c0 S) * (t - m_x S ! 0) + m_y S ! 0
      else spline_at_index True S t (k - 1) (m_x S ! (k - 1)) (m_y S ! (k - 1)))"

definition piece1 :: "spline \<Rightarrow> nat \<Rightarrow> real \<Rightarrow> real" where
  "piece1 S k t =
     (if k = 0 then 2 * m_b0 S * (t - m_x S ! 0) + m_c0 S
      else (3 * m_a S (k - 1) * (t - m_x S ! (k - 1)) + 2 * m_b S (k - 1)) * (t - m_x S ! (k - 1)) + m_c S (k - 1))"

definition piece2 :: "spline \<Rightarrow> nat \<Rightarrow> real \<Rightarrow> real" where
  "piece2 S k t = (if k = 0 then 2 * m_b0 S else 6 * m_a S (k - 1) * (t - m_x S ! (k - 1)) + 2 * m_b S (k - 1))"

lemma piece_derivatives:
  "(piece S k has_real_derivative piece1 S k t) (at t)" "(piece1 S k has_real_derivative piece2 S k t) (at t)"
  unfolding piece_def piece1_def piece2_def spline_at_index_def Let_def
  by (cases k; auto intro!: derivative_eq_intros simp: algebra_simps power2_eq_square)+

lemma cubic_coefs_fields:
  assumes "S' = cubic_coefs x y b S" and "n = length x" and "2 < n"
  shows "m_x S' = m_x S" "m_y S' = m_y S"
    and "i < n - 1 \<Longrightarrow> m_a S' i = 1 / 3 * (b (i + 1) - b i) / gap x i"
    and "i < n - 1 \<Longrightarrow> m_c S' i = slope x y i - 1 / 3 * (2 * b i + b (i + 1)) * gap x i"
    and "m_a S' (n - 1) = 0"
    and "m_c S' (n - 1) = 3 * m_a S' (n - 2) * gap x (n - 2) * gap x (n - 2) + 2 * b (n - 2) * gap x (n - 2) + m_c S' (n - 2)"
    and "m_b S' i = (if i = n - 1 \<and> m_force_linear_extrapolation S then 0 else b i)"
    and "m_b0 S' = (if \<not> m_force_linear_extrapolation S then b 0 else 0)" and "m_c0 S' = m_c S' 0"
  using assms(1,3) unfolding cubic_coefs_def Let_def fold_pair_upd assms(2) [symmetric]
  by (auto simp: gap_def slope_def Suc_diff_Suc numeral_2_eq_2)

lemma cubic_interval:
  fixes a b b' c d h y y' :: real
  assumes "h \<noteq> 0" and "a = 1 / 3 * (b' - b) / h" and "c = d - 1 / 3 * (2 * b + b') * h" and "d = (y' - y) / h"
  shows "((a * h + b) * h + c) * h + y = y'" and "(3 * a * h + 2 * b) * h + c = d + 1 / 3 * (b + 2 * b') * h"
    and "6 * a * h + 2 * b = 2 * b'"
proof -
  have ah: "a * h = 1 / 3 * (b' - b)" and dh: "d * h = y' - y"
    using assms by simp_all
  have "((a * h + b) * h + c) * h + y = (1 / 3 * (b' - b) + b - 1 / 3 * (2 * b + b')) * h * h + d * h + y"
    unfolding ah assms(3) by algebra
  then show "((a * h + b) * h + c) * h + y = y'"
    unfolding dh by (simp add: field_simps)
  have "(3 * (a * h) + 2 * b) * h + c = d + 1 / 3 * (b + 2 * b') * h"
    unfolding ah assms(3) by (simp add: field_simps)
  then show "(3 * a * h + 2 * b) * h + c = d + 1 / 3 * (b + 2 * b') * h"
    by (simp add: mult.assoc)
  show "6 * a * h + 2 * b = 2 * b'"
    using ah by simp
qed

lemma cubic_pieces:
  assumes points: "points_ok x y" and n: "n = length x"
    and S': "S' = cubic_coefs x y b (S\<lparr>m_x := x, m_y := y\<rparr>)"
    and inner: "\<And>i. 1 \<le> i \<Longrightarrow> i < n - 1 \<Longrightarrow>
      1 / 3 * gap x (i - 1) * b (i - 1) + 2 / 3 * (gap x (i - 1) + gap x i) * b i + 1 / 3 * gap x i * b (i + 1) =
        slope x y i - slope x y (i - 1)"
    and j: "j < n"
  shows "piece S' j (x ! j) = y ! j" and "piece S' (j + 1) (x ! j) = y ! j" and "piece1 S' j (x ! j) = piece1 S' (j + 1) (x ! j)"
    and "1 \<le> j \<Longrightarrow> \<not> (m_force_linear_extrapolation S \<and> j = n - 1) \<Longrightarrow> piece2 S' j (x ! j) = piece2 S' (j + 1) (x ! j)"
    and "1 \<le> j \<Longrightarrow> piece1 S' j (x ! j) = slope x y (j - 1) + 1 / 3 * (b (j - 1) + 2 * b j) * gap x (j - 1)"
    and "1 \<le> j \<Longrightarrow> piece2 S' j (x ! j) = 2 * b j"
proof -
  have n_gt: "2 < n"
    using points n by (simp add: points_ok_def)
  note f = cubic_coefs_fields [OF S' n n_gt]
  have xy: "m_x S' = x" "m_y S' = y"
    by (simp_all add: f(1,2))
  show next_value: "piece S' (j + 1) (x ! j) = y ! j"
    by (simp add: piece_def spline_at_index_def xy)
  have interval: "piece S' j (x ! j) = y ! j \<and> piece1 S' j (x ! j) = slope x y (j - 1) + 1 / 3 * (b (j - 1) + 2 * b j) * gap x (j - 1) \<and>
      piece2 S' j (x ! j) = 2 * b j" if "1 \<le> j"
  proof -
    define i where "i = j - 1"
    have i: "i < n - 1" "j = i + 1"
      using that j by (simp_all add: i_def)
    have h: "gap x i \<noteq> 0" "x ! j - x ! i = gap x i"
      using gap_pos [OF points, of i] i j n by (simp_all add: gap_def)
    have "m_b S' i = b i"
      using f(7) [of i] i by simp
    note step = cubic_interval [OF h(1) f(3) [OF i(1)] f(4) [OF i(1)], of "y ! (i + 1)" "y ! i"]
    show ?thesis
      unfolding i(2) using step \<open>m_b S' i = b i\<close> h(2) i(2)
      by (simp add: piece_def piece1_def piece2_def spline_at_index_def xy slope_def)
  qed
  show "piece S' j (x ! j) = y ! j"
    using interval by (cases j) (simp_all add: piece_def xy)
  show "1 \<le> j \<Longrightarrow> piece1 S' j (x ! j) = slope x y (j - 1) + 1 / 3 * (b (j - 1) + 2 * b j) * gap x (j - 1)"
    and "1 \<le> j \<Longrightarrow> piece2 S' j (x ! j) = 2 * b j"
    using interval by simp_all
  have next1: "piece1 S' (j + 1) (x ! j) = m_c S' j"
    by (simp add: piece1_def xy)
  consider "j = 0" | "1 \<le> j" "j < n - 1" | "j = n - 1" "1 \<le> j"
    using j n_gt by linarith
  then show "piece1 S' j (x ! j) = piece1 S' (j + 1) (x ! j)"
  proof cases
    case 1
    then show ?thesis
      by (simp add: piece1_def xy f(9))
  next
    case 2
    have "m_c S' j = slope x y j - 1 / 3 * (2 * b j + b (j + 1)) * gap x j"
      using f(4) 2 by simp
    then show ?thesis
      unfolding next1 using interval inner [OF 2] 2 by (simp add: algebra_simps)
  next
    case 3
    have "m_b S' (n - 2) = b (n - 2)" "n - 1 - 1 = n - 2" "x ! (n - 1) - x ! (n - 2) = gap x (n - 2)"
      using f(7) [of "n - 2"] n_gt by (auto simp: gap_def Suc_diff_Suc numeral_2_eq_2)
    then show ?thesis
      unfolding next1 unfolding 3(1) f(6) using n_gt by (simp add: piece1_def xy algebra_simps)
  qed
  assume "1 \<le> j" "\<not> (m_force_linear_extrapolation S \<and> j = n - 1)"
  then have "piece2 S' (j + 1) (x ! j) = 2 * b j"
    using f(7) [of j] by (auto simp: piece2_def xy)
  then show "piece2 S' j (x ! j) = piece2 S' (j + 1) (x ! j)"
    using interval \<open>1 \<le> j\<close> by simp
qed

text \<open>What the operators evaluate.\<close>

lemma spline_pieces:
  assumes inc: "strictly_increasing (m_x S)" and "m_x S \<noteq> []" and k: "below_at (m_x S) t k"
    and ends: "m_c0 S = m_c S 0" "m_a S (length (m_x S) - 1) = 0"
  shows "spline_at True S t = piece S k t" and "spline_deriv S 1 t = piece1 S k t"
    and "1 \<le> k \<Longrightarrow> spline_deriv S 2 t = piece2 S k t"
proof -
  let ?x = "m_x S" and ?n = "length (m_x S)"
  have idx: "lower_bound ?x 0 ?n t = k - 1"
    using lower_bound_correct [OF inc, of t] k below_at_unique by blast
  have t: "k \<le> ?n" "\<And>i. i < k \<Longrightarrow> ?x ! i < t" "\<And>i. k \<le> i \<Longrightarrow> i < ?n \<Longrightarrow> t \<le> ?x ! i" and "0 < ?n"
    using k assms(2) by (auto simp: below_at_def)
  have x0: "?x ! 0 \<le> ?x ! (?n - 1)"
    using increasing_le [OF inc, of 0 "?n - 1"] \<open>0 < ?n\<close> by simp
  consider "k = 0" "t < ?x ! 0" | "k = 0" "t = ?x ! 0" | "1 \<le> k" "k = ?n" | "1 \<le> k" "k < ?n"
    using t(1) t(3) [of 0] \<open>0 < ?n\<close> by linarith
  then have "spline_at True S t = piece S k t \<and> spline_deriv S 1 t = piece1 S k t \<and>
      (1 \<le> k \<longrightarrow> spline_deriv S 2 t = piece2 S k t)"
  proof cases
    case 1
    then show ?thesis
      by (simp add: spline_at_def spline_deriv_def piece_def piece1_def idx Let_def)
  next
    case 2
    then have "lower_bound ?x 0 ?n (?x ! 0) = 0"
      using idx by simp
    then show ?thesis
      using 2 x0 ends by (simp add: spline_at_def spline_deriv_def piece_def piece1_def idx Let_def)
  next
    case 3
    then have "?x ! 0 < t" "?x ! (?n - 1) < t"
      using t(2) [of 0] t(2) [of "?n - 1"] \<open>0 < ?n\<close> by simp_all
    then show ?thesis
      using 3 ends assms(2) by (simp add: spline_at_def spline_deriv_def piece_def piece1_def piece2_def spline_at_index_def idx Let_def)
  next
    case 4
    then have "?x ! 0 < t" "t \<le> ?x ! (?n - 1)"
      using t(2) [of 0] t(3) [of "?n - 1"] by simp_all
    then show ?thesis
      using 4 by (simp add: spline_at_def spline_deriv_def piece_def piece1_def piece2_def spline_at_index_def idx Let_def)
  qed
  then show "spline_at True S t = piece S k t" "spline_deriv S 1 t = piece1 S k t" "1 \<le> k \<Longrightarrow> spline_deriv S 2 t = piece2 S k t"
    by blast+
qed

lemma below_at_ex:
  assumes "strictly_increasing x"
  shows "\<exists>k. below_at x t k"
  using lower_bound_correct [OF assms] by blast

lemma below_at_point:
  assumes "strictly_increasing x" and "j < length x"
  shows "below_at x (x ! j) j"
  using increasing_less [OF assms(1)] increasing_le [OF assms(1)] assms(2) by (auto simp: below_at_def)

lemma cubic_spline_smooth:
  assumes points: "points_ok x y"
  shows "\<exists>S'. set_points True mem_u mem_l x y True S = Some S' \<and>
    (\<forall>i < length x. spline_at True S' (x ! i) = y ! i) \<and>
    (\<forall>t. (spline_at True S' has_real_derivative spline_deriv S' 1 t) (at t)) \<and>
    (\<forall>t. x ! 0 < t \<and> (m_force_linear_extrapolation S \<longrightarrow> t < x ! (length x - 1)) \<longrightarrow>
      (spline_deriv S' 1 has_real_derivative spline_deriv S' 2 t) (at t)) \<and>
    (case m_left S of Second_Deriv \<Rightarrow> spline_deriv S' 2 (x ! 0) = m_left_value S
      | First_Deriv \<Rightarrow> spline_deriv S' 1 (x ! 0) = m_left_value S) \<and>
    (case m_right S of Second_Deriv \<Rightarrow> spline_deriv S' 2 (x ! (length x - 1)) = m_right_value S
      | First_Deriv \<Rightarrow> spline_deriv S' 1 (x ! (length x - 1)) = m_right_value S)"
proof -
  define n where n: "n = length x"
  define S1 where "S1 = S\<lparr>m_x := x, m_y := y\<rparr>"
  have n_gt: "2 < n"
    using points n by (simp add: points_ok_def)
  have fields: "m_left S1 = m_left S" "m_left_value S1 = m_left_value S" "m_right S1 = m_right S" "m_right_value S1 = m_right_value S"
    by (simp_all add: S1_def)
  obtain A rhs where eq: "spline_equations mem_u mem_l S1 x y = (A, rhs)"
    by fastforce
  obtain b where b: "lu_solve A rhs False = Some b"
    and inner: "\<And>i. 1 \<le> i \<Longrightarrow> i < n - 1 \<Longrightarrow>
      1 / 3 * gap x (i - 1) * b (i - 1) + 2 / 3 * (gap x (i - 1) + gap x i) * b i + 1 / 3 * gap x i * b (i + 1) =
        slope x y i - slope x y (i - 1)"
    and left: "case m_left S of Second_Deriv \<Rightarrow> 2 * b 0 = m_left_value S
      | First_Deriv \<Rightarrow> gap x 0 * (2 * b 0 + b 1) = 3 * (slope x y 0 - m_left_value S)"
    and right: "case m_right S of Second_Deriv \<Rightarrow> 2 * b (n - 1) = m_right_value S
      | First_Deriv \<Rightarrow> gap x (n - 2) * (b (n - 2) + 2 * b (n - 1)) = 3 * (m_right_value S - slope x y (n - 2))"
    using spline_solve [OF points eq n] unfolding fields by blast
  define S' where S': "S' = cubic_coefs x y b S1"
  have set: "set_points True mem_u mem_l x y True S = Some S'"
    using points eq b by (simp add: set_points_def S1_def S' Let_def)
  note f = cubic_coefs_fields [OF S' n n_gt]
  have xy: "m_x S' = x" "m_y S' = y"
    by (simp_all add: f(1,2) S1_def)
  note inc = points_increasing [OF points]
  have "x \<noteq> []"
    using n_gt n by auto
  have pieces: "spline_at True S' t = piece S' k t" "spline_deriv S' 1 t = piece1 S' k t"
    "1 \<le> k \<Longrightarrow> spline_deriv S' 2 t = piece2 S' k t" if "below_at x t k" for t k
    using spline_pieces [of S' t k] inc \<open>x \<noteq> []\<close> that f(5,9) n unfolding xy by auto
  note knots = cubic_pieces [OF points n S' [unfolded S1_def] inner]
  have value_at: "spline_at True S' (x ! i) = y ! i" if "i < n" for i
    using pieces(1) [OF below_at_point [OF inc]] knots(1) [OF _ _ that] that n by simp
  have first: "(spline_at True S' has_real_derivative spline_deriv S' 1 t) (at t)" for t
  proof -
    obtain k where k: "below_at x t k"
      using below_at_ex [OF inc] by blast
    have "(spline_at True S' has_real_derivative piece1 S' k t) (at t)"
      by (rule piecewise_derivative [where m = 0 and q = "piece S'" and q' = "piece1 S'", OF inc _ piece_derivatives(1) _ k]) (use pieces knots n in auto)
    with pieces(2) [OF k] show ?thesis by simp
  qed
  have second: "(spline_deriv S' 1 has_real_derivative spline_deriv S' 2 t) (at t)"
    if t: "x ! 0 < t" "m_force_linear_extrapolation S \<longrightarrow> t < x ! (n - 1)" for t
  proof -
    obtain k where k: "below_at x t k"
      using below_at_ex [OF inc] by blast
    have last_only: "\<not> (m_force_linear_extrapolation S \<and> j = n - 1)" if "t = x ! j" for j
      using t(2) that by auto
    have "1 \<le> k"
      using k t(1) n n_gt by (auto simp: below_at_def dest!: spec [of _ 0])
    have "(spline_deriv S' 1 has_real_derivative piece2 S' k t) (at t)"
      by (rule piecewise_derivative [where m = 1 and q = "piece1 S'" and q' = "piece2 S'", OF inc _ piece_derivatives(2) _ k \<open>1 \<le> k\<close>]) (use pieces knots n last_only in auto)
    with pieces(3) [OF k \<open>1 \<le> k\<close>] show ?thesis by simp
  qed
  have "case m_left S of Second_Deriv \<Rightarrow> spline_deriv S' 2 (x ! 0) = m_left_value S
      | First_Deriv \<Rightarrow> spline_deriv S' 1 (x ! 0) = m_left_value S"
  proof (cases "m_left S")
    case Second_Deriv
    have "lower_bound x 0 (length x) (x ! 0) = 0"
      using lower_bound_correct [OF inc, of "x ! 0"] below_at_point [OF inc, of 0] below_at_unique n n_gt
      by (metis diff_0_eq_0 gr_implies_not0 not_gr_zero)
    then have "spline_deriv S' 2 (x ! 0) = 2 * b 0"
      using increasing_ends(2) [OF inc, of 0] \<open>x \<noteq> []\<close> f(7) [of 0] n n_gt by (auto simp: spline_deriv_def xy Let_def)
    then show ?thesis
      using left Second_Deriv by simp
  next
    case First_Deriv
    have "gap x 0 \<noteq> 0"
      using gap_pos [OF points, of 0] n n_gt by simp
    then have "m_c S' 0 = m_left_value S"
      using f(4) [of 0] left First_Deriv n_gt by (simp add: field_simps)
    moreover have "spline_deriv S' 1 (x ! 0) = piece1 S' 0 (x ! 0)"
      using pieces(2) [OF below_at_point [OF inc, of 0]] \<open>x \<noteq> []\<close> by simp
    ultimately show ?thesis
      using First_Deriv by (simp add: piece1_def xy f(9))
  qed
  moreover have "case m_right S of Second_Deriv \<Rightarrow> spline_deriv S' 2 (x ! (n - 1)) = m_right_value S
      | First_Deriv \<Rightarrow> spline_deriv S' 1 (x ! (n - 1)) = m_right_value S"
  proof -
    have last: "below_at x (x ! (n - 1)) (n - 1)" "1 \<le> n - 1" "n - 1 < n" "n - 1 - 1 = n - 2"
      using below_at_point [OF inc, of "n - 1"] n n_gt by auto
    have "spline_deriv S' 1 (x ! (n - 1)) = slope x y (n - 2) + 1 / 3 * (b (n - 2) + 2 * b (n - 1)) * gap x (n - 2)"
      using pieces(2) [OF last(1)] knots(5) [OF _ _ last(3,2)] last(4) by simp
    moreover have "spline_deriv S' 2 (x ! (n - 1)) = 2 * b (n - 1)"
      using pieces(3) [OF last(1,2)] knots(6) [OF _ _ last(3,2)] by simp
    ultimately show ?thesis
      using right by (simp add: algebra_simps split: bd_type.splits)
  qed
  ultimately show ?thesis
    using set value_at first second unfolding n by blast
qed



section \<open>Further facts\<close>

text \<open>
  Left of the first point the second derivative is \<open>2 * m_b0\<close>, which is not what \<^verbatim>\<open>deriv(2, t)\<close> returns.
\<close>

lemma spline_deriv_left:
  assumes inc: "strictly_increasing (m_x S)" and "m_x S \<noteq> []" and t: "t < m_x S ! 0"
  shows "(spline_deriv S 1 has_real_derivative 2 * m_b0 S) (at t)" and "spline_deriv S 2 t = 2 * m_b0 S * (t - m_x S ! 0)"
proof -
  have idx: "lower_bound (m_x S) 0 (length (m_x S)) s = 0" if s: "s < m_x S ! 0" for s
  proof -
    have "below_at (m_x S) s 0"
      using increasing_le [OF inc, of 0] s by (auto simp: below_at_def intro: order_trans [OF less_imp_le])
    then show ?thesis
      using lower_bound_correct [OF inc, of s] below_at_unique by fastforce
  qed
  then show "spline_deriv S 2 t = 2 * m_b0 S * (t - m_x S ! 0)"
    using t by (simp add: spline_deriv_def Let_def)
  have "\<forall>\<^sub>F s in nhds t. s < m_x S ! 0"
    using t by (intro eventually_nhds_in_open [of "{..<m_x S ! 0}", simplified]) auto
  then have "\<forall>\<^sub>F s in nhds t. spline_deriv S 1 s = piece1 S 0 s"
    by eventually_elim (use idx in \<open>simp add: spline_deriv_def piece1_def Let_def\<close>)
  then have "(spline_deriv S 1 has_real_derivative 2 * m_b0 S) (at t) \<longleftrightarrow> (piece1 S 0 has_real_derivative 2 * m_b0 S) (at t)"
    by (rule DERIV_cong_ev [OF refl _ refl])
  then show "(spline_deriv S 1 has_real_derivative 2 * m_b0 S) (at t)"
    using piece_derivatives(2) [of S 0 t] by (simp add: piece2_def)
qed

text \<open>A linear spline is linear between its points; the class linearspline does the same.\<close>

lemma linear_coefs_slope: "i < length x - 1 \<Longrightarrow> linear_coefs x y i = slope x y i"
  unfolding linear_coefs_def Let_def fold_upd by (simp add: slope_def gap_def)

lemma slope_step: "points_ok x y \<Longrightarrow> i + 1 < length x \<Longrightarrow> y ! i + slope x y i * (x ! (i + 1) - x ! i) = y ! (i + 1)"
  using gap_pos [of x y i] by (simp add: slope_def gap_def)

lemma linear_spline_correct:
  assumes points: "points_ok x y" and i: "i < length x - 1" and t: "x ! i \<le> t" "t \<le> x ! (i + 1)"
  shows "\<exists>S'. set_points False mem_u mem_l x y True S = Some S' \<and> spline_at False S' t = y ! i + slope x y i * (t - x ! i) \<and>
    spline_at_index False S' t i (x ! i) (y ! i) = y ! i + slope x y i * (t - x ! i)"
proof -
  define S' where "S' = S\<lparr>m_x := x, m_y := y, m_c := linear_coefs x y, m_c0 := linear_coefs x y 0\<rparr>"
  have S': "set_points False mem_u mem_l x y True S = Some S'"
    using points by (simp add: set_points_def S'_def Let_def)
  note inc = points_increasing [OF points]
  have outer: "\<not> t < x ! 0" "\<not> x ! (length x - 1) < t"
    using increasing_ends(1) [OF inc, of i] increasing_ends(2) [OF inc, of "i + 1"] i t by linarith+
  obtain k where k: "below_at x t k" "lower_bound x 0 (length x) t = k - 1"
    using lower_bound_correct [OF inc] by blast
  have "k \<le> i + 1"
    using k(1) t(2) by (fastforce simp: below_at_def not_le [symmetric])
  moreover have "i \<le> k"
  proof (rule ccontr)
    assume "\<not> i \<le> k"
    then have "x ! k < x ! i" "t \<le> x ! k"
      using increasing_less [OF inc, of k i] k(1) i by (auto simp: below_at_def)
    with t show False by linarith
  qed
  ultimately consider "k = i + 1" | "k = i"
    by linarith
  then have "spline_at False S' t = y ! i + slope x y i * (t - x ! i)"
  proof cases
    case 1
    then show ?thesis
      using outer k(2) i by (simp add: spline_at_def S'_def Let_def linear_coefs_slope)
  next
    case 2
    then have "t = x ! i"
      using k(1) t i by (auto simp: below_at_def intro: antisym)
    moreover have "y ! (i - 1) + slope x y (i - 1) * (x ! i - x ! (i - 1)) = y ! i" if "i \<noteq> 0"
      using slope_step [OF points, of "i - 1"] that i by simp
    ultimately show ?thesis
      using outer k(2) i 2 by (cases "i = 0") (auto simp: spline_at_def S'_def Let_def linear_coefs_slope algebra_simps)
  qed
  moreover have "spline_at_index False S' t i (x ! i) (y ! i) = y ! i + slope x y i * (t - x ! i)"
    using i by (simp add: spline_at_index_def S'_def linear_coefs_slope)
  ultimately show ?thesis
    using S' by blast
qed

lemma linearspline_same:
  assumes "linearspline_set_points x y True L = Some L'" and "set_points False mem_u mem_l x y True S = Some S'"
  shows "linearspline_at L' = spline_at False S'" and "linearspline_at_index L' = spline_at_index False S'"
proof -
  have a: "l_x L' = x" "l_y L' = y" "l_a L' = linear_coefs x y"
    using assms(1) by (auto simp: linearspline_set_points_def linear_coefs_def Let_def split: if_splits)
  have c: "m_x S' = x" "m_y S' = y" "m_c S' = linear_coefs x y" "m_c0 S' = linear_coefs x y 0"
    using assms(2) by (auto simp: set_points_def Let_def split: if_splits)
  show "linearspline_at L' = spline_at False S'" and "linearspline_at_index L' = spline_at_index False S'"
    by (simp_all add: fun_eq_iff linearspline_at_def spline_at_def linearspline_at_index_def spline_at_index_def a c Let_def)
qed

lemma set_points_total:
  assumes "points_ok x y"
  shows "\<exists>S'. set_points isCubic mem_u mem_l x y copy S = Some S'"
proof (cases isCubic)
  case True
  obtain A rhs where eq: "spline_equations mem_u mem_l (if copy then S\<lparr>m_x := x, m_y := y\<rparr> else S) x y = (A, rhs)"
    by fastforce
  obtain b where "lu_solve A rhs False = Some b"
    using spline_solve [OF assms eq refl] by blast
  then show ?thesis
    using assms True by (simp add: set_points_def Let_def eq)
qed (use assms in \<open>simp add: set_points_def Let_def\<close>)

text \<open>The operator with the index, for the interval of its argument, is the interpolation.\<close>

lemma spline_at_index_between:
  assumes S: "strictly_increasing (m_x S)" and i: "i + 1 < length (m_x S)" and t: "m_x S ! i < t" "t \<le> m_x S ! (i + 1)"
  shows "spline_at_index isCubic S t i (m_x S ! i) (m_y S ! i) = spline_at isCubic S t"
proof -
  have "below_at (m_x S) t (i + 1)"
    using increasing_le [OF S, of _ i] increasing_le [OF S, of "i + 1"] i t by (fastforce simp: below_at_def less_Suc_eq_le)
  then have idx: "lower_bound (m_x S) 0 (length (m_x S)) t = i"
    using lower_bound_correct [OF S, of t] below_at_unique by fastforce
  have "m_x S ! 0 \<le> t" "t \<le> m_x S ! (length (m_x S) - 1)"
    using increasing_ends(1) [OF S, of i] increasing_ends(2) [OF S, of "i + 1"] i t by linarith+
  then show ?thesis
    by (simp add: spline_at_def spline_at_index_def idx Let_def not_less)
qed

end
