(* ===== verification/Matrix_Shift.thy ===== *)
theory Matrix_Shift
  imports Reduction
begin

text \<open>
  \<^verbatim>\<open>matrix_shift\<close> of \<^verbatim>\<open>src/src/stp/common/matrix_math.h\<close> and \<^verbatim>\<open>fftshift\<close> of
  \<^verbatim>\<open>src/src/stp/common/fft.h\<close>: circular shifts by copying memory, column by column in parallel. The
  loops write different columns; the order in which the columns are written is a parameter, as are
  \<^verbatim>\<open>arma::shift\<close> and what fresh memory holds.
\<close>

section \<open>Parallel loops that write\<close>

text \<open>A \<^verbatim>\<open>parallel_for\<close>: the elements of the subranges, in the order in which they run.\<close>

definition parallel_for :: "(nat \<Rightarrow> 's \<Rightarrow> 's) \<Rightarrow> range list \<Rightarrow> 's \<Rightarrow> 's" where
  "parallel_for body rs s = fold body (elements rs) s"

definition set_col :: "(nat \<Rightarrow> nat \<Rightarrow> 'a) \<Rightarrow> nat \<Rightarrow> (nat \<Rightarrow> 'a) \<Rightarrow> nat \<Rightarrow> nat \<Rightarrow> 'a" where
  "set_col m c col = (\<lambda>i j. if j = c then col i else m i j)"

text \<open>
  A loop whose bodies write one key each, with a value that depends on what is there only, writes every key
  of the range once.
\<close>

lemma covers_elements_set:
  assumes "covers lo hi rs"
  shows "set (elements rs) = {lo..<hi}" and "distinct (elements rs)"
proof -
  have m: "mset (elements rs) = mset [lo..<hi]"
    by (rule covers_elements [OF assms])
  show "set (elements rs) = {lo..<hi}"
    unfolding mset_eq_setD [OF m] by (rule set_upt)
  show "distinct (elements rs)"
    unfolding mset_eq_imp_distinct_iff [OF m] by (rule distinct_upt)
qed

lemma fold_set_col:
  assumes "distinct xs" and "inj_on k (set xs)"
    and "\<And>i m m'. i \<in> set xs \<Longrightarrow> (\<And>r. m r (k i) = m' r (k i)) \<Longrightarrow> f i m = f i m'"
  shows "fold (\<lambda>i m. set_col m (k i) (f i m)) xs m r c =
    (if c \<in> k ` set xs then f (the_inv_into (set xs) k c) m r else m r c)"
  using assms
proof (induction xs arbitrary: m)
  case Nil
  then show ?case by simp
next
  case (Cons x xs)
  let ?m = "set_col m (k x) (f x m)"
  have inj: "inj_on k (set xs)"
    using Cons.prems(2) by (rule inj_on_subset) auto
  have IH: "fold (\<lambda>i m. set_col m (k i) (f i m)) xs ?m r c =
      (if c \<in> k ` set xs then f (the_inv_into (set xs) k c) ?m r else ?m r c)"
  proof (rule Cons.IH [OF _ inj])
    show "distinct xs"
      using Cons.prems(1) by simp
    show "\<And>i m m'. i \<in> set xs \<Longrightarrow> (\<And>r. m r (k i) = m' r (k i)) \<Longrightarrow> f i m = f i m'"
      by (rule Cons.prems(3)) simp_all
  qed
  have kx: "k x \<notin> k ` set xs"
    using Cons.prems(1,2) by auto
  show ?case
  proof (cases "c \<in> k ` set xs")
    case True
    then obtain y where y: "y \<in> set xs" "c = k y"
      by auto
    have inv: "the_inv_into (set xs) k c = y" "the_inv_into (set (x # xs)) k c = y"
      using y inj Cons.prems(2) by (auto intro: the_inv_into_f_eq)
    have "k y \<noteq> k x"
      using imageI [OF y(1), of k] kx by metis
    then have "f y ?m = f y m"
      using y(1) by (intro Cons.prems(3)) (simp_all add: set_col_def)
    then show ?thesis
      using True IH inv by simp
  next
    case False
    show ?thesis
    proof (cases "c = k x")
      case True
      moreover have "the_inv_into (set (x # xs)) k (k x) = x"
        using Cons.prems(2) by (rule the_inv_into_f_f) simp
      ultimately show ?thesis
        using IH False by (simp add: set_col_def)
    next
      case other: False
      then show ?thesis
        using IH False by (simp add: set_col_def)
    qed
  qed
qed

text \<open>The two shapes of such loops: column \<open>i\<close> of the matrix, and column \<open>k i\<close> with a new value.\<close>

lemma parallel_for_cols:
  assumes "covers lo hi rs" and "inj_on k {lo..<hi}"
  shows "parallel_for (\<lambda>i m. set_col m (k i) (f i)) rs m r c =
    (if c \<in> k ` {lo..<hi} then f (the_inv_into {lo..<hi} k c) r else m r c)"
  unfolding parallel_for_def
  using fold_set_col [of "elements rs" k "\<lambda>i m. f i" m r c] covers_elements_set [OF assms(1)] assms(2) by simp

section \<open>Copying memory\<close>

definition memcpy :: "(nat \<Rightarrow> 'a) \<Rightarrow> nat \<Rightarrow> (nat \<Rightarrow> 'a) \<Rightarrow> nat \<Rightarrow> nat \<Rightarrow> nat \<Rightarrow> 'a" where
  "memcpy dst d src s n = (\<lambda>k. if d \<le> k \<and> k < d + n then src (k - d + s) else dst k)"

text \<open>The shift of a column forwards and backwards by \<open>len\<close>, with two copies each.\<close>

definition shift_col :: "bool \<Rightarrow> nat \<Rightarrow> nat \<Rightarrow> (nat \<Rightarrow> 'a) \<Rightarrow> (nat \<Rightarrow> 'a) \<Rightarrow> nat \<Rightarrow> 'a" where
  "shift_col neg n len out_ptr in_ptr =
     (if \<not> neg then memcpy (memcpy out_ptr 0 in_ptr (n - len) len) len in_ptr 0 (n - len)
      else memcpy (memcpy out_ptr 0 in_ptr len (n - len)) (n - len) in_ptr 0 len)"

definition shift_cols :: "bool \<Rightarrow> nat \<Rightarrow> nat \<Rightarrow> range list \<Rightarrow> range list \<Rightarrow> (nat \<Rightarrow> nat \<Rightarrow> 'a) \<Rightarrow> (nat \<Rightarrow> nat \<Rightarrow> 'a) \<Rightarrow> nat \<Rightarrow> nat \<Rightarrow> 'a" where
  "shift_cols neg n len rs1 rs2 out in_elt =
     (if \<not> neg then
        parallel_for (\<lambda>col m. set_col m (col - (n - len)) (\<lambda>r. in_elt r col)) rs2
          (parallel_for (\<lambda>col m. set_col m (col + len) (\<lambda>r. in_elt r col)) rs1 out)
      else
        parallel_for (\<lambda>col m. set_col m (col + (n - len)) (\<lambda>r. in_elt r col)) rs2
          (parallel_for (\<lambda>col m. set_col m (col - len) (\<lambda>r. in_elt r col)) rs1 out))"

text \<open>
  The function. \<open>uninit\<close> is what the new matrix holds, \<open>rs1\<close> and \<open>rs2\<close> are the
  subranges of its loops. The shift is at most the dimension; beyond, the code copies from outside of the
  matrix.
\<close>

definition MIN_ELEMS_FOR_PARSHIFT :: nat where
  "MIN_ELEMS_FOR_PARSHIFT = 8192"

definition matrix_shift ::
  "('a mat \<Rightarrow> int \<Rightarrow> nat \<Rightarrow> 'a mat) \<Rightarrow> (nat \<Rightarrow> nat \<Rightarrow> 'a) \<Rightarrow> range list \<times> range list \<Rightarrow> 'a mat \<Rightarrow> int \<Rightarrow> nat \<Rightarrow> 'a mat"
where
  "matrix_shift arma_shift uninit = (\<lambda>(rs1, rs2) in_mat shift_len axis.
     if n_elem in_mat < MIN_ELEMS_FOR_PARSHIFT then arma_shift in_mat shift_len axis
     else
       let neg = shift_len < 0;
           len = nat \<bar>shift_len\<bar>
       in in_mat\<lparr>elt :=
            (if axis = 0 then
               parallel_for (\<lambda>col m. set_col m col
                 (shift_col neg (n_rows in_mat) len (\<lambda>r. m r col) (\<lambda>r. elt in_mat r col))) rs1 uninit
             else if axis = 1 then
               (if n_rows in_mat = 1 then
                  (\<lambda>r. if r = 0 then shift_col neg (n_cols in_mat) len (uninit 0) (elt in_mat 0) else uninit r)
                else shift_cols neg (n_cols in_mat) len rs1 rs2 uninit (elt in_mat))
             else uninit)\<rparr>)"

definition fftshift ::
  "('a mat \<Rightarrow> int \<Rightarrow> nat \<Rightarrow> 'a mat) \<Rightarrow> (nat \<Rightarrow> nat \<Rightarrow> 'a) \<Rightarrow> (nat \<Rightarrow> range list \<times> range list) \<Rightarrow> bool \<Rightarrow> 'a mat \<Rightarrow> 'a mat"
where
  "fftshift arma_shift uninit rss is_forward m =
     (let direction = (if is_forward then - 1 else 1);
          m = (if n_rows m > 1 then
                 matrix_shift arma_shift uninit (rss 0) m (direction * int (n_rows m div 2)) 0 else m)
      in if n_cols m > 1 then
           matrix_shift arma_shift uninit (rss 1) m (direction * int (n_cols m div 2)) 1
         else m)"

section \<open>Circular shifts\<close>

text \<open>What \<^verbatim>\<open>arma::shift\<close> is documented to do.\<close>

definition shifted_elt :: "'a mat \<Rightarrow> int \<Rightarrow> nat \<Rightarrow> nat \<Rightarrow> nat \<Rightarrow> 'a" where
  "shifted_elt m len axis r c =
     (if axis = 0 then elt m (nat ((int r - len) mod int (n_rows m))) c
      else elt m r (nat ((int c - len) mod int (n_cols m))))"

definition circular_shift :: "('a mat \<Rightarrow> int \<Rightarrow> nat \<Rightarrow> 'a mat) \<Rightarrow> bool" where
  "circular_shift arma_shift \<longleftrightarrow> (\<forall>m len axis. axis < 2 \<longrightarrow>
     n_rows (arma_shift m len axis) = n_rows m \<and> n_cols (arma_shift m len axis) = n_cols m \<and>
     (\<forall>r c. r < n_rows m \<longrightarrow> c < n_cols m \<longrightarrow> elt (arma_shift m len axis) r c = shifted_elt m len axis r c))"

text \<open>The subranges of the loops of a call.\<close>

definition shift_ranges :: "'a mat \<Rightarrow> int \<Rightarrow> nat \<Rightarrow> range list \<times> range list \<Rightarrow> bool" where
  "shift_ranges m len axis = (\<lambda>(rs1, rs2).
     n_elem m < MIN_ELEMS_FOR_PARSHIFT \<or>
     (if axis = 0 then covers 0 (n_cols m) rs1
      else n_rows m = 1 \<or>
        (if len \<ge> 0 then covers 0 (n_cols m - nat len) rs1 \<and> covers (n_cols m - nat len) (n_cols m) rs2
         else covers (nat (- len)) (n_cols m) rs1 \<and> covers 0 (nat (- len)) rs2)))"

lemma shift_ranges_cong:
  assumes "n_rows a = n_rows b" and "n_cols a = n_cols b"
  shows "shift_ranges a = shift_ranges b"
  using assms by (simp add: shift_ranges_def n_elem_def fun_eq_iff)

lemma shift_index_pos:
  assumes "len \<le> n" and "k < n"
  shows "nat ((int k - int len) mod int n) = (if k < len then k + n - len else k - len)"
proof (cases "k < len")
  case True
  then have "(int k - int len) mod int n = (int k - int len + int n) mod int n"
    by simp
  also have "\<dots> = int k - int len + int n"
    using True assms by (intro mod_pos_pos_trivial) linarith+
  finally show ?thesis
    using True assms by simp
next
  case False
  then have "(int k - int len) mod int n = int k - int len"
    using assms by (intro mod_pos_pos_trivial) linarith+
  then show ?thesis
    using False by simp
qed

lemma shift_index_neg:
  assumes "len \<le> n" and "k < n"
  shows "nat ((int k - - int len) mod int n) = (if k < n - len then k + len else k + len - n)"
proof (cases "k < n - len")
  case True
  then have "(int k - - int len) mod int n = int k + int len"
    by (simp add: mod_pos_pos_trivial)
  then show ?thesis
    using True by simp
next
  case False
  then have "(int k - - int len) mod int n = (int k + int len - int n) mod int n"
    by simp
  also have "\<dots> = int k + int len - int n"
    using False assms by (intro mod_pos_pos_trivial) linarith+
  finally show ?thesis
    using False assms by simp
qed

lemma shift_col_circular:
  assumes "len \<le> n" and "k < n"
  shows "shift_col neg n len out_ptr in_ptr k = in_ptr (nat ((int k - (if neg then - int len else int len)) mod int n))"
proof (cases neg)
  case True
  then show ?thesis
    using assms unfolding shift_col_def if_P [OF True] shift_index_neg [OF assms] by (auto simp: memcpy_def)
next
  case False
  then show ?thesis
    using assms unfolding shift_col_def if_not_P [OF False] shift_index_pos [OF assms]
    by (auto simp: memcpy_def algebra_simps)
qed

lemma shift_cols_circular:
  assumes len: "len \<le> n" and c: "c < n"
    and rs: "if neg then covers len n rs1 \<and> covers 0 len rs2 else covers 0 (n - len) rs1 \<and> covers (n - len) n rs2"
  shows "shift_cols neg n len rs1 rs2 out in_elt r c = in_elt r (nat ((int c - (if neg then - int len else int len)) mod int n))"
proof (cases neg)
  case True
  have k: "inj_on (\<lambda>i. i - len) {len..<n}" "inj_on (\<lambda>i. i + (n - len)) {0..<len}"
    by (auto simp: inj_on_def)
  have im: "c \<in> (\<lambda>i. i - len) ` {len..<n} \<longleftrightarrow> c < n - len"
    "c \<in> (\<lambda>i. i + (n - len)) ` {0..<len} \<longleftrightarrow> n - len \<le> c"
    using len c by (auto intro: image_eqI [of _ _ "c + len"] image_eqI [of _ _ "c - (n - len)"])
  have inv: "c < n - len \<Longrightarrow> the_inv_into {len..<n} (\<lambda>i. i - len) c = c + len"
    "n - len \<le> c \<Longrightarrow> the_inv_into {0..<len} (\<lambda>i. i + (n - len)) c = c + len - n"
    using len c by (auto intro!: the_inv_into_f_eq [OF k(1)] the_inv_into_f_eq [OF k(2)] simp del: Nat.add_diff_assoc)
  show ?thesis
    using rs True c len inv unfolding shift_cols_def if_P [OF True]
    by (simp add: parallel_for_cols [OF _ k(1)] parallel_for_cols [OF _ k(2)] im shift_index_neg [OF len c, unfolded minus_minus diff_minus_eq_add] del: Nat.add_diff_assoc)
next
  case False
  have k: "inj_on (\<lambda>i. i + len) {0..<n - len}" "inj_on (\<lambda>i. i - (n - len)) {n - len..<n}"
    by (auto simp: inj_on_def)
  have im: "c \<in> (\<lambda>i. i + len) ` {0..<n - len} \<longleftrightarrow> len \<le> c"
    "c \<in> (\<lambda>i. i - (n - len)) ` {n - len..<n} \<longleftrightarrow> c < len"
    using len c by (auto intro: image_eqI [of _ _ "c - len"] image_eqI [of _ _ "c + (n - len)"] simp del: Nat.add_diff_assoc)
  have inv: "len \<le> c \<Longrightarrow> the_inv_into {0..<n - len} (\<lambda>i. i + len) c = c - len"
    "c < len \<Longrightarrow> the_inv_into {n - len..<n} (\<lambda>i. i - (n - len)) c = c + n - len"
    by (rule the_inv_into_f_eq [OF k(1)]; use len c in auto) (rule the_inv_into_f_eq [OF k(2)]; use len c in auto)
  show ?thesis
    using rs False c len inv unfolding shift_cols_def if_not_P [OF False]
    by (simp add: parallel_for_cols [OF _ k(1)] parallel_for_cols [OF _ k(2)] im shift_index_pos [OF len c] del: Nat.diff_diff_right)
qed


lemma matrix_shift_size:
  assumes "circular_shift arma_shift" and "axis < 2"
  shows "n_rows (matrix_shift arma_shift uninit rss m len axis) = n_rows m \<and>
    n_cols (matrix_shift arma_shift uninit rss m len axis) = n_cols m"
  using assms by (cases rss) (simp add: matrix_shift_def circular_shift_def Let_def)

lemma matrix_shift_value:
  assumes arma: "circular_shift arma_shift" and axis: "axis < 2"
    and len: "\<bar>len\<bar> \<le> int (if axis = 0 then n_rows m else n_cols m)"
    and rss: "shift_ranges m len axis rss"
    and rc: "r < n_rows m" "c < n_cols m"
  shows "elt (matrix_shift arma_shift uninit rss m len axis) r c = shifted_elt m len axis r c"
proof (cases "n_elem m < MIN_ELEMS_FOR_PARSHIFT")
  case True
  then show ?thesis
    using arma axis rc by (cases rss) (simp add: matrix_shift_def circular_shift_def)
next
  case False
  obtain rs1 rs2 where rs: "rss = (rs1, rs2)"
    by fastforce
  define neg where "neg \<longleftrightarrow> len < 0"
  define l where "l = nat \<bar>len\<bar>"
  have len_eq: "(if neg then - int l else int l) = len"
    by (simp add: neg_def l_def)
  note run = matrix_shift_def rs prod.case if_not_P [OF False] Let_def neg_def [symmetric] l_def [symmetric] mat.simps
  show ?thesis
  proof (cases "axis = 0")
    case True
    then have "covers 0 (n_cols m) rs1" and l: "l \<le> n_rows m"
      using rss False len by (simp_all add: shift_ranges_def rs l_def)
    then have "elt (matrix_shift arma_shift uninit rss m len axis) r c =
        shift_col neg (n_rows m) l (\<lambda>r. uninit r c) (\<lambda>r. elt m r c) r"
      unfolding run if_P [OF True] parallel_for_def
      using rc fold_set_col [of "elements rs1" "\<lambda>i. i"
        "\<lambda>col ma. shift_col neg (n_rows m) l (\<lambda>r. ma r col) (\<lambda>r. elt m r col)" uninit r c]
      by (simp add: covers_elements_set the_inv_into_f_eq)
    then show ?thesis
      unfolding shifted_elt_def if_P [OF True] shift_col_circular [OF l rc(1)] len_eq .
  next
    case axis: False
    then have l: "l \<le> n_cols m"
      using len by (simp add: l_def)
    show ?thesis
    proof (cases "n_rows m = 1")
      case True
      then have "elt (matrix_shift arma_shift uninit rss m len axis) r c = shift_col neg (n_cols m) l (uninit 0) (elt m 0) c"
        unfolding run using axis \<open>axis < 2\<close> rc by simp
      then show ?thesis
        unfolding shifted_elt_def if_not_P [OF axis] shift_col_circular [OF l rc(2)] len_eq using rc True by simp
    next
      case rows: False
      have "elt (matrix_shift arma_shift uninit rss m len axis) r c =
          shift_cols neg (n_cols m) l rs1 rs2 uninit (elt m) r c"
        unfolding run using axis \<open>axis < 2\<close> rows by simp
      also have "\<dots> = elt m r (nat ((int c - (if neg then - int l else int l)) mod int (n_cols m)))"
        using rss False axis rows by (intro shift_cols_circular [OF l rc(2)]) (auto simp: shift_ranges_def rs neg_def l_def)
      finally show ?thesis
        unfolding shifted_elt_def if_not_P [OF axis] len_eq .
    qed
  qed
qed

text \<open>C25. matrix_shift is the circular shift of the rows or of the columns: the element at a position comes from the
  position \<open>len\<close> before it, modulo the size, on the parallel path with its copies as on the path of the library.\<close>

theorem matrix_shift_circular:
  assumes "circular_shift arma_shift" and "axis < 2"
    and "\<bar>len\<bar> \<le> int (if axis = 0 then n_rows m else n_cols m)" and "shift_ranges m len axis rss"
    and "r < n_rows m" and "c < n_cols m"
  shows "elt (matrix_shift arma_shift uninit rss m len axis) r c =
    (if axis = 0 then elt m (nat ((int r - len) mod int (n_rows m))) c
     else elt m r (nat ((int c - len) mod int (n_cols m))))"
  unfolding matrix_shift_value [OF assms] shifted_elt_def by (rule refl)

text \<open>The shift that the library is documented to do, as a function.\<close>

definition shift_demo :: "'a mat \<Rightarrow> int \<Rightarrow> nat \<Rightarrow> 'a mat" where
  "shift_demo m len axis = m\<lparr>elt := shifted_elt m len axis\<rparr>"

lemma circular_shift_demo: "circular_shift shift_demo"
  by (simp add: circular_shift_def shift_demo_def)

definition big_demo :: "int mat" where
  "big_demo = \<lparr>n_rows = 2, n_cols = 5000, elt = (\<lambda>r c. int c)\<rparr>"

theorem matrix_shift_circular_witness:
  "elt (matrix_shift shift_demo (\<lambda>r c. 0) ([(0, 3000)], [(4000, 5000), (3000, 4000)]) big_demo 2000 1) 1 1999 = 4999"
proof -
  have "elt (matrix_shift shift_demo (\<lambda>r c. 0) ([(0, 3000)], [(4000, 5000), (3000, 4000)]) big_demo 2000 1) 1 1999 =
      (if (1::nat) = 0 then elt big_demo (nat ((int 1 - 2000) mod int (n_rows big_demo))) 1999
       else elt big_demo 1 (nat ((int 1999 - 2000) mod int (n_cols big_demo))))"
    by (rule matrix_shift_circular [OF circular_shift_demo])
      (simp_all add: big_demo_def shift_ranges_def covers_def)
  then show ?thesis
    by (simp add: big_demo_def)
qed

lemma fftshift_value:
  assumes arma: "circular_shift arma_shift"
    and rss: "\<And>axis. axis < 2 \<Longrightarrow> shift_ranges m
      ((if fwd then - 1 else 1) * int ((if axis = 0 then n_rows m else n_cols m) div 2)) axis (rss axis)"
  shows "n_rows (fftshift arma_shift uninit rss fwd m) = n_rows m" "n_cols (fftshift arma_shift uninit rss fwd m) = n_cols m"
    and "r < n_rows m \<Longrightarrow> c < n_cols m \<Longrightarrow> elt (fftshift arma_shift uninit rss fwd m) r c =
      elt m (nat ((int r + (if fwd then 1 else - 1) * int (n_rows m div 2)) mod int (n_rows m)))
        (nat ((int c + (if fwd then 1 else - 1) * int (n_cols m div 2)) mod int (n_cols m)))"
proof -
  let ?d = "if fwd then - 1 else 1 :: int"
  let ?m1 = "if n_rows m > 1 then matrix_shift arma_shift uninit (rss 0) m (?d * int (n_rows m div 2)) 0 else m"
  have abs: "\<bar>?d * int k\<bar> = int k" for k
    by simp
  have size1: "n_rows ?m1 = n_rows m" "n_cols ?m1 = n_cols m"
    using matrix_shift_size [OF arma, of 0] by simp_all
  have elt1: "elt ?m1 r c = elt m (nat ((int r - ?d * int (n_rows m div 2)) mod int (n_rows m))) c"
    if "r < n_rows m" "c < n_cols m" for r c
  proof (cases "n_rows m > 1")
    case True
    then have "elt ?m1 r c = shifted_elt m (?d * int (n_rows m div 2)) 0 r c"
      using matrix_shift_value [OF arma, of 0 "?d * int (n_rows m div 2)" m "rss 0" r c uninit] rss [of 0] that abs by simp
    then show ?thesis
      unfolding shifted_elt_def by simp
  next
    case False
    then show ?thesis
      using that by auto
  qed
  have run: "fftshift arma_shift uninit rss fwd m =
      (if n_cols ?m1 > 1 then matrix_shift arma_shift uninit (rss 1) ?m1 (?d * int (n_cols ?m1 div 2)) 1 else ?m1)"
    by (simp add: fftshift_def Let_def)
  show "n_rows (fftshift arma_shift uninit rss fwd m) = n_rows m" "n_cols (fftshift arma_shift uninit rss fwd m) = n_cols m"
    unfolding run using matrix_shift_size [OF arma, of 1] size1 by simp_all
  assume rc: "r < n_rows m" "c < n_cols m"
  have ranges: "shift_ranges ?m1 (?d * int (n_cols m div 2)) 1 (rss 1)"
    using rss [of 1] shift_ranges_cong [OF size1] by simp
  have "elt (fftshift arma_shift uninit rss fwd m) r c =
      elt ?m1 r (nat ((int c - ?d * int (n_cols m div 2)) mod int (n_cols m)))"
  proof (cases "n_cols m > 1")
    case True
    then have "elt (fftshift arma_shift uninit rss fwd m) r c = shifted_elt ?m1 (?d * int (n_cols m div 2)) 1 r c"
      unfolding run size1
      using matrix_shift_value [OF arma _ _ ranges, of r c uninit] rc abs size1 by simp
    then show ?thesis
      unfolding shifted_elt_def size1 by simp
  next
    case False
    then show ?thesis
      unfolding run size1 using rc by auto
  qed
  also have "\<dots> = elt m (nat ((int r - ?d * int (n_rows m div 2)) mod int (n_rows m)))
      (nat ((int c - ?d * int (n_cols m div 2)) mod int (n_cols m)))"
    using rc by (intro elt1) (simp_all add: nat_less_iff)
  finally show "elt (fftshift arma_shift uninit rss fwd m) r c =
      elt m (nat ((int r + (if fwd then 1 else - 1) * int (n_rows m div 2)) mod int (n_rows m)))
        (nat ((int c + (if fwd then 1 else - 1) * int (n_cols m div 2)) mod int (n_cols m)))"
    by (cases fwd) simp_all
qed

lemma fftshift_back:
  assumes arma: "circular_shift arma_shift"
    and rss: "\<And>fwd axis. axis < 2 \<Longrightarrow> shift_ranges m
      ((if fwd then - 1 else 1) * int ((if axis = 0 then n_rows m else n_cols m) div 2)) axis (rss fwd axis)"
    and rc: "r < n_rows m" "c < n_cols m"
  shows "elt (fftshift arma_shift uninit' (rss False) False (fftshift arma_shift uninit (rss True) True m)) r c = elt m r c"
proof -
  let ?m1 = "fftshift arma_shift uninit (rss True) True m"
  have fwd: "n_rows ?m1 = n_rows m" "n_cols ?m1 = n_cols m"
    by (rule fftshift_value(1) [OF arma], rule rss, assumption) (rule fftshift_value(2) [OF arma], rule rss, assumption)
  have elts: "elt ?m1 r c = elt m (nat ((int r + 1 * int (n_rows m div 2)) mod int (n_rows m)))
      (nat ((int c + 1 * int (n_cols m div 2)) mod int (n_cols m)))" if "r < n_rows m" "c < n_cols m" for r c
  proof -
    have "elt ?m1 r c = elt m (nat ((int r + (if True then 1 else - 1) * int (n_rows m div 2)) mod int (n_rows m)))
        (nat ((int c + (if True then 1 else - 1) * int (n_cols m div 2)) mod int (n_cols m)))"
      by (rule fftshift_value(3) [OF arma _ that], rule rss)
    then show ?thesis by simp
  qed
  have undo: "nat ((int (nat ((int k + - 1 * int d) mod int n)) + 1 * int d) mod int n) = k" if "k < n" for k d n
  proof -
    have "(int (nat ((int k + - 1 * int d) mod int n)) + 1 * int d) mod int n = ((int k - int d) mod int n + int d) mod int n"
      using that by simp
    also have "\<dots> = int k mod int n"
      by (simp add: mod_add_left_eq)
    finally show ?thesis
      using that by simp
  qed
  have less: "nat ((int k + - 1 * int d) mod int n) < n" if "k < n" for k d n
    using that by (simp add: nat_less_iff)
  have "elt (fftshift arma_shift uninit' (rss False) False ?m1) r c =
      elt ?m1 (nat ((int r + - 1 * int (n_rows ?m1 div 2)) mod int (n_rows ?m1)))
        (nat ((int c + - 1 * int (n_cols ?m1 div 2)) mod int (n_cols ?m1)))"
  proof -
    have "shift_ranges ?m1 ((if False then - 1 else 1) * int ((if axis = 0 then n_rows ?m1 else n_cols ?m1) div 2)) axis (rss False axis)"
      if "axis < 2" for axis :: nat
      unfolding fwd shift_ranges_cong [OF fwd] by (rule rss [OF that])
    then have "elt (fftshift arma_shift uninit' (rss False) False ?m1) r c =
        elt ?m1 (nat ((int r + (if False then 1 else - 1) * int (n_rows ?m1 div 2)) mod int (n_rows ?m1)))
          (nat ((int c + (if False then 1 else - 1) * int (n_cols ?m1 div 2)) mod int (n_cols ?m1)))"
      by (rule fftshift_value(3) [OF arma]) (use rc fwd in simp_all)
    then show ?thesis by simp
  qed
  also have "\<dots> = elt m r c"
    unfolding fwd(1,2) elts [OF less [OF rc(1)] less [OF rc(2)]] undo [OF rc(1)] undo [OF rc(2)] by (rule refl)
  finally show ?thesis .
qed

text \<open>C26. fftshift forwards moves the element at half the size to the origin, in both dimensions, and fftshift backwards
  undoes it, for odd sizes also.\<close>

theorem fftshift_roundtrip:
  assumes arma: "circular_shift arma_shift"
    and rss: "\<And>fwd axis. axis < 2 \<Longrightarrow> shift_ranges m
      ((if fwd then - 1 else 1) * int ((if axis = 0 then n_rows m else n_cols m) div 2)) axis (rss fwd axis)"
    and rc: "r < n_rows m" "c < n_cols m"
  shows "elt (fftshift arma_shift uninit (rss True) True m) 0 0 = elt m (n_rows m div 2) (n_cols m div 2) \<and>
    elt (fftshift arma_shift uninit' (rss False) False (fftshift arma_shift uninit (rss True) True m)) r c = elt m r c"
proof
  have "elt (fftshift arma_shift uninit (rss True) True m) 0 0 =
      elt m (nat ((int 0 + (if True then 1 else - 1) * int (n_rows m div 2)) mod int (n_rows m)))
        (nat ((int 0 + (if True then 1 else - 1) * int (n_cols m div 2)) mod int (n_cols m)))"
    by (rule fftshift_value(3) [OF arma], rule rss) (use rc in simp_all)
  then show "elt (fftshift arma_shift uninit (rss True) True m) 0 0 = elt m (n_rows m div 2) (n_cols m div 2)"
    using rc by (simp add: mod_pos_pos_trivial)
qed (rule fftshift_back [OF assms])

definition demo_ranges :: "bool \<Rightarrow> nat \<Rightarrow> range list \<times> range list" where
  "demo_ranges fwd axis =
     (if axis = 0 then ([(0, 5000)], [])
      else if fwd then ([(4000, 5000), (2500, 4000)], [(0, 2500)]) else ([(0, 2500)], [(2500, 5000)]))"

theorem fftshift_roundtrip_witness:
  "elt (fftshift shift_demo (\<lambda>r c. 0) (demo_ranges True) True big_demo) 0 0 = 2500 \<and>
    elt (fftshift shift_demo (\<lambda>r c. 0) (demo_ranges False) False
      (fftshift shift_demo (\<lambda>r c. 0) (demo_ranges True) True big_demo)) 1 7 = 7"
proof -
  have "elt (fftshift shift_demo (\<lambda>r c. 0) (demo_ranges True) True big_demo) 0 0 =
      elt big_demo (n_rows big_demo div 2) (n_cols big_demo div 2) \<and>
      elt (fftshift shift_demo (\<lambda>r c. 0) (demo_ranges False) False
        (fftshift shift_demo (\<lambda>r c. 0) (demo_ranges True) True big_demo)) 1 7 = elt big_demo 1 7"
  proof (rule fftshift_roundtrip [OF circular_shift_demo])
    fix fwd and axis :: nat
    assume "axis < 2"
    then show "shift_ranges big_demo
      ((if fwd then - 1 else 1) * int ((if axis = 0 then n_rows big_demo else n_cols big_demo) div 2)) axis
      (demo_ranges fwd axis)"
      by (cases fwd) (auto simp: demo_ranges_def big_demo_def shift_ranges_def covers_def less_2_cases_iff)
  qed (simp_all add: big_demo_def)
  then show ?thesis
    by (simp only: big_demo_def mat.simps) simp
qed

end
