(* ===== verification/Fft.thy ===== *)
theory Fft
  imports Stp_Types Matrix_Shift
begin

text \<open>
  \<^verbatim>\<open>src/src/stp/common/fft.cpp\<close>: the wrappers of FFTW and the completion of a Hermitian matrix. FFTW is a
  parameter: what it can plan, and what it computes on memory. The wrappers hand it the dimensions and the memory of
  column-major matrices.
\<close>

section \<open>The library\<close>

datatype fft_error = Failed_init | Failed_wisdom string | Failed_plan | Assertion_failed | Odd_array_size | Out_of_bounds

datatype fftw_flag = FLAG_ESTIMATE | FLAG_MEASURE | FLAG_PATIENT | FLAG_WISDOM_ONLY

datatype plan_kind = Plan_c2r | Plan_r2c | Plan_c2c | Plan_r2hc | Plan_dft_1d

text \<open>
  What FFTW offers: whether threads and a wisdom file can be set up, which plans it makes, and what their
  execution writes, on linear memory; the first argument of a transform of two dimensions is whether it works in place,
  that of \<open>run_c2c\<close> whether it is the forward transform.
\<close>

record fftw =
  init_threads :: bool
  import_wisdom :: "string \<Rightarrow> bool"
  plannable :: "plan_kind \<Rightarrow> fftw_flag \<Rightarrow> nat \<Rightarrow> nat \<Rightarrow> bool"
  run_c2r :: "bool \<Rightarrow> nat \<Rightarrow> nat \<Rightarrow> (nat \<Rightarrow> complex) \<Rightarrow> nat \<Rightarrow> real"
  run_r2c :: "bool \<Rightarrow> nat \<Rightarrow> nat \<Rightarrow> (nat \<Rightarrow> real) \<Rightarrow> nat \<Rightarrow> complex"
  run_c2c :: "bool \<Rightarrow> nat \<Rightarrow> nat \<Rightarrow> (nat \<Rightarrow> complex) \<Rightarrow> nat \<Rightarrow> complex"
  run_r2hc :: "real list \<Rightarrow> real list"
  run_dft_1d :: "complex list \<Rightarrow> complex list"

section \<open>The wrappers\<close>

definition init_fftw :: "fftw \<Rightarrow> fft_routine \<Rightarrow> string \<Rightarrow> fft_error + unit" where
  "init_fftw F routine wisdom_filename =
     (if \<not> init_threads F then Inl Failed_init
      else if (routine = FFTW_WISDOM_FFT \<or> routine = FFTW_WISDOM_INPLACE_FFT) \<and> \<not> import_wisdom F wisdom_filename
        then Inl (Failed_wisdom wisdom_filename)
      else Inr ())"

text \<open>The planner flag; two of the routines run into \<^verbatim>\<open>assert(0)\<close>.\<close>

definition select_flag :: "fft_routine \<Rightarrow> fft_error + fftw_flag" where
  "select_flag routine =
     (case routine of
        FFTW_ESTIMATE_FFT \<Rightarrow> Inr FLAG_ESTIMATE
      | FFTW_MEASURE_FFT \<Rightarrow> Inl Assertion_failed
      | FFTW_PATIENT_FFT \<Rightarrow> Inl Assertion_failed
      | FFTW_WISDOM_FFT \<Rightarrow> Inr FLAG_WISDOM_ONLY
      | FFTW_WISDOM_INPLACE_FFT \<Rightarrow> Inr FLAG_WISDOM_ONLY)"

text \<open>A plan with the flag, or else with \<^verbatim>\<open>FFTW_ESTIMATE\<close>.\<close>

definition make_plan :: "fftw \<Rightarrow> plan_kind \<Rightarrow> fft_routine \<Rightarrow> nat \<Rightarrow> nat \<Rightarrow> fft_error + unit" where
  "make_plan F kind routine n0 n1 =
     (case select_flag routine of
        Inl e \<Rightarrow> Inl e
      | Inr flag \<Rightarrow>
          if plannable F kind flag n0 n1 then Inr ()
          else if plannable F kind FLAG_ESTIMATE n0 n1 then Inr ()
          else Inl Failed_plan)"

text \<open>
  The transform of half a Hermitian matrix to a real one. In place, the result keeps the rows of its buffer, twice as many
  as the input has.
\<close>

definition fft_fftw_c2r :: "fftw \<Rightarrow> bool \<Rightarrow> complex mat \<Rightarrow> fft_routine \<Rightarrow> fft_error + real mat" where
  "fft_fftw_c2r F in_place input routine =
     (let rows = (if n_rows input mod 2 = 0 then n_rows input * 2 else (n_rows input - 1) * 2);
          cols = n_cols input;
          out_rows = (if in_place then n_rows input * 2 else rows)
      in case make_plan F Plan_c2r routine cols rows of
           Inl e \<Rightarrow> Inl e
         | Inr _ \<Rightarrow> Inr \<lparr>n_rows = out_rows, n_cols = cols,
             elt = (\<lambda>i j. run_c2r F in_place cols rows (at_lin input) (j * out_rows + i))\<rparr>)"

definition fft_fftw_r2c :: "fftw \<Rightarrow> real mat \<Rightarrow> fft_routine \<Rightarrow> fft_error + complex mat" where
  "fft_fftw_r2c F input routine =
     (let rows = n_rows input div 2 + 1; cols = n_cols input
      in case make_plan F Plan_r2c routine (n_cols input) (n_rows input) of
           Inl e \<Rightarrow> Inl e
         | Inr _ \<Rightarrow> Inr \<lparr>n_rows = rows, n_cols = cols,
             elt = (\<lambda>i j. run_r2c F False (n_cols input) (n_rows input) (at_lin input) (j * rows + i))\<rparr>)"

text \<open>Here the dimensions are handed over in the order of the matrix, not reversed.\<close>

definition fft_fftw_c2c :: "fftw \<Rightarrow> complex mat \<Rightarrow> fft_routine \<Rightarrow> bool \<Rightarrow> fft_error + complex mat" where
  "fft_fftw_c2c F input routine forward =
     (let rows = n_rows input; cols = n_cols input
      in case make_plan F Plan_c2c routine rows cols of
           Inl e \<Rightarrow> Inl e
         | Inr _ \<Rightarrow> Inr \<lparr>n_rows = rows, n_cols = cols,
             elt = (\<lambda>i j. run_c2c F forward rows cols (at_lin input) (j * rows + i))\<rparr>)"

definition fft_fftw_dft_r2r_1d :: "fftw \<Rightarrow> real list \<Rightarrow> fft_routine \<Rightarrow> fft_error + real list" where
  "fft_fftw_dft_r2r_1d F input routine =
     (case make_plan F Plan_r2hc routine (length input) 1 of Inl e \<Rightarrow> Inl e | Inr _ \<Rightarrow> Inr (run_r2hc F input))"

definition fft_fftw_dft_c2c_1d :: "fftw \<Rightarrow> complex list \<Rightarrow> fft_routine \<Rightarrow> fft_error + complex list" where
  "fft_fftw_dft_c2c_1d F input routine =
     (case make_plan F Plan_dft_1d routine (length input) 1 of Inl e \<Rightarrow> Inl e | Inr _ \<Rightarrow> Inr (run_dft_1d F input))"

text \<open>
  The completion of the rows that the transform of a real matrix leaves out. \<^verbatim>\<open>resize\<close> keeps the elements
  and fills with zeros; \<open>rs\<close> are the subranges of the parallel loop.
\<close>

definition hermitian_column :: "nat \<Rightarrow> nat \<Rightarrow> nat \<Rightarrow> (nat \<Rightarrow> nat \<Rightarrow> complex) \<Rightarrow> nat \<Rightarrow> nat \<Rightarrow> complex" where
  "hermitian_column rows j j' = fold (\<lambda>i E. upd2 E i j (cnj (E (rows - i) j'))) [rows div 2 + 1..<rows]"

definition generate_hermitian_matrix_from_nonredundant :: "range list \<Rightarrow> complex mat \<Rightarrow> complex mat" where
  "generate_hermitian_matrix_from_nonredundant rs m =
     (let rows = (n_rows m - 1) * 2; cols = n_cols m;
          E = (\<lambda>i j. if i < n_rows m \<and> j < cols then elt m i j else 0);
          E = hermitian_column rows 0 0 E;
          E = parallel_for (\<lambda>j. hermitian_column rows j (cols - j)) rs E
      in \<lparr>n_rows = rows, n_cols = cols, elt = E\<rparr>)"

section \<open>Transforms\<close>

text \<open>The transforms of a matrix with \<open>n0\<close> times \<open>n1\<close> elements, not normalised.\<close>

definition wave :: "nat \<Rightarrow> nat \<Rightarrow> real" where
  "wave n k = 2 * pi * real k / real n"

definition dft2 :: "nat \<Rightarrow> nat \<Rightarrow> (nat \<Rightarrow> nat \<Rightarrow> complex) \<Rightarrow> nat \<Rightarrow> nat \<Rightarrow> complex" where
  "dft2 n0 n1 x k0 k1 = (\<Sum>i0<n0. \<Sum>i1<n1. x i0 i1 * cis (- (wave n0 (k0 * i0) + wave n1 (k1 * i1))))"

definition idft2 :: "nat \<Rightarrow> nat \<Rightarrow> (nat \<Rightarrow> nat \<Rightarrow> complex) \<Rightarrow> nat \<Rightarrow> nat \<Rightarrow> complex" where
  "idft2 n0 n1 X i0 i1 = (\<Sum>k0<n0. \<Sum>k1<n1. X k0 k1 * cis (wave n0 (k0 * i0) + wave n1 (k1 * i1)))"

text \<open>The opposite index, and matrices in which opposite elements are conjugate.\<close>

definition opp :: "nat \<Rightarrow> nat \<Rightarrow> nat" where
  "opp n k = (n - k) mod n"

definition hermitian :: "nat \<Rightarrow> nat \<Rightarrow> (nat \<Rightarrow> nat \<Rightarrow> complex) \<Rightarrow> bool" where
  "hermitian n0 n1 X \<longleftrightarrow> (\<forall>k0 < n0. \<forall>k1 < n1. X (opp n0 k0) (opp n1 k1) = cnj (X k0 k1))"

text \<open>
  What the manual of FFTW says: dimensions in row-major order, the last one halved on the complex side, and in place the
  rows of the real side padded to the size of those of the complex side.
\<close>

definition real_stride :: "bool \<Rightarrow> nat \<Rightarrow> nat" where
  "real_stride in_place n1 = (if in_place then 2 * (n1 div 2 + 1) else n1)"

definition half_memory :: "nat \<Rightarrow> (nat \<Rightarrow> nat \<Rightarrow> complex) \<Rightarrow> nat \<Rightarrow> complex" where
  "half_memory n1 X k = X (k div (n1 div 2 + 1)) (k mod (n1 div 2 + 1))"

definition c2r_documented :: "fftw \<Rightarrow> bool" where
  "c2r_documented F \<longleftrightarrow> (\<forall>in_place n0 n1 X mem i0 i1. hermitian n0 n1 X \<longrightarrow>
     (\<forall>k < n0 * (n1 div 2 + 1). mem k = half_memory n1 X k) \<longrightarrow> i0 < n0 \<longrightarrow> i1 < n1 \<longrightarrow>
     complex_of_real (run_c2r F in_place n0 n1 mem (i0 * real_stride in_place n1 + i1)) = idft2 n0 n1 X i0 i1)"

definition r2c_documented :: "fftw \<Rightarrow> bool" where
  "r2c_documented F \<longleftrightarrow> (\<forall>in_place n0 n1 mem k0 k1. k0 < n0 \<longrightarrow> k1 < n1 div 2 + 1 \<longrightarrow>
     run_r2c F in_place n0 n1 mem (k0 * (n1 div 2 + 1) + k1) =
       dft2 n0 n1 (\<lambda>i0 i1. complex_of_real (mem (i0 * real_stride in_place n1 + i1))) k0 k1)"

definition c2c_documented :: "fftw \<Rightarrow> bool" where
  "c2c_documented F \<longleftrightarrow> (\<forall>forward n0 n1 mem k0 k1. k0 < n0 \<longrightarrow> k1 < n1 \<longrightarrow>
     run_c2c F forward n0 n1 mem (k0 * n1 + k1) =
       (if forward then dft2 n0 n1 else idft2 n0 n1) (\<lambda>i0 i1. mem (i0 * n1 + i1)) k0 k1)"

definition dft_1d_documented :: "fftw \<Rightarrow> bool" where
  "dft_1d_documented F \<longleftrightarrow> (\<forall>l. length (run_dft_1d F l) = length l \<and>
     (\<forall>k < length l. run_dft_1d F l ! k = (\<Sum>i<length l. l ! i * cis (- wave (length l) (k * i)))))"

section \<open>Completion\<close>

lemma hermitian_fold:
  assumes "\<forall>i \<in> S. rows - i \<notin> S" and "set xs \<subseteq> S"
  shows "fold (\<lambda>i E. upd2 E i j (cnj (E (rows - i) j'))) xs E r c =
    (if c = j \<and> r \<in> set xs then cnj (E (rows - r) j') else E r c)"
  using assms(2)
proof (induction xs arbitrary: E)
  case (Cons x xs)
  let ?E = "upd2 E x j (cnj (E (rows - x) j'))"
  have "?E (rows - r) j' = E (rows - r) j'" if "r \<in> set xs"
    using Cons.prems assms(1) that by auto
  then show ?case
    using Cons by auto
qed simp

lemma hermitian_column_value:
  "hermitian_column rows j j' E r c = (if c = j \<and> rows div 2 < r \<and> r < rows then cnj (E (rows - r) j') else E r c)"
proof -
  have "\<forall>i \<in> {rows div 2 + 1..<rows}. rows - i \<notin> {rows div 2 + 1..<rows}"
    by auto
  from hermitian_fold [OF this, of "[rows div 2 + 1..<rows]" j j' E r c] show ?thesis
    by (simp add: hermitian_column_def Suc_le_eq)
qed

lemma hermitian_columns_value:
  "fold (\<lambda>j. hermitian_column rows j (cols - j)) js E r c =
    (if c \<in> set js \<and> rows div 2 < r \<and> r < rows then cnj (E (rows - r) (cols - c)) else E r c)"
proof (induction js arbitrary: E)
  case (Cons j js)
  have "\<not> rows div 2 < rows - r" if "rows div 2 < r"
    using that by linarith
  with Cons show ?case
    by (auto simp: hermitian_column_value)
qed simp

text \<open>The completion of the first rows of a Hermitian matrix is that matrix.\<close>

lemma generate_hermitian_value:
  assumes X: "hermitian n0 n1 X" and n1: "even n1" "0 < n1" and rs: "covers 1 n0 rs"
    and m: "n_rows m = n1 div 2 + 1" "n_cols m = n0" "\<And>i j. i < n1 div 2 + 1 \<Longrightarrow> j < n0 \<Longrightarrow> elt m i j = X j i"
    and ij: "i < n1" "j < n0"
  shows "elt (generate_hermitian_matrix_from_nonredundant rs m) i j = X j i"
    and "n_rows (generate_hermitian_matrix_from_nonredundant rs m) = n1"
    and "n_cols (generate_hermitian_matrix_from_nonredundant rs m) = n0"
proof -
  have rows: "(n_rows m - 1) * 2 = n1"
    using n1 m(1) by simp
  have set: "set (elements rs) = {1..<n0}"
    by (rule covers_elements_set [OF rs])
  have neg: "cnj (X (opp n0 j) (opp n1 i)) = X j i"
    using X ij by (simp add: hermitian_def)
  note vals = generate_hermitian_matrix_from_nonredundant_def Let_def rows mat.select_convs parallel_for_def
    hermitian_columns_value hermitian_column_value
  show "elt (generate_hermitian_matrix_from_nonredundant rs m) i j = X j i"
  proof (cases "n1 div 2 < i")
    case False
    then show ?thesis
      unfolding vals unfolding m(1) using m(2,3) ij by simp
  next
    case True
    then have i: "n1 - i < n1 div 2 + 1" "opp n1 i = n1 - i" "\<not> n1 div 2 < n1 - i"
      using ij n1 by (auto simp: opp_def)
    show ?thesis
    proof (cases "j = 0")
      case True
      then have "opp n0 j = 0"
        using ij by (simp add: opp_def)
      then show ?thesis
        unfolding vals unfolding m(1) using True \<open>n1 div 2 < i\<close> i m(2,3) ij neg set by simp
    next
      case False
      then have "opp n0 j = n0 - j" "n0 - j < n0" "0 < n0 - j"
        using ij by (auto simp: opp_def)
      then show ?thesis
        unfolding vals unfolding m(1) using False \<open>n1 div 2 < i\<close> i m(2,3) ij neg set by simp
    qed
  qed
qed (use n1 m in \<open>simp_all add: generate_hermitian_matrix_from_nonredundant_def Let_def\<close>)

section \<open>Transforms of matrices\<close>

lemma cis_wave_opp: "0 < n \<Longrightarrow> k < n \<Longrightarrow> cis (wave n (opp n k * i)) = cis (- wave n (k * i))"
proof (cases "k = 0")
  case False
  assume n: "0 < n" "k < n"
  with False have "opp n k = n - k"
    by (simp add: opp_def)
  moreover have "wave n ((n - k) * i) = 2 * pi * real i - wave n (k * i)"
    using n by (simp add: wave_def of_nat_diff field_simps)
  moreover have "cis (2 * pi * real i) = 1"
    by (rule cis_multiple_2pi) simp
  ultimately show ?thesis
    by (metis cis_mult diff_conv_add_uminus mult_1)
qed (simp add: opp_def wave_def)

text \<open>The transform of a real matrix is Hermitian.\<close>

lemma cis_waves_opp:
  assumes "0 < n0" "0 < n1" "k0 < n0" "k1 < n1"
  shows "cis (- (wave n0 (opp n0 k0 * i0) + wave n1 (opp n1 k1 * i1))) = cis (wave n0 (k0 * i0) + wave n1 (k1 * i1))"
proof -
  have "cis (- (wave n0 (opp n0 k0 * i0) + wave n1 (opp n1 k1 * i1))) =
      cnj (cis (wave n0 (opp n0 k0 * i0)) * cis (wave n1 (opp n1 k1 * i1)))"
    by (simp only: cis_mult cis_cnj)
  also have "\<dots> = cis (wave n0 (k0 * i0) + wave n1 (k1 * i1))"
    unfolding cis_wave_opp [OF assms(1,3)] cis_wave_opp [OF assms(2,4)]
    by (simp only: cis_mult cis_cnj minus_add_distrib minus_minus add.commute)
  finally show ?thesis .
qed

lemma dft2_hermitian:
  assumes "0 < n0" "0 < n1"
  shows "hermitian n0 n1 (dft2 n0 n1 (\<lambda>i0 i1. complex_of_real (x i0 i1)))"
  unfolding hermitian_def dft2_def
proof (intro allI impI)
  fix k0 k1
  assume k: "k0 < n0" "k1 < n1"
  show "(\<Sum>i0<n0. \<Sum>i1<n1. complex_of_real (x i0 i1) * cis (- (wave n0 (opp n0 k0 * i0) + wave n1 (opp n1 k1 * i1)))) =
      cnj (\<Sum>i0<n0. \<Sum>i1<n1. complex_of_real (x i0 i1) * cis (- (wave n0 (k0 * i0) + wave n1 (k1 * i1))))"
    unfolding cnj_sum complex_cnj_mult cis_waves_opp [OF assms k] cis_cnj minus_minus by simp
qed

lemma full_transform_value:
  assumes F: "r2c_documented F" and r2c: "fft_fftw_r2c F input routine = Inr out"
    and "even (n_rows input)" "0 < n_rows input" and rs: "covers 1 (n_cols input) rs"
    and "i < n_rows input" "j < n_cols input"
  shows "elt (generate_hermitian_matrix_from_nonredundant rs out) i j =
    dft2 (n_cols input) (n_rows input) (\<lambda>c r. complex_of_real (elt input r c)) j i"
proof -
  define rows where "rows = n_rows input"
  define cols where "cols = n_cols input"
  let ?x = "\<lambda>i0 i1. at_lin input (i0 * rows + i1)"
  have x: "?x i0 i1 = elt input i1 i0" if "i1 < rows" for i0 i1
    using that by (simp add: at_lin_def rows_def)
  then have dft: "dft2 cols rows (\<lambda>i0 i1. complex_of_real (?x i0 i1)) = dft2 cols rows (\<lambda>c r. complex_of_real (elt input r c))"
    by (intro ext) (simp add: dft2_def)
  have out: "out = \<lparr>n_rows = rows div 2 + 1, n_cols = cols,
      elt = (\<lambda>i j. run_r2c F False cols rows (at_lin input) (j * (rows div 2 + 1) + i))\<rparr>"
    using r2c by (simp add: fft_fftw_r2c_def Let_def rows_def cols_def split: sum.splits)
  have elt_out: "elt out i j = dft2 cols rows (\<lambda>i0 i1. complex_of_real (?x i0 i1)) j i"
    if "i < rows div 2 + 1" "j < cols" for i j
    using F that unfolding r2c_documented_def by (simp add: out real_stride_def)
  have herm: "hermitian cols rows (dft2 cols rows (\<lambda>i0 i1. complex_of_real (?x i0 i1)))"
    using assms by (intro dft2_hermitian) (simp_all add: rows_def cols_def)
  have "elt (generate_hermitian_matrix_from_nonredundant rs out) i j = dft2 cols rows (\<lambda>i0 i1. complex_of_real (?x i0 i1)) j i"
  proof (rule generate_hermitian_value(1) [OF herm])
    show "n_rows out = rows div 2 + 1" "n_cols out = cols"
      by (simp_all add: out)
  qed (use assms elt_out in \<open>simp_all add: rows_def cols_def\<close>)
  then show ?thesis
    unfolding dft by (simp only: rows_def cols_def)
qed

text \<open>The transform back of half a Hermitian matrix, in place or not.\<close>

lemma c2r_value:
  assumes F: "c2r_documented F" and c2r: "fft_fftw_c2r F in_place input routine = Inr out"
    and X: "hermitian (n_cols input) n X" and n: "4 dvd n" "n_rows input = n div 2 + 1"
    and half: "\<And>i j. i < n div 2 + 1 \<Longrightarrow> j < n_cols input \<Longrightarrow> elt input i j = X j i"
    and ij: "i < n" "j < n_cols input"
  shows "complex_of_real (elt out i j) = idft2 (n_cols input) n X j i"
    and "n_cols out = n_cols input"
proof -
  have odd: "n_rows input mod 2 = 1" "(n_rows input - 1) * 2 = n"
    using n by (auto elim!: dvdE)
  have out: "out = \<lparr>n_rows = real_stride in_place n, n_cols = n_cols input,
      elt = (\<lambda>i j. run_c2r F in_place (n_cols input) n (at_lin input) (j * real_stride in_place n + i))\<rparr>"
    using c2r odd n by (auto simp: fft_fftw_c2r_def Let_def real_stride_def mult.commute split: sum.splits)
  have "at_lin input k = half_memory n X k" if "k < n_cols input * (n div 2 + 1)" for k
  proof -
    have "k div (n div 2 + 1) < n_cols input"
      using that by (intro div_less_iff_less_mult [THEN iffD2]) simp_all
    then show ?thesis
      using half [of "k mod (n div 2 + 1)" "k div (n div 2 + 1)"] n by (simp add: at_lin_def half_memory_def)
  qed
  then show "complex_of_real (elt out i j) = idft2 (n_cols input) n X j i"
    using F X ij unfolding c2r_documented_def by (simp add: out)
  show "n_cols out = n_cols input"
    by (simp add: out)
qed

text \<open>
  C33. The transform of a real matrix to the first half of its rows, completed by
  generate_hermitian_matrix_from_nonredundant, is the Fourier transform of the matrix, whatever the subranges of the
  parallel loop.
\<close>

theorem full_transform:
  assumes "r2c_documented F" and "fft_fftw_r2c F input routine = Inr out"
    and "even (n_rows input)" and "0 < n_rows input" and "covers 1 (n_cols input) rs"
    and "i < n_rows input" and "j < n_cols input"
  shows "elt (generate_hermitian_matrix_from_nonredundant rs out) i j =
    dft2 (n_cols input) (n_rows input) (\<lambda>c r. complex_of_real (elt input r c)) j i"
  using assms by (rule full_transform_value)

section \<open>A library that does what the manual says\<close>

definition complete :: "nat \<Rightarrow> nat \<Rightarrow> (nat \<Rightarrow> complex) \<Rightarrow> nat \<Rightarrow> nat \<Rightarrow> complex" where
  "complete n0 n1 mem k0 k1 =
     (if k1 < n1 div 2 + 1 then mem (k0 * (n1 div 2 + 1) + k1)
      else cnj (mem (opp n0 k0 * (n1 div 2 + 1) + opp n1 k1)))"

definition model_fftw :: fftw where
  "model_fftw = \<lparr>init_threads = True, import_wisdom = (\<lambda>f. True), plannable = (\<lambda>kind flag n0 n1. True),
     run_c2r = (\<lambda>in_place n0 n1 mem k. Re (idft2 n0 n1 (complete n0 n1 mem) (k div real_stride in_place n1) (k mod real_stride in_place n1))),
     run_r2c = (\<lambda>in_place n0 n1 mem k. dft2 n0 n1 (\<lambda>i0 i1. complex_of_real (mem (i0 * real_stride in_place n1 + i1)))
       (k div (n1 div 2 + 1)) (k mod (n1 div 2 + 1))),
     run_c2c = (\<lambda>forward n0 n1 mem k. (if forward then dft2 else idft2) n0 n1 (\<lambda>i0 i1. mem (i0 * n1 + i1)) (k div n1) (k mod n1)),
     run_r2hc = (\<lambda>l. l),
     run_dft_1d = (\<lambda>l. map (\<lambda>k. \<Sum>i<length l. l ! i * cis (- wave (length l) (k * i))) [0..<length l])\<rparr>"

lemma opp_less: "0 < n \<Longrightarrow> opp n k < n"
  by (simp add: opp_def)

lemma opp_opp: "k < n \<Longrightarrow> opp n (opp n k) = k"
  by (cases "k = 0") (simp_all add: opp_def)

lemma sum_opp: "(\<Sum>k<n. f (opp n k)) = (\<Sum>k<n. f k :: complex)"
  by (rule sum.reindex_bij_witness [of _ "opp n" "opp n"]) (auto simp: opp_opp intro!: opp_less)

lemma idft2_real:
  assumes X: "hermitian n0 n1 X"
  shows "cnj (idft2 n0 n1 X i0 i1) = idft2 n0 n1 X i0 i1"
proof -
  let ?t = "\<lambda>k0 k1. X k0 k1 * cis (wave n0 (k0 * i0) + wave n1 (k1 * i1))"
  have opp: "?t (opp n0 k0) (opp n1 k1) = cnj (?t k0 k1)" if "k0 < n0" "k1 < n1" for k0 k1
  proof -
    have "cis (wave n0 (opp n0 k0 * i0) + wave n1 (opp n1 k1 * i1)) = cnj (cis (wave n0 (k0 * i0) + wave n1 (k1 * i1)))"
      using that cis_waves_opp [of n0 n1 "opp n0 k0" "opp n1 k1" i0 i1] by (simp add: opp_less opp_opp cis_cnj)
    moreover have "X (opp n0 k0) (opp n1 k1) = cnj (X k0 k1)"
      using X that by (simp add: hermitian_def)
    ultimately show ?thesis
      by simp
  qed
  have "cnj (idft2 n0 n1 X i0 i1) = (\<Sum>k0<n0. \<Sum>k1<n1. ?t (opp n0 k0) (opp n1 k1))"
    unfolding idft2_def cnj_sum by (intro sum.cong refl) (simp add: opp)
  also have "\<dots> = (\<Sum>k0<n0. \<Sum>k1<n1. ?t k0 k1)"
    by (simp only: sum_opp [of "\<lambda>k1. ?t (opp n0 _) k1"] sum_opp [of "\<lambda>k0. \<Sum>k1<n1. ?t k0 k1"])
  finally show ?thesis
    by (simp add: idft2_def)
qed

lemma row_major:
  fixes a b h :: nat
  assumes "b < h"
  shows "(a * h + b) div h = a" and "(a * h + b) mod h = b"
  using assms by simp_all

lemma complete_hermitian:
  assumes X: "hermitian n0 n1 X" and mem: "\<forall>k < n0 * (n1 div 2 + 1). mem k = half_memory n1 X k"
    and k: "k0 < n0" "k1 < n1"
  shows "complete n0 n1 mem k0 k1 = X k0 k1"
proof -
  have read: "mem (a * (n1 div 2 + 1) + b) = X a b" if "a < n0" "b < n1 div 2 + 1" for a b
  proof -
    have "a * (n1 div 2 + 1) + b < n0 * (n1 div 2 + 1)"
    proof -
      have "a * (n1 div 2 + 1) + b < Suc a * (n1 div 2 + 1)"
        using that by simp
      also have "\<dots> \<le> n0 * (n1 div 2 + 1)"
        using that by (intro mult_le_mono1) simp
      finally show ?thesis .
    qed
    then have "mem (a * (n1 div 2 + 1) + b) = half_memory n1 X (a * (n1 div 2 + 1) + b)"
      using mem by blast
    then show ?thesis
      unfolding half_memory_def row_major [OF that(2)] .
  qed
  show ?thesis
  proof (cases "k1 < n1 div 2 + 1")
    case True
    then show ?thesis
      using read k by (simp add: complete_def)
  next
    case False
    then have "opp n1 k1 < n1 div 2 + 1"
      using k by (auto simp: opp_def)
    then show ?thesis
      using False read [of "opp n0 k0" "opp n1 k1"] X k by (simp add: complete_def opp_less hermitian_def)
  qed
qed

lemma model_fftw_c2r: "c2r_documented model_fftw"
  unfolding c2r_documented_def
proof (intro allI impI)
  fix in_place n0 n1 X mem i0 i1
  assume X: "hermitian n0 n1 X" and mem: "\<forall>k < n0 * (n1 div 2 + 1). mem k = half_memory n1 X k"
    and i: "i0 < n0" "i1 < n1"
  have "i1 < real_stride in_place n1"
    using i by (auto simp: real_stride_def)
  note pos = row_major [OF this, of i0]
  have "idft2 n0 n1 (complete n0 n1 mem) i0 i1 = idft2 n0 n1 X i0 i1"
    unfolding idft2_def by (intro sum.cong refl) (simp add: complete_hermitian [OF X mem])
  moreover have "complex_of_real (Re (idft2 n0 n1 X i0 i1)) = idft2 n0 n1 X i0 i1"
    using idft2_real [OF X, of i0 i1] by (simp add: complex_eq_iff)
  ultimately show "complex_of_real (run_c2r model_fftw in_place n0 n1 mem (i0 * real_stride in_place n1 + i1)) = idft2 n0 n1 X i0 i1"
    by (simp only: model_fftw_def fftw.select_convs pos)
qed

lemma model_fftw_r2c: "r2c_documented model_fftw"
  unfolding r2c_documented_def
proof (intro allI impI)
  fix in_place :: bool and n0 n1 k0 k1 :: nat and mem :: "nat \<Rightarrow> real"
  assume "k0 < n0" and k: "k1 < n1 div 2 + 1"
  show "run_r2c model_fftw in_place n0 n1 mem (k0 * (n1 div 2 + 1) + k1) =
      dft2 n0 n1 (\<lambda>i0 i1. complex_of_real (mem (i0 * real_stride in_place n1 + i1))) k0 k1"
    by (simp only: model_fftw_def fftw.select_convs row_major [OF k])
qed

lemma model_fftw_c2c: "c2c_documented model_fftw"
  unfolding c2c_documented_def
proof (intro allI impI)
  fix forward :: bool and n0 n1 k0 k1 :: nat and mem :: "nat \<Rightarrow> complex"
  assume "k0 < n0" and k: "k1 < n1"
  show "run_c2c model_fftw forward n0 n1 mem (k0 * n1 + k1) =
      (if forward then dft2 n0 n1 else idft2 n0 n1) (\<lambda>i0 i1. mem (i0 * n1 + i1)) k0 k1"
    by (simp only: model_fftw_def fftw.select_convs row_major [OF k] if_distribR)
qed

lemma model_fftw_dft_1d: "dft_1d_documented model_fftw"
  by (simp add: dft_1d_documented_def model_fftw_def)

theorem full_transform_witness:
  "elt (generate_hermitian_matrix_from_nonredundant [(1, 2)]
      (case fft_fftw_r2c model_fftw (mat_of_rows [[1, 2], [3, 4]]) FFTW_ESTIMATE_FFT of Inr out \<Rightarrow> out | Inl e \<Rightarrow> mat_of_rows [])) 1 1 =
    dft2 2 2 (\<lambda>c r. complex_of_real (elt (mat_of_rows [[1, 2], [3, 4]]) r c)) 1 1"
proof -
  let ?m = "mat_of_rows [[1 :: real, 2], [3, 4]]"
  have dims: "n_rows ?m = 2" "n_cols ?m = 2"
    by (simp_all add: mat_of_rows_def)
  obtain out where out: "fft_fftw_r2c model_fftw ?m FFTW_ESTIMATE_FFT = Inr out"
    by (simp add: fft_fftw_r2c_def make_plan_def select_flag_def model_fftw_def)
  have "covers 1 (n_cols ?m) [(1, 2)]"
    by (simp add: dims covers_def)
  from full_transform [OF model_fftw_r2c out _ _ this, of 1 1] show ?thesis
    by (simp add: dims out)
qed

end
