(* ===== verification/Img_Dom_Kernel.thy ===== *)
theory Img_Dom_Kernel
  imports Conv_Func Fft
begin

text \<open>
  \<^verbatim>\<open>ImgDomKernel\<close> of \<^verbatim>\<open>src/src/stp/convolution/conv_func.h\<close>: the kernel in the image
  domain, by its analytic grid correction function or by a Fourier transform.
\<close>

text \<open>The samples of the kernel, of sum 1, with the second half first; for an odd size the element in between is 0.\<close>

definition shifted_samples :: "(real \<Rightarrow> real) \<Rightarrow> nat \<Rightarrow> real list" where
  "shifted_samples kern ks =
     (let centre_idx = ks div 2;
          kernel1D = map (\<lambda>x. kern (x - real centre_idx)) (linspace0 ks);
          total_sum = sum_list kernel1D;
          kernel1D = (if total_sum > 0 then map (\<lambda>x. x / total_sum) kernel1D else kernel1D)
      in fold (\<lambda>i a. (a[i := kernel1D ! (centre_idx + i)])[ks - centre_idx + i := kernel1D ! i]) [0..<centre_idx] (replicate ks 0))"

text \<open>The first half of the transform around the centre. For an odd size the last element is left at 0.\<close>

definition mirrored_samples :: "nat \<Rightarrow> real list \<Rightarrow> real list" where
  "mirrored_samples ks fft =
     fold (\<lambda>i a. a[ks div 2 - i := fft ! i]) [1..<ks div 2 + 1]
       (fold (\<lambda>i a. a[ks div 2 + i := fft ! i]) [0..<ks div 2] (replicate ks 0))"

definition ImgDomKernel ::
  "fftw \<Rightarrow> kernel_creator \<Rightarrow> nat \<Rightarrow> bool \<Rightarrow> bool \<Rightarrow> fft_routine \<Rightarrow> fft_error + real list"
where
  "ImgDomKernel F creator ks normed analytic routine =
     (let img =
        (if analytic then
           (case kernel_gcf creator of
              None \<Rightarrow> Inl Assertion_failed
            | Some gcf \<Rightarrow> Inr (map (\<lambda>x. gcf ((x - real (ks div 2)) / real (ks div 2))) (linspace0 ks)))
         else
           let routine = (if (routine = FFTW_WISDOM_FFT \<or> routine = FFTW_WISDOM_INPLACE_FFT) \<and> ks < 4
                 then FFTW_ESTIMATE_FFT else routine)
           in (case fft_fftw_dft_r2r_1d F (shifted_samples (kernel_fun creator) ks) routine of
                 Inl e \<Rightarrow> Inl e
               | Inr fft \<Rightarrow> Inr (mirrored_samples ks fft)))
      in case img of
           Inl e \<Rightarrow> Inl e
         | Inr img \<Rightarrow> Inr (if normed then
             let total_sum = sum_list img in if total_sum > 0 then map (\<lambda>x. x / total_sum) img else img
           else img))"

lemma length_fold_update: "length (fold (\<lambda>i a. a[f i := g i]) is a) = length a"
  by (induction "is" arbitrary: a) simp_all

lemma length_mirrored_samples: "length (mirrored_samples ks fft) = ks"
  unfolding mirrored_samples_def by (simp add: length_fold_update)

lemma length_ImgDomKernel:
  assumes "ImgDomKernel F creator ks normed analytic routine = Inr img"
  shows "length img = ks"
  using assms by (auto simp: ImgDomKernel_def Let_def linspace0_def length_mirrored_samples split: if_splits sum.splits option.splits)

text \<open>The transform around the centre is symmetric.\<close>

lemma fold_update_nth:
  assumes "distinct is" and "inj_on f (set is)" and "k < length a"
  shows "fold (\<lambda>i a. a[f i := g i]) is a ! k = (if k \<in> f ` set is then g (the_inv_into (set is) f k) else a ! k)"
  using assms
proof (induction "is" arbitrary: a)
  case (Cons i "is")
  have inj: "inj_on f (set is)" "f i \<notin> f ` set is"
    using Cons.prems by auto
  have IH: "fold (\<lambda>i a. a[f i := g i]) is (a[f i := g i]) ! k =
      (if k \<in> f ` set is then g (the_inv_into (set is) f k) else a[f i := g i] ! k)"
    using Cons inj by simp
  have "the_inv_into (set is) f k = the_inv_into (set (i # is)) f k" if "k \<in> f ` set is"
  proof -
    obtain j where j: "j \<in> set is" "k = f j"
      using \<open>k \<in> f ` set is\<close> by blast
    then show ?thesis
      using inj(1) Cons.prems(2) by (simp add: the_inv_into_f_f)
  qed
  moreover have "the_inv_into (set (i # is)) f (f i) = i"
    using Cons.prems(2) by (intro the_inv_into_f_f) simp_all
  ultimately show ?case
    using IH inj Cons.prems(3) by auto
qed simp

lemma mirrored_samples_nth:
  assumes "even ks" and "k < ks"
  shows "mirrored_samples ks fft ! k = fft ! (if k < ks div 2 then ks div 2 - k else k - ks div 2)"
proof -
  let ?c = "ks div 2"
  let ?A = "fold (\<lambda>i a. a[?c + i := fft ! i]) [0..<?c] (replicate ks 0)"
  have A: "?A ! k = (if ?c \<le> k then fft ! (k - ?c) else 0)"
  proof -
    have mem: "k \<in> (\<lambda>i. ?c + i) ` set [0..<?c] \<longleftrightarrow> ?c \<le> k"
      using assms by (auto simp: image_iff intro!: bexI [of _ "k - ?c"])
    have inv: "the_inv_into (set [0..<?c]) (\<lambda>i. ?c + i) k = k - ?c" if "?c \<le> k"
      using that assms by (intro the_inv_into_f_eq) (auto simp: inj_on_def)
    show ?thesis
      using assms(2) by (subst fold_update_nth) (auto simp: inj_on_def mem inv simp del: set_upt)
  qed
  have mem: "k \<in> (\<lambda>i. ?c - i) ` set [1..<?c + 1] \<longleftrightarrow> k < ?c"
  proof
    assume "k < ?c"
    then show "k \<in> (\<lambda>i. ?c - i) ` set [1..<?c + 1]"
      by (intro image_eqI [of _ _ "?c - k"]) auto
  qed auto
  have inj: "inj_on (\<lambda>i. ?c - i) (set [1..<?c + 1])"
    by (auto simp: inj_on_def)
  have inv: "the_inv_into (set [1..<?c + 1]) (\<lambda>i. ?c - i) k = ?c - k" if "k < ?c"
    using that assms by (intro the_inv_into_f_eq inj) auto
  have len: "k < length ?A"
    using assms(2) by (simp add: length_fold_update)
  have "mirrored_samples ks fft ! k = (if k \<in> (\<lambda>i. ?c - i) ` set [1..<?c + 1]
      then fft ! the_inv_into (set [1..<?c + 1]) (\<lambda>i. ?c - i) k else ?A ! k)"
    unfolding mirrored_samples_def by (rule fold_update_nth [OF distinct_upt inj len])
  then have "mirrored_samples ks fft ! k = (if k < ?c then fft ! (?c - k) else ?A ! k)"
    unfolding mem using inv by (cases "k < ?c") (simp_all del: set_upt upt_Suc)
  then show ?thesis
    using A by simp
qed

end
