(* ===== verification/Gridder_Planes.thy ===== *)
theory Gridder_Planes
  imports Prelude
begin

text \<open>
  The planes of \<^verbatim>\<open>src/src/stp/gridder/gridder.cpp\<close>: \<^verbatim>\<open>average_w_planes\<close> divides the
  visibilities, sorted by the absolute value of w, into planes and averages each; \<^verbatim>\<open>average_lha_planes\<close> does
  so for the hour angle. Differences of \<^verbatim>\<open>arma::uword\<close> wrap around at 64 bits.
\<close>

section \<open>W-planes\<close>

definition uword_diff :: "nat \<Rightarrow> nat \<Rightarrow> nat" where
  "uword_diff a b = (if b \<le> a then a - b else a + 2 ^ 64 - b)"

text \<open>The number of visibilities that are gridded; the loop counts it.\<close>

definition num_gvis :: "nat \<Rightarrow> (nat \<Rightarrow> nat) \<Rightarrow> nat" where
  "num_gvis n gvis = fold (\<lambda>i c. if gvis i \<noteq> 0 then c + 1 else c) [0..<n] 0"

definition plane_size :: "nat \<Rightarrow> nat \<Rightarrow> nat \<Rightarrow> nat \<Rightarrow> nat" where
  "plane_size gtotal num_wplanes first idx = nat \<lceil>real (uword_diff gtotal first) / real (num_wplanes - idx)\<rceil>"

text \<open>
  The loop over the visibilities of a plane: it stops behind the last one that is counted. The accumulator is the sum of
  w, or the index in the middle.
\<close>

function plane_loop :: "(nat \<Rightarrow> nat) \<Rightarrow> (nat \<Rightarrow> nat \<Rightarrow> 'a \<Rightarrow> 'a) \<Rightarrow> nat \<Rightarrow> nat \<Rightarrow> nat \<Rightarrow> nat \<Rightarrow> 'a \<Rightarrow> nat \<times> nat \<times> 'a" where
  "plane_loop gvis f psize num_elems k counter acc =
     (if counter < psize \<and> k < num_elems then
        if gvis k \<noteq> 0 then plane_loop gvis f psize num_elems (k + 1) (counter + 1) (f k counter acc)
        else plane_loop gvis f psize num_elems (k + 1) counter acc
      else (k, counter, acc))"
  by pat_completeness auto

termination
  by (relation "measure (\<lambda>(gvis, f, psize, num_elems, k, counter, acc). num_elems - k)") auto

declare plane_loop.simps [simp del]

record w_planes =
  w_begin :: nat
  w_avg_values :: "nat \<Rightarrow> real"
  w_planes_firstidx :: "nat \<Rightarrow> nat"

definition mean_plane :: "nat \<Rightarrow> (nat \<Rightarrow> real) \<Rightarrow> (nat \<Rightarrow> nat) \<Rightarrow> nat \<Rightarrow> nat \<Rightarrow> w_planes \<Rightarrow> w_planes" where
  "mean_plane n w gvis num_wplanes idx st =
     (let psize = plane_size (num_gvis n gvis) num_wplanes (w_begin st) idx;
          (k, counter, gtotal) = plane_loop gvis (\<lambda>k counter acc. acc + w k) psize n (w_begin st) 0 0
      in \<lparr>w_begin = k,
          w_avg_values = (w_avg_values st)(idx := (if counter > 0 then gtotal / real counter else 0)),
          w_planes_firstidx = (w_planes_firstidx st)(idx := w_begin st)\<rparr>)"

text \<open>With the median; the index before the middle is taken as it is, whether it is counted or not.\<close>

definition median_plane :: "nat \<Rightarrow> (nat \<Rightarrow> real) \<Rightarrow> (nat \<Rightarrow> nat) \<Rightarrow> nat \<Rightarrow> nat \<Rightarrow> w_planes \<Rightarrow> w_planes" where
  "median_plane n w gvis num_wplanes idx st =
     (let gtotal = num_gvis n gvis;
          psize = plane_size gtotal num_wplanes (w_begin st) idx;
          middle = (if (w_begin st + psize) mod 2 ^ 64 > gtotal then uword_diff gtotal (w_begin st) div 2 else psize div 2);
          (k, counter, idx_mid) = plane_loop gvis (\<lambda>k counter acc. if counter = middle then k else acc) psize n (w_begin st) 0 0;
          avg = (if counter > 0 then
                   if psize mod 2 = 0 then (w (uword_diff idx_mid 1) + w idx_mid) / 2 else w idx_mid
                 else 0)
      in \<lparr>w_begin = k, w_avg_values = (w_avg_values st)(idx := avg),
          w_planes_firstidx = (w_planes_firstidx st)(idx := w_begin st)\<rparr>)"

definition average_w_planes ::
  "nat \<Rightarrow> (nat \<Rightarrow> real) \<Rightarrow> (nat \<Rightarrow> nat) \<Rightarrow> nat \<Rightarrow> bool \<Rightarrow> w_planes"
where
  "average_w_planes n w gvis num_wplanes use_median =
     fold (if use_median then median_plane n w gvis num_wplanes else mean_plane n w gvis num_wplanes)
       [0..<num_wplanes] \<lparr>w_begin = 0, w_avg_values = (\<lambda>i. 0), w_planes_firstidx = (\<lambda>i. 0)\<rparr>"

text \<open>The visibilities of a plane, as the gridder takes them: the last plane has all that are left.\<close>

definition plane_vis :: "nat \<Rightarrow> nat \<Rightarrow> w_planes \<Rightarrow> nat \<Rightarrow> nat list" where
  "plane_vis n num_wplanes st pl =
     [w_planes_firstidx st pl..<(if pl = num_wplanes - 1 then n else w_planes_firstidx st (pl + 1))]"

section \<open>The planes partition the visibilities\<close>

lemma plane_loop_bounds:
  "plane_loop gvis f psize n k counter acc = (k', counter', acc') \<Longrightarrow> k \<le> n \<Longrightarrow> k \<le> k' \<and> k' \<le> n \<and> counter \<le> counter'"
proof (induction gvis f psize n k counter acc rule: plane_loop.induct)
  case (1 gvis f psize n k counter acc)
  show ?case
  proof (cases "counter < psize \<and> k < n")
    case True
    then show ?thesis
      using 1 by (cases "gvis k \<noteq> 0") (fastforce simp: plane_loop.simps [of gvis f psize n k])+
  next
    case False
    with 1 show ?thesis
      by (simp add: plane_loop.simps [of gvis f psize n k])
  qed
qed

text \<open>What the loop sums up.\<close>

lemma plane_loop_sum:
  "plane_loop gvis (\<lambda>k counter acc. acc + w k) psize n k counter acc = (k', counter', acc') \<Longrightarrow> k \<le> n \<Longrightarrow>
    counter' = counter + card {i \<in> {k..<k'}. gvis i \<noteq> 0} \<and>
    acc' = (acc :: real) + (\<Sum>i \<in> {i \<in> {k..<k'}. gvis i \<noteq> 0}. w i)"
proof (induction gvis "\<lambda>k (counter :: nat) acc. acc + w k" psize n k counter acc rule: plane_loop.induct)
  case (1 gvis psize n k counter acc)
  note simps = plane_loop.simps [of gvis "\<lambda>k (counter :: nat) acc. acc + w k" psize n k counter acc]
  show ?case
  proof (cases "counter < psize \<and> k < n")
    case True
    have split: "{i \<in> {k..<k'}. gvis i \<noteq> 0} =
        (if gvis k \<noteq> 0 then insert k {i \<in> {k + 1..<k'}. gvis i \<noteq> 0} else {i \<in> {k + 1..<k'}. gvis i \<noteq> 0})"
      if "k + 1 \<le> k'"
      using that by (auto simp: Suc_le_eq le_less)
    show ?thesis
    proof (cases "gvis k \<noteq> 0")
      case good: True
      have run: "plane_loop gvis (\<lambda>k counter acc. acc + w k) psize n (k + 1) (counter + 1) (acc + w k) = (k', counter', acc')"
        using "1.prems"(1) True good unfolding simps by simp
      have "k + 1 \<le> k'"
        using plane_loop_bounds [OF run] True by simp
      then show ?thesis
        using "1.hyps"(1) [OF True good run] True good unfolding split [OF \<open>k + 1 \<le> k'\<close>] by (simp add: card_insert_if)
    next
      case bad: False
      have run: "plane_loop gvis (\<lambda>k counter acc. acc + w k) psize n (k + 1) counter acc = (k', counter', acc')"
        using "1.prems"(1) True bad unfolding simps by simp
      have "k + 1 \<le> k'"
        using plane_loop_bounds [OF run] True by simp
      then show ?thesis
        using "1.hyps"(2) [OF True bad run] True bad unfolding split [OF \<open>k + 1 \<le> k'\<close>] by simp
    qed
  next
    case False
    then have "k' = k" "counter' = counter" "acc' = acc"
      using "1.prems"(1) unfolding simps by auto
    then show ?thesis
      by simp
  qed
qed

text \<open>The mean of the counted visibilities of an interval.\<close>

definition counted :: "(nat \<Rightarrow> nat) \<Rightarrow> nat \<Rightarrow> nat \<Rightarrow> nat set" where
  "counted gvis lo hi = {i \<in> {lo..<hi}. gvis i \<noteq> 0}"

definition counted_mean :: "(nat \<Rightarrow> real) \<Rightarrow> (nat \<Rightarrow> nat) \<Rightarrow> nat \<Rightarrow> nat \<Rightarrow> real" where
  "counted_mean w gvis lo hi = sum w (counted gvis lo hi) / real (card (counted gvis lo hi))"

text \<open>Where the planes begin, after the first \<open>m\<close> planes; the last bound is the end of the last plane.\<close>

definition bound :: "nat \<Rightarrow> w_planes \<Rightarrow> nat \<Rightarrow> nat" where
  "bound m st i = (if i < m then w_planes_firstidx st i else w_begin st)"

definition planes_inv :: "nat \<Rightarrow> (nat \<Rightarrow> nat) \<Rightarrow> nat \<Rightarrow> w_planes \<Rightarrow> bool" where
  "planes_inv n gvis m st \<longleftrightarrow> bound m st 0 = 0 \<and> (\<forall>i < m. bound m st i \<le> bound m st (Suc i)) \<and> w_begin st \<le> n"

definition means_inv :: "(nat \<Rightarrow> real) \<Rightarrow> (nat \<Rightarrow> nat) \<Rightarrow> nat \<Rightarrow> w_planes \<Rightarrow> bool" where
  "means_inv w gvis m st \<longleftrightarrow>
     (\<forall>i < m. w_avg_values st i = counted_mean w gvis (bound m st i) (bound m st (Suc i)))"

definition next_planes :: "nat \<Rightarrow> nat \<Rightarrow> real \<Rightarrow> w_planes \<Rightarrow> w_planes" where
  "next_planes m k avg st = \<lparr>w_begin = k, w_avg_values = (w_avg_values st)(m := avg),
     w_planes_firstidx = (w_planes_firstidx st)(m := w_begin st)\<rparr>"

lemma bound_next:
  "bound (Suc m) (next_planes m k avg st) i = (if i \<le> m then bound m st i else k)"
  by (auto simp: bound_def next_planes_def)

lemma planes_inv_next:
  assumes "planes_inv n gvis m st" and "w_begin st \<le> k" and "k \<le> n"
  shows "planes_inv n gvis (Suc m) (next_planes m k avg st)"
proof -
  have "bound m st m = w_begin st"
    by (simp add: bound_def)
  with assms show ?thesis
    unfolding planes_inv_def bound_next by (auto simp: less_Suc_eq next_planes_def)
qed

lemma means_inv_next:
  assumes "means_inv w gvis m st" and "avg = counted_mean w gvis (w_begin st) k"
  shows "means_inv w gvis (Suc m) (next_planes m k avg st)"
proof -
  have "bound m st m = w_begin st"
    by (simp add: bound_def)
  moreover have "w_avg_values (next_planes m k avg st) i = (if i = m then avg else w_avg_values st i)" for i
    by (simp add: next_planes_def)
  ultimately show ?thesis
    using assms unfolding means_inv_def bound_next by (auto simp: less_Suc_eq)
qed

lemma mean_plane_next:
  assumes "w_begin st \<le> n"
  obtains k where "w_begin st \<le> k" "k \<le> n"
    "mean_plane n w gvis num_wplanes m st = next_planes m k (counted_mean w gvis (w_begin st) k) st"
proof -
  define psize where "psize = plane_size (num_gvis n gvis) num_wplanes (w_begin st) m"
  obtain k counter gtotal where run:
    "plane_loop gvis (\<lambda>k counter acc. acc + w k) psize n (w_begin st) 0 0 = (k, counter, gtotal)"
    by (rule prod_cases3)
  have vals: "counter = card (counted gvis (w_begin st) k)" "gtotal = sum w (counted gvis (w_begin st) k)"
    using plane_loop_sum [OF run assms] by (simp_all add: counted_def)
  have "mean_plane n w gvis num_wplanes m st =
      next_planes m k (if counter > 0 then gtotal / real counter else 0) st"
    unfolding mean_plane_def psize_def [symmetric] Let_def run by (simp add: next_planes_def)
  also have "(if counter > 0 then gtotal / real counter else 0) = counted_mean w gvis (w_begin st) k"
    by (simp add: vals counted_mean_def)
  finally show ?thesis
    using plane_loop_bounds [OF run assms] that by blast
qed

lemma median_plane_next:
  assumes "w_begin st \<le> n"
  obtains k avg where "w_begin st \<le> k" "k \<le> n" "median_plane n w gvis num_wplanes m st = next_planes m k avg st"
proof -
  define psize where "psize = plane_size (num_gvis n gvis) num_wplanes (w_begin st) m"
  define middle where "middle = (if (w_begin st + psize) mod 2 ^ 64 > num_gvis n gvis
    then uword_diff (num_gvis n gvis) (w_begin st) div 2 else psize div 2)"
  obtain k counter idx_mid where run:
    "plane_loop gvis (\<lambda>k counter acc. if counter = middle then k else acc) psize n (w_begin st) 0 0 = (k, counter, idx_mid)"
    by (rule prod_cases3)
  have "median_plane n w gvis num_wplanes m st = next_planes m k
     (if counter > 0 then if psize mod 2 = 0 then (w (uword_diff idx_mid 1) + w idx_mid) / 2 else w idx_mid else 0) st"
    unfolding median_plane_def Let_def psize_def [symmetric] middle_def [symmetric] run by (simp add: next_planes_def)
  then show ?thesis
    using plane_loop_bounds [OF run assms] that by blast
qed

lemma average_w_planes_inv:
  "planes_inv n gvis num_wplanes (average_w_planes n w gvis num_wplanes use_median) \<and>
    (\<not> use_median \<longrightarrow> means_inv w gvis num_wplanes (average_w_planes n w gvis num_wplanes use_median))"
proof -
  define P where "P m st \<longleftrightarrow> planes_inv n gvis m st \<and> (\<not> use_median \<longrightarrow> means_inv w gvis m st)" for m st
  define st0 where "st0 = \<lparr>w_begin = 0, w_avg_values = (\<lambda>i. 0), w_planes_firstidx = (\<lambda>i. 0)\<rparr>"
  define f where "f = (if use_median then median_plane n w gvis num_wplanes else mean_plane n w gvis num_wplanes)"
  have "P num_wplanes (fold f [0..<num_wplanes] st0)"
  proof (rule fold_upt_invariant [where P = P])
    show "P 0 st0"
      by (simp add: P_def planes_inv_def means_inv_def bound_def st0_def)
    fix m st
    assume P: "P m st"
    then have inv: "planes_inv n gvis m st" and le: "w_begin st \<le> n"
      by (simp_all add: P_def planes_inv_def)
    show "P (Suc m) (f m st)"
    proof (cases use_median)
      case True
      then show ?thesis
        using planes_inv_next [OF inv] median_plane_next [OF le, of w gvis num_wplanes m]
        unfolding P_def f_def by (metis (full_types))
    next
      case False
      obtain k where k: "w_begin st \<le> k" "k \<le> n"
        "mean_plane n w gvis num_wplanes m st = next_planes m k (counted_mean w gvis (w_begin st) k) st"
        by (rule mean_plane_next [OF le])
      have "means_inv w gvis m st"
        using P False by (simp add: P_def)
      then show ?thesis
        using planes_inv_next [OF inv k(1,2)] means_inv_next False k(3) by (simp add: P_def f_def)
    qed
  qed simp
  then show ?thesis
    unfolding P_def f_def st0_def average_w_planes_def .
qed

text \<open>Intervals that follow each other cover what is between the first and the last bound.\<close>

lemma concat_intervals:
  assumes "\<And>i. i < m \<Longrightarrow> b i \<le> b (Suc i)"
  shows "b 0 \<le> b m" and "concat (map (\<lambda>i. [b i..<b (Suc i)]) [0..<m]) = [b 0..<b m]"
proof -
  have "b 0 \<le> b m \<and> concat (map (\<lambda>i. [b i..<b (Suc i)]) [0..<m]) = [b 0..<b m]"
    using assms
  proof (induction m)
    case 0
    show ?case by simp
  next
    case (Suc m)
    then have le: "b 0 \<le> b m" "b m \<le> b (Suc m)"
      and eq: "concat (map (\<lambda>i. [b i..<b (Suc i)]) [0..<m]) = [b 0..<b m]"
      by simp_all
    have "[b 0..<b m] @ [b m..<b (Suc m)] = [b 0..<b (Suc m)]"
      using upt_add_eq_append [OF le(1), of "b (Suc m) - b m"] le(2) by simp
    with le eq show ?case
      by simp
  qed
  then show "b 0 \<le> b m" and "concat (map (\<lambda>i. [b i..<b (Suc i)]) [0..<m]) = [b 0..<b m]"
    by simp_all
qed

lemma plane_vis_partition:
  assumes "planes_inv n gvis m st" and "0 < m"
  shows "concat (map (plane_vis n m st) [0..<m]) = [0..<n]"
proof -
  define b where "b i = (if i < m then w_planes_firstidx st i else n)" for i
  have "b i \<le> b (Suc i)" if "i < m" for i
  proof -
    have "bound m st i \<le> bound m st (Suc i)" "w_begin st \<le> n"
      using assms(1) that by (simp_all add: planes_inv_def)
    then show ?thesis
      using that by (auto simp: b_def bound_def split: if_splits)
  qed
  note intervals = concat_intervals [of m b, OF this]
  have "map (plane_vis n m st) [0..<m] = map (\<lambda>i. [b i..<b (Suc i)]) [0..<m]"
    using assms(2) by (intro map_cong refl) (auto simp: plane_vis_def b_def)
  moreover have "b 0 = 0" "b m = n"
    using assms by (simp_all add: b_def planes_inv_def bound_def)
  ultimately show ?thesis
    using intervals(2) by metis
qed



section \<open>Balanced planes\<close>

lemma num_gvis_card: "num_gvis n gvis = card (counted gvis 0 n)"
proof -
  have "num_gvis (Suc n) gvis = (if gvis n \<noteq> 0 then num_gvis n gvis + 1 else num_gvis n gvis)" for n
    by (simp add: num_gvis_def)
  moreover have "counted gvis 0 (Suc n) = (if gvis n \<noteq> 0 then insert n (counted gvis 0 n) else counted gvis 0 n)" for n
    by (auto simp: counted_def less_Suc_eq)
  moreover have "finite (counted gvis 0 n)" "n \<notin> counted gvis 0 n" for n
    by (simp_all add: counted_def)
  ultimately show ?thesis
    by (induction n) (simp_all add: num_gvis_def counted_def)
qed

lemma counted_all: "\<forall>i < n. gvis i \<noteq> 0 \<Longrightarrow> hi \<le> n \<Longrightarrow> counted gvis lo hi = {lo..<hi}"
  by (auto simp: counted_def)

lemma plane_loop_all:
  "plane_loop gvis f psize n k counter acc = (k', counter', acc') \<Longrightarrow> k \<le> n \<Longrightarrow> counter \<le> psize \<Longrightarrow>
    \<forall>i < n. gvis i \<noteq> 0 \<Longrightarrow> k' = min n (k + (psize - counter)) \<and> counter' + k = counter + k'"
proof (induction gvis f psize n k counter acc rule: plane_loop.induct)
  case (1 gvis f psize n k counter acc)
  note simps = plane_loop.simps [of gvis f psize n k counter acc]
  show ?case
  proof (cases "counter < psize \<and> k < n")
    case True
    then have "gvis k \<noteq> 0"
      using "1.prems"(4) by simp
    moreover from this have "plane_loop gvis f psize n (k + 1) (counter + 1) (f k counter acc) = (k', counter', acc')"
      using "1.prems"(1) True unfolding simps by simp
    ultimately show ?thesis
      using "1.IH"(1) [OF True] "1.prems" True by auto
  next
    case False
    then have "k' = k" "counter' = counter"
      using "1.prems"(1) unfolding simps by auto
    with False "1.prems" show ?thesis
      by auto
  qed
qed

lemma plane_loop_middle:
  "plane_loop gvis (\<lambda>k counter acc. if counter = middle then k else acc) psize n k counter acc = (k', counter', acc') \<Longrightarrow>
    k \<le> n \<Longrightarrow> \<forall>i < n. gvis i \<noteq> 0 \<Longrightarrow>
    acc' = (if counter \<le> middle \<and> middle < counter' then k + (middle - counter) else acc)"
proof (induction gvis "\<lambda>k (counter :: nat) (acc :: nat). if counter = middle then k else acc" psize n k counter acc rule: plane_loop.induct)
  case (1 gvis psize n k counter acc)
  let ?f = "\<lambda>k (counter :: nat) (acc :: nat). if counter = middle then k else acc"
  note simps = plane_loop.simps [of gvis ?f psize n k counter acc]
  show ?case
  proof (cases "counter < psize \<and> k < n")
    case True
    then have good: "gvis k \<noteq> 0"
      using "1.prems"(3) by simp
    have run: "plane_loop gvis ?f psize n (k + 1) (counter + 1) (?f k counter acc) = (k', counter', acc')"
      using "1.prems"(1) True good unfolding simps by simp
    then have "counter + 1 \<le> counter'"
      using plane_loop_bounds [OF run] True by simp
    then show ?thesis
      using "1.hyps"(1) [OF True good run] "1.prems"(3) True by (auto simp: Suc_diff_le)
  next
    case False
    then have "counter' = counter" "acc' = acc"
      using "1.prems"(1) unfolding simps by auto
    then show ?thesis
      by auto
  qed
qed

text \<open>The size of the next plane, when all visibilities are gridded.\<close>

lemma plane_size_bounds:
  assumes "first \<le> n" and "0 < q" and "q = num_wplanes - idx"
    and "lo * q \<le> n - first" and "n - first \<le> hi * q" and "hi \<le> lo + 1"
  shows "lo \<le> plane_size n num_wplanes first idx" and "plane_size n num_wplanes first idx \<le> hi"
    and "first + plane_size n num_wplanes first idx \<le> n"
    and "lo * (q - 1) \<le> n - (first + plane_size n num_wplanes first idx)"
    and "n - (first + plane_size n num_wplanes first idx) \<le> hi * (q - 1)"
proof -
  define r where "r = n - first"
  define s where "s = plane_size n num_wplanes first idx"
  have s: "s = nat \<lceil>real r / real q\<rceil>"
    using assms(1,3) by (simp add: s_def plane_size_def uword_diff_def r_def)
  have up: "r \<le> s * q"
  proof -
    have "real r / real q \<le> real s"
      unfolding s by (simp add: real_nat_ceiling_ge)
    then have "real r \<le> real (s * q)"
      using assms(2) by (simp add: divide_le_eq)
    then show ?thesis
      by linarith
  qed
  have least: "s \<le> t" if "r \<le> t * q" for t
  proof -
    have "real r \<le> real (t * q)"
      using that by linarith
    then have "real r / real q \<le> real t"
      using assms(2) by (simp add: divide_le_eq)
    then show ?thesis
      unfolding s by (simp add: ceiling_le_iff nat_le_iff)
  qed
  have hi: "s \<le> hi"
    by (rule least) (use assms(5) in \<open>simp add: r_def\<close>)
  have "lo * q \<le> s * q"
    using up assms(4) unfolding r_def by (rule order_trans [rotated])
  then have lo: "lo \<le> s"
    using assms(2) by (metis mult_le_cancel2)
  obtain p where q: "q = Suc p"
    using assms(2) by (cases q) auto
  have "s \<le> r"
    by (rule least) (simp add: q)
  moreover have "lo * p \<le> r - s"
  proof (cases "s = lo")
    case True
    then show ?thesis
      using assms(4) by (simp add: r_def q)
  next
    case False
    then have "s = lo + 1"
      using lo hi assms(6) by simp
    then have "\<not> r \<le> lo * q"
      using least [of lo] by auto
    then show ?thesis
      using \<open>s = lo + 1\<close> by (simp add: q)
  qed
  moreover have "r - s \<le> hi * p"
  proof -
    have "s * p \<le> hi * p"
      using hi by (rule mult_le_mono1)
    moreover have "r \<le> s + s * p"
      using up by (simp add: q)
    ultimately show ?thesis
      by linarith
  qed
  ultimately show "lo \<le> plane_size n num_wplanes first idx" "plane_size n num_wplanes first idx \<le> hi"
    "first + plane_size n num_wplanes first idx \<le> n"
    "lo * (q - 1) \<le> n - (first + plane_size n num_wplanes first idx)"
    "n - (first + plane_size n num_wplanes first idx) \<le> hi * (q - 1)"
    using lo hi assms(1) unfolding s_def [symmetric] r_def q by auto
qed

text \<open>What a plane is represented by, and the planes when all visibilities are gridded.\<close>

definition plane_average :: "bool \<Rightarrow> (nat \<Rightarrow> real) \<Rightarrow> nat \<Rightarrow> nat \<Rightarrow> real" where
  "plane_average use_median w lo hi =
     (let len = hi - lo; mid = lo + len div 2
      in if len = 0 then 0
         else if use_median then (if even len then (w (mid - 1) + w mid) / 2 else w mid)
         else (\<Sum>i \<in> {lo..<hi}. w i) / real len)"

definition balanced_inv :: "nat \<Rightarrow> (nat \<Rightarrow> real) \<Rightarrow> nat \<Rightarrow> bool \<Rightarrow> nat \<Rightarrow> nat \<Rightarrow> nat \<Rightarrow> w_planes \<Rightarrow> bool" where
  "balanced_inv n w num_wplanes use_median lo hi m st \<longleftrightarrow>
     w_begin st \<le> n \<and> lo * (num_wplanes - m) \<le> n - w_begin st \<and> n - w_begin st \<le> hi * (num_wplanes - m) \<and>
     (\<forall>i < m. bound m st (Suc i) - bound m st i \<in> {lo..hi} \<and>
        w_avg_values st i = plane_average use_median w (bound m st i) (bound m st (Suc i)))"

lemma plane_next_all:
  assumes "w_begin st \<le> n" and "\<forall>i < n. gvis i \<noteq> 0" and "w_begin st + psize \<le> n"
    and psize: "psize = plane_size n num_wplanes (w_begin st) m"
  shows "(if use_median then median_plane n w gvis num_wplanes else mean_plane n w gvis num_wplanes) m st =
    next_planes m (w_begin st + psize) (plane_average use_median w (w_begin st) (w_begin st + psize)) st"
proof -
  have total: "num_gvis n gvis = n"
    unfolding num_gvis_card counted_all [OF assms(2) order_refl] by simp
  show ?thesis
  proof (cases use_median)
    case True
    have "(w_begin st + psize) mod 2 ^ 64 \<le> n"
      using assms(3) mod_less_eq_dividend order_trans by blast
    then have middle: "(if (w_begin st + psize) mod 2 ^ 64 > n then uword_diff n (w_begin st) div 2 else psize div 2) = psize div 2"
      by simp
    obtain k counter idx_mid where run:
      "plane_loop gvis (\<lambda>k counter acc. if counter = psize div 2 then k else acc) psize n (w_begin st) 0 0 = (k, counter, idx_mid)"
      by (rule prod_cases3)
    have k: "k = w_begin st + psize" "counter = psize"
      using plane_loop_all [OF run assms(1) _ assms(2)] assms(3) by auto
    have mid: "0 < psize \<Longrightarrow> idx_mid = w_begin st + psize div 2"
      using plane_loop_middle [OF run assms(1,2)] k by simp
    have "even psize \<Longrightarrow> 0 < psize \<Longrightarrow> uword_diff (w_begin st + psize div 2) 1 = w_begin st + psize div 2 - 1"
      by (auto simp: uword_diff_def elim!: evenE)
    then have "median_plane n w gvis num_wplanes m st =
        next_planes m (w_begin st + psize) (plane_average True w (w_begin st) (w_begin st + psize)) st"
      using k mid unfolding median_plane_def Let_def total unfolding psize [symmetric] unfolding middle run prod.case
      by (cases "psize = 0"; cases "even psize")
        (simp_all add: next_planes_def plane_average_def Let_def even_iff_mod_2_eq_zero)
    then show ?thesis
      using True by simp
  next
    case False
    obtain k counter gtotal where run:
      "plane_loop gvis (\<lambda>k counter acc. acc + w k) psize n (w_begin st) 0 0 = (k, counter, gtotal)"
      by (rule prod_cases3)
    have k: "k = w_begin st + psize" "counter = psize"
      using plane_loop_all [OF run assms(1) _ assms(2)] assms(3) by auto
    have "gtotal = sum w (counted gvis (w_begin st) k)"
      using plane_loop_sum [OF run assms(1)] by (simp add: counted_def)
    then have "gtotal = (\<Sum>i \<in> {w_begin st..<k}. w i)"
      using counted_all [OF assms(2)] assms(3) k by simp
    then have "mean_plane n w gvis num_wplanes m st =
        next_planes m (w_begin st + psize) (plane_average False w (w_begin st) (w_begin st + psize)) st"
      using k unfolding mean_plane_def Let_def total unfolding psize [symmetric] run prod.case
      by (auto simp: next_planes_def plane_average_def Let_def)
    then show ?thesis
      using False by simp
  qed
qed

lemma balanced_inv_next:
  assumes inv: "balanced_inv n w num_wplanes use_median lo hi m st" and m: "m < num_wplanes" and hi: "hi \<le> lo + 1"
    and psize: "psize = plane_size n num_wplanes (w_begin st) m"
  shows "w_begin st + psize \<le> n"
    and "balanced_inv n w num_wplanes use_median lo hi (Suc m)
      (next_planes m (w_begin st + psize) (plane_average use_median w (w_begin st) (w_begin st + psize)) st)"
proof -
  have start: "w_begin st \<le> n" "lo * (num_wplanes - m) \<le> n - w_begin st" "n - w_begin st \<le> hi * (num_wplanes - m)"
    and planes: "\<And>i. i < m \<Longrightarrow> bound m st (Suc i) - bound m st i \<in> {lo..hi}"
      "\<And>i. i < m \<Longrightarrow> w_avg_values st i = plane_average use_median w (bound m st i) (bound m st (Suc i))"
    using inv by (simp_all add: balanced_inv_def)
  have q: "0 < num_wplanes - m"
    using m by simp
  note size = plane_size_bounds [OF start(1) q refl start(2,3) hi, folded psize]
  show "w_begin st + psize \<le> n"
    by (rule size(3))
  have last: "bound m st m = w_begin st"
    by (simp add: bound_def)
  have val: "w_avg_values (next_planes m k avg st) i = (if i = m then avg else w_avg_values st i)"
    "w_begin (next_planes m k avg st) = k" for k avg i
    by (simp_all add: next_planes_def)
  show "balanced_inv n w num_wplanes use_median lo hi (Suc m)
      (next_planes m (w_begin st + psize) (plane_average use_median w (w_begin st) (w_begin st + psize)) st)"
    unfolding balanced_inv_def bound_next val
    using size planes last by (auto simp: less_Suc_eq)
qed

lemma balanced_planes:
  assumes "0 < num_wplanes" and good: "\<forall>i < n. gvis i \<noteq> 0"
  shows "balanced_inv n w num_wplanes use_median (n div num_wplanes) ((n + num_wplanes - 1) div num_wplanes) num_wplanes
    (average_w_planes n w gvis num_wplanes use_median)"
proof -
  define lo where "lo = n div num_wplanes"
  define hi where "hi = (n + num_wplanes - 1) div num_wplanes"
  define P where "P = balanced_inv n w num_wplanes use_median lo hi"
  define st0 where "st0 = \<lparr>w_begin = 0, w_avg_values = (\<lambda>i. 0), w_planes_firstidx = (\<lambda>i. 0)\<rparr>"
  define f where "f = (if use_median then median_plane n w gvis num_wplanes else mean_plane n w gvis num_wplanes)"
  have ends: "lo * num_wplanes \<le> n" "n \<le> hi * num_wplanes" "hi \<le> lo + 1"
  proof -
    show "lo * num_wplanes \<le> n"
      by (simp add: lo_def)
    have "n + num_wplanes - 1 < (hi + 1) * num_wplanes"
      using assms(1) dividend_less_div_times [of num_wplanes "n + num_wplanes - 1"] by (simp add: hi_def)
    then show "n \<le> hi * num_wplanes"
      by (simp add: algebra_simps)
    have "hi \<le> (n + num_wplanes) div num_wplanes"
      unfolding hi_def by (intro div_le_mono) simp
    then show "hi \<le> lo + 1"
      using assms(1) by (simp add: lo_def)
  qed
  have "P num_wplanes (fold f [0..<num_wplanes] st0)"
  proof (rule fold_upt_invariant [where P = P])
    show "P 0 st0"
      using ends by (simp add: P_def balanced_inv_def st0_def)
    fix m st
    assume m: "m < num_wplanes" and "P m st"
    then have inv: "balanced_inv n w num_wplanes use_median lo hi m st"
      by (simp add: P_def)
    note step = balanced_inv_next [OF inv m ends(3) refl]
    have "w_begin st \<le> n"
      using inv by (simp add: balanced_inv_def)
    show "P (Suc m) (f m st)"
      unfolding f_def plane_next_all [OF \<open>w_begin st \<le> n\<close> good step(1) refl] P_def by (rule step(2))
  qed simp
  then show ?thesis
    unfolding P_def f_def st0_def lo_def hi_def average_w_planes_def .
qed



text \<open>
  With visibilities that are not gridded the planes are not balanced: the bounds are positions among all visibilities,
  but they are subtracted from the number of gridded ones. Here six visibilities on three planes are split two, one
  and three, and two of the last three are not in its mean.
\<close>

lemma w_planes_unbalanced:
  "(let n = 8; gvis = (\<lambda>i. if i < 2 then 0 else 1); st = average_w_planes n (\<lambda>i. real i) gvis 3 False
    in map (w_planes_firstidx st) [0..<3] = [0, 4, 5] \<and> w_begin st = 6 \<and> map (w_avg_values st) [0..<3] = [5 / 2, 4, 5])"
proof -
  have size: "plane_size 6 3 0 0 = 2" "plane_size 6 3 (Suc (Suc (Suc (Suc 0)))) (Suc 0) = 1"
    "plane_size 6 3 (Suc (Suc (Suc (Suc (Suc 0))))) (Suc (Suc 0)) = 1"
    by (simp_all add: plane_size_def uword_diff_def)
  have total: "num_gvis 8 (\<lambda>i. if i < 2 then 0 else 1) = 6"
    by (simp add: num_gvis_def upt_rec)
  show ?thesis
    by (simp add: average_w_planes_def upt_rec mean_plane_def total size plane_loop.simps Let_def)
qed

end
