(* ===== verification/Wide_Field.thy ===== *)
theory Wide_Field
  imports Spline Img_Dom_Kernel Gridder_Planes
begin

text \<open>
  The class WideFieldImaging of \<^verbatim>\<open>src/src/stp/gridder/aw_projection.h\<close> and \<^verbatim>\<open>aw_projection.cpp\<close>:
  the convolution kernels of W-projection. \<^verbatim>\<open>uint\<close> sizes are natural numbers; positions that the code computes in
  \<^verbatim>\<open>size_t\<close> wrap around at 64 bits.
\<close>

section \<open>The object\<close>

record wide_field =
  array_size :: nat
  wf_kernel_size :: nat
  wf_cell_size :: real
  wf_oversampling :: nat
  wf_scaling_factor :: real
  wf_pars :: w_projection_pars
  wf_r_fft :: fft_routine
  max_hankel_kernel_size :: nat
  current_hankel_kernel_size :: nat
  truncated_wpconv_support :: nat
  w_value :: real
  comb_kernel :: "complex mat"
  conv_kernel :: "complex mat"
  kernel_half_quandrant :: "complex list"
  DHT :: "nat \<Rightarrow> nat \<Rightarrow> real"
  hankel_radius_points :: "real list"

text \<open>
  What a run depends on besides its arguments: the subranges of the two parallel loops over half of the kernel, and what the
  memory of the splines holds before.
\<close>

record wide_env =
  wide_fftw :: fftw
  line_ranges :: "range list"
  square_ranges :: "range list"
  spline_mem :: "nat \<Rightarrow> nat \<Rightarrow> real"

section \<open>The Hankel transform\<close>

definition generate_hankel_radius_points :: "nat \<Rightarrow> real list" where
  "generate_hankel_radius_points arrsize = map real [0..<arrsize]"

definition besselj1 :: "real \<Rightarrow> real" where
  "besselj1 x =
     (if x < 8 then
        let xx = x * x;
            tmp1 = x * (72362614232 + xx * (-7895059235 + xx * (242396853.1 + xx * (-2972611.439 + xx * (15704.48260 + xx * (-30.16036606))))));
            tmp2 = 144725228442 + xx * (2300535178 + xx * (18583304.74 + xx * (99447.43394 + xx * (376.9991397 + xx))))
        in tmp1 / tmp2
      else
        let z = 8 / x;
            xx = z * z;
            y = x - 2.356194491;
            tmp1 = 1 + xx * (0.00183105 + xx * (-0.00003516396496 + xx * (0.000002457520174 + xx * (-0.000000240337019))));
            tmp2 = 0.04687499995 + xx * (-0.0002002690873 + xx * (0.000008449199096 + xx * (-0.00000088228987 + xx * 0.000000105787412)))
        in sqrt (0.636619772 / x) * (cos y * tmp1 - z * sin y * tmp2))"

text \<open>Wave numbers and radii. The last radius is half a pixel shorter.\<close>

definition dht_k :: "nat \<Rightarrow> nat \<Rightarrow> real" where
  "dht_k arrsize i = (if i = 0 then 0 else pi / real arrsize * real i)"

definition dht_kn :: "nat \<Rightarrow> nat \<Rightarrow> real" where
  "dht_kn arrsize i = (if i = 0 then 0 else 2 * pi / dht_k arrsize i)"

definition dht_rn :: "nat \<Rightarrow> nat \<Rightarrow> real" where
  "dht_rn arrsize i = (if i = arrsize - 1 then real (arrsize - 1) else if i = 0 then 1 / 2 else real i + 1 / 2)"

text \<open>The first column, and the other ones from the last row up; \<open>D j i\<close> is \<^verbatim>\<open>DHT.at(j, i)\<close>.\<close>

definition dht_first_column :: "nat \<Rightarrow> (nat \<Rightarrow> nat \<Rightarrow> real) \<Rightarrow> nat \<Rightarrow> nat \<Rightarrow> real" where
  "dht_first_column arrsize D =
     (let rn = dht_rn arrsize;
          D = upd2 D 0 0 (pi * rn 0 * rn 0)
      in fst (fold (\<lambda>j (D, prev_value). let cur_value = pi * rn j * rn j in (upd2 D j 0 (cur_value - prev_value), cur_value))
           [1..<arrsize] (D, D 0 0)))"

definition dht_column :: "nat \<Rightarrow> nat \<Rightarrow> (nat \<Rightarrow> nat \<Rightarrow> real) \<Rightarrow> nat \<Rightarrow> nat \<Rightarrow> real" where
  "dht_column arrsize i D =
     (let rn = dht_rn arrsize; kn_i = dht_kn arrsize i; k_i = dht_k arrsize i;
          D = upd2 D (arrsize - 1) i (kn_i * rn (arrsize - 1) * besselj1 (k_i * rn (arrsize - 1)))
      in fold (\<lambda>j D. let D = upd2 D (j - 1) i (kn_i * rn (j - 1) * besselj1 (k_i * rn (j - 1)))
                     in upd2 D j i (D j i - D (j - 1) i))
           (rev [1..<arrsize]) D)"

definition dht :: "range list \<Rightarrow> (nat \<Rightarrow> nat \<Rightarrow> real) \<Rightarrow> nat \<Rightarrow> nat \<Rightarrow> nat \<Rightarrow> real" where
  "dht rs uninit arrsize = parallel_for (dht_column arrsize) rs (dht_first_column arrsize uninit)"

section \<open>Construction\<close>

definition empty_cx_mat :: "complex mat" where
  "empty_cx_mat = \<lparr>n_rows = 0, n_cols = 0, elt = (\<lambda>i j. 0)\<rparr>"

text \<open>A reset frees the memory of a matrix; its dimensions stay, and its elements are not read any more.\<close>

definition reset_cx_mat :: "complex mat \<Rightarrow> complex mat" where
  "reset_cx_mat M = M\<lparr>elt := (\<lambda>i j. 0)\<rparr>"

definition WideFieldImaging ::
  "range list \<Rightarrow> (nat \<Rightarrow> nat \<Rightarrow> real) \<Rightarrow> nat \<Rightarrow> real \<Rightarrow> nat \<Rightarrow> real \<Rightarrow> w_projection_pars \<Rightarrow> fft_routine \<Rightarrow> fft_error + wide_field"
where
  "WideFieldImaging rs uninit ks cell os scaling wp routine =
     (let arr = ks * os;
          use_dht = (hankel_opt wp \<and> \<not> hankel_proj_slice wp)
      in if arr mod 2 \<noteq> 0 then Inl Odd_array_size
         else Inr \<lparr>array_size = arr, wf_kernel_size = ks, wf_cell_size = cell, wf_oversampling = os, wf_scaling_factor = scaling,
           wf_pars = wp, wf_r_fft = (if arr < 4 then FFTW_ESTIMATE_FFT else routine),
           max_hankel_kernel_size = (if hankel_opt wp then (max_wpconv_support wp * 2 + 1 + 1) * os else 0),
           current_hankel_kernel_size = max_wpconv_support wp, truncated_wpconv_support = max_wpconv_support wp,
           w_value = 0, comb_kernel = empty_cx_mat, conv_kernel = empty_cx_mat, kernel_half_quandrant = [],
           DHT = (if use_dht then dht rs uninit (arr div 2) else (\<lambda>j i. 0)),
           hankel_radius_points = (if use_dht then generate_hankel_radius_points (arr div 2) else [])\<rparr>)"

section \<open>The kernel in the image domain\<close>

text \<open>The w-term at a distance from the centre, times the anti-aliasing kernel of both directions.\<close>

definition combine_2d_kernel_value :: "real list \<Rightarrow> nat \<Rightarrow> nat \<Rightarrow> real \<Rightarrow> real \<Rightarrow> nat \<Rightarrow> complex" where
  "combine_2d_kernel_value aa px py w scaled_cell ctr_idx =
     (let distance_x = real px * scaled_cell;
          distance_y = real py * scaled_cell;
          rsquared_radians = distance_x * distance_x + distance_y * distance_y
      in if rsquared_radians \<ge> 1 then of_real (aa ! (ctr_idx + px) * aa ! (ctr_idx + py))
         else
           let n = sqrt (1 - rsquared_radians);
               im = Complex 0 (-2 * pi * w * (n - 1))
           in exp im / of_real n * of_real (aa ! (ctr_idx + px)) * of_real (aa ! (ctr_idx + py)))"

text \<open>One body of the loop over the lines, and one of that over the squares.\<close>

definition kernel_line :: "nat \<Rightarrow> (nat \<Rightarrow> nat \<Rightarrow> complex) \<Rightarrow> nat \<Rightarrow> (nat \<Rightarrow> nat \<Rightarrow> complex) \<Rightarrow> nat \<Rightarrow> nat \<Rightarrow> complex" where
  "kernel_line arr val i E =
     upd2 (upd2 (upd2 (upd2 E i 0 (val i 0)) (arr - i) 0 (val i 0)) 0 i (val i 0)) 0 (arr - i) (val i 0)"

definition kernel_squares :: "nat \<Rightarrow> nat \<Rightarrow> (nat \<Rightarrow> nat \<Rightarrow> complex) \<Rightarrow> nat \<Rightarrow> (nat \<Rightarrow> nat \<Rightarrow> complex) \<Rightarrow> nat \<Rightarrow> nat \<Rightarrow> complex" where
  "kernel_squares arr half val j E =
     fold (\<lambda>i E. upd2 (upd2 (upd2 (upd2 E i j (val i j)) (arr - i) j (val i j)) i (arr - j) (val i j)) (arr - i) (arr - j) (val i j))
       [1..<half] E"

text \<open>It asserts that the Hankel transform is not used.\<close>

definition generate_image_domain_convolution_kernel ::
  "wide_env \<Rightarrow> real \<Rightarrow> real list \<Rightarrow> wide_field \<Rightarrow> fft_error + wide_field"
where
  "generate_image_domain_convolution_kernel env input_w aa W =
     (if hankel_opt (wf_pars W) then Inl Assertion_failed
      else
        let arr = array_size W;
            half = wf_kernel_size W div 2;
            val = (\<lambda>i j. combine_2d_kernel_value aa i j input_w (wf_cell_size W * wf_scaling_factor W) half);
            E = parallel_for (kernel_line arr val) (line_ranges env) (\<lambda>i j. 0);
            E = upd2 E 0 0 (of_real (aa ! half * aa ! half));
            E = parallel_for (kernel_squares arr half val) (square_ranges env) E
        in Inr (W\<lparr>w_value := input_w, comb_kernel := \<lparr>n_rows = arr, n_cols = arr, elt = E\<rparr>\<rparr>))"

definition generate_projected_image_domain_kernel ::
  "wide_env \<Rightarrow> real \<Rightarrow> real list \<Rightarrow> wide_field \<Rightarrow> complex list"
where
  "generate_projected_image_domain_kernel env input_w aa W =
     (let arr = array_size W;
          half = wf_kernel_size W div 2;
          val = (\<lambda>i j. combine_2d_kernel_value aa i j input_w (wf_cell_size W * wf_scaling_factor W) half);
          out = parallel_for (\<lambda>i out. out[i := val i 0]) (line_ranges env) (replicate arr 0);
          out = out[0 := sum_list out * 2];
          out = out[0 := out ! 0 + of_real (aa ! half * aa ! half)];
          out = parallel_for (\<lambda>j out. fold (\<lambda>i out. out[j := out ! j + val i j * 2]) [1..<half] out) (square_ranges env) out
      in fold (\<lambda>i out. out[arr - i := out ! i]) [1..<half] out)"

section \<open>Truncation\<close>

text \<open>
  The loop that looks for the support of a kernel: \<open>None\<close> where the unsigned index wraps around below 0, and is used
  to read outside of the matrix.
\<close>

function trunc_loop :: "(nat \<Rightarrow> complex) \<Rightarrow> real \<Rightarrow> nat \<Rightarrow> nat \<Rightarrow> nat option" where
  "trunc_loop K min_value os i =
     (if i = 0 then Some 0
      else if cmod (K i) > min_value then Some i
      else if i < os \<or> os = 0 then None
      else trunc_loop K min_value os (i - os))"
  by pat_completeness auto
termination
  by (relation "measure (\<lambda>(K, m, os, i). i)") auto

declare trunc_loop.simps [simp del]

definition trunc_at_value :: "w_projection_pars \<Rightarrow> real" where
  "trunc_at_value wp = (if kernel_trunc_perc wp > 0 then kernel_trunc_perc wp / 100 else 0)"

definition truncate_support :: "wide_field \<Rightarrow> fft_error + wide_field" where
  "truncate_support W =
     (let wp = wf_pars W; os = wf_oversampling W; K = elt (conv_kernel W); trunc_at = trunc_at_value wp
      in if trunc_at > 0 then
           case trunc_loop (\<lambda>i. K i 0) (cmod (K 0 0) * trunc_at) os (min (max_wpconv_support wp * os) (array_size W div 2)) of
             None \<Rightarrow> Inl Out_of_bounds
           | Some i \<Rightarrow> Inr (W\<lparr>truncated_wpconv_support := min (i div os) (max_wpconv_support wp)\<rparr>)
         else Inr W)"

section \<open>The Hankel form of the kernel\<close>

function radial_trunc_loop :: "complex list \<Rightarrow> real \<Rightarrow> nat \<Rightarrow> nat \<Rightarrow> nat" where
  "radial_trunc_loop y min_value os idx =
     (if idx > os \<and> os \<noteq> 0 then
        if cmod (y ! idx) > min_value then idx else radial_trunc_loop y min_value os (idx - os)
      else idx)"
  by pat_completeness auto
termination
  by (relation "measure (\<lambda>(y, m, os, idx). idx)") auto

declare radial_trunc_loop.simps [simp del]

text \<open>The distance of the pixel \<open>(ii, j)\<close> of half a quadrant, and the point below it.\<close>

definition radius :: "nat \<Rightarrow> nat \<Rightarrow> real" where
  "radius ii j = (if j = 0 then real ii else if ii = 0 then real j else sqrt (real (ii * ii + j * j)))"

definition point_below :: "bool \<Rightarrow> real list \<Rightarrow> real \<Rightarrow> nat" where
  "point_below isDiagonal x r =
     (if isDiagonal then
        let k = nat \<lfloor>r * sqrt 2\<rfloor> in if r < x ! k then (if k > 0 then k - 1 else k) else k
      else
        let k = nat \<lfloor>r\<rfloor> in if k \<ge> length x then length x - 1 else k)"

text \<open>The loop over half a quadrant, by its row \<open>ii\<close> and column \<open>j\<close>: rows from the diagonal to the border.\<close>

definition half_quadrant :: "nat \<Rightarrow> (nat \<Rightarrow> nat \<Rightarrow> 'a) \<Rightarrow> 'a list" where
  "half_quadrant offset val =
     (let final_kernel_size = offset + offset * (offset - 1) div 2
      in snd (snd (fold (\<lambda>i (ii, j, acc).
             let (ii, j) = (if j = offset then (ii + 1, ii + 1) else (ii, j))
             in (ii, j + 1, acc @ [val ii j]))
           [0..<final_kernel_size] (0, 0, []))))"

definition RadialInterpolate ::
  "wide_env \<Rightarrow> bool \<Rightarrow> bool \<Rightarrow> real list \<Rightarrow> complex list \<Rightarrow> real \<Rightarrow> wide_field \<Rightarrow> fft_error + wide_field \<times> complex list"
where
  "RadialInterpolate env isCubic isDiagonal x_array y_array trunc_at W =
     (let os = wf_oversampling W; wp = wf_pars W;
          W = (if trunc_at > 0 then
                 let scale = (if isDiagonal then sqrt 2 / real (os * 2) else 1 / real os);
                     trunc_idx = radial_trunc_loop y_array (cmod (y_array ! 0) * trunc_at) os (max_wpconv_support wp * os)
                 in W\<lparr>truncated_wpconv_support := min (nat \<lceil>real trunc_idx * scale\<rceil>) (max_wpconv_support wp)\<rparr>
               else W);
          W = W\<lparr>current_hankel_kernel_size := (truncated_wpconv_support W * 2 + 1 + 1) * os\<rparr>;
          kernel_offset = current_hankel_kernel_size W div 2;
          y_real = map Re y_array;
          y_imag = map Im y_array
      in case set_points isCubic (spline_mem env) (spline_mem env) x_array y_real False new_spline of
           None \<Rightarrow> Inl Assertion_failed
         | Some S_real \<Rightarrow>
         (case set_points isCubic (spline_mem env) (spline_mem env) x_array y_imag False new_spline of
            None \<Rightarrow> Inl Assertion_failed
          | Some S_imag \<Rightarrow>
              Inr (W, half_quadrant kernel_offset (\<lambda>ii j.
                let r = radius ii j; k = point_below isDiagonal x_array r
                in Complex (spline_at_index isCubic S_real r k (x_array ! k) (y_real ! k))
                     (spline_at_index isCubic S_imag r k (x_array ! k) (y_imag ! k))))))"

text \<open>The radial profile of the kernel by the matrix of the discrete Hankel transform.\<close>

definition hankel_image_radius :: "wide_field \<Rightarrow> real list \<Rightarrow> complex list" where
  "hankel_image_radius W aa =
     (let half_arr = array_size W div 2; half_ks = wf_kernel_size W div 2
      in fold (\<lambda>i k.
             let distance_x = real i * (wf_cell_size W * wf_scaling_factor W);
                 rsquared_radians = distance_x * distance_x;
                 tmp = (if rsquared_radians \<ge> 1 then 1
                   else let n = sqrt (1 - rsquared_radians)
                        in exp (Complex 0 (-2 * pi * w_value W * (n - 1))) / of_real n)
             in k[i := tmp * of_real (aa ! (half_ks + i))])
           [0..<half_ks] (replicate half_arr 0))"

definition hankel_transform :: "wide_field \<Rightarrow> complex list \<Rightarrow> complex list" where
  "hankel_transform W img_radius =
     map (\<lambda>i. Complex (\<Sum>j \<leftarrow> [0..<length img_radius]. DHT W j i * Re (img_radius ! j))
                (\<Sum>j \<leftarrow> [0..<length img_radius]. DHT W j i * Im (img_radius ! j)))
       [0..<array_size W div 2]"

section \<open>The kernels of a w-plane\<close>

text \<open>
  In the code a vector of column sums of the kernel is computed here too, and not used. The image-domain kernel is reset
  after the transform.
\<close>

definition generate_convolution_kernel_wproj ::
  "wide_env \<Rightarrow> real \<Rightarrow> real list \<Rightarrow> bool \<Rightarrow> wide_field \<Rightarrow> fft_error + wide_field"
where
  "generate_convolution_kernel_wproj env input_w aa proj_slice W =
     (let W = W\<lparr>w_value := input_w\<rparr>;
          trunc_at = trunc_at_value (wf_pars W);
          isCubic = (w_interp_type (wf_pars W) = CUBIC)
      in if \<not> hankel_opt (wf_pars W) then
           (case generate_image_domain_convolution_kernel env input_w aa W of
              Inl e \<Rightarrow> Inl e
            | Inr W \<Rightarrow>
            (case fft_fftw_c2c (wide_fftw env) (comb_kernel W) (wf_r_fft W) True of
               Inl e \<Rightarrow> Inl e
             | Inr K \<Rightarrow> truncate_support (W\<lparr>conv_kernel := K, comb_kernel := reset_cx_mat (comb_kernel W)\<rparr>)))
         else if \<not> proj_slice then
           (case RadialInterpolate env isCubic False (hankel_radius_points W)
                (hankel_transform W (hankel_image_radius W aa)) trunc_at W of
              Inl e \<Rightarrow> Inl e
            | Inr (W, quadrant) \<Rightarrow> Inr (W\<lparr>kernel_half_quandrant := quadrant\<rparr>))
         else
           (case fft_fftw_dft_c2c_1d (wide_fftw env) (generate_projected_image_domain_kernel env input_w aa W) (wf_r_fft W) of
              Inl e \<Rightarrow> Inl e
            | Inr comb_kernel_radius \<Rightarrow>
            (case RadialInterpolate env isCubic False (map real [0..<array_size W]) comb_kernel_radius trunc_at W of
               Inl e \<Rightarrow> Inl e
             | Inr (W, quadrant) \<Rightarrow> Inr (W\<lparr>kernel_half_quandrant := quadrant\<rparr>))))"

text \<open>The index of a pixel of half a quadrant in the vector, by the distances from the centre.\<close>

definition quadrant_index :: "nat \<Rightarrow> nat \<Rightarrow> nat \<Rightarrow> nat" where
  "quadrant_index offset dcx dcy =
     (if dcx > dcy then dcy * offset - dcy * (dcy + 1) div 2 + dcx else dcx * offset - dcx * (dcx + 1) div 2 + dcy)"

text \<open>A position of the cache in the transform, which is not shifted; sums and differences wrap around at 64 bits.\<close>

definition kernel_position :: "nat \<Rightarrow> nat \<Rightarrow> nat \<Rightarrow> nat \<Rightarrow> nat \<Rightarrow> nat" where
  "kernel_position arr os support x t =
     nat ((int (arr div 2) - int support * int os + int (os div 2) - int x + int t * int os + int (arr div 2)) mod 2 ^ 64) mod arr"

definition generate_kernel_cache :: "wide_field \<Rightarrow> kernel_cache" where
  "generate_kernel_cache W =
     (let os = wf_oversampling W; support = truncated_wpconv_support W;
          n = 2 * support + 1;
          offset = current_hankel_kernel_size W div 2;
          start = (\<lambda>x. - int support * int os + int (os div 2) - int x)
      in (\<lambda>y x.
        if hankel_opt (wf_pars W) then
          let val = (\<lambda>tx ty. kernel_half_quandrant W !
                quadrant_index offset (nat \<bar>start x + int ty * int os\<bar>) (nat \<bar>start y + int tx * int os\<bar>));
              kernel_sum = (\<Sum>ty \<leftarrow> [0..<n]. \<Sum>tx \<leftarrow> [0..<n]. Re (val tx ty))
          in (\<lambda>tx ty. val tx ty / of_real kernel_sum)
        else
          let val = (\<lambda>tx ty. elt (conv_kernel W) (kernel_position (array_size W) os support x ty)
                (kernel_position (array_size W) os support y tx));
              kernel_sum = 1 / (\<Sum>ty \<leftarrow> [0..<n]. \<Sum>tx \<leftarrow> [0..<n]. Re (val tx ty))
          in (\<lambda>tx ty. val tx ty * of_real kernel_sum)))"

text \<open>The kernels of a plane and their support; the object goes on to the next plane.\<close>

definition wide_kernels :: "wide_env \<Rightarrow> real list \<Rightarrow> real \<Rightarrow> wide_field \<Rightarrow> fft_error + wide_field \<times> kernel_cache \<times> nat" where
  "wide_kernels env aa w W =
     (case generate_convolution_kernel_wproj env w aa (hankel_proj_slice (wf_pars W)) W of
        Inl e \<Rightarrow> Inl e
      | Inr W \<Rightarrow> Inr (W, generate_kernel_cache W, truncated_wpconv_support W))"

end
