(* ===== verification/Wide_Symmetry.thy ===== *)
theory Wide_Symmetry
  imports Wide_Field
begin

text \<open>
  The kernels of W-projection are even: the kernel at the opposite oversampled offset is the mirror image. In the image
  domain, in the transform and in the Hankel form. This is what gridding half of the plane rests on.
\<close>

section \<open>The kernel in the image domain\<close>

lemma combine_2d_kernel_value_commute:
  "combine_2d_kernel_value aa px py w cell ctr = combine_2d_kernel_value aa py px w cell ctr"
  unfolding combine_2d_kernel_value_def Let_def by (simp add: add.commute mult.commute mult.left_commute)

lemma combine_2d_kernel_value_centre:
  "combine_2d_kernel_value aa 0 0 w cell ctr = of_real (aa ! ctr * aa ! ctr)"
proof -
  have "Complex 0 0 = 0"
    by (simp add: complex_eq_iff)
  then show ?thesis
    unfolding combine_2d_kernel_value_def Let_def by (simp add: mult.assoc)
qed

text \<open>The distance of an index from the nearest end of the matrix, or \<open>half\<close> between the ends.\<close>

definition end_distance :: "nat \<Rightarrow> nat \<Rightarrow> nat \<Rightarrow> nat" where
  "end_distance arr half r = (if r < half then r else if arr - half < r \<and> r < arr then arr - r else half)"

lemma fold_writes:
  assumes "\<And>i E. i \<in> set xs \<Longrightarrow> f i E = (\<lambda>r c. if P i r c then g r c else E r c)"
  shows "fold f xs E = (\<lambda>r c. if \<exists>i \<in> set xs. P i r c then g r c else E r c)"
  using assms
proof (induction xs arbitrary: E)
  case (Cons x xs)
  have rest: "fold f xs (f x E) = (\<lambda>r c. if \<exists>i \<in> set xs. P i r c then g r c else f x E r c)"
    by (rule Cons.IH, rule Cons.prems) simp
  have first: "f x E = (\<lambda>r c. if P x r c then g r c else E r c)"
    by (rule Cons.prems) simp
  show ?case
    unfolding fold_simps rest unfolding first by (auto simp: fun_eq_iff)
qed simp

lemma end_distance_iff:
  assumes "0 < i" "i < half" "2 * half \<le> arr"
  shows "end_distance arr half r = i \<longleftrightarrow> r = i \<or> r = arr - i"
  using assms by (auto simp: end_distance_def)

lemma end_distance_0: "0 < half \<Longrightarrow> end_distance arr half r = 0 \<longleftrightarrow> r = 0"
  by (auto simp: end_distance_def)

lemma kernel_line_writes:
  assumes "0 < i" "i < half" "2 * half \<le> arr" and val: "\<And>a b. val a b = val b a"
  shows "kernel_line arr val i E = (\<lambda>r c. if r = 0 \<and> end_distance arr half c = i \<or> c = 0 \<and> end_distance arr half r = i
    then val (end_distance arr half r) (end_distance arr half c) else E r c)"
proof -
  have d: "end_distance arr half i = i" "end_distance arr half (arr - i) = i" "end_distance arr half 0 = 0"
    using assms by (auto simp: end_distance_def)
  show ?thesis
    unfolding end_distance_iff [OF assms(1-3)] using assms(1-3) val [of 0 i] by (auto simp: kernel_line_def fun_eq_iff d)
qed

lemma kernel_squares_writes:
  assumes j: "0 < j" "j < half" and arr: "2 * half \<le> arr"
  shows "kernel_squares arr half val j E = (\<lambda>r c. if end_distance arr half c = j \<and> 0 < end_distance arr half r \<and> end_distance arr half r < half
    then val (end_distance arr half r) (end_distance arr half c) else E r c)"
proof -
  let ?d = "end_distance arr half"
  have body: "upd2 (upd2 (upd2 (upd2 E i j (val i j)) (arr - i) j (val i j)) i (arr - j) (val i j)) (arr - i) (arr - j) (val i j) =
      (\<lambda>r c. if ?d c = j \<and> ?d r = i then val (?d r) (?d c) else E r c)" if "i \<in> set [1..<half]" for i E
  proof -
    have i: "0 < i" "i < half"
      using that by auto
    then have d: "?d i = i" "?d (arr - i) = i" "?d j = j" "?d (arr - j) = j"
      using arr j by (auto simp: end_distance_def)
    show ?thesis
      unfolding end_distance_iff [OF i arr] end_distance_iff [OF j arr] by (auto simp: fun_eq_iff d)
  qed
  have "kernel_squares arr half val j E = (\<lambda>r c. if \<exists>i \<in> set [1..<half]. ?d c = j \<and> ?d r = i then val (?d r) (?d c) else E r c)"
    unfolding kernel_squares_def by (rule fold_writes, rule body)
  then show ?thesis
    by (auto simp: fun_eq_iff)
qed

text \<open>The whole matrix: the value at the distances from the ends, and 0 between them.\<close>

definition image_value :: "real list \<Rightarrow> real \<Rightarrow> wide_field \<Rightarrow> nat \<Rightarrow> nat \<Rightarrow> complex" where
  "image_value aa w W i j = combine_2d_kernel_value aa i j w (wf_cell_size W * wf_scaling_factor W) (wf_kernel_size W div 2)"

lemma image_value_commute: "image_value aa w W i j = image_value aa w W j i"
  unfolding image_value_def by (rule combine_2d_kernel_value_commute)

definition full_image_kernel :: "real list \<Rightarrow> real \<Rightarrow> wide_field \<Rightarrow> nat \<Rightarrow> nat \<Rightarrow> complex" where
  "full_image_kernel aa w W r c =
     (let half = wf_kernel_size W div 2; a = end_distance (array_size W) half r; b = end_distance (array_size W) half c
      in if a < half \<and> b < half then image_value aa w W a b else 0)"

lemma full_image_kernel_commute: "full_image_kernel aa w W r c = full_image_kernel aa w W c r"
  using image_value_commute [of aa w W] by (simp add: full_image_kernel_def Let_def)

definition wide_ranges_ok :: "wide_env \<Rightarrow> nat \<Rightarrow> bool" where
  "wide_ranges_ok env ks \<longleftrightarrow> covers 1 (ks div 2) (line_ranges env) \<and> covers 1 (ks div 2) (square_ranges env)"

lemma image_domain_kernel_value:
  assumes run: "generate_image_domain_convolution_kernel env w aa W = Inr W'"
    and ks: "2 * (wf_kernel_size W div 2) \<le> array_size W" "half = wf_kernel_size W div 2" "0 < half"
    and ranges: "wide_ranges_ok env (wf_kernel_size W)"
  shows "n_rows (comb_kernel W') = array_size W" and "n_cols (comb_kernel W') = array_size W"
    and "elt (comb_kernel W') = full_image_kernel aa w W"
    and "W' = W\<lparr>w_value := w, comb_kernel := comb_kernel W'\<rparr>"
proof -
  define arr where "arr = array_size W"
  let ?d = "end_distance arr half" and ?val = "image_value aa w W"
  have arr: "2 * half \<le> arr"
    using ks by (simp add: arr_def)
  define E1 where "E1 = parallel_for (kernel_line arr ?val) (line_ranges env) (\<lambda>i j. 0)"
  define E2 where "E2 = upd2 E1 0 0 (?val 0 0)"
  define E3 where "E3 = parallel_for (kernel_squares arr half ?val) (square_ranges env) E2"
  have W': "W' = W\<lparr>w_value := w, comb_kernel := \<lparr>n_rows = arr, n_cols = arr, elt = E3\<rparr>\<rparr>"
  proof -
    have val: "(\<lambda>i j. combine_2d_kernel_value aa i j w (wf_cell_size W * wf_scaling_factor W) half) = ?val"
      by (simp add: image_value_def fun_eq_iff ks(2))
    have centre: "?val 0 0 = of_real (aa ! half * aa ! half)"
      unfolding image_value_def combine_2d_kernel_value_centre ks(2) ..
    show ?thesis
      using run unfolding generate_image_domain_convolution_kernel_def Let_def ks(2) [symmetric] val
        E3_def E2_def E1_def centre arr_def by (simp split: if_splits)
  qed
  have set: "set (elements (line_ranges env)) = {1..<half}" "set (elements (square_ranges env)) = {1..<half}"
    using ranges by (simp_all add: wide_ranges_ok_def ks(2) covers_elements_set)
  have "E1 = (\<lambda>r c. if \<exists>i \<in> set (elements (line_ranges env)). r = 0 \<and> ?d c = i \<or> c = 0 \<and> ?d r = i then ?val (?d r) (?d c) else 0)"
    unfolding E1_def parallel_for_def
    by (rule fold_writes, rule kernel_line_writes) (use set arr image_value_commute in auto)
  then have E1: "E1 r c = (if r = 0 \<and> 0 < ?d c \<and> ?d c < half \<or> c = 0 \<and> 0 < ?d r \<and> ?d r < half then ?val (?d r) (?d c) else 0)" for r c
    by (auto simp: set)
  have "E3 = (\<lambda>r c. if \<exists>j \<in> set (elements (square_ranges env)). ?d c = j \<and> 0 < ?d r \<and> ?d r < half then ?val (?d r) (?d c) else E2 r c)"
    unfolding E3_def parallel_for_def
    by (rule fold_writes, rule kernel_squares_writes) (use set arr in auto)
  then have E3: "E3 r c = (if 0 < ?d c \<and> ?d c < half \<and> 0 < ?d r \<and> ?d r < half then ?val (?d r) (?d c) else E2 r c)" for r c
    by (auto simp: set)
  have zero: "?d 0 = 0" "r \<noteq> 0 \<Longrightarrow> 0 < ?d r" for r
    using end_distance_0 [OF ks(3), of arr r] end_distance_0 [OF ks(3), of arr 0] by auto
  have "E3 r c = (if ?d r < half \<and> ?d c < half then ?val (?d r) (?d c) else 0)" for r c
    using ks(3) zero(2) by (cases "r = 0"; cases "c = 0") (simp_all add: E3 E2_def E1 zero(1))
  then show "elt (comb_kernel W') = full_image_kernel aa w W"
    by (simp add: W' arr_def Let_def full_image_kernel_def ks(2) fun_eq_iff)
  show "n_rows (comb_kernel W') = array_size W" "n_cols (comb_kernel W') = array_size W"
    "W' = W\<lparr>w_value := w, comb_kernel := comb_kernel W'\<rparr>"
    by (simp_all add: W' arr_def)
qed

lemma end_distance_opp:
  assumes "2 * half \<le> arr" and "r < arr"
  shows "end_distance arr half (opp arr r) = end_distance arr half r"
proof (cases "r = 0")
  case True
  then show ?thesis
    using assms by (simp add: opp_def)
next
  case False
  then have "opp arr r = arr - r"
    using assms(2) by (simp add: opp_def)
  then show ?thesis
    using assms False by (auto simp: end_distance_def)
qed

section \<open>The transform\<close>

definition even_mat :: "nat \<Rightarrow> (nat \<Rightarrow> nat \<Rightarrow> complex) \<Rightarrow> bool" where
  "even_mat n X \<longleftrightarrow> (\<forall>i < n. \<forall>j < n. X (opp n i) (opp n j) = X i j)"

lemma dft2_even:
  assumes "even_mat n X"
  shows "even_mat n (dft2 n n X)"
  unfolding even_mat_def
proof (intro allI impI)
  fix k0 k1
  assume k: "k0 < n" "k1 < n"
  then have n: "0 < n"
    by simp
  let ?t = "\<lambda>i0 i1. X i0 i1 * cis (wave n (k0 * i0) + wave n (k1 * i1))"
  have refl_term: "?t (opp n i0) (opp n i1) = X i0 i1 * cis (- (wave n (k0 * i0) + wave n (k1 * i1)))" if i: "i0 < n" "i1 < n" for i0 i1
  proof -
    have "cis (- (wave n (i0 * k0) + wave n (i1 * k1))) = cis (wave n (opp n i0 * k0) + wave n (opp n i1 * k1))"
      using cis_waves_opp [OF n n opp_less opp_less, of i0 k0 i1 k1] i n by (simp add: opp_opp)
    then show ?thesis
      using assms i by (simp add: even_mat_def mult.commute)
  qed
  have "dft2 n n X (opp n k0) (opp n k1) = (\<Sum>i0<n. \<Sum>i1<n. ?t i0 i1)"
    unfolding dft2_def cis_waves_opp [OF n n k] ..
  also have "\<dots> = (\<Sum>i0<n. \<Sum>i1<n. ?t (opp n i0) (opp n i1))"
    by (simp only: sum_opp [of "\<lambda>i1. ?t (opp n _) i1"] sum_opp [of "\<lambda>i0. \<Sum>i1<n. ?t i0 i1"])
  also have "\<dots> = dft2 n n X k0 k1"
    unfolding dft2_def by (intro sum.cong refl) (simp add: refl_term)
  finally show "dft2 n n X (opp n k0) (opp n k1) = dft2 n n X k0 k1" .
qed

lemma c2c_value:
  assumes F: "c2c_documented F" and run: "fft_fftw_c2c F input routine True = Inr out"
    and n: "n_rows input = n" "n_cols input = n" and ij: "i < n" "j < n"
  shows "elt out i j = dft2 n n (\<lambda>i0 i1. elt input i1 i0) j i"
proof -
  have "elt out i j = run_c2c F True n n (at_lin input) (j * n + i)"
    using run n by (auto simp: fft_fftw_c2c_def Let_def split: sum.splits)
  also have "\<dots> = dft2 n n (\<lambda>i0 i1. at_lin input (i0 * n + i1)) j i"
    using F ij unfolding c2c_documented_def by simp
  also have "\<dots> = dft2 n n (\<lambda>i0 i1. elt input i1 i0) j i"
    unfolding dft2_def using n by (intro sum.cong refl) (simp add: at_lin_def)
  finally show ?thesis .
qed

section \<open>The cache\<close>

text \<open>The kernel at the opposite offset, mirrored.\<close>

definition even_cache :: "nat \<Rightarrow> kernel_cache \<Rightarrow> nat \<Rightarrow> bool" where
  "even_cache os cache s \<longleftrightarrow> (\<forall>a b i j. a \<le> 2 * (os div 2) \<longrightarrow> b \<le> 2 * (os div 2) \<longrightarrow> i < 2 * s + 1 \<longrightarrow> j < 2 * s + 1 \<longrightarrow>
     cache (2 * (os div 2) - a) (2 * (os div 2) - b) (2 * s - i) (2 * s - j) = cache a b i j)"

lemma sum_list_mirror: "(\<Sum>t \<leftarrow> [0..<2 * s + 1]. f (2 * s - t)) = (\<Sum>t \<leftarrow> [0..<2 * s + 1]. f t :: real)"
proof -
  have "(\<Sum>t<2 * s + 1. f (2 * s + 1 - Suc t)) = (\<Sum>t<2 * s + 1. f t)"
    by (rule sum.nat_diff_reindex)
  then show ?thesis
    by (simp add: interv_sum_list_conv_sum_set_nat atLeast0LessThan)
qed

lemma cache_sum_mirror:
  assumes "\<And>i j. i < 2 * s + 1 \<Longrightarrow> j < 2 * s + 1 \<Longrightarrow> f' (2 * s - i) (2 * s - j) = (f i j :: complex)"
  shows "(\<Sum>ty \<leftarrow> [0..<2 * s + 1]. \<Sum>tx \<leftarrow> [0..<2 * s + 1]. Re (f' tx ty)) = (\<Sum>ty \<leftarrow> [0..<2 * s + 1]. \<Sum>tx \<leftarrow> [0..<2 * s + 1]. Re (f tx ty))"
proof -
  have "(\<Sum>ty \<leftarrow> [0..<2 * s + 1]. \<Sum>tx \<leftarrow> [0..<2 * s + 1]. Re (f tx ty)) =
      (\<Sum>ty \<leftarrow> [0..<2 * s + 1]. \<Sum>tx \<leftarrow> [0..<2 * s + 1]. Re (f' (2 * s - tx) (2 * s - ty)))"
    using assms by (intro arg_cong [where f = sum_list] map_cong refl) (simp del: upt_Suc)
  also have "\<dots> = (\<Sum>ty \<leftarrow> [0..<2 * s + 1]. \<Sum>tx \<leftarrow> [0..<2 * s + 1]. Re (f' tx (2 * s - ty)))"
    using sum_list_mirror [of "\<lambda>tx. Re (f' tx (2 * s - _))"] by simp
  also have "\<dots> = (\<Sum>ty \<leftarrow> [0..<2 * s + 1]. \<Sum>tx \<leftarrow> [0..<2 * s + 1]. Re (f' tx ty))"
    by (rule sum_list_mirror [of "\<lambda>ty. \<Sum>tx \<leftarrow> [0..<2 * s + 1]. Re (f' tx ty)"])
  finally show ?thesis ..
qed

lemma opp_int: "k < n \<Longrightarrow> int (opp n k) = (- int k) mod int n"
proof -
  assume k: "k < n"
  have "int (opp n k) = (int n - int k) mod int n"
    using k by (simp add: opp_def zmod_int of_nat_diff)
  then show ?thesis
    by (simp add: mod_diff_left_eq [symmetric])
qed

text \<open>Where the wrapped sums end up.\<close>

lemma kernel_position_value:
  assumes arr: "even arr" "0 < arr" "arr < 2 ^ 60" and "s * os \<le> arr div 2" and "os div 2 \<le> arr div 2"
    and "x \<le> 2 * (os div 2)" and "t < 2 * s + 1"
  shows "int (kernel_position arr os s x t) = ((int t - int s) * int os + int (os div 2) - int x) mod int arr"
    and "kernel_position arr os s x t < arr"
proof -
  define z where "z = int (arr div 2) - int s * int os + int (os div 2) - int x + int t * int os + int (arr div 2)"
  have half: "int (arr div 2) + int (arr div 2) = int arr"
    using arr(1) by (auto elim!: evenE)
  have s: "int s * int os \<le> int (arr div 2)"
    using assms(4) by (metis of_nat_le_iff of_nat_mult)
  moreover have "int t * int os \<le> 2 * (int s * int os)"
  proof -
    have "int t \<le> 2 * int s"
      using assms(7) by simp
    then have "int t * int os \<le> (2 * int s) * int os"
      by (rule mult_right_mono) simp
    then show ?thesis
      by simp
  qed
  moreover have "0 \<le> int t * int os"
    by simp
  moreover have "int x \<le> 2 * int (os div 2)" "int (os div 2) \<le> int (arr div 2)"
    using assms(5,6) by linarith+
  ultimately have z: "0 \<le> z" "z \<le> 3 * int arr"
    unfolding z_def using half by linarith+
  moreover have "int arr < 2 ^ 60"
    using arr(3) by (metis of_nat_less_numeral_power_cancel_iff)
  ultimately have "z mod 2 ^ 64 = z"
    by (intro mod_pos_pos_trivial) simp_all
  then have "kernel_position arr os s x t = nat z mod arr"
    by (simp add: kernel_position_def z_def)
  then have "int (kernel_position arr os s x t) = z mod int arr"
    using z(1) by (simp add: zmod_int)
  also have "z = int arr + ((int t - int s) * int os + int (os div 2) - int x)"
    unfolding z_def using half by (simp add: algebra_simps)
  finally show "int (kernel_position arr os s x t) = ((int t - int s) * int os + int (os div 2) - int x) mod int arr"
    by simp
  show "kernel_position arr os s x t < arr"
    using arr(2) by (simp add: kernel_position_def)
qed

text \<open>The sizes for which the positions do not overflow.\<close>

definition wide_sizes_ok :: "wide_field \<Rightarrow> bool" where
  "wide_sizes_ok W \<longleftrightarrow> array_size W = wf_kernel_size W * wf_oversampling W \<and> even (wf_kernel_size W) \<and>
     0 < wf_kernel_size W \<and> 0 < wf_oversampling W \<and> array_size W < 2 ^ 60 \<and>
     max_wpconv_support (wf_pars W) * wf_oversampling W \<le> array_size W div 2 \<and>
     truncated_wpconv_support W \<le> max_wpconv_support (wf_pars W)"

lemma wide_sizes:
  assumes "wide_sizes_ok W"
  shows "even (array_size W)" and "0 < array_size W" and "wf_oversampling W div 2 \<le> array_size W div 2"
    and "truncated_wpconv_support W * wf_oversampling W \<le> array_size W div 2"
    and "2 * (wf_kernel_size W div 2) \<le> array_size W" and "0 < wf_kernel_size W div 2"
proof -
  have arr: "array_size W = wf_kernel_size W * wf_oversampling W" and pos: "0 < wf_kernel_size W" "0 < wf_oversampling W"
    and even: "even (wf_kernel_size W)"
    using assms by (simp_all add: wide_sizes_ok_def)
  show "even (array_size W)" "0 < array_size W"
    using arr pos even by simp_all
  have "wf_oversampling W \<le> array_size W" "wf_kernel_size W \<le> array_size W"
    using pos by (simp_all add: arr)
  then show "wf_oversampling W div 2 \<le> array_size W div 2" "2 * (wf_kernel_size W div 2) \<le> array_size W"
    using even by (simp_all add: div_le_mono)
  have "truncated_wpconv_support W * wf_oversampling W \<le> max_wpconv_support (wf_pars W) * wf_oversampling W"
    using assms by (intro mult_le_mono1) (simp add: wide_sizes_ok_def)
  also have "\<dots> \<le> array_size W div 2"
    using assms unfolding wide_sizes_ok_def by blast
  finally show "truncated_wpconv_support W * wf_oversampling W \<le> array_size W div 2" .
  show "0 < wf_kernel_size W div 2"
    using even pos by (auto elim!: evenE)
qed

lemma kernel_position_mirror:
  assumes "even arr" "0 < arr" "arr < 2 ^ 60" and "s * os \<le> arr div 2" and "os div 2 \<le> arr div 2"
    and "x \<le> 2 * (os div 2)" and "t < 2 * s + 1"
  shows "kernel_position arr os s (2 * (os div 2) - x) (2 * s - t) = opp arr (kernel_position arr os s x t)"
proof -
  let ?v = "(int t - int s) * int os + int (os div 2) - int x"
  note pos = kernel_position_value [OF assms]
  have "int (kernel_position arr os s (2 * (os div 2) - x) (2 * s - t)) =
      ((int (2 * s - t) - int s) * int os + int (os div 2) - int (2 * (os div 2) - x)) mod int arr"
    by (rule kernel_position_value(1) [OF assms(1-5)]) simp_all
  also have "(int (2 * s - t) - int s) * int os + int (os div 2) - int (2 * (os div 2) - x) = - ?v"
    using assms(6,7) by (simp add: of_nat_diff algebra_simps)
  also have "(- ?v) mod int arr = (- (?v mod int arr)) mod int arr"
    by (simp add: mod_minus_eq)
  also have "\<dots> = int (opp arr (kernel_position arr os s x t))"
    by (simp add: opp_int [OF pos(2)] pos(1))
  finally show ?thesis
    by simp
qed

lemma even_cacheI:
  assumes "\<And>a b. cache a b = (\<lambda>i j. val a b i j * c (\<Sum>ty \<leftarrow> [0..<2 * s + 1]. \<Sum>tx \<leftarrow> [0..<2 * s + 1]. Re (val a b tx ty)))"
    and "\<And>a b i j. a \<le> 2 * (os div 2) \<Longrightarrow> b \<le> 2 * (os div 2) \<Longrightarrow> i < 2 * s + 1 \<Longrightarrow> j < 2 * s + 1 \<Longrightarrow>
      val (2 * (os div 2) - a) (2 * (os div 2) - b) (2 * s - i) (2 * s - j) = val a b i j"
  shows "even_cache os cache s"
  unfolding even_cache_def
proof (intro allI impI)
  fix a b i j
  assume ab: "a \<le> 2 * (os div 2)" "b \<le> 2 * (os div 2)" and ij: "i < 2 * s + 1" "j < 2 * s + 1"
  have "(\<Sum>ty \<leftarrow> [0..<2 * s + 1]. \<Sum>tx \<leftarrow> [0..<2 * s + 1]. Re (val (2 * (os div 2) - a) (2 * (os div 2) - b) tx ty)) =
      (\<Sum>ty \<leftarrow> [0..<2 * s + 1]. \<Sum>tx \<leftarrow> [0..<2 * s + 1]. Re (val a b tx ty))"
    by (rule cache_sum_mirror) (rule assms(2) [OF ab])
  then show "cache (2 * (os div 2) - a) (2 * (os div 2) - b) (2 * s - i) (2 * s - j) = cache a b i j"
    unfolding assms(1) assms(2) [OF ab ij] by simp
qed

lemma generate_kernel_cache_even:
  assumes sizes: "wide_sizes_ok W" and conv: "\<not> hankel_opt (wf_pars W) \<Longrightarrow> even_mat (array_size W) (elt (conv_kernel W))"
  shows "even_cache (wf_oversampling W) (generate_kernel_cache W) (truncated_wpconv_support W)"
proof (cases "hankel_opt (wf_pars W)")
  case True
  define start where "start x = - int (truncated_wpconv_support W) * int (wf_oversampling W) + int (wf_oversampling W div 2) - int x" for x
  have mirror: "\<bar>start (2 * (wf_oversampling W div 2) - x) + int (2 * truncated_wpconv_support W - t) * int (wf_oversampling W)\<bar> =
      \<bar>start x + int t * int (wf_oversampling W)\<bar>" if "x \<le> 2 * (wf_oversampling W div 2)" "t < 2 * truncated_wpconv_support W + 1" for x t
  proof -
    have "start (2 * (wf_oversampling W div 2) - x) + int (2 * truncated_wpconv_support W - t) * int (wf_oversampling W) =
        - (start x + int t * int (wf_oversampling W))"
      using that by (simp add: start_def of_nat_diff algebra_simps)
    then show ?thesis
      by simp
  qed
  show ?thesis
  proof (rule even_cacheI [where c = "\<lambda>s. 1 / of_real s" and val = "\<lambda>y x tx ty. kernel_half_quandrant W !
      quadrant_index (current_hankel_kernel_size W div 2) (nat \<bar>start x + int ty * int (wf_oversampling W)\<bar>)
        (nat \<bar>start y + int tx * int (wf_oversampling W)\<bar>)"], goal_cases)
    case (1 a b)
    then show ?case
      using True unfolding generate_kernel_cache_def Let_def start_def by (simp add: fun_eq_iff del: upt_Suc)
  next
    case (2 a b i j)
    then show ?case
      by (simp only: mirror)
  qed
next
  case False
  show ?thesis
  proof (rule even_cacheI [where c = "\<lambda>s. of_real (1 / s)" and val = "\<lambda>y x tx ty. elt (conv_kernel W)
      (kernel_position (array_size W) (wf_oversampling W) (truncated_wpconv_support W) x ty)
      (kernel_position (array_size W) (wf_oversampling W) (truncated_wpconv_support W) y tx)"], goal_cases)
    case (1 a b)
    then show ?case
      using False unfolding generate_kernel_cache_def Let_def by (simp add: fun_eq_iff del: upt_Suc)
  next
    case (2 a b i j)
    have arr: "array_size W < 2 ^ 60"
      using sizes by (simp add: wide_sizes_ok_def)
    note mirror = kernel_position_mirror [OF wide_sizes(1,2) [OF sizes] arr wide_sizes(4,3) [OF sizes]]
    note pos = kernel_position_value(2) [OF wide_sizes(1,2) [OF sizes] arr wide_sizes(4,3) [OF sizes]]
    show ?case
      unfolding mirror [OF 2(1,3)] mirror [OF 2(2,4)]
      using conv [OF False] pos [OF 2(1,3)] pos [OF 2(2,4)] by (simp add: even_mat_def)
  qed
qed

section \<open>A plane\<close>

lemma trunc_loop_le: "trunc_loop K m os i = Some k \<Longrightarrow> k \<le> i"
  by (induction K m os i rule: trunc_loop.induct) (auto simp: trunc_loop.simps split: if_splits)

text \<open>For an even kernel size the loop starts at a multiple of the oversampling, and ends.\<close>

lemma trunc_loop_total:
  assumes "0 < os" and "os dvd i"
  shows "\<exists>k. trunc_loop K m os i = Some k"
  using assms(2)
proof (induction i rule: less_induct)
  case (less i)
  show ?case
  proof (cases "i = 0 \<or> cmod (K i) > m")
    case True
    then show ?thesis
      by (auto simp: trunc_loop.simps [of K m os i])
  next
    case False
    then have "os \<le> i" "i - os < i" "os dvd i - os"
      using less.prems assms(1) by (auto intro: dvd_imp_le dvd_diff_nat)
    then show ?thesis
      using less.IH False assms(1) by (auto simp: trunc_loop.simps [of K m os i])
  qed
qed

text \<open>What a plane leaves as it is.\<close>

definition same_sizes :: "wide_field \<Rightarrow> wide_field \<Rightarrow> bool" where
  "same_sizes W W' \<longleftrightarrow> array_size W' = array_size W \<and> wf_kernel_size W' = wf_kernel_size W \<and>
     wf_oversampling W' = wf_oversampling W \<and> wf_pars W' = wf_pars W \<and>
     (truncated_wpconv_support W' = truncated_wpconv_support W \<or>
      truncated_wpconv_support W' \<le> max_wpconv_support (wf_pars W))"

lemma same_sizes_ok: "wide_sizes_ok W \<Longrightarrow> same_sizes W W' \<Longrightarrow> wide_sizes_ok W'"
  by (auto simp: wide_sizes_ok_def same_sizes_def)

lemma truncate_support_sizes:
  assumes "truncate_support W = Inr W'"
  shows "same_sizes W W'" and "conv_kernel W' = conv_kernel W"
  using assms by (auto simp: truncate_support_def same_sizes_def Let_def split: if_splits option.splits)

lemma RadialInterpolate_sizes:
  assumes "RadialInterpolate env isCubic isDiagonal x y trunc_at W = Inr (W', q)"
  shows "same_sizes W W'"
  using assms by (auto simp: RadialInterpolate_def same_sizes_def Let_def split: option.splits)

lemma full_image_kernel_even:
  assumes "2 * (wf_kernel_size W div 2) \<le> array_size W"
  shows "even_mat (array_size W) (full_image_kernel aa w W)"
  using end_distance_opp [OF assms] by (simp add: even_mat_def full_image_kernel_def Let_def)

text \<open>Without the Hankel form the kernel is the transform of the kernel in the image domain.\<close>

lemma wproj_transform:
  assumes run: "generate_convolution_kernel_wproj env w aa proj_slice W = Inr W'" and hankel: "\<not> hankel_opt (wf_pars W)"
    and sizes: "wide_sizes_ok W" and F: "c2c_documented (wide_fftw env)" and ranges: "wide_ranges_ok env (wf_kernel_size W)"
  shows "same_sizes W W'"
    and "i < array_size W \<Longrightarrow> j < array_size W \<Longrightarrow>
      elt (conv_kernel W') i j = dft2 (array_size W) (array_size W) (full_image_kernel aa w W) j i"
proof -
  define W0 where "W0 = W\<lparr>w_value := w\<rparr>"
  have "full_image_kernel aa w W0 = full_image_kernel aa w W"
    by (intro ext) (simp add: full_image_kernel_def image_value_def Let_def W0_def)
  then have W0: "array_size W0 = array_size W" "wf_kernel_size W0 = wf_kernel_size W" "wf_oversampling W0 = wf_oversampling W"
    "wf_pars W0 = wf_pars W" "truncated_wpconv_support W0 = truncated_wpconv_support W" "wf_r_fft W0 = wf_r_fft W"
    "full_image_kernel aa w W0 = full_image_kernel aa w W"
    by (simp_all add: W0_def)
  obtain W1 K where W1: "generate_image_domain_convolution_kernel env w aa W0 = Inr W1"
    and K: "fft_fftw_c2c (wide_fftw env) (comb_kernel W1) (wf_r_fft W1) True = Inr K"
    and trunc: "truncate_support (W1\<lparr>conv_kernel := K, comb_kernel := reset_cx_mat (comb_kernel W1)\<rparr>) = Inr W'"
    using run hankel unfolding generate_convolution_kernel_wproj_def Let_def W0_def [symmetric] W0
    by (auto split: if_splits sum.splits)
  note half = wide_sizes(5,6) [OF sizes]
  note img = image_domain_kernel_value [OF W1 _ refl, unfolded W0, OF half ranges]
  note t = truncate_support_sizes [OF trunc]
  have "array_size W1 = array_size W" "wf_kernel_size W1 = wf_kernel_size W" "wf_oversampling W1 = wf_oversampling W"
    "wf_pars W1 = wf_pars W" "truncated_wpconv_support W1 = truncated_wpconv_support W"
    by (subst img(4), simp add: W0)+
  then show "same_sizes W W'"
    using t(1) by (auto simp: same_sizes_def)
  have "(\<lambda>i0 i1. elt (comb_kernel W1) i1 i0) = full_image_kernel aa w W"
    unfolding img(3) by (intro ext) (rule full_image_kernel_commute)
  then show "elt (conv_kernel W') i j = dft2 (array_size W) (array_size W) (full_image_kernel aa w W) j i"
    if "i < array_size W" "j < array_size W"
    using c2c_value [OF F K img(1,2) that] t(2) by simp
qed

lemma wide_kernels_even:
  assumes run: "wide_kernels env aa w W = Inr (W', cache, s)" and sizes: "wide_sizes_ok W"
    and F: "c2c_documented (wide_fftw env)" and ranges: "wide_ranges_ok env (wf_kernel_size W)"
  shows "even_cache (wf_oversampling W) cache s" and "s \<le> max_wpconv_support (wf_pars W)" and "same_sizes W W'"
proof -
  have W': "generate_convolution_kernel_wproj env w aa (hankel_proj_slice (wf_pars W)) W = Inr W'"
    "cache = generate_kernel_cache W'" "s = truncated_wpconv_support W'"
    using run by (auto simp: wide_kernels_def split: sum.splits)
  define W0 where "W0 = W\<lparr>w_value := w\<rparr>"
  have W0: "array_size W0 = array_size W" "wf_kernel_size W0 = wf_kernel_size W" "wf_oversampling W0 = wf_oversampling W"
    "wf_pars W0 = wf_pars W" "truncated_wpconv_support W0 = truncated_wpconv_support W" "wf_r_fft W0 = wf_r_fft W"
    by (simp_all add: W0_def)
  have "same_sizes W W' \<and> (\<not> hankel_opt (wf_pars W) \<longrightarrow> even_mat (array_size W) (elt (conv_kernel W')))"
  proof (cases "hankel_opt (wf_pars W)")
    case True
    then obtain x y t W1 q where "RadialInterpolate env (w_interp_type (wf_pars W) = CUBIC) False x y t W0 = Inr (W1, q)"
      and W1: "W' = W1\<lparr>kernel_half_quandrant := q\<rparr>"
      using W'(1) unfolding generate_convolution_kernel_wproj_def Let_def W0_def [symmetric] W0
      by (auto split: if_splits sum.splits)
    then have "same_sizes W0 W1"
      by (intro RadialInterpolate_sizes)
    then show ?thesis
      using True by (simp add: same_sizes_def W1 W0)
  next
    case False
    then show ?thesis
      using wproj_transform [OF W'(1) _ sizes F ranges] dft2_even [OF full_image_kernel_even [OF wide_sizes(5) [OF sizes], of aa w]]
        wide_sizes(2) [OF sizes]
      by (simp add: even_mat_def opp_less)
  qed
  then have sizes': "same_sizes W W'" and conv: "\<not> hankel_opt (wf_pars W) \<Longrightarrow> even_mat (array_size W) (elt (conv_kernel W'))"
    by blast+
  have "wide_sizes_ok W'"
    by (rule same_sizes_ok [OF sizes sizes'])
  then show "even_cache (wf_oversampling W) cache s" "s \<le> max_wpconv_support (wf_pars W)" "same_sizes W W'"
    using generate_kernel_cache_even [of W'] conv sizes' by (auto simp: W'(2,3) same_sizes_def wide_sizes_ok_def)
qed

end
