(* ===== verification/Grid_Visibilities.thy ===== *)
theory Grid_Visibilities
  imports Convolve_Exact Wide_Symmetry
begin

text \<open>
  The function \<^verbatim>\<open>convolve_to_grid\<close> of \<^verbatim>\<open>src/src/stp/gridder/gridder.h\<close>, without
  A-projection: its checks, the selection of its options, the sorting by w, the planes with their kernels, and the gridders.
  Parameters are FFTW, \<^verbatim>\<open>arma::sort_index\<close>, and the schedules of the parallel loops. \<^verbatim>\<open>int\<close> sizes are unbounded here.
\<close>

section \<open>The function\<close>

record gridder_output =
  out_vis_grid :: "complex mat"
  out_sampling_grid :: "complex mat"
  out_sample_total :: real

text \<open>The visibilities in the order of their indices; \<open>good\<close> is 1 everywhere.\<close>

definition reorder :: "nat list \<Rightarrow> vis_data \<Rightarrow> vis_data" where
  "reorder sorted_idxs d = \<lparr>u_lambda = (\<lambda>i. u_lambda d (sorted_idxs ! i)), v_lambda = (\<lambda>i. v_lambda d (sorted_idxs ! i)),
     w_lambda = (\<lambda>i. w_lambda d (sorted_idxs ! i)), vis = (\<lambda>i. vis d (sorted_idxs ! i)), good = (\<lambda>i. 1)\<rparr>"

text \<open>
  What a run depends on besides its arguments: FFTW; the sorting; for each plane the first columns of the subranges of the
  gridding loop over so many columns; the ranges and memory of the loops that make the kernels of a plane, and of the
  matrix of the Hankel transform.
\<close>

record gridder_env =
  grid_fftw :: fftw
  grid_sort_index :: "nat \<Rightarrow> (nat \<Rightarrow> real) \<Rightarrow> nat list"
  grid_rbegins :: "nat \<Rightarrow> nat \<Rightarrow> nat list"
  grid_wide :: "nat \<Rightarrow> wide_env"
  grid_dht_ranges :: "range list"
  grid_dht_mem :: "nat \<Rightarrow> nat \<Rightarrow> real"

definition plane_env :: "gridder_env \<Rightarrow> nat \<Rightarrow> wide_env" where
  "plane_env env pl = (grid_wide env pl)\<lparr>wide_fftw := grid_fftw env\<rparr>"

definition arc_sec_to_rad :: "real \<Rightarrow> real" where
  "arc_sec_to_rad v = v / 3600 * (pi / 180)"

text \<open>
  The size of the working area of the kernels: doubled until \<open>d\<close> parts of it reach the goal. The goal is the size of
  a kernel or, without undersampling, that of the image.
\<close>

function enlarge :: "nat \<Rightarrow> nat \<Rightarrow> nat \<Rightarrow> nat" where
  "enlarge d goal w = (if w div d < goal \<and> d \<noteq> 0 \<and> w \<noteq> 0 then enlarge d goal (w * 2) else w)"
  by pat_completeness auto
termination
proof (relation "measure (\<lambda>(d, goal, w). goal * d - w)")
  fix d goal w :: nat
  assume *: "w div d < goal \<and> d \<noteq> 0 \<and> w \<noteq> 0"
  have "w < goal * d"
  proof (rule ccontr)
    assume "\<not> w < goal * d"
    then have "goal * d div d \<le> w div d"
      by (intro div_le_mono) simp
    with * show False
      by simp
  qed
  with * show "((d, goal, w * 2), d, goal, w) \<in> measure (\<lambda>(d, goal, w). goal * d - w)"
    by (simp add: diff_less_mono2)
qed simp

declare enlarge.simps [simp del]

definition workarea_size :: "w_projection_pars \<Rightarrow> nat \<Rightarrow> nat \<Rightarrow> nat" where
  "workarea_size wp N conv_sup =
     (let undersampling = (if undersampling_opt wp > 0 then 2 ^ (undersampling_opt wp - 1) else 0)
      in if undersampling > 0 then enlarge undersampling (conv_sup * 2 + 1) 2 else enlarge 1 N 2)"

text \<open>
  The w-planes, with the kernels of their average w; the object of the kernels goes from plane to plane. The code grids a
  plane before it goes on to the next one.
\<close>

fun wide_planes ::
  "gridder_env \<Rightarrow> real list \<Rightarrow> nat \<Rightarrow> nat \<Rightarrow> w_planes \<Rightarrow> nat list \<Rightarrow> wide_field \<Rightarrow> fft_error + grid_plane list"
where
  "wide_planes env aa n nplanes st [] W = Inr []"
| "wide_planes env aa n nplanes st (pl # pls) W =
     (case wide_kernels (plane_env env pl) aa (w_avg_values st pl) W of
        Inl e \<Rightarrow> Inl e
      | Inr (W', cache, trunc_support) \<Rightarrow>
          if trunc_support = 0 then Inl Assertion_failed
          else (case wide_planes env aa n nplanes st pls W' of
              Inl e \<Rightarrow> Inl e
            | Inr planes \<Rightarrow> Inr (\<lparr>vi_begin = w_planes_firstidx st pl,
                vi_end = (if pl = nplanes - 1 then n else w_planes_firstidx st (pl + 1)),
                plane_cache = cache, plane_support = trunc_support\<rparr> # planes)))"

text \<open>The planes of the oversampled gridder; without W-projection there is one, and its object is not used.\<close>

definition oversampled_planes ::
  "gridder_env \<Rightarrow> kernel_creator \<Rightarrow> nat \<Rightarrow> nat \<Rightarrow> nat \<Rightarrow> nat \<Rightarrow> w_projection_pars \<Rightarrow> real \<Rightarrow> bool \<Rightarrow> fft_routine \<Rightarrow> vis_arrays \<Rightarrow>
   fft_error + grid_plane list"
where
  "oversampled_planes env creator support N n os wp cell analytic routine A =
     (if w_enabled wp then
        let st = average_w_planes n (\<lambda>i. \<bar>w_values A i\<bar>) (good_vis A) (num_wplanes wp) (wplanes_median wp);
            workarea = workarea_size wp N (max_wpconv_support wp);
            scaling_factor = real N / real workarea
        in (case ImgDomKernel (grid_fftw env) creator workarea False analytic routine of
              Inl e \<Rightarrow> Inl e
            | Inr aa \<Rightarrow>
            (case WideFieldImaging (grid_dht_ranges env) (grid_dht_mem env) workarea (arc_sec_to_rad cell) os scaling_factor wp routine of
               Inl e \<Rightarrow> Inl e
             | Inr W \<Rightarrow> wide_planes env aa n (num_wplanes wp) st [0..<num_wplanes wp] W))
      else
        (case WideFieldImaging (grid_dht_ranges env) (grid_dht_mem env) N (arc_sec_to_rad cell) os 1 wp routine of
           Inl e \<Rightarrow> Inl e
         | Inr W \<Rightarrow> Inr [\<lparr>vi_begin = 0, vi_end = n, plane_cache = populate_kernel_cache (kernel_fun creator) support os False True,
             plane_support = support\<rparr>]))"

text \<open>The grids as matrices; no sampling grid if the beam is not wanted.\<close>

definition grid_mats :: "int \<Rightarrow> int \<Rightarrow> bool \<Rightarrow> real \<Rightarrow> grids \<Rightarrow> gridder_output" where
  "grid_mats N rows beam total_weight Gs =
     \<lparr>out_vis_grid = \<lparr>n_rows = nat rows, n_cols = nat N, elt = fst Gs\<rparr>,
      out_sampling_grid = \<lparr>n_rows = if beam then nat rows else 0, n_cols = if beam then nat N else 0, elt = snd Gs\<rparr>,
      out_sample_total = total_weight\<rparr>"

definition convolve_to_grid ::
  "gridder_env \<Rightarrow> bool \<Rightarrow> kernel_creator \<Rightarrow> nat \<Rightarrow> nat \<Rightarrow> nat \<Rightarrow> vis_data \<Rightarrow> (nat \<Rightarrow> real) \<Rightarrow>
   bool \<Rightarrow> nat \<Rightarrow> bool \<Rightarrow> bool \<Rightarrow> w_projection_pars \<Rightarrow> real \<Rightarrow> bool \<Rightarrow> fft_routine \<Rightarrow> fft_error + gridder_output"
where
  "convolve_to_grid env beam creator support N n d weights exact os shift_uv halfplane wp cell analytic routine =
     (let use_wproj = w_enabled wp;
          conv_sup = (if use_wproj then max_wpconv_support wp else support);
          exact' = (if use_wproj then False else exact);
          os' = even_oversampling exact' os;
          sorted_idxs = (if use_wproj then grid_sort_index env n (\<lambda>i. \<bar>w_lambda d i\<bar>) else [0..<n]);
          d' = reorder sorted_idxs (if use_wproj then d else d\<lparr>w_lambda := (\<lambda>i. 0)\<rparr>);
          weights' = (\<lambda>i. weights (sorted_idxs ! i));
          (A, fracs) = prepare_visibilities use_wproj halfplane shift_uv n (int N) conv_sup os' d' weights';
          rows = (if halfplane then int N div 2 + 1 else int N)
      in if \<not> (exact \<or> os \<ge> 1) \<or> N mod 2 \<noteq> 0 \<or> conv_sup = 0 then Inl Assertion_failed
         else if exact' then
           Inr (grid_mats (int N) rows beam (sample_grid_total n A)
             (exact_gridder (grid_pars.make (int N) rows conv_sup beam) (exact_vis_points (kernel_fun creator) conv_sup (int N) A fracs n)
               (\<lambda>r c. 0, \<lambda>r c. 0)))
         else
           (case oversampled_planes env creator support N n os' wp cell analytic routine A of
              Inl e \<Rightarrow> Inl e
            | Inr planes \<Rightarrow> Inr (grid_mats (int N) rows beam (sample_grid_total n A)
                (grid_planes (int N) rows beam os' use_wproj (\<lambda>pl. grid_rbegins env pl (2 * plane_support (planes ! pl) + 1)) A planes))))"

section \<open>Its grids\<close>

text \<open>
  The specification, without projections: the kernels of all visibilities in bounds and of their conjugates, on the
  torus of the whole plane, with exact or oversampled kernels.
\<close>

definition whole_grid ::
  "bool \<Rightarrow> (real \<Rightarrow> real) \<Rightarrow> nat \<Rightarrow> int \<Rightarrow> nat \<Rightarrow> nat \<Rightarrow> (nat \<Rightarrow> visibility) \<Rightarrow> (nat \<Rightarrow> real) \<Rightarrow> nat \<Rightarrow> nat \<Rightarrow> complex"
where
  "whole_grid exact kern support N n os q weights r c =
     (\<Sum>vi \<leftarrow> [0..<n].
        if centre_in_bounds N support (q vi) then
          of_real (weights vi) * sym_term N
            (if exact then exact_kernel kern support
             else vis_kernel (even_oversampling False os) False
               (populate_kernel_cache kern support (even_oversampling False os) False True))
            support (q vi) r c
        else 0)"

lemma even_oversampling_ok: "oversampling_ok (even_oversampling exact os)"
  by (auto simp: even_oversampling_def oversampling_ok_def Let_def)

lemma whole_grid_exact: "whole_grid True kern s N n os q weights r c = exact_sum N s kern n q weights r c"
  by (simp add: whole_grid_def exact_sum_def)

lemma whole_grid_oversampled:
  "whole_grid False kern s N n os q weights r c =
    grid_sum N s (even_oversampling False os) False
      [\<lparr>vi_begin = 0, vi_end = n, plane_cache = populate_kernel_cache kern s (even_oversampling False os) False True,
        plane_support = s\<rparr>] q weights r c"
  by (simp add: whole_grid_def grid_sum_def cong: if_cong)

lemma whole_grid_opposite:
  assumes "even_kernel kern" and "int r < N" and "int c < N"
  shows "whole_grid exact kern s N n os q weights (opposite N r) (opposite N c) = cnj (whole_grid exact kern s N n os q weights r c)"
proof (cases exact)
  case True
  then show ?thesis
    using exact_sum_opposite [OF assms] by (simp add: whole_grid_exact)
next
  case False
  then have "exact = False"
    by simp
  show ?thesis
    unfolding \<open>exact = False\<close> whole_grid_oversampled
    by (intro grid_sum_opposite [OF _ assms(2,3)])
      (simp add: populate_kernel_cache_mirrored [OF assms(1) even_oversampling_ok, unfolded mirrored_cache_def mirrored_kernels_def] del: split_paired_All)
qed

lemma sample_grid_total_value:
  assumes "even N" and "\<forall>i < n. good d i = 1"
    and A: "(A, fracs) = prepare_visibilities use_wproj True True n N support os d weights"
  shows "sample_grid_total n A = 2 * (\<Sum>i \<leftarrow> [0..<n]. if centre_in_bounds N support (vis_of d i) then weights i else 0)"
proof -
  have prep: "prepared N support os use_wproj A i (oriented (vis_of d i)) (weights i)" if "i < n" for i
    using prepare_visibilities_prepared [OF assms(1) that _ A] assms(2) that by blast
  have good: "good_vis A i \<noteq> 0 \<longleftrightarrow> centre_in_bounds N support (vis_of d i)" "vis_weights A i = weights i" if "i < n" for i
    using prep [OF that] by (auto simp: prepared_def centre_in_bounds_oriented split: prod.splits if_splits)
  have "fold (\<lambda>i t. if good_vis A i \<noteq> 0 then t + vis_weights A i else t) xs t =
      t + (\<Sum>i \<leftarrow> xs. if good_vis A i \<noteq> 0 then vis_weights A i else 0)" for xs t
    by (induction xs arbitrary: t) (simp_all add: algebra_simps)
  then have "sample_grid_total n A = 2 * (\<Sum>i \<leftarrow> [0..<n]. if good_vis A i \<noteq> 0 then vis_weights A i else 0)"
    by (simp add: sample_grid_total_def)
  also have "\<dots> = 2 * (\<Sum>i \<leftarrow> [0..<n]. if centre_in_bounds N support (vis_of d i) then weights i else 0)"
    using good by (intro arg_cong [where f = "\<lambda>x. 2 * sum_list x"] map_cong refl) auto
  finally show ?thesis .
qed

section \<open>The kernels of W-projection\<close>

lemma enlarge_ok:
  assumes "0 < d" and "0 < w"
  shows "goal \<le> enlarge d goal w div d \<and> (even w \<longrightarrow> even (enlarge d goal w)) \<and> w \<le> enlarge d goal w"
  using assms
proof (induction d goal w rule: enlarge.induct)
  case (1 d goal w)
  show ?case
  proof (cases "w div d < goal")
    case True
    then have "enlarge d goal w = enlarge d goal (w * 2)"
      using 1 by (subst enlarge.simps) simp
    then show ?thesis
      using 1 True by simp
  next
    case False
    then have "enlarge d goal w = w"
      by (subst enlarge.simps) simp
    then show ?thesis
      using False by simp
  qed
qed

text \<open>The working area is even, and holds the largest kernel.\<close>

lemma workarea_size_ok:
  assumes "2 * s \<le> N"
  shows "even (workarea_size wp N s)" and "0 < workarea_size wp N s" and "2 * s \<le> workarea_size wp N s"
proof -
  obtain d goal where W: "workarea_size wp N s = enlarge d goal 2" and d: "0 < d" and goal: "2 * s \<le> goal"
  proof (cases "undersampling_opt wp > 0")
    case True
    then show ?thesis
      using that [of "2 ^ (undersampling_opt wp - 1)" "s * 2 + 1"] by (simp add: workarea_size_def)
  next
    case False
    then show ?thesis
      using that [of 1 N] assms by (simp add: workarea_size_def)
  qed
  note ok = enlarge_ok [of d 2 goal, OF d]
  have "enlarge d goal 2 div d \<le> enlarge d goal 2"
    by (rule div_le_dividend)
  then have "goal \<le> enlarge d goal 2"
    using ok by linarith
  with ok goal show "even (workarea_size wp N s)" "0 < workarea_size wp N s" "2 * s \<le> workarea_size wp N s"
    unfolding W by simp_all
qed

lemma WideFieldImaging_sizes_ok:
  assumes "WideFieldImaging rs uninit ks c os scaling wp routine = Inr W"
    and "even ks" and "0 < ks" and "2 * max_wpconv_support wp \<le> ks" and "0 < os" and "ks * os < 2 ^ 60"
  shows "wide_sizes_ok W" and "wf_oversampling W = os" and "wf_kernel_size W = ks" and "wf_pars W = wp"
    and "truncated_wpconv_support W = max_wpconv_support wp" and "wf_r_fft W = (if ks * os < 4 then FFTW_ESTIMATE_FFT else routine)"
    and "array_size W = ks * os"
    and "hankel_opt wp \<Longrightarrow> \<not> hankel_proj_slice wp \<Longrightarrow> hankel_radius_points W = map real [0..<array_size W div 2]"
proof -
  obtain k where k: "ks = 2 * k"
    using assms(2) by (rule evenE)
  then have "max_wpconv_support wp * os \<le> ks * os div 2"
    using assms(4) by simp
  then show "wide_sizes_ok W"
    using assms by (auto simp: WideFieldImaging_def wide_sizes_ok_def Let_def split: if_splits)
qed (use assms in \<open>auto simp: WideFieldImaging_def Let_def generate_hankel_radius_points_def split: if_splits\<close>)

definition plane_bounds :: "nat \<Rightarrow> nat \<Rightarrow> w_planes \<Rightarrow> nat \<Rightarrow> nat \<times> nat" where
  "plane_bounds n m st pl = (w_planes_firstidx st pl, if pl = m - 1 then n else w_planes_firstidx st (pl + 1))"

text \<open>
  The planes lie as \<^verbatim>\<open>average_w_planes\<close> says, and their kernels are not larger than the largest support, and even.
\<close>

lemma wide_planes_props:
  assumes "wide_planes env aa n m st pls W = Inr planes" and "wide_sizes_ok W" and "c2c_documented (grid_fftw env)"
    and "\<And>pl. wide_ranges_ok (grid_wide env pl) (wf_kernel_size W)"
  shows "(\<forall>p \<in> set planes. even_cache (wf_oversampling W) (plane_cache p) (plane_support p) \<and>
      plane_support p \<le> max_wpconv_support (wf_pars W)) \<and>
    map (\<lambda>p. (vi_begin p, vi_end p)) planes = map (plane_bounds n m st) pls"
  using assms
proof (induction pls arbitrary: W planes)
  case (Cons pl pls)
  obtain W' cache s rest where run: "wide_kernels (plane_env env pl) aa (w_avg_values st pl) W = Inr (W', cache, s)"
    and rest: "wide_planes env aa n m st pls W' = Inr rest"
    and planes: "planes = \<lparr>vi_begin = w_planes_firstidx st pl, vi_end = (if pl = m - 1 then n else w_planes_firstidx st (pl + 1)),
      plane_cache = cache, plane_support = s\<rparr> # rest"
    using Cons.prems(1) by (auto split: sum.splits if_splits)
  have env: "c2c_documented (wide_fftw (plane_env env pl))" "wide_ranges_ok (plane_env env pl) (wf_kernel_size W)"
    using Cons.prems(3,4) by (simp_all add: plane_env_def wide_ranges_ok_def)
  note even = wide_kernels_even [OF run Cons.prems(2) env]
  have W': "wf_kernel_size W' = wf_kernel_size W" "wf_oversampling W' = wf_oversampling W" "wf_pars W' = wf_pars W"
    using even(3) unfolding same_sizes_def by blast+
  note IH = Cons.IH [OF rest same_sizes_ok [OF Cons.prems(2) even(3)] Cons.prems(3), unfolded W', OF Cons.prems(4)]
  show ?case
    using IH even(1,2) by (simp add: planes plane_bounds_def)
qed simp

text \<open>An even cache is mirrored at visibilities with a w: one of them and its conjugate takes the conjugate kernels.\<close>

lemma even_cache_mirrored:
  assumes even: "even_cache os cache s" and w: "w \<noteq> 0"
  shows "mirrored_at (vis_kernel os True cache) s (u, v, w, V)"
  unfolding mirrored_at_def
proof (intro allI impI)
  fix i j
  assume ij: "i < 2 * s + 1" "j < 2 * s + 1"
  let ?idx = "\<lambda>x. calculate_oversampled_kernel_index os (uv_frac x)"
  let ?a = "\<lambda>x. nat (?idx x + int (os div 2))"
  have range: "- int (os div 2) \<le> ?idx x" "?idx x \<le> int (os div 2)" for x
    using oversampled_index_range by blast+
  have a: "?a x \<le> 2 * (os div 2)" "?a (- x) = 2 * (os div 2) - ?a x" for x
    using range [of x] by (auto simp: uv_frac_minus oversampled_index_minus)
  have "cache (?a (- v)) (?a (- u)) (2 * s - i) (2 * s - j) = cache (?a v) (?a u) i j"
    using even a(1) ij unfolding even_cache_def a(2) by blast
  then show "vis_kernel os True cache (conjugate_vis (u, v, w, V)) (2 * s - i) (2 * s - j) = cnj (vis_kernel os True cache (u, v, w, V) i j)"
    using w by (auto simp: vis_kernel_def conjugate_vis_def Let_def)
qed


section \<open>The grids of a run\<close>

lemma upt_nth_reorder: "i < n \<Longrightarrow> vis_of (reorder [0..<n] d) i = vis_of d i"
  by (simp add: vis_of_def reorder_def)

text \<open>The sums only read the first \<open>n\<close> visibilities.\<close>

lemma whole_grid_cong:
  assumes "\<And>i. i < n \<Longrightarrow> q i = q' i" and "\<And>i. i < n \<Longrightarrow> wt i = wt' i"
  shows "whole_grid exact kern s N n os q wt r c = whole_grid exact kern s N n os q' wt' r c"
  unfolding whole_grid_def using assms by (intro arg_cong [where f = sum_list] map_cong refl) simp

text \<open>Every subrange of the gridding loop is one column, and all are run, in any order.\<close>

definition threads_ok :: "gridder_env \<Rightarrow> bool" where
  "threads_ok env \<longleftrightarrow> (\<forall>pl m. mset (grid_rbegins env pl m) = mset [0..<m])"

definition sorted_by_w :: "gridder_env \<Rightarrow> nat \<Rightarrow> vis_data \<Rightarrow> nat list" where
  "sorted_by_w env n d = grid_sort_index env n (\<lambda>i. \<bar>w_lambda d i\<bar>)"

lemma convolve_to_grid_exact_run:
  assumes "\<not> w_enabled wp" and "d' = reorder [0..<n] (d\<lparr>w_lambda := (\<lambda>i. 0)\<rparr>)" and "weights' = (\<lambda>i. weights ([0..<n] ! i))"
    and "(A, fracs) = prepare_visibilities False True True n (int N) support (even_oversampling exact os) d' weights'"
  shows "convolve_to_grid env beam creator support N n d weights exact os True True wp cell analytic routine =
    (if \<not> (exact \<or> os \<ge> 1) \<or> N mod 2 \<noteq> 0 \<or> support = 0 then Inl Assertion_failed
     else if exact then Inr (grid_mats (int N) (int N div 2 + 1) beam (sample_grid_total n A)
       (exact_gridder (grid_pars.make (int N) (int N div 2 + 1) support beam)
         (exact_vis_points (kernel_fun creator) support (int N) A fracs n) (\<lambda>r c. 0, \<lambda>r c. 0)))
     else case oversampled_planes env creator support N n (even_oversampling exact os) wp cell analytic routine A of
         Inl e \<Rightarrow> Inl e
       | Inr planes \<Rightarrow> Inr (grid_mats (int N) (int N div 2 + 1) beam (sample_grid_total n A)
           (grid_planes (int N) (int N div 2 + 1) beam (even_oversampling exact os) False
             (\<lambda>pl. grid_rbegins env pl (2 * plane_support (planes ! pl) + 1)) A planes)))"
proof -
  have wp: "w_enabled wp = False"
    using assms(1) by simp
  show ?thesis
    by (simp only: convolve_to_grid_def Let_def wp if_False if_True assms(2) [symmetric] assms(3) [symmetric] assms(4) [symmetric] prod.case)
qed

lemma convolve_to_grid_wide_run:
  assumes "w_enabled wp" and "d' = reorder (sorted_by_w env n d) d" and "weights' = (\<lambda>i. weights (sorted_by_w env n d ! i))"
    and "(A, fracs) = prepare_visibilities True True True n (int N) (max_wpconv_support wp) (even_oversampling False os) d' weights'"
  shows "convolve_to_grid env beam creator support N n d weights exact os True True wp cell analytic routine =
    (if \<not> (exact \<or> os \<ge> 1) \<or> N mod 2 \<noteq> 0 \<or> max_wpconv_support wp = 0 then Inl Assertion_failed
     else case oversampled_planes env creator support N n (even_oversampling False os) wp cell analytic routine A of
         Inl e \<Rightarrow> Inl e
       | Inr planes \<Rightarrow> Inr (grid_mats (int N) (int N div 2 + 1) beam (sample_grid_total n A)
           (grid_planes (int N) (int N div 2 + 1) beam (even_oversampling False os) True
             (\<lambda>pl. grid_rbegins env pl (2 * plane_support (planes ! pl) + 1)) A planes)))"
proof -
  have wp: "w_enabled wp = True"
    using assms(1) by simp
  show ?thesis
    by (simp only: convolve_to_grid_def Let_def wp if_False if_True sorted_by_w_def [symmetric] assms(2) [symmetric] assms(3) [symmetric]
        assms(4) [symmetric] prod.case)
qed

text \<open>Without W-projection the grids are those of the specification.\<close>

lemma convolve_to_grid_value:
  assumes run: "convolve_to_grid env beam creator support N n d weights exact os True True wp cell analytic routine = Inr out"
    and wp: "\<not> w_enabled wp" and threads: "threads_ok env"
    and q_def: "q = vis_of (d\<lparr>w_lambda := (\<lambda>i. 0)\<rparr>)"
  shows "\<exists>Gs. out = grid_mats (int N) (int N div 2 + 1) beam
      (2 * (\<Sum>i \<leftarrow> [0..<n]. if centre_in_bounds (int N) support (q i) then weights i else 0)) Gs \<and>
    (\<forall>r c. int r \<le> int N div 2 \<longrightarrow> c < N \<longrightarrow>
      fst Gs r c = whole_grid exact (kernel_fun creator) support (int N) n os q weights r c \<and>
      snd Gs r c = (if beam then whole_grid exact (kernel_fun creator) support (int N) n os (unit_vis \<circ> q) weights r c else 0))"
proof -
  define d' where "d' = reorder [0..<n] (d\<lparr>w_lambda := (\<lambda>i. 0)\<rparr>)"
  define weights' where "weights' = (\<lambda>i. weights ([0..<n] ! i))"
  define os' where "os' = even_oversampling exact os"
  obtain A fracs where A: "(A, fracs) = prepare_visibilities False True True n (int N) support os' d' weights'"
    by (metis surj_pair)
  let ?pl = "\<lparr>vi_begin = 0, vi_end = n, plane_cache = populate_kernel_cache (kernel_fun creator) support os' False True,
    plane_support = support\<rparr>"
  let ?kern = "kernel_fun creator" and ?P = "grid_pars.make (int N) (int N div 2 + 1) support beam"
  define Gs where "Gs = (if exact then exact_gridder ?P (exact_vis_points ?kern support (int N) A fracs n) (\<lambda>r c. 0, \<lambda>r c. 0)
     else grid_planes (int N) (int N div 2 + 1) beam os' False (\<lambda>pl. grid_rbegins env pl (2 * plane_support ([?pl] ! pl) + 1)) A [?pl])"
  have planes: "planes = [?pl]" if "oversampled_planes env creator support N n os' wp cell analytic routine A = Inr planes" for planes
    using that wp by (auto simp: oversampled_planes_def split: sum.splits)
  note eqs = run [unfolded convolve_to_grid_exact_run [OF wp d'_def weights'_def A [unfolded os'_def]], folded os'_def]
  have N: "even (int N)" and out: "out = grid_mats (int N) (int N div 2 + 1) beam (sample_grid_total n A) Gs"
    using eqs planes by (auto simp: Gs_def even_iff_mod_2_eq_zero split: if_splits sum.splits)
  have good: "\<forall>i < n. good d' i = 1"
    by (simp add: d'_def reorder_def)
  have q: "vis_of d' i = q i" "(unit_vis \<circ> vis_of d') i = (unit_vis \<circ> q) i" "weights' i = weights i" if "i < n" for i
    using that by (simp_all add: d'_def q_def upt_nth_reorder weights'_def)
  have P: "grid_pars.image_size ?P = int N" "image_rows ?P = int N div 2 + 1" "conv_support ?P = support" "generate_beam_grid ?P = beam"
    by (simp_all add: grid_pars.defs)
  have grids: "fst Gs r c = whole_grid exact ?kern support (int N) n os (vis_of d') weights' r c \<and>
      snd Gs r c = (if beam then whole_grid exact ?kern support (int N) n os (unit_vis \<circ> vis_of d') weights' r c else 0)"
    if rc: "int r \<le> int N div 2" "int c < int N" for r c
  proof (cases exact)
    case True
    then show ?thesis
      using exact_halfplane_grid [OF N good A rc P(1-3), of ?kern] unfolding Gs_def P(4) by (simp add: whole_grid_exact)
  next
    case False
    have "plane_ok n support ?pl"
      by (simp add: plane_ok_def)
    then show ?thesis
      using halfplane_grid [OF N _ good A _ _ rc, of "[?pl]" "\<lambda>pl. grid_rbegins env pl (2 * plane_support ([?pl] ! pl) + 1)" beam] threads False even_oversampling_ok [of exact os]
      unfolding Gs_def os'_def threads_ok_def by (simp add: whole_grid_oversampled)
  qed
  have vals: "whole_grid exact ?kern support (int N) n os (vis_of d') weights' r c = whole_grid exact ?kern support (int N) n os q weights r c"
    "whole_grid exact ?kern support (int N) n os (unit_vis \<circ> vis_of d') weights' r c =
      whole_grid exact ?kern support (int N) n os (unit_vis \<circ> q) weights r c" for r c
    by (rule whole_grid_cong; simp only: q)+
  have "sample_grid_total n A = 2 * (\<Sum>i \<leftarrow> [0..<n]. if centre_in_bounds (int N) support (vis_of d' i) then weights' i else 0)"
    by (rule sample_grid_total_value [OF N good A])
  also have "\<dots> = 2 * (\<Sum>i \<leftarrow> [0..<n]. if centre_in_bounds (int N) support (q i) then weights i else 0)"
    using q by (intro arg_cong [where f = "\<lambda>x. 2 * sum_list x"] map_cong refl) auto
  finally show ?thesis
    using out grids unfolding vals by (intro exI [of _ Gs]) simp
qed

text \<open>The function returns when its checks hold; without W-projection no other is made.\<close>

lemma convolve_to_grid_returns:
  assumes "even N" and "support \<noteq> 0" and "exact \<or> os \<ge> 1" and "\<not> w_enabled wp"
  shows "\<exists>out. convolve_to_grid env beam creator support N n d weights exact os True True wp cell analytic routine = Inr out"
proof -
  obtain A fracs where A: "(A, fracs) = prepare_visibilities False True True n (int N) support (even_oversampling exact os)
      (reorder [0..<n] (d\<lparr>w_lambda := (\<lambda>i. 0)\<rparr>)) (\<lambda>i. weights ([0..<n] ! i))"
    by (metis surj_pair)
  have "\<exists>planes. oversampled_planes env creator support N n os' wp cell analytic routine A = Inr planes" for os'
    using assms(1,4) by (simp add: oversampled_planes_def WideFieldImaging_def Let_def)
  then show ?thesis
    unfolding convolve_to_grid_exact_run [OF assms(4) refl refl A] using assms(1-3)
    by (metis (lifting) even_iff_mod_2_eq_zero sum.simps(6))
qed

section \<open>The grids of a run with W-projection\<close>

text \<open>What the kernels need of the sizes and the schedules.\<close>

definition wide_run_ok :: "gridder_env \<Rightarrow> w_projection_pars \<Rightarrow> nat \<Rightarrow> nat \<Rightarrow> bool" where
  "wide_run_ok env wp N os \<longleftrightarrow>
     (let workarea = workarea_size wp N (max_wpconv_support wp)
      in 2 * max_wpconv_support wp \<le> N \<and> workarea * even_oversampling False os < 2 ^ 60 \<and>
         (\<forall>pl. wide_ranges_ok (grid_wide env pl) workarea))"

lemma oversampled_planes_wide:
  assumes run: "oversampled_planes env creator support N n (even_oversampling False os) wp cell analytic routine A = Inr planes"
    and wp: "w_enabled wp" and ok: "wide_run_ok env wp N os" and F: "c2c_documented (grid_fftw env)"
    and st: "st = average_w_planes n (\<lambda>i. \<bar>w_values A i\<bar>) (good_vis A) (num_wplanes wp) (wplanes_median wp)"
  shows "\<forall>p \<in> set planes. even_cache (even_oversampling False os) (plane_cache p) (plane_support p) \<and>
      plane_support p \<le> max_wpconv_support wp"
    and "map (\<lambda>p. (vi_begin p, vi_end p)) planes = map (plane_bounds n (num_wplanes wp) st) [0..<num_wplanes wp]"
proof -
  define workarea where "workarea = workarea_size wp N (max_wpconv_support wp)"
  have bounds: "2 * max_wpconv_support wp \<le> N" "workarea * even_oversampling False os < 2 ^ 60"
    and ranges: "\<And>pl. wide_ranges_ok (grid_wide env pl) workarea"
    using ok by (simp_all add: wide_run_ok_def workarea_def Let_def)
  obtain aa W where W: "WideFieldImaging (grid_dht_ranges env) (grid_dht_mem env) workarea (arc_sec_to_rad cell)
        (even_oversampling False os) (real N / real workarea) wp routine = Inr W"
    and planes: "wide_planes env aa n (num_wplanes wp) st [0..<num_wplanes wp] W = Inr planes"
    using run wp unfolding oversampled_planes_def Let_def workarea_def st by (auto split: sum.splits)
  have "0 < even_oversampling False os"
    by (simp add: even_oversampling_def Let_def)
  note sizes = WideFieldImaging_sizes_ok [OF W workarea_size_ok [OF bounds(1), of wp, folded workarea_def] this bounds(2)]
  note props = wide_planes_props [OF planes sizes(1) F, unfolded sizes(2-4), OF ranges]
  show "\<forall>p \<in> set planes. even_cache (even_oversampling False os) (plane_cache p) (plane_support p) \<and>
      plane_support p \<le> max_wpconv_support wp"
    "map (\<lambda>p. (vi_begin p, vi_end p)) planes = map (plane_bounds n (num_wplanes wp) st) [0..<num_wplanes wp]"
    using props by blast+
qed

text \<open>The planes hold every visibility once, in order.\<close>

lemma oversampled_planes_partition:
  assumes "oversampled_planes env creator support N n (even_oversampling False os) wp cell analytic routine A = Inr planes"
    and "w_enabled wp" and "wide_run_ok env wp N os" and "c2c_documented (grid_fftw env)" and "0 < num_wplanes wp"
  shows "concat (map (\<lambda>p. [vi_begin p..<vi_end p]) planes) = [0..<n]"
proof -
  define st where "st = average_w_planes n (\<lambda>i. \<bar>w_values A i\<bar>) (good_vis A) (num_wplanes wp) (wplanes_median wp)"
  have "map (\<lambda>p. [vi_begin p..<vi_end p]) planes = map (\<lambda>(b, e). [b..<e]) (map (\<lambda>p. (vi_begin p, vi_end p)) planes)"
    by simp
  also have "\<dots> = map (plane_vis n (num_wplanes wp) st) [0..<num_wplanes wp]"
    unfolding oversampled_planes_wide(2) [OF assms(1-4) st_def] by (simp add: plane_bounds_def plane_vis_def)
  finally show ?thesis
    using plane_vis_partition [OF conjunct1 [OF average_w_planes_inv] assms(5)] by (simp only: st_def)
qed

text \<open>No plane ends behind the visibilities.\<close>

lemma plane_bounds_le:
  assumes "st = average_w_planes n w gvis m use_median" and "pl < m"
  shows "snd (plane_bounds n m st pl) \<le> n"
proof -
  have inv: "planes_inv n gvis m st"
    using average_w_planes_inv assms(1) by blast
  have le: "bound m st j \<le> bound m st m" if "j \<le> m" for j
    using that
  proof (induction rule: inc_induct)
    case (step k)
    then show ?case
      using inv by (auto simp: planes_inv_def intro: order_trans)
  qed simp
  have end_le: "bound m st m \<le> n"
    using inv by (simp add: bound_def planes_inv_def)
  show ?thesis
  proof (cases "pl = m - 1")
    case False
    then have "bound m st (pl + 1) = w_planes_firstidx st (pl + 1)" "pl + 1 \<le> m"
      using assms(2) by (auto simp: bound_def)
    then show ?thesis
      using le [of "pl + 1"] end_le False by (simp add: plane_bounds_def)
  qed (simp add: plane_bounds_def)
qed

text \<open>The Hermitian symmetry of the whole grid needs visibilities with a w.\<close>

lemma wide_grid_opposite:
  assumes "\<forall>p \<in> set planes. even_cache os (plane_cache p) (plane_support p)"
    and "\<forall>p \<in> set planes. vi_end p \<le> n"
    and "\<And>i. i < n \<Longrightarrow> centre_in_bounds N s (q i) \<Longrightarrow> fst (snd (snd (q i))) \<noteq> 0"
    and "int r < N" and "int c < N"
  shows "grid_sum N s os True planes q weights (opposite N r) (opposite N c) = cnj (grid_sum N s os True planes q weights r c)"
proof (rule grid_sum_opposite [OF _ assms(4,5)])
  fix pl vi
  assume *: "pl \<in> set planes" "vi < vi_end pl" "centre_in_bounds N s (q vi)"
  obtain u v w V where q: "q vi = (u, v, w, V)"
    by (metis surj_pair)
  have "vi < n" "even_cache os (plane_cache pl) (plane_support pl)"
    using *(1,2) assms(1,2) by fastforce+
  then show "mirrored_at (vis_kernel os True (plane_cache pl)) (plane_support pl) (q vi)"
    unfolding q by (rule_tac even_cache_mirrored) (use assms(3) [of vi] *(3) q in simp_all)
qed

lemma convolve_to_grid_wide:
  assumes run: "convolve_to_grid env beam creator support N n d weights exact os True True wp cell analytic routine = Inr out"
    and wp: "w_enabled wp" and threads: "threads_ok env" and ok: "wide_run_ok env wp N os" and F: "c2c_documented (grid_fftw env)"
    and q_def: "q = vis_of (reorder (sorted_by_w env n d) d)"
    and weights'_def: "weights' = (\<lambda>i. weights (sorted_by_w env n d ! i))"
    and A: "(A, fracs) = prepare_visibilities True True True n (int N) (max_wpconv_support wp) (even_oversampling False os)
      (reorder (sorted_by_w env n d) d) weights'"
    and st: "st = average_w_planes n (\<lambda>i. \<bar>w_values A i\<bar>) (good_vis A) (num_wplanes wp) (wplanes_median wp)"
  obtains planes Gs where
    "oversampled_planes env creator support N n (even_oversampling False os) wp cell analytic routine A = Inr planes"
    and "\<forall>p \<in> set planes. even_cache (even_oversampling False os) (plane_cache p) (plane_support p) \<and> vi_end p \<le> n"
    and "out = grid_mats (int N) (int N div 2 + 1) beam
      (2 * (\<Sum>i \<leftarrow> [0..<n]. if centre_in_bounds (int N) (max_wpconv_support wp) (q i) then weights' i else 0)) Gs"
    and "\<forall>r c. int r \<le> int N div 2 \<longrightarrow> c < N \<longrightarrow>
      fst Gs r c = grid_sum (int N) (max_wpconv_support wp) (even_oversampling False os) True planes q weights' r c \<and>
      snd Gs r c = (if beam then grid_sum (int N) (max_wpconv_support wp) (even_oversampling False os) True planes (unit_vis \<circ> q) weights' r c
        else 0)"
proof -
  note run' = run [unfolded convolve_to_grid_wide_run [OF wp refl weights'_def A]]
  obtain planes where planes: "oversampled_planes env creator support N n (even_oversampling False os) wp cell analytic routine A = Inr planes"
    using run' by (auto split: if_splits sum.splits)
  define Gs where "Gs = grid_planes (int N) (int N div 2 + 1) beam (even_oversampling False os) True
    (\<lambda>pl. grid_rbegins env pl (2 * plane_support (planes ! pl) + 1)) A planes"
  have N: "even (int N)" and out: "out = grid_mats (int N) (int N div 2 + 1) beam (sample_grid_total n A) Gs"
    using run' unfolding planes sum.case Gs_def by (auto simp: even_iff_mod_2_eq_zero split: if_splits)
  note props = oversampled_planes_wide [OF planes wp ok F st]
  have le: "vi_end p \<le> n" if "p \<in> set planes" for p
  proof -
    have "(vi_begin p, vi_end p) \<in> set (map (\<lambda>p. (vi_begin p, vi_end p)) planes)"
      using that by simp
    then obtain pl where "pl < num_wplanes wp" "(vi_begin p, vi_end p) = plane_bounds n (num_wplanes wp) st pl"
      unfolding props(2) by auto
    then show ?thesis
      using plane_bounds_le [OF st] by (metis snd_conv)
  qed
  have good: "\<forall>i < n. good (reorder (sorted_by_w env n d) d) i = 1"
    by (simp add: reorder_def)
  have plane_ok: "\<forall>p \<in> set planes. plane_ok n (max_wpconv_support wp) p"
    using props(1) le by (simp add: plane_ok_def)
  have threads': "\<forall>pl < length planes. mset (grid_rbegins env pl (2 * plane_support (planes ! pl) + 1)) =
      mset [0..<2 * plane_support (planes ! pl) + 1]"
    using threads unfolding threads_ok_def by blast
  have grids: "fst Gs r c = grid_sum (int N) (max_wpconv_support wp) (even_oversampling False os) True planes q weights' r c \<and>
      snd Gs r c = (if beam then grid_sum (int N) (max_wpconv_support wp) (even_oversampling False os) True planes (unit_vis \<circ> q) weights' r c
        else 0)" if rc: "int r \<le> int N div 2" "int c < int N" for r c
    using halfplane_grid [OF N even_oversampling_ok good A plane_ok threads' rc, of beam] unfolding Gs_def q_def by blast
  have total: "sample_grid_total n A = 2 * (\<Sum>i \<leftarrow> [0..<n]. if centre_in_bounds (int N) (max_wpconv_support wp) (q i) then weights' i else 0)"
    unfolding q_def by (rule sample_grid_total_value [OF N good A])
  show thesis
    by (rule that [OF planes _ out [unfolded total]]) (use props(1) le grids in auto)
qed

end
