(* ===== verification/Rotation.thy ===== *)
theory Rotation
  imports Binapprox Matrix_Shift
begin

text \<open>
  The rotation of an image in \<^verbatim>\<open>src/src/stp/common/matrix_math.cpp\<close>, by bilinear interpolation, for real and for
  complex matrices. A-projection rotates kernels by it.
\<close>

section \<open>Interpolation\<close>

definition bilinear_interpolation :: "int \<Rightarrow> int \<Rightarrow> int \<Rightarrow> int \<Rightarrow> real \<Rightarrow> real \<Rightarrow> real mat \<Rightarrow> real" where
  "bilinear_interpolation trow brow lcol rcol horizontal_position vertical_position in_m =
     (let top_left = elt in_m (nat trow) (nat lcol);
          top_right = elt in_m (nat trow) (nat rcol);
          bottom_left = elt in_m (nat brow) (nat lcol);
          bottom_right = elt in_m (nat brow) (nat rcol);
          horizontal_dist = horizontal_position - of_int lcol;
          vertical_dist = vertical_position - of_int trow;
          top_block = top_left + horizontal_dist * (top_right - top_left);
          bottom_block = bottom_left + horizontal_dist * (bottom_right - bottom_left)
      in top_block + vertical_dist * (bottom_block - top_block))"

definition bilinear_interpolation_cx :: "int \<Rightarrow> int \<Rightarrow> int \<Rightarrow> int \<Rightarrow> real \<Rightarrow> real \<Rightarrow> complex mat \<Rightarrow> complex" where
  "bilinear_interpolation_cx trow brow lcol rcol horizontal_position vertical_position in_m =
     (let top_left = elt in_m (nat trow) (nat lcol);
          top_right = elt in_m (nat trow) (nat rcol);
          bottom_left = elt in_m (nat brow) (nat lcol);
          bottom_right = elt in_m (nat brow) (nat rcol);
          horizontal_dist = horizontal_position - of_int lcol;
          vertical_dist = vertical_position - of_int trow;
          top_block = top_left + of_real horizontal_dist * (top_right - top_left);
          bottom_block = bottom_left + of_real horizontal_dist * (bottom_right - bottom_left)
      in top_block + of_real vertical_dist * (bottom_block - top_block))"

section \<open>Rotation\<close>

definition NUMERIC_TOLERANCE :: real where
  "NUMERIC_TOLERANCE = 10 / 10 ^ 8"

text \<open>The function \<^verbatim>\<open>round\<close> of C, which rounds halves away from 0.\<close>

definition c_round :: "real \<Rightarrow> int" where
  "c_round x = (if 0 \<le> x then \<lfloor>x + 1 / 2\<rfloor> else \<lceil>x - 1 / 2\<rceil>)"

text \<open>The two rows, or columns, that a position lies between.\<close>

definition sample_places :: "nat \<Rightarrow> real \<Rightarrow> int \<times> int" where
  "sample_places in_size position =
     (let lower = int_cast position; upper = lower + 1
      in if position < - NUMERIC_TOLERANCE then (lower - 1, upper)
         else
           let rposition = c_round position
           in if rposition = int in_size - 1 \<and> position - of_int rposition < NUMERIC_TOLERANCE
              then (rposition, rposition) else (lower, upper))"

definition rotated_sample ::
  "(int \<Rightarrow> int \<Rightarrow> int \<Rightarrow> int \<Rightarrow> real \<Rightarrow> real \<Rightarrow> 'a mat \<Rightarrow> 'a) \<Rightarrow> nat \<Rightarrow> 'a mat \<Rightarrow> 'a \<Rightarrow> real \<Rightarrow> real \<Rightarrow> 'a"
where
  "rotated_sample interpolate in_size in_m cval vertical_position horizontal_position =
     (let (trow, brow) = sample_places in_size vertical_position;
          (lcol, rcol) = sample_places in_size horizontal_position
      in if trow \<ge> 0 \<and> brow < int in_size \<and> lcol \<ge> 0 \<and> rcol < int in_size
         then interpolate trow brow lcol rcol horizontal_position vertical_position in_m
         else cval)"

text \<open>Where the pixel \<open>(j, i)\<close> of the result lies in the input.\<close>

definition rotated_positions :: "nat \<Rightarrow> nat \<Rightarrow> real \<Rightarrow> nat \<Rightarrow> nat \<Rightarrow> real \<times> real" where
  "rotated_positions in_size out_size angle j i =
     (let resize_factor = real in_size / real out_size;
          cosa = cos angle * resize_factor;
          sina = sin angle * resize_factor;
          in_center = real in_size / 2 - 1 / 2;
          out_center = real out_size / 2 - 1 / 2;
          sina_array = (\<lambda>i. sina * (real i - out_center));
          cosa_array = (\<lambda>i. cosa * (real i - out_center))
      in (cosa_array j + sina_array i + in_center, - sina_array j + cosa_array i + in_center))"

text \<open>The loops; the memory of the result is not initialised before.\<close>

definition rotate_with ::
  "(int \<Rightarrow> int \<Rightarrow> int \<Rightarrow> int \<Rightarrow> real \<Rightarrow> real \<Rightarrow> 'a mat \<Rightarrow> 'a) \<Rightarrow> range list \<Rightarrow> (nat \<Rightarrow> nat \<Rightarrow> 'a) \<Rightarrow>
   'a mat \<Rightarrow> real \<Rightarrow> 'a \<Rightarrow> nat \<Rightarrow> 'a mat"
where
  "rotate_with interpolate rs uninit in_m angle cval out_size =
     (let in_size = n_cols in_m;
          out_size = (if out_size = 0 then in_size else out_size)
      in \<lparr>n_rows = out_size, n_cols = out_size,
          elt = parallel_for (\<lambda>i out. fold (\<lambda>j out.
                let (vertical_position, horizontal_position) = rotated_positions in_size out_size angle j i
                in upd2 out j i (rotated_sample interpolate in_size in_m cval vertical_position horizontal_position))
              [0..<out_size] out) rs uninit\<rparr>)"

definition rotate_matrix ::
  "range list \<Rightarrow> (nat \<Rightarrow> nat \<Rightarrow> real) \<Rightarrow> real mat \<Rightarrow> real \<Rightarrow> real \<Rightarrow> nat \<Rightarrow> real mat"
where
  "rotate_matrix = rotate_with bilinear_interpolation"

definition rotate_matrix_cx ::
  "range list \<Rightarrow> (nat \<Rightarrow> nat \<Rightarrow> complex) \<Rightarrow> complex mat \<Rightarrow> real \<Rightarrow> complex \<Rightarrow> nat \<Rightarrow> complex mat"
where
  "rotate_matrix_cx = rotate_with bilinear_interpolation_cx"

section \<open>Reference\<close>

text \<open>Bilinear interpolation by tent functions around the pixels.\<close>

definition tent :: "real \<Rightarrow> real" where
  "tent x = max 0 (1 - \<bar>x\<bar>)"

definition surface :: "nat \<Rightarrow> 'a mat \<Rightarrow> real \<Rightarrow> real \<Rightarrow> 'a::real_algebra_1" where
  "surface n M v h = (\<Sum>a<n. \<Sum>b<n. of_real (tent (v - real a) * tent (h - real b)) * elt M a b)"

text \<open>In the last half pixel the code does not interpolate, but takes the last row or column.\<close>

definition last_pixel :: "nat \<Rightarrow> real \<Rightarrow> real" where
  "last_pixel n x = (if x \<ge> real n - 3 / 2 then real n - 1 else x)"

definition bilinear_form :: "int \<Rightarrow> int \<Rightarrow> int \<Rightarrow> int \<Rightarrow> real \<Rightarrow> real \<Rightarrow> 'a mat \<Rightarrow> 'a::real_algebra_1" where
  "bilinear_form t b l r h v M =
     (let row = (\<lambda>a. elt M (nat a) (nat l) + of_real (h - of_int l) * (elt M (nat a) (nat r) - elt M (nat a) (nat l)))
      in row t + of_real (v - of_int t) * (row b - row t))"

lemma bilinear_interpolations: "bilinear_interpolation = bilinear_form" "bilinear_interpolation_cx = bilinear_form"
  by (simp_all add: bilinear_interpolation_def bilinear_interpolation_cx_def bilinear_form_def Let_def fun_eq_iff)

lemma tent_int: "tent (of_int k) = (if k = 0 then 1 else 0)"
proof (cases "k = 0")
  case False
  then have "1 \<le> \<bar>k\<bar>"
    by linarith
  then have "1 \<le> \<bar>real_of_int k\<bar>"
    by linarith
  then show ?thesis
    using False by (simp add: tent_def)
qed (simp add: tent_def)

lemma tolerance: "0 < NUMERIC_TOLERANCE" "NUMERIC_TOLERANCE < 1 / 2"
  by (simp_all add: NUMERIC_TOLERANCE_def)

lemma sample_places_below:
  assumes "0 \<le> x" and "x < real n - 3 / 2"
  shows "sample_places n x = (\<lfloor>x\<rfloor>, \<lfloor>x\<rfloor> + 1)"
proof -
  have "\<lfloor>x + 1 / 2\<rfloor> < int n - 1"
    using assms by linarith
  then show ?thesis
    using assms by (simp add: sample_places_def c_round_def int_cast_def NUMERIC_TOLERANCE_def Let_def)
qed

lemma sample_places_last:
  assumes "0 \<le> x" and "real n - 3 / 2 \<le> x" and "x < real n - 1 + NUMERIC_TOLERANCE"
  shows "sample_places n x = (int n - 1, int n - 1)"
proof -
  have "\<lfloor>x + 1 / 2\<rfloor> = int n - 1"
    using assms tolerance by linarith
  then show ?thesis
    using assms by (simp add: sample_places_def c_round_def NUMERIC_TOLERANCE_def Let_def)
qed

lemma sample_places_outside:
  assumes "x < - NUMERIC_TOLERANCE \<or> real n - 1 + NUMERIC_TOLERANCE \<le> x" and "0 < n"
  shows "fst (sample_places n x) < 0 \<or> int n \<le> snd (sample_places n x)"
proof (cases "x < - NUMERIC_TOLERANCE")
  case True
  then have "x < 0"
    using tolerance by linarith
  then have "int_cast x \<le> 0"
    by (simp add: int_cast_def)
  then show ?thesis
    using True by (simp add: sample_places_def Let_def)
next
  case False
  then have x: "real n - 1 + NUMERIC_TOLERANCE \<le> x"
    using assms by blast
  then have "0 \<le> x" "int n - 1 \<le> \<lfloor>x\<rfloor>"
    using assms(2) tolerance by linarith+
  moreover have "\<not> (c_round x = int n - 1 \<and> x - of_int (c_round x) < NUMERIC_TOLERANCE)"
    using x by auto
  ultimately show ?thesis
    using False by (auto simp: sample_places_def int_cast_def Let_def)
qed

text \<open>Interpolation in one direction.\<close>

lemma sample_line:
  fixes f :: "nat \<Rightarrow> 'a::real_algebra_1"
  assumes "0 \<le> x" and "x < real n - 1 + NUMERIC_TOLERANCE" and "2 \<le> n" and "sample_places n x = (t, b)"
  shows "0 \<le> t" and "b < int n"
    and "f (nat t) + of_real (x - of_int t) * (f (nat b) - f (nat t)) = (\<Sum>a<n. of_real (tent (last_pixel n x - real a)) * f a)"
proof -
  have "0 \<le> t \<and> b < int n \<and>
      f (nat t) + of_real (x - of_int t) * (f (nat b) - f (nat t)) = (\<Sum>a<n. of_real (tent (last_pixel n x - real a)) * f a)"
  proof (cases "x < real n - 3 / 2")
    case True
    define k where "k = nat \<lfloor>x\<rfloor>"
    have k: "\<lfloor>x\<rfloor> = int k" "real k \<le> x" "x < real k + 1" "k + 1 < n"
      using assms(1) True unfolding k_def by linarith+
    have tb: "t = int k" "b = int k + 1"
      using assms(4) sample_places_below [OF assms(1) True] k(1) by simp_all
    have "tent (x - real a) = (if a = k then 1 - (x - real k) else if a = k + 1 then x - real k else 0)" for a
    proof -
      consider "a = k" | "a = k + 1" | "a + 1 \<le> k" | "k + 2 \<le> a"
        by linarith
      then show ?thesis
      proof cases
        case 3
        then have "real a + 1 \<le> real k"
          by linarith
        then show ?thesis
          using k 3 by (simp add: tent_def)
      next
        case 4
        then have "real k + 2 \<le> real a"
          by linarith
        then show ?thesis
          using k 4 by (simp add: tent_def)
      qed (use k in \<open>simp_all add: tent_def\<close>)
    qed
    then have "(\<Sum>a<n. of_real (tent (x - real a)) * f a) =
        (\<Sum>a<n. (if a = k then of_real (1 - (x - real k)) * f k else 0) + (if a = k + 1 then of_real (x - real k) * f (k + 1) else 0))"
      by (intro sum.cong refl) simp
    also have "\<dots> = of_real (1 - (x - real k)) * f k + of_real (x - real k) * f (k + 1)"
      using k(4) by (simp add: sum.distrib)
    also have "\<dots> = f k + of_real (x - real k) * (f (k + 1) - f k)"
      by (simp add: algebra_simps)
    finally show ?thesis
      using k(4) True by (simp add: tb last_pixel_def nat_add_distrib)
  next
    case False
    then have tb: "t = int n - 1" "b = int n - 1"
      using assms(4) sample_places_last [OF assms(1) _ assms(2)] by simp_all
    have "tent (real n - 1 - real a) = (if a = n - 1 then 1 else 0)" for a
      using tent_int [of "int n - 1 - int a"] assms(3) by (auto simp: of_nat_diff)
    then have "(\<Sum>a<n. of_real (tent (real n - 1 - real a)) * f a) = (\<Sum>a<n. if a = n - 1 then f (n - 1) else 0)"
      by (intro sum.cong refl) simp
    also have "\<dots> = f (n - 1)"
      using assms(3) by simp
    finally show ?thesis
      using assms(3) False by (simp add: tb last_pixel_def nat_diff_distrib)
  qed
  then show "0 \<le> t" "b < int n"
    "f (nat t) + of_real (x - of_int t) * (f (nat b) - f (nat t)) = (\<Sum>a<n. of_real (tent (last_pixel n x - real a)) * f a)"
    by blast+
qed

lemma surface_rows:
  "surface n M v h = (\<Sum>a<n. of_real (tent (v - real a)) * (\<Sum>b<n. of_real (tent (h - real b)) * elt M a b))"
  by (simp add: surface_def sum_distrib_left mult.assoc)

text \<open>What a sample of the rotated image is.\<close>

definition sampled :: "nat \<Rightarrow> 'a mat \<Rightarrow> 'a \<Rightarrow> real \<times> real \<Rightarrow> 'a::real_algebra_1 \<Rightarrow> bool" where
  "sampled n M cval = (\<lambda>(v, h) x.
     (0 \<le> v \<and> v < real n - 1 + NUMERIC_TOLERANCE \<and> 0 \<le> h \<and> h < real n - 1 + NUMERIC_TOLERANCE \<longrightarrow>
       x = surface n M (last_pixel n v) (last_pixel n h)) \<and>
     (v < - NUMERIC_TOLERANCE \<or> real n - 1 + NUMERIC_TOLERANCE \<le> v \<or>
       h < - NUMERIC_TOLERANCE \<or> real n - 1 + NUMERIC_TOLERANCE \<le> h \<longrightarrow> x = cval))"

lemma rotated_sample_value:
  assumes n: "2 \<le> n"
  shows "sampled n M cval (v, h) (rotated_sample bilinear_form n M cval v h)"
proof -
  obtain t b l r where places: "sample_places n v = (t, b)" "sample_places n h = (l, r)"
    by (metis surj_pair)
  have "rotated_sample bilinear_form n M cval v h = surface n M (last_pixel n v) (last_pixel n h)"
    if "0 \<le> v" "v < real n - 1 + NUMERIC_TOLERANCE" "0 \<le> h" "h < real n - 1 + NUMERIC_TOLERANCE"
  proof -
    note col = sample_line [OF that(3,4) n places(2)] and row = sample_line [OF that(1,2) n places(1)]
    have "rotated_sample bilinear_form n M cval v h = bilinear_form t b l r h v M"
      using col(1,2) row(1,2) by (simp add: rotated_sample_def places Let_def)
    also have "\<dots> = surface n M (last_pixel n v) (last_pixel n h)"
      unfolding bilinear_form_def Let_def col(3) [of "elt M _"] surface_rows by (rule row(3))
    finally show ?thesis .
  qed
  moreover have "rotated_sample bilinear_form n M cval v h = cval"
    if "v < - NUMERIC_TOLERANCE \<or> real n - 1 + NUMERIC_TOLERANCE \<le> v \<or>
      h < - NUMERIC_TOLERANCE \<or> real n - 1 + NUMERIC_TOLERANCE \<le> h"
    using sample_places_outside [of v n] sample_places_outside [of h n] that n
    by (auto simp: rotated_sample_def places Let_def)
  ultimately show ?thesis
    unfolding sampled_def by blast
qed

lemma fold_column:
  "fold (\<lambda>j m. upd2 m j i (f j)) [0..<n] m = set_col m i (\<lambda>j. if j < n then f j else m j i)"
  by (induction n) (auto simp: set_col_def fun_eq_iff less_Suc_eq)

lemma rotate_with_value:
  assumes rs: "covers 0 m rs" and m: "m = (if out_size = 0 then n_cols M else out_size)" and ji: "j < m" "i < m"
  shows "n_rows (rotate_with f rs uninit M angle cval out_size) = m" and "n_cols (rotate_with f rs uninit M angle cval out_size) = m"
    and "elt (rotate_with f rs uninit M angle cval out_size) j i =
      (case rotated_positions (n_cols M) m angle j i of (v, h) \<Rightarrow> rotated_sample f (n_cols M) M cval v h)"
proof -
  let ?val = "\<lambda>j i. case rotated_positions (n_cols M) m angle j i of (v, h) \<Rightarrow> rotated_sample f (n_cols M) M cval v h"
  show "n_rows (rotate_with f rs uninit M angle cval out_size) = m" "n_cols (rotate_with f rs uninit M angle cval out_size) = m"
    using m by (simp_all add: rotate_with_def Let_def)
  have step: "(\<lambda>i out. fold (\<lambda>j out. case rotated_positions (n_cols M) m angle j i of
        (v, h) \<Rightarrow> upd2 out j i (rotated_sample f (n_cols M) M cval v h)) [0..<m] out) =
      (\<lambda>i out. set_col out i (\<lambda>j. if j < m then ?val j i else out j i))"
  proof (intro ext)
    fix i out j' i'
    show "fold (\<lambda>j out. case rotated_positions (n_cols M) m angle j i of
        (v, h) \<Rightarrow> upd2 out j i (rotated_sample f (n_cols M) M cval v h)) [0..<m] out j' i' =
      set_col out i (\<lambda>j. if j < m then ?val j i else out j i) j' i'"
      unfolding fold_column [of i "\<lambda>j. ?val j i" m out, symmetric] by (simp only: case_prod_unfold)
  qed
  have "elt (rotate_with f rs uninit M angle cval out_size) j i =
      parallel_for (\<lambda>i out. set_col out i (\<lambda>j. if j < m then ?val j i else out j i)) rs uninit j i"
    unfolding rotate_with_def Let_def m [symmetric] mat.select_convs step ..
  also have "\<dots> = ?val j i"
    unfolding parallel_for_def
    by (subst fold_set_col [where k = "\<lambda>i. i"])
      (use ji covers_elements_set [OF rs] in \<open>auto simp: the_inv_into_f_f [of "\<lambda>i. i"]\<close>)
  finally show "elt (rotate_with f rs uninit M angle cval out_size) j i = ?val j i" .
qed

text \<open>
  C34. Every pixel of the rotated image is a sample of the bilinear surface of the input, the sum of tent functions around its
  pixels, at the rotated and resized position of the pixel, for any schedule; positions in the last half pixel count as the
  last row or column; outside it has the given value. A position less than the tolerance before the first pixel is left open.
\<close>

theorem rotate_matrix_samples:
  assumes "covers 0 m rs" and "m = (if out_size = 0 then n_cols M else out_size)" and "2 \<le> n_cols M" and "j < m" and "i < m"
  shows "sampled (n_cols M) M cval (rotated_positions (n_cols M) m angle j i)
    (elt (rotate_matrix rs uninit M angle cval out_size) j i)"
proof -
  obtain v h where "rotated_positions (n_cols M) m angle j i = (v, h)"
    by (metis surj_pair)
  then show ?thesis
    unfolding rotate_matrix_def bilinear_interpolations rotate_with_value(3) [OF assms(1,2,4,5)]
    using rotated_sample_value [OF assms(3), of M cval v h] by simp
qed

lemma surface_pixel:
  assumes "a < n" and "b < n"
  shows "surface n M (real a) (real b) = (elt M a b :: 'a::real_algebra_1)"
proof -
  have "tent (real k - real k') = (if k' = k then 1 else 0)" for k k'
    using tent_int [of "int k - int k'"] by auto
  then have "surface n M (real a) (real b) =
      (\<Sum>a'<n. of_real (if a' = a then 1 else 0) * (\<Sum>b'<n. of_real (if b' = b then 1 else 0) * elt M a' b'))"
    unfolding surface_rows by presburger
  moreover have pick: "(\<Sum>k<n. of_real (if k = c then 1 else 0) * x k) = x c" if "c < n" for c and x :: "nat \<Rightarrow> 'a::real_algebra_1"
  proof -
    have "(\<Sum>k<n. of_real (if k = c then 1 else 0) * x k) = (\<Sum>k<n. if k = c then x k else 0)"
      by (intro sum.cong refl) simp
    then show ?thesis
      using that by simp
  qed
  ultimately show ?thesis
    by (simp only: pick [OF assms(1)] pick [OF assms(2)])
qed

lemma sampled_pixel:
  assumes "sampled n M cval (real a, real b) x" and "a < n" and "b < n" and "2 \<le> n"
  shows "x = elt M a b"
proof -
  have "last_pixel n (real k) = real k \<and> real k < real n - 1 + NUMERIC_TOLERANCE" if "k < n" for k
  proof (cases "k = n - 1")
    case False
    then have "real k \<le> real n - 2"
      using that by linarith
    then show ?thesis
      using tolerance by (simp add: last_pixel_def)
  qed (use that tolerance in \<open>simp add: last_pixel_def of_nat_diff\<close>)
  then show ?thesis
    using assms surface_pixel [OF assms(2,3)] by (simp add: sampled_def)
qed

text \<open>A rotation by a right angle, and one back.\<close>

lemma right_angle_positions:
  assumes "j < n" and "i < n"
  shows "rotated_positions n n (pi / 2) j i = (real i, real (n - 1 - j))"
    and "rotated_positions n n (- (pi / 2)) j i = (real (n - 1 - i), real j)"
  using assms by (simp_all add: rotated_positions_def Let_def of_nat_diff field_simps)

lemma rotate_right_angle:
  assumes "covers 0 n rs" and "n = n_cols M" and "2 \<le> n" and "j < n" and "i < n"
  shows "elt (rotate_matrix_cx rs uninit M (pi / 2) cval 0) j i = elt M i (n - 1 - j)"
    and "elt (rotate_matrix_cx rs uninit M (- (pi / 2)) cval 0) j i = elt M (n - 1 - i) j"
proof -
  have m: "n = (if (0 :: nat) = 0 then n_cols M else 0)"
    using assms(2) by simp
  note elts = rotate_with_value(3) [OF assms(1) m assms(4,5), of bilinear_form uninit _ cval, folded assms(2)]
  note sample = rotated_sample_value [OF assms(3), of M cval]
  show "elt (rotate_matrix_cx rs uninit M (pi / 2) cval 0) j i = elt M i (n - 1 - j)"
    "elt (rotate_matrix_cx rs uninit M (- (pi / 2)) cval 0) j i = elt M (n - 1 - i) j"
    unfolding rotate_matrix_cx_def bilinear_interpolations elts right_angle_positions [OF assms(4,5)] prod.case
    by (rule sampled_pixel [OF sample]; use assms in simp)+
qed

text \<open>A rotation by a right angle is exact, and the rotation back restores the matrix.\<close>

theorem rotate_matrix_roundtrip:
  assumes "covers 0 n rs" and "covers 0 n rs'" and "n = n_cols M" and "2 \<le> n" and "j < n" and "i < n"
  shows "elt (rotate_matrix_cx rs uninit M (pi / 2) cval 0) j i = elt M i (n - 1 - j) \<and>
    elt (rotate_matrix_cx rs' uninit' (rotate_matrix_cx rs uninit M (pi / 2) cval 0) (- (pi / 2)) cval' 0) j i = elt M j i"
proof -
  let ?R = "rotate_matrix_cx rs uninit M (pi / 2) cval 0"
  have "n = n_cols ?R"
    using assms(3) by (simp add: rotate_matrix_cx_def rotate_with_def Let_def)
  from rotate_right_angle(2) [OF assms(2) this assms(4-6)] rotate_right_angle(1) [OF assms(1,3,4), of _ _ uninit cval]
  show ?thesis
    using assms(4-6) by simp
qed

definition rotation_demo :: "complex mat" where
  "rotation_demo = \<lparr>n_rows = 3, n_cols = 3, elt = (\<lambda>r c. Complex (real r) (real c))\<rparr>"

definition map_mat_demo :: "real mat" where
  "map_mat_demo = \<lparr>n_rows = 3, n_cols = 3, elt = (\<lambda>r c. real (r * c))\<rparr>"

theorem rotate_matrix_roundtrip_witness:
  "elt (rotate_matrix_cx [(1, 3), (0, 1)] (\<lambda>r c. 7) rotation_demo (pi / 2) 0 0) 0 1 = Complex 1 2"
proof -
  have "covers 0 3 [(1, 3), (0, 1)]" "covers 0 3 [(0, 3)]" "3 = n_cols rotation_demo"
    by (simp_all add: covers_def rotation_demo_def)
  from rotate_matrix_roundtrip [OF this, of 0 1, THEN conjunct1]
  show ?thesis
    by (simp add: rotation_demo_def)
qed

theorem rotate_matrix_samples_witness:
  "sampled 3 (map_mat_demo) 9 (rotated_positions 3 3 1 0 1) (elt (rotate_matrix [(0, 3)] (\<lambda>r c. 0) map_mat_demo 1 9 0) 0 1)"
proof -
  have "covers 0 3 [(0, 3)]" "3 = (if (0 :: nat) = 0 then n_cols map_mat_demo else 0)" "n_cols map_mat_demo = 3"
    by (simp_all add: covers_def map_mat_demo_def)
  from rotate_matrix_samples [OF this(1,2), of 0 1 9 1] this(3)
  show ?thesis
    by simp
qed

end
