(* ===== verification/A_Projection.thy ===== *)
theory A_Projection
  imports Grid_Visibilities Rotation
begin

text \<open>
  A-projection, as built with \<^verbatim>\<open>APROJECTION\<close>: the time steps and the A-kernels of
  \<^verbatim>\<open>src/src/stp/gridder/gridder.cpp\<close>, and the kernels of \<^verbatim>\<open>aw_projection.cpp\<close>. The spherical
  harmonics and \<^verbatim>\<open>arma::linspace\<close> are parameters. The loops over the planes and time steps are in
  \<^verbatim>\<open>Aproj_Grid\<close>.
\<close>

section \<open>Time steps\<close>

definition lha_range :: "real list \<Rightarrow> real \<times> real" where
  "lha_range hours =
     fold (\<lambda>val (min_time, max_time). (if val < min_time then val else min_time, if val > max_time then val else max_time))
       hours (hours ! 0, hours ! 0)"

text \<open>The first interval, from the second bound on, whose bound is not below the time.\<close>

function time_interval :: "real list \<Rightarrow> nat \<Rightarrow> real \<Rightarrow> nat \<Rightarrow> nat" where
  "time_interval bounds num time_value tidx =
     (if time_value > bounds ! tidx then
        if tidx + 1 < num + 1 then time_interval bounds num time_value (tidx + 1) else tidx + 1
      else tidx)"
  by pat_completeness auto
termination
  by (relation "measure (\<lambda>(bounds, num, time_value, tidx). num + 1 - tidx)") auto

declare time_interval.simps [simp del]

record lha_state =
  lha_planes :: "nat \<Rightarrow> real"
  nvis_tstep :: "nat \<Rightarrow> nat"
  vis_timesteps :: "nat \<Rightarrow> nat"

text \<open>One visibility. \<open>None\<close> is the assertion that its time step exists.\<close>

definition lha_step :: "real list \<Rightarrow> nat \<Rightarrow> real list \<Rightarrow> (nat \<Rightarrow> nat) \<Rightarrow> nat \<Rightarrow> lha_state \<Rightarrow> lha_state option" where
  "lha_step bounds num hours gvis i st =
     (if gvis i = 0 then Some st
      else
        let time_value = hours ! i; seltimestep_idx = time_interval bounds num time_value 1 - 1
        in if \<not> seltimestep_idx < num then None
           else Some \<lparr>lha_planes = (lha_planes st)(seltimestep_idx := lha_planes st seltimestep_idx + time_value),
             nvis_tstep = (nvis_tstep st)(seltimestep_idx := nvis_tstep st seltimestep_idx + 1),
             vis_timesteps = (vis_timesteps st)(i := seltimestep_idx)\<rparr>)"

text \<open>The mean of every time step and the time step of every visibility; \<open>mem\<close> is what was in their memory before.\<close>

definition average_lha_planes ::
  "(real \<Rightarrow> real \<Rightarrow> nat \<Rightarrow> real list) \<Rightarrow> (nat \<Rightarrow> nat) \<Rightarrow> real list \<Rightarrow> (nat \<Rightarrow> nat) \<Rightarrow> nat \<Rightarrow> ((nat \<Rightarrow> real) \<times> (nat \<Rightarrow> nat)) option"
where
  "average_lha_planes linspace mem hours gvis num =
     (let (min_time, max_time) = lha_range hours;
          tstep_size = (max_time - min_time) / real num;
          time_intervals = linspace (min_time - tstep_size / 2) (max_time + tstep_size / 2) (num + 1)
      in case fold (\<lambda>i m. Option.bind m (lha_step time_intervals num hours gvis i)) [0..<length hours]
             (Some \<lparr>lha_planes = (\<lambda>i. 0), nvis_tstep = (\<lambda>i. 0), vis_timesteps = mem\<rparr>) of
           None \<Rightarrow> None
         | Some st \<Rightarrow>
             Some (fold (\<lambda>i lp. if nvis_tstep st i \<noteq> 0 then lp(i := lp i / real (nvis_tstep st i)) else lp(i := 0)) [0..<num] (lha_planes st),
               vis_timesteps st))"

section \<open>Kernels\<close>

definition atan2 :: "real \<Rightarrow> real \<Rightarrow> real" where
  "atan2 y x =
     (if x > 0 then arctan (y / x)
      else if x < 0 then (if y \<ge> 0 then arctan (y / x) + pi else arctan (y / x) - pi)
      else if y > 0 then pi / 2 else if y < 0 then - pi / 2 else 0)"

definition parangle :: "real \<Rightarrow> real \<Rightarrow> real \<Rightarrow> real" where
  "parangle ha dec_rad ra_rad =
     (let ha_rar = ha * (15 * pi / 180);
          sin_eta_sin_z = cos ra_rad * sin ha_rar;
          cos_eta_sin_z = sin ra_rad * cos dec_rad - cos ra_rad * sin dec_rad * cos ha_rar
      in atan2 sin_eta_sin_z cos_eta_sin_z)"

text \<open>An element of the A-kernel: \<open>i\<close> and \<open>j\<close> are the distances from the centre.\<close>

definition a_kernel_element :: "(nat \<Rightarrow> int \<Rightarrow> real \<Rightarrow> real \<Rightarrow> real) \<Rightarrow> real list \<Rightarrow> real \<Rightarrow> nat \<Rightarrow> real \<Rightarrow> int \<Rightarrow> int \<Rightarrow> real" where
  "a_kernel_element EvalSH coefs fov workarea rot_angle j i =
     (let degree = (length coefs - 1) div 2;
          j_rad = of_int j * fov / real workarea;
          i_rad = of_int i * fov / real workarea;
          polar = sqrt (j_rad * j_rad + i_rad * i_rad);
          azimuth = (if j \<noteq> 0 then arctan (i_rad / j_rad) else pi / 2)
      in 1 / (\<Sum>m \<leftarrow> [- int degree..int degree].
            \<bar>EvalSH degree m (azimuth + rot_angle) polar * coefs ! nat (int degree + m)\<bar>))"

text \<open>The loop is over the rows \<open>k\<close>, of distance \<open>k\<close> minus half the size.\<close>

definition generate_a_kernel ::
  "(nat \<Rightarrow> int \<Rightarrow> real \<Rightarrow> real \<Rightarrow> real) \<Rightarrow> range list \<Rightarrow> (nat \<Rightarrow> nat \<Rightarrow> real) \<Rightarrow> real list \<Rightarrow> real \<Rightarrow> nat \<Rightarrow> real \<Rightarrow> real mat"
where
  "generate_a_kernel EvalSH rs uninit coefs fov workarea rot_angle =
     (let workarea_centre = workarea div 2
      in \<lparr>n_rows = workarea, n_cols = workarea,
          elt = parallel_for (\<lambda>k K. fold (\<lambda>l K. upd2 K k l
                (a_kernel_element EvalSH coefs fov workarea rot_angle (int k - int workarea_centre) (int l - int workarea_centre)))
              [0..<2 * workarea_centre] K) rs uninit\<rparr>)"

text \<open>One column of the product of the image-domain kernel and the A-kernel; \<open>jj\<close> is the column of the A-kernel.\<close>

definition product_column :: "nat \<Rightarrow> nat \<Rightarrow> (nat \<Rightarrow> nat \<Rightarrow> complex) \<Rightarrow> (nat \<Rightarrow> nat \<Rightarrow> real) \<Rightarrow> nat \<Rightarrow> nat \<Rightarrow>
   (nat \<Rightarrow> nat \<Rightarrow> complex) \<Rightarrow> nat \<Rightarrow> nat \<Rightarrow> complex" where
  "product_column arr half comb a j jj P =
     fold (\<lambda>i P. upd2 P i j (comb i j * of_real (a (i - (arr - half)) jj))) [arr - half..<arr]
       (fold (\<lambda>i P. upd2 P i j (comb i j * of_real (a (half + i) jj))) [0..<half] P)"

definition generate_convolution_kernel_aproj ::
  "fftw \<Rightarrow> range list \<times> range list \<Rightarrow> real mat \<Rightarrow> wide_field \<Rightarrow> fft_error + wide_field"
where
  "generate_convolution_kernel_aproj F = (\<lambda>(rs_left, rs_right) a_kernel_img W.
     (if n_elem (comb_kernel W) = 0 \<or> hankel_opt (wf_pars W) \<or> n_cols a_kernel_img \<noteq> wf_kernel_size W then Inl Assertion_failed
      else
        let arr = array_size W; half = wf_kernel_size W div 2; comb = elt (comb_kernel W); a = elt a_kernel_img;
            P = parallel_for (\<lambda>j. product_column arr half comb a j (half + j)) rs_left (\<lambda>i j. 0);
            P = parallel_for (\<lambda>j. product_column arr half comb a j (j + half - arr)) rs_right P
        in (case fft_fftw_c2c F \<lparr>n_rows = arr, n_cols = arr, elt = P\<rparr> (wf_r_fft W) True of
              Inl e \<Rightarrow> Inl e
            | Inr K \<Rightarrow> truncate_support (W\<lparr>conv_kernel := K\<rparr>))))"

section \<open>The time steps of the visibilities\<close>

definition linspace_documented :: "(real \<Rightarrow> real \<Rightarrow> nat \<Rightarrow> real list) \<Rightarrow> bool" where
  "linspace_documented linspace \<longleftrightarrow>
     (\<forall>a b n i. 2 \<le> n \<longrightarrow> i < n \<longrightarrow> linspace a b n ! i = a + real i * (b - a) / real (n - 1))"

lemma lha_range_bounds:
  assumes "fold (\<lambda>val (lo, hi). (if val < lo then val else lo, if val > hi then val else hi)) xs (a, b) = (lo, hi)"
  shows "lo \<le> a \<and> b \<le> hi \<and> (\<forall>x \<in> set xs. lo \<le> x \<and> x \<le> (hi :: real))"
  using assms
proof (induction xs arbitrary: a b)
  case (Cons x xs)
  let ?a = "if x < a then x else a" and ?b = "if x > b then x else b"
  have "lo \<le> ?a \<and> ?b \<le> hi \<and> (\<forall>x \<in> set xs. lo \<le> x \<and> x \<le> hi)"
    by (rule Cons.IH) (use Cons.prems in simp)
  then show ?case
    by (auto split: if_splits)
qed simp

lemma time_interval_spec:
  assumes "tidx \<le> num" and "t \<le> bounds ! num"
  shows "tidx \<le> time_interval bounds num t tidx \<and> time_interval bounds num t tidx \<le> num \<and>
    t \<le> bounds ! time_interval bounds num t tidx \<and>
    (time_interval bounds num t tidx = tidx \<or> bounds ! (time_interval bounds num t tidx - 1) < t)"
  using assms
proof (induction bounds num t tidx rule: time_interval.induct)
  case (1 bounds num t tidx)
  show ?case
  proof (cases "t > bounds ! tidx")
    case True
    then have "tidx \<noteq> num"
      using 1 by auto
    then have "tidx + 1 < num + 1"
      using 1 by simp
    then have "time_interval bounds num t tidx = time_interval bounds num t (tidx + 1)"
      using True by (subst time_interval.simps) simp
    then show ?thesis
      using 1 True \<open>tidx + 1 < num + 1\<close> by auto
  next
    case False
    then have "time_interval bounds num t tidx = tidx"
      by (subst time_interval.simps) simp
    then show ?thesis
      using 1 False by simp
  qed
qed

text \<open>The good visibilities of a time step.\<close>

definition step_vis :: "(nat \<Rightarrow> nat) \<Rightarrow> (nat \<Rightarrow> nat) \<Rightarrow> nat \<Rightarrow> nat \<Rightarrow> nat set" where
  "step_vis gvis steps n k = {i. i < n \<and> gvis i \<noteq> 0 \<and> steps i = k}"

lemma step_vis_Suc:
  "step_vis gvis (steps(m := k)) (Suc m) k' = (if gvis m \<noteq> 0 \<and> k = k' then insert m (step_vis gvis steps m k') else step_vis gvis steps m k')"
  by (auto simp: step_vis_def less_Suc_eq)

lemma finite_step_vis [simp]: "finite (step_vis gvis steps n k)"
  by (simp add: step_vis_def)

lemma step_vis_skip: "gvis m = 0 \<Longrightarrow> step_vis gvis steps (Suc m) k = step_vis gvis steps m k"
  by (auto simp: step_vis_def less_Suc_eq)

lemma mean_loop:
  "fold (\<lambda>i lp. if nv i \<noteq> 0 then lp(i := lp i / real (nv i)) else lp(i := 0)) [0..<num] lp k =
    (if k < num then if nv k \<noteq> 0 then lp k / real (nv k) else 0 else lp k)"
  by (induction num) (auto simp: less_Suc_eq)

lemma average_lha_planes_spec:
  assumes "linspace_documented linspace" and "0 < num" and "n = length hours" and "0 < n"
    and "lha_range hours = (min_time, max_time)"
    and "bounds = linspace (min_time - (max_time - min_time) / real num / 2) (max_time + (max_time - min_time) / real num / 2) (num + 1)"
  shows "\<exists>planes steps. average_lha_planes linspace mem hours gvis num = Some (planes, steps) \<and>
    (\<forall>i < n. gvis i \<noteq> 0 \<longrightarrow> steps i < num \<and> hours ! i \<le> bounds ! (steps i + 1) \<and> (steps i = 0 \<or> bounds ! steps i < hours ! i)) \<and>
    (\<forall>k < num. planes k = (\<Sum>i \<in> step_vis gvis steps n k. hours ! i) / real (card (step_vis gvis steps n k)))"
proof -
  let ?t = "(max_time - min_time) / real num"
  let ?ok = "\<lambda>steps i. steps i < num \<and> hours ! i \<le> bounds ! (steps i + 1) \<and> (steps i = 0 \<or> bounds ! steps i < hours ! i)"
  have range: "min_time \<le> hours ! i \<and> hours ! i \<le> max_time" if "i < n" for i
    using lha_range_bounds [of hours "hours ! 0" "hours ! 0" min_time max_time] assms(3,5) that by (simp add: lha_range_def)
  have last: "hours ! i \<le> bounds ! num" if "i < n" for i
  proof -
    define d where "d = ?t"
    have "0 \<le> d"
      using range [OF assms(4)] by (simp add: d_def)
    moreover have "bounds ! num = max_time + d / 2"
      using assms(1,2) unfolding linspace_documented_def assms(6) d_def by simp
    ultimately show ?thesis
      using range [OF that] by linarith
  qed
  define P where "P m x \<longleftrightarrow> (\<exists>st :: lha_state. x = Some st \<and> (\<forall>i < m. gvis i \<noteq> 0 \<longrightarrow> ?ok (vis_timesteps st) i) \<and>
      (\<forall>k. lha_planes st k = (\<Sum>i \<in> step_vis gvis (vis_timesteps st) m k. hours ! i) \<and>
        nvis_tstep st k = card (step_vis gvis (vis_timesteps st) m k)))" for m x
  define st0 where "st0 = \<lparr>lha_planes = (\<lambda>i. 0), nvis_tstep = (\<lambda>i. 0), vis_timesteps = mem\<rparr>"
  have "P n (fold (\<lambda>i m. Option.bind m (lha_step bounds num hours gvis i)) [0..<n] (Some st0))"
  proof (rule fold_upt_invariant [where P = P])
    show "P 0 (Some st0)"
      by (simp add: P_def st0_def step_vis_def)
    fix m x
    assume m: "m < n" and "P m x"
    then obtain st where st: "x = Some st" "\<forall>i < m. gvis i \<noteq> 0 \<longrightarrow> ?ok (vis_timesteps st) i"
      "\<And>k. lha_planes st k = (\<Sum>i \<in> step_vis gvis (vis_timesteps st) m k. hours ! i)"
      "\<And>k. nvis_tstep st k = card (step_vis gvis (vis_timesteps st) m k)"
      unfolding P_def by blast
    show "P (Suc m) (Option.bind x (lha_step bounds num hours gvis m))"
    proof (cases "gvis m = 0")
      case True
      then show ?thesis
        using st by (simp add: P_def lha_step_def step_vis_skip less_Suc_eq)
    next
      case False
      define k where "k = time_interval bounds num (hours ! m) 1 - 1"
      have k: "k < num" "hours ! m \<le> bounds ! (k + 1)" "k = 0 \<or> bounds ! k < hours ! m"
        using time_interval_spec [of 1 num "hours ! m" bounds] last [OF m] assms(2) unfolding k_def by auto
      have new: "m \<notin> step_vis gvis (vis_timesteps st) m k'" for k'
        by (simp add: step_vis_def)
      have run: "Option.bind x (lha_step bounds num hours gvis m) = Some \<lparr>lha_planes = (lha_planes st)(k := lha_planes st k + hours ! m),
          nvis_tstep = (nvis_tstep st)(k := nvis_tstep st k + 1), vis_timesteps = (vis_timesteps st)(m := k)\<rparr>"
        using False k(1) by (simp add: st(1) lha_step_def k_def Let_def)
      show ?thesis
        unfolding P_def run using st(2) k False new by (auto simp: step_vis_Suc less_Suc_eq st(3,4))
    qed
  qed simp
  then obtain st where run: "fold (\<lambda>i m. Option.bind m (lha_step bounds num hours gvis i)) [0..<n] (Some st0) = Some st"
    and st: "\<forall>i < n. gvis i \<noteq> 0 \<longrightarrow> ?ok (vis_timesteps st) i"
      "\<And>k. lha_planes st k = (\<Sum>i \<in> step_vis gvis (vis_timesteps st) n k. hours ! i)"
      "\<And>k. nvis_tstep st k = card (step_vis gvis (vis_timesteps st) n k)"
    unfolding P_def by blast
  define planes where "planes = fold (\<lambda>i lp. if nvis_tstep st i \<noteq> 0 then lp(i := lp i / real (nvis_tstep st i)) else lp(i := 0))
    [0..<num] (lha_planes st)"
  have "average_lha_planes linspace mem hours gvis num = Some (planes, vis_timesteps st)"
    unfolding average_lha_planes_def assms(5) prod.case Let_def assms(6) [symmetric] assms(3) [symmetric] st0_def [symmetric] run option.case
      planes_def ..
  moreover have "planes k = (\<Sum>i \<in> step_vis gvis (vis_timesteps st) n k. hours ! i) / real (card (step_vis gvis (vis_timesteps st) n k))"
    if "k < num" for k
    unfolding planes_def mean_loop using that by (simp add: st(2,3))
  ultimately show ?thesis
    using st(1) by blast
qed

text \<open>
  C36. Every gridded visibility gets a time step, so that the assertion in the loop never fails: its hour angle is not
  above the upper bound of the step, and above the lower one unless this is the first step. The hour angle of a step is the
  mean over its visibilities.
\<close>

theorem time_steps_of_visibilities:
  assumes "linspace_documented linspace" and "0 < num" and "n = length hours" and "0 < n"
    and "lha_range hours = (min_time, max_time)"
    and "bounds = linspace (min_time - (max_time - min_time) / real num / 2) (max_time + (max_time - min_time) / real num / 2) (num + 1)"
  shows "\<exists>planes steps. average_lha_planes linspace mem hours gvis num = Some (planes, steps) \<and>
    (\<forall>i < n. gvis i \<noteq> 0 \<longrightarrow> steps i < num \<and> hours ! i \<le> bounds ! (steps i + 1) \<and> (steps i = 0 \<or> bounds ! steps i < hours ! i)) \<and>
    (\<forall>k < num. planes k = (\<Sum>i \<in> step_vis gvis steps n k. hours ! i) / real (card (step_vis gvis steps n k)))"
  by (rule average_lha_planes_spec [OF assms])

definition linspace_demo :: "real \<Rightarrow> real \<Rightarrow> nat \<Rightarrow> real list" where
  "linspace_demo a b n = map (\<lambda>i. a + real i * (b - a) / real (n - 1)) [0..<n]"

lemma linspace_demo_documented: "linspace_documented linspace_demo"
  by (simp add: linspace_documented_def linspace_demo_def)

theorem time_steps_of_visibilities_witness:
  "\<exists>planes steps. average_lha_planes linspace_demo (\<lambda>i. 7) [1, 3, 2] (\<lambda>i. 1) 2 = Some (planes, steps) \<and>
    steps 1 < 2 \<and> 3 \<le> linspace_demo (1 / 2) (7 / 2) 3 ! (steps 1 + 1)"
proof -
  have "lha_range [1, 3, 2] = (1, 3)"
    by (simp add: lha_range_def)
  from time_steps_of_visibilities [OF linspace_demo_documented _ refl _ this refl, of 2 "\<lambda>i. 7" "\<lambda>i. 1"]
  obtain planes steps where "average_lha_planes linspace_demo (\<lambda>i. 7) [1, 3, 2] (\<lambda>i. 1) 2 = Some (planes, steps)"
    "\<forall>i < 3. steps i < 2 \<and> [1, 3, 2] ! i \<le> linspace_demo (1 / 2) (7 / 2) 3 ! (steps i + 1)"
    by (auto simp: numeral_3_eq_3)
  moreover have "[1, 3, 2] ! 1 = (3 :: real)"
    by simp
  ultimately show ?thesis
    by (metis one_less_numeral_iff semiring_norm(77))
qed

end
