(* ===== verification/Aproj_Grid.thy ===== *)
theory Aproj_Grid
  imports A_Projection
begin

text \<open>
  \<^verbatim>\<open>convolve_to_grid\<close> with A-projection (\<^verbatim>\<open>src/src/stp/gridder/gridder.h\<close>, built with
  \<^verbatim>\<open>APROJECTION\<close>): the kernels of every w-plane and time step, and the gridding of their visibilities.
\<close>

section \<open>The kernels of the planes and time steps\<close>

text \<open>The schedules and uninitialised memory of the loops that make one kernel.\<close>

record aproj_schedule =
  a_kernel_ranges :: "range list"
  a_kernel_mem :: "nat \<Rightarrow> nat \<Rightarrow> real"
  product_ranges :: "range list \<times> range list"
  rotate_ranges :: "range list"
  rotate_mem :: "nat \<Rightarrow> nat \<Rightarrow> complex"
  shift_ranges_1 :: "nat \<Rightarrow> range list \<times> range list"
  shift_ranges_2 :: "nat \<Rightarrow> range list \<times> range list"

record aproj_env =
  ap_gridder :: gridder_env
  ap_EvalSH :: "nat \<Rightarrow> int \<Rightarrow> real \<Rightarrow> real \<Rightarrow> real"
  ap_linspace :: "real \<Rightarrow> real \<Rightarrow> nat \<Rightarrow> real list"
  ap_shift :: "complex mat \<Rightarrow> int \<Rightarrow> nat \<Rightarrow> complex mat"
  ap_steps_mem :: "nat \<Rightarrow> nat"
  ap_schedule :: "nat \<Rightarrow> nat \<Rightarrow> aproj_schedule"

text \<open>
  The optimised form rotates the kernel of the plane instead of the A-kernel. The rotated kernel replaces it, so that
  the next time step rotates it further.
\<close>

definition rotate_kernel :: "aproj_env \<Rightarrow> aproj_schedule \<Rightarrow> real \<Rightarrow> wide_field \<Rightarrow> wide_field" where
  "rotate_kernel env sch pangle W =
     (let K = fftshift (ap_shift env) (rotate_mem sch) (shift_ranges_1 sch) True (conv_kernel W);
          pbmin = elt K 0 0;
          K = rotate_matrix_cx (rotate_ranges sch) (rotate_mem sch) K pangle pbmin (n_cols K);
          K = fftshift (ap_shift env) (rotate_mem sch) (shift_ranges_2 sch) True K
      in W\<lparr>conv_kernel := K\<rparr>)"

definition a_kernel :: "aproj_env \<Rightarrow> aproj_schedule \<Rightarrow> a_projection_pars \<Rightarrow> real \<Rightarrow> nat \<Rightarrow> real \<Rightarrow> real mat" where
  "a_kernel env sch ap fov workarea rot_angle =
     generate_a_kernel (ap_EvalSH env) (a_kernel_ranges sch) (a_kernel_mem sch) (pbeam_coefs ap) fov workarea rot_angle"

text \<open>The kernel of one time step, from the object that the step before leaves.\<close>

definition timestep_kernel ::
  "aproj_env \<Rightarrow> aproj_schedule \<Rightarrow> a_projection_pars \<Rightarrow> real \<Rightarrow> nat \<Rightarrow> real \<Rightarrow> wide_field \<Rightarrow> fft_error + wide_field"
where
  "timestep_kernel env sch ap fov workarea lha_plane W =
     (let pangle = parangle lha_plane (deg2rad (obs_dec ap)) (deg2rad (obs_ra ap))
      in if aproj_opt ap then Inr (rotate_kernel env sch pangle W)
         else generate_convolution_kernel_aproj (grid_fftw (ap_gridder env)) (product_ranges sch)
                (a_kernel env sch ap fov workarea pangle) W)"

type_synonym step_plane = "nat \<times> grid_plane"

fun aproj_timesteps ::
  "aproj_env \<Rightarrow> a_projection_pars \<Rightarrow> real \<Rightarrow> nat \<Rightarrow> (nat \<Rightarrow> real) \<Rightarrow> nat \<Rightarrow> nat \<times> nat \<Rightarrow> nat list \<Rightarrow> wide_field \<Rightarrow>
   fft_error + step_plane list \<times> wide_field"
where
  "aproj_timesteps env ap fov workarea lhas pl bounds [] W = Inr ([], W)"
| "aproj_timesteps env ap fov workarea lhas pl bounds (ts # tss) W =
     (case timestep_kernel env (ap_schedule env pl ts) ap fov workarea (lhas ts) W of
        Inl e \<Rightarrow> Inl e
      | Inr W \<Rightarrow>
          if truncated_wpconv_support W = 0 then Inl Assertion_failed
          else (case aproj_timesteps env ap fov workarea lhas pl bounds tss W of
              Inl e \<Rightarrow> Inl e
            | Inr (planes, W') \<Rightarrow> Inr ((ts, \<lparr>vi_begin = fst bounds, vi_end = snd bounds,
                plane_cache = generate_kernel_cache W, plane_support = truncated_wpconv_support W\<rparr>) # planes, W')))"

text \<open>The kernel of a plane before the time steps: in the optimised form it includes the A-kernel that is not rotated.\<close>

definition aproj_plane_kernel ::
  "aproj_env \<Rightarrow> a_projection_pars \<Rightarrow> real list \<Rightarrow> real mat \<Rightarrow> nat \<Rightarrow> real \<Rightarrow> wide_field \<Rightarrow> fft_error + wide_field"
where
  "aproj_plane_kernel env ap aa Akernel pl w W =
     (case generate_image_domain_convolution_kernel (plane_env (ap_gridder env) pl) w aa W of
        Inl e \<Rightarrow> Inl e
      | Inr W \<Rightarrow>
          if aproj_opt ap then
            generate_convolution_kernel_aproj (grid_fftw (ap_gridder env)) (product_ranges (ap_schedule env pl 0)) Akernel W
          else Inr W)"

fun aproj_planes ::
  "aproj_env \<Rightarrow> a_projection_pars \<Rightarrow> real list \<Rightarrow> real mat \<Rightarrow> real \<Rightarrow> nat \<Rightarrow> (nat \<Rightarrow> real) \<Rightarrow> nat \<Rightarrow> nat \<Rightarrow> w_planes \<Rightarrow>
   nat list \<Rightarrow> wide_field \<Rightarrow> fft_error + step_plane list"
where
  "aproj_planes env ap aa Akernel fov workarea lhas n nplanes st [] W = Inr []"
| "aproj_planes env ap aa Akernel fov workarea lhas n nplanes st (pl # pls) W =
     (case aproj_plane_kernel env ap aa Akernel pl (w_avg_values st pl) W of
        Inl e \<Rightarrow> Inl e
      | Inr W \<Rightarrow>
      (case aproj_timesteps env ap fov workarea lhas pl (plane_bounds n nplanes st pl)
           [0..<a_projection_pars.num_timesteps ap] W of
         Inl e \<Rightarrow> Inl e
       | Inr (planes, W) \<Rightarrow>
       (case aproj_planes env ap aa Akernel fov workarea lhas n nplanes st pls W of
          Inl e \<Rightarrow> Inl e
        | Inr rest \<Rightarrow> Inr (planes @ rest))))"

section \<open>Gridding\<close>

text \<open>The visibilities of other time steps are skipped.\<close>

definition timestep_vis :: "vis_arrays \<Rightarrow> (nat \<Rightarrow> nat) \<Rightarrow> nat \<Rightarrow> vis_arrays" where
  "timestep_vis A steps ts = A\<lparr>good_vis := (\<lambda>i. if steps i \<noteq> ts then 0 else good_vis A i)\<rparr>"

definition grid_timesteps ::
  "int \<Rightarrow> int \<Rightarrow> bool \<Rightarrow> nat \<Rightarrow> (nat \<Rightarrow> nat \<Rightarrow> nat list) \<Rightarrow> vis_arrays \<Rightarrow> (nat \<Rightarrow> nat) \<Rightarrow> step_plane list \<Rightarrow> grids"
where
  "grid_timesteps N rows beam os rbegins A steps planes =
     fold (\<lambda>(k, ts, pl). parallel_gridder (plane_pars N rows beam pl) (rbegins k (2 * plane_support pl + 1))
         (vis_points N os True (plane_cache pl) (timestep_vis A steps ts) (vi_begin pl) (vi_end pl)))
       (zip [0..<length planes] planes) (\<lambda>r c. 0, \<lambda>r c. 0)"

text \<open>The planes with the time steps of the visibilities.\<close>

definition aproj_setup ::
  "aproj_env \<Rightarrow> kernel_creator \<Rightarrow> nat \<Rightarrow> nat \<Rightarrow> nat \<Rightarrow> w_projection_pars \<Rightarrow> real \<Rightarrow> bool \<Rightarrow> fft_routine \<Rightarrow> a_projection_pars \<Rightarrow>
   real list \<Rightarrow> vis_arrays \<Rightarrow> fft_error + step_plane list \<times> (nat \<Rightarrow> nat)"
where
  "aproj_setup env creator N n os wp cell analytic routine ap hours A =
     (let g = ap_gridder env;
          st = average_w_planes n (\<lambda>i. \<bar>w_values A i\<bar>) (good_vis A) (num_wplanes wp) (wplanes_median wp);
          workarea = workarea_size wp N (max_wpconv_support wp);
          fov = arc_sec_to_rad cell * real N
      in case ImgDomKernel (grid_fftw g) creator workarea False analytic routine of
           Inl e \<Rightarrow> Inl e
         | Inr aa \<Rightarrow>
         (case WideFieldImaging (grid_dht_ranges g) (grid_dht_mem g) workarea (arc_sec_to_rad cell) os (real N / real workarea) wp routine of
            Inl e \<Rightarrow> Inl e
          | Inr W \<Rightarrow>
          (case average_lha_planes (ap_linspace env) (ap_steps_mem env) hours (good_vis A) (a_projection_pars.num_timesteps ap) of
             None \<Rightarrow> Inl Assertion_failed
           | Some (lhas, steps) \<Rightarrow>
               let Akernel = a_kernel env (ap_schedule env 0 0) ap fov workarea 0
               in (case aproj_planes env ap aa Akernel fov workarea lhas n (num_wplanes wp) st [0..<num_wplanes wp] W of
                     Inl e \<Rightarrow> Inl e
                   | Inr planes \<Rightarrow> Inr (planes, steps)))))"

text \<open>The function with A-projection, which sets W-projection and so needs its parameters.\<close>

definition convolve_to_grid_aproj ::
  "aproj_env \<Rightarrow> bool \<Rightarrow> kernel_creator \<Rightarrow> nat \<Rightarrow> nat \<Rightarrow> vis_data \<Rightarrow> (nat \<Rightarrow> real) \<Rightarrow>
   bool \<Rightarrow> nat \<Rightarrow> bool \<Rightarrow> bool \<Rightarrow> w_projection_pars \<Rightarrow> real \<Rightarrow> bool \<Rightarrow> fft_routine \<Rightarrow> a_projection_pars \<Rightarrow> fft_error + gridder_output"
where
  "convolve_to_grid_aproj env beam creator N n d weights exact os shift_uv halfplane wp cell analytic routine ap =
     (let conv_sup = max_wpconv_support wp;
          os' = even_oversampling False os;
          sorted_idxs = sorted_by_w (ap_gridder env) n d;
          weights' = (\<lambda>i. weights (sorted_idxs ! i));
          hours = map (\<lambda>i. lha ap ! i) sorted_idxs;
          (A, fracs) = prepare_visibilities True halfplane shift_uv n (int N) conv_sup os' (reorder sorted_idxs d) weights';
          rows = (if halfplane then int N div 2 + 1 else int N)
      in if \<not> (exact \<or> os \<ge> 1) \<or> N mod 2 \<noteq> 0 \<or> exact \<or> \<not> w_enabled wp \<or> hankel_opt wp \<or> conv_sup = 0 then Inl Assertion_failed
         else
           (case aproj_setup env creator N n os' wp cell analytic routine ap hours A of
              Inl e \<Rightarrow> Inl e
            | Inr (planes, steps) \<Rightarrow> Inr (grid_mats (int N) rows beam (sample_grid_total n A)
                (grid_timesteps (int N) rows beam os' (grid_rbegins (ap_gridder env)) A steps planes))))"

section \<open>The grids\<close>

lemma timestep_points:
  "vis_points N os True cache (timestep_vis A steps ts) b e = list_points N os True cache A (filter (\<lambda>vi. steps vi = ts) [b..<e])"
proof -
  have point: "vis_point N os True cache (timestep_vis A steps ts) vi gv = vis_point N os True cache A vi gv" for vi gv
    by (simp add: vis_point_def timestep_vis_def)
  have "concat (map (\<lambda>vi. map (vis_point N os True cache (timestep_vis A steps ts) vi) [0..<good_vis (timestep_vis A steps ts) vi]) xs) =
      list_points N os True cache A (filter (\<lambda>vi. steps vi = ts) xs)" for xs
    by (induction xs) (simp_all add: list_points_def point, simp_all add: timestep_vis_def)
  then show ?thesis
    by (simp add: vis_points_def)
qed

definition step_sum ::
  "int \<Rightarrow> nat \<Rightarrow> nat \<Rightarrow> (nat \<Rightarrow> nat) \<Rightarrow> step_plane list \<Rightarrow> (nat \<Rightarrow> visibility) \<Rightarrow> (nat \<Rightarrow> real) \<Rightarrow> nat \<Rightarrow> nat \<Rightarrow> complex"
where
  "step_sum N support os steps planes q weights r c =
     (\<Sum>(ts, pl) \<leftarrow> planes. list_sum N support os True pl (filter (\<lambda>vi. steps vi = ts) [vi_begin pl..<vi_end pl]) q weights r c)"

lemma grid_timesteps_value:
  assumes N: "even N" and os: "oversampling_ok os" and planes: "\<forall>(ts, pl) \<in> set planes. plane_ok n support pl"
    and A: "\<And>i. i < n \<Longrightarrow> prepared N support os True A i (q i) (weights i)"
    and rb: "\<forall>k m. mset (rbegins k m) = mset [0..<m]" and r: "int r \<le> N div 2" and c: "int c < N"
  shows "fst (grid_timesteps N (N div 2 + 1) beam os rbegins A steps planes) r c = step_sum N support os steps planes q weights r c"
    and "snd (grid_timesteps N (N div 2 + 1) beam os rbegins A steps planes) r c =
      (if beam then step_sum N support os steps planes (unit_vis \<circ> q) weights r c else 0)"
proof -
  let ?step = "\<lambda>(k, ts, pl). parallel_gridder (plane_pars N (N div 2 + 1) beam pl) (rbegins k (2 * plane_support pl + 1))
     (vis_points N os True (plane_cache pl) (timestep_vis A steps ts) (vi_begin pl) (vi_end pl))"
  have run: "fst (fold ?step xs Gs) r c = fst Gs r c + step_sum N support os steps (map snd xs) q weights r c \<and>
      snd (fold ?step xs Gs) r c = snd Gs r c + (if beam then step_sum N support os steps (map snd xs) (unit_vis \<circ> q) weights r c else 0)"
    if "\<forall>(k, ts, pl) \<in> set xs. plane_ok n support pl" for xs Gs
    using that
  proof (induction xs arbitrary: Gs)
    case Nil
    then show ?case
      by (simp add: step_sum_def)
  next
    case (Cons x xs)
    obtain k ts pl where x: "x = (k, ts, pl)"
      by (metis surj_pair)
    have pl: "plane_support pl \<le> support" "\<And>vi. vi \<in> set (filter (\<lambda>vi. steps vi = ts) [vi_begin pl..<vi_end pl]) \<Longrightarrow> vi < n"
      using Cons.prems by (auto simp: x plane_ok_def)
    define q' where "q' = unit_vis \<circ> q"
    have x_step: "?step x Gs = parallel_gridder (plane_pars N (N div 2 + 1) beam pl) (rbegins k (2 * plane_support pl + 1))
        (list_points N os True (plane_cache pl) A (filter (\<lambda>vi. steps vi = ts) [vi_begin pl..<vi_end pl])) Gs"
      by (simp only: x prod.case timestep_points)
    note step = grid_list_terms [OF N os pl A rb [rule_format, of k] r c x_step, folded q'_def]
    have rest: "\<forall>(k, ts, pl) \<in> set xs. plane_ok n support pl"
      using Cons.prems by auto
    have sums: "step_sum N support os steps (map snd (x # xs)) p weights r c =
        list_sum N support os True pl (filter (\<lambda>vi. steps vi = ts) [vi_begin pl..<vi_end pl]) p weights r c +
        step_sum N support os steps (map snd xs) p weights r c" for p
      by (simp add: x step_sum_def)
    show ?case
      using Cons.IH [OF rest, of "?step x Gs", folded q'_def] step unfolding fold_simps(2) comp_apply sums q'_def [symmetric]
      by (cases beam) simp_all
  qed
  have xs: "\<forall>(k, ts, pl) \<in> set (zip [0..<length planes] planes). plane_ok n support pl"
    using planes by (auto dest: set_zip_rightD)
  show "fst (grid_timesteps N (N div 2 + 1) beam os rbegins A steps planes) r c = step_sum N support os steps planes q weights r c"
    "snd (grid_timesteps N (N div 2 + 1) beam os rbegins A steps planes) r c =
      (if beam then step_sum N support os steps planes (unit_vis \<circ> q) weights r c else 0)"
    using run [OF xs, of "(\<lambda>r c. 0, \<lambda>r c. 0)"] by (simp_all add: grid_timesteps_def)
qed

section \<open>The planes\<close>

definition support_ok :: "nat \<Rightarrow> wide_field \<Rightarrow> bool" where
  "support_ok s W \<longleftrightarrow> truncated_wpconv_support W \<le> s \<and> max_wpconv_support (wf_pars W) = s"

lemma aproj_kernel_support:
  "generate_convolution_kernel_aproj F rss a W = Inr W' \<Longrightarrow> support_ok s W \<Longrightarrow> support_ok s W'"
  using truncate_support_sizes(1)
  by (cases rss) (fastforce simp: generate_convolution_kernel_aproj_def support_ok_def same_sizes_def Let_def split: if_splits sum.splits)

lemma timestep_kernel_support:
  "timestep_kernel env sch ap fov workarea h W = Inr W' \<Longrightarrow> support_ok s W \<Longrightarrow> support_ok s W'"
  using aproj_kernel_support
  by (fastforce simp: timestep_kernel_def rotate_kernel_def support_ok_def Let_def split: if_splits)

lemma plane_kernel_support:
  assumes "aproj_plane_kernel env ap aa Akernel pl w W = Inr W'" and "support_ok s W"
  shows "support_ok s W'"
proof -
  obtain W1 where W1: "generate_image_domain_convolution_kernel (plane_env (ap_gridder env) pl) w aa W = Inr W1"
    "if aproj_opt ap then generate_convolution_kernel_aproj (grid_fftw (ap_gridder env)) (product_ranges (ap_schedule env pl 0)) Akernel W1 = Inr W'
     else W' = W1"
    using assms(1) by (auto simp: aproj_plane_kernel_def split: sum.splits if_splits)
  have "support_ok s W1"
    using W1(1) assms(2) by (auto simp: generate_image_domain_convolution_kernel_def support_ok_def Let_def split: if_splits)
  then show ?thesis
    using W1(2) aproj_kernel_support by (auto split: if_splits)
qed

lemma aproj_timesteps_props:
  assumes "aproj_timesteps env ap fov workarea lhas pl bounds tss W = Inr (planes, W')" and "support_ok s W"
  shows "map (\<lambda>(ts, p). (ts, vi_begin p, vi_end p)) planes = map (\<lambda>ts. (ts, bounds)) tss \<and>
    (\<forall>(ts, p) \<in> set planes. plane_support p \<le> s) \<and> support_ok s W'"
  using assms
proof (induction tss arbitrary: W planes)
  case (Cons ts tss)
  obtain W1 rest where W1: "timestep_kernel env (ap_schedule env pl ts) ap fov workarea (lhas ts) W = Inr W1"
    and rest: "aproj_timesteps env ap fov workarea lhas pl bounds tss W1 = Inr (rest, W')"
    and planes: "planes = (ts, \<lparr>vi_begin = fst bounds, vi_end = snd bounds, plane_cache = generate_kernel_cache W1,
      plane_support = truncated_wpconv_support W1\<rparr>) # rest"
    using Cons.prems(1) by (auto split: sum.splits if_splits)
  have "support_ok s W1"
    by (rule timestep_kernel_support [OF W1 Cons.prems(2)])
  then show ?case
    using Cons.IH [OF rest] by (simp add: planes support_ok_def)
qed simp

lemma aproj_planes_props:
  assumes "aproj_planes env ap aa Akernel fov workarea lhas n m st pls W = Inr planes" and "support_ok s W"
  shows "map (\<lambda>(ts, p). (ts, vi_begin p, vi_end p)) planes =
      concat (map (\<lambda>pl. map (\<lambda>ts. (ts, plane_bounds n m st pl)) [0..<a_projection_pars.num_timesteps ap]) pls) \<and>
    (\<forall>(ts, p) \<in> set planes. plane_support p \<le> s)"
  using assms
proof (induction pls arbitrary: W planes)
  case (Cons pl pls)
  obtain W1 W2 first rest where W1: "aproj_plane_kernel env ap aa Akernel pl (w_avg_values st pl) W = Inr W1"
    and first: "aproj_timesteps env ap fov workarea lhas pl (plane_bounds n m st pl) [0..<a_projection_pars.num_timesteps ap] W1 = Inr (first, W2)"
    and rest: "aproj_planes env ap aa Akernel fov workarea lhas n m st pls W2 = Inr rest" and planes: "planes = first @ rest"
    using Cons.prems(1) by (auto split: sum.splits)
  note props = aproj_timesteps_props [OF first plane_kernel_support [OF W1 Cons.prems(2)]]
  show ?case
    using Cons.IH [OF rest] props by (auto simp: planes)
qed simp

section \<open>One plane and time step for every visibility\<close>

definition takes :: "(nat \<Rightarrow> nat) \<Rightarrow> nat \<Rightarrow> step_plane \<Rightarrow> bool" where
  "takes steps vi = (\<lambda>x. steps vi = fst x \<and> vi_begin (snd x) \<le> vi \<and> vi < vi_end (snd x))"

lemma count_list_upt: "count_list [b..<e] i = (if b \<le> i \<and> i < e then 1 else 0)"
  by (induction e) auto

lemma count_list_concat: "count_list (concat xss) i = (\<Sum>xs \<leftarrow> xss. count_list xs i)"
  by (induction xss) simp_all

lemma map_case_prod: "map (\<lambda>(a, b). g a b) xs = map (\<lambda>x. g (fst x) (snd x)) xs"
  by (simp add: case_prod_beta)

lemma sum_list_exchange:
  fixes f :: "'a \<Rightarrow> nat \<Rightarrow> 'b :: comm_monoid_add"
  assumes "\<forall>x \<in> set xs. e x \<le> n"
  shows "(\<Sum>x \<leftarrow> xs. \<Sum>i \<leftarrow> filter (P x) [b x..<e x]. f x i) = (\<Sum>i \<leftarrow> [0..<n]. \<Sum>x \<leftarrow> filter (\<lambda>x. P x i \<and> b x \<le> i \<and> i < e x) xs. f x i)"
  using assms
proof (induction xs)
  case (Cons x xs)
  have "(\<Sum>i \<leftarrow> filter (P x) [b x..<e x]. f x i) = (\<Sum>i \<leftarrow> [b x..<e x]. if P x i then f x i else 0)"
    by (simp add: sum_list_map_filter')
  also have "\<dots> = (\<Sum>i \<in> {b x..<e x}. if P x i then f x i else 0)"
    by (simp add: interv_sum_list_conv_sum_set_nat)
  also have "\<dots> = (\<Sum>i \<in> {0..<n}. if P x i \<and> b x \<le> i \<and> i < e x then f x i else 0)"
    using Cons.prems by (intro sum.mono_neutral_cong_left) auto
  also have "\<dots> = (\<Sum>i \<leftarrow> [0..<n]. if P x i \<and> b x \<le> i \<and> i < e x then f x i else 0)"
    by (simp add: interv_sum_list_conv_sum_set_nat)
  finally have x: "(\<Sum>i \<leftarrow> filter (P x) [b x..<e x]. f x i) = (\<Sum>i \<leftarrow> [0..<n]. if P x i \<and> b x \<le> i \<and> i < e x then f x i else 0)" .
  show ?case
    using Cons by (simp add: x sum_list_addf [symmetric] if_distrib cong: if_cong) (intro arg_cong [where f = sum_list] map_cong refl; simp)
qed simp

lemma step_sum_by_visibility:
  assumes "\<forall>(ts, pl) \<in> set planes. plane_ok n support pl"
    and "\<And>i. i < n \<Longrightarrow> centre_in_bounds N support (q i) \<Longrightarrow> length (filter (takes steps i) planes) = 1"
  shows "step_sum N support os steps planes q weights r c =
    (\<Sum>i \<leftarrow> [0..<n].
       if centre_in_bounds N support (q i) then
         let pl = snd (hd (filter (takes steps i) planes))
         in of_real (weights i) * sym_term N (vis_kernel os True (plane_cache pl)) (plane_support pl) (q i) r c
       else 0)"
proof -
  define f where "f = (\<lambda>x :: step_plane. \<lambda>i. if centre_in_bounds N support (q i) then
    of_real (weights i) * sym_term N (vis_kernel os True (plane_cache (snd x))) (plane_support (snd x)) (q i) r c else 0)"
  have "step_sum N support os steps planes q weights r c =
      (\<Sum>x \<leftarrow> planes. \<Sum>i \<leftarrow> filter (\<lambda>i. steps i = fst x) [vi_begin (snd x)..<vi_end (snd x)]. f x i)"
    unfolding step_sum_def list_sum_def f_def map_case_prod ..
  also have "\<dots> = (\<Sum>i \<leftarrow> [0..<n]. \<Sum>x \<leftarrow> filter (\<lambda>x. steps i = fst x \<and> vi_begin (snd x) \<le> i \<and> i < vi_end (snd x)) planes. f x i)"
    by (rule sum_list_exchange) (use assms(1) in \<open>auto simp: plane_ok_def\<close>)
  also have "\<dots> = (\<Sum>i \<leftarrow> [0..<n]. \<Sum>x \<leftarrow> filter (takes steps i) planes. f x i)"
    by (simp only: takes_def)
  also have "\<dots> = (\<Sum>i \<leftarrow> [0..<n]. if centre_in_bounds N support (q i) then f (hd (filter (takes steps i) planes)) i else 0)"
  proof (intro arg_cong [where f = sum_list] map_cong refl)
    fix i
    assume i: "i \<in> set [0..<n]"
    show "(\<Sum>x \<leftarrow> filter (takes steps i) planes. f x i) = (if centre_in_bounds N support (q i) then f (hd (filter (takes steps i) planes)) i else 0)"
    proof (cases "centre_in_bounds N support (q i)")
      case True
      then obtain x where "filter (takes steps i) planes = [x]"
        using assms(2) [of i] i by (auto simp: length_Suc_conv)
      then show ?thesis
        using True by simp
    next
      case False
      then show ?thesis
        by (simp add: f_def)
    qed
  qed
  finally show ?thesis
    by (simp add: f_def Let_def cong: if_cong)
qed

text \<open>The planes and time steps of \<^verbatim>\<open>average_w_planes\<close> take every visibility once.\<close>

lemma takes_once:
  assumes "map (\<lambda>(ts, p). (ts, vi_begin p, vi_end p)) planes = concat (map (\<lambda>pl. map (\<lambda>ts. (ts, plane_bounds n m st pl)) [0..<num]) [0..<m])"
    and "planes_inv n gvis m st" and "0 < m" and "i < n" and "steps i < num"
  shows "length (filter (takes steps i) planes) = 1"
proof -
  let ?P = "\<lambda>(ts, b, e). steps i = ts \<and> b \<le> i \<and> i < e"
  have one: "length (filter (\<lambda>ts. steps i = ts \<and> R) [0..<num]) = (if R then 1 else 0)" for R
  proof -
    have "filter (\<lambda>ts. steps i = ts) [0..<num] = [steps i]"
      using assms(5) by (induction num) (auto simp: less_Suc_eq filter_empty_conv)
    then show ?thesis
      by simp
  qed
  have "length (filter (takes steps i) planes) = length (filter ?P (map (\<lambda>(ts, p). (ts, vi_begin p, vi_end p)) planes))"
    by (simp add: filter_map comp_def takes_def case_prod_beta)
  also have "\<dots> = (\<Sum>pl \<leftarrow> [0..<m]. length (filter (\<lambda>ts. ?P (ts, plane_bounds n m st pl)) [0..<num]))"
    unfolding assms(1) by (simp add: filter_concat length_concat comp_def filter_map)
  also have "\<dots> = (\<Sum>pl \<leftarrow> [0..<m]. count_list (plane_vis n m st pl) i)"
    by (simp add: case_prod_beta one count_list_upt plane_vis_def plane_bounds_def cong: if_cong)
  also have "\<dots> = count_list (concat (map (plane_vis n m st) [0..<m])) i"
    by (simp add: count_list_concat comp_def)
  also have "\<dots> = 1"
    unfolding plane_vis_partition [OF assms(2,3)] using assms(4) by (simp add: count_list_upt)
  finally show ?thesis .
qed

lemma aproj_setup_props:
  assumes made: "aproj_setup env creator N n os wp cell analytic routine ap hours A = Inr (planes, steps)"
    and linspace: "linspace_documented (ap_linspace env)"
    and num: "0 < num_wplanes wp" "0 < a_projection_pars.num_timesteps ap"
    and n: "length hours = n"
  shows "\<forall>(ts, pl) \<in> set planes. plane_ok n (max_wpconv_support wp) pl"
    and "\<And>i. i < n \<Longrightarrow> good_vis A i \<noteq> 0 \<Longrightarrow> length (filter (takes steps i) planes) = 1"
proof -
  let ?m = "num_wplanes wp" and ?num = "a_projection_pars.num_timesteps ap"
  define st where "st = average_w_planes n (\<lambda>i. \<bar>w_values A i\<bar>) (good_vis A) ?m (wplanes_median wp)"
  obtain rs mem ks c scaling W lhas fov aa Akernel where W: "WideFieldImaging rs mem ks c os scaling wp routine = Inr W"
    and lha: "average_lha_planes (ap_linspace env) (ap_steps_mem env) hours (good_vis A) ?num = Some (lhas, steps)"
    and planes: "aproj_planes env ap aa Akernel fov ks lhas n ?m st [0..<?m] W = Inr planes"
    using made unfolding aproj_setup_def Let_def st_def by (auto split: sum.splits option.splits)
  have "support_ok (max_wpconv_support wp) W"
    using W by (auto simp: WideFieldImaging_def support_ok_def Let_def split: if_splits)
  note props = aproj_planes_props [OF planes this]
  have inv: "planes_inv n (good_vis A) ?m st"
    using average_w_planes_inv st_def by blast
  have bounds: "vi_end pl \<le> n" if "(ts, pl) \<in> set planes" for ts pl
  proof -
    have "(ts, vi_begin pl, vi_end pl) \<in> set (map (\<lambda>(ts, p). (ts, vi_begin p, vi_end p)) planes)"
      using that by force
    then obtain p where "p < ?m" "(vi_begin pl, vi_end pl) = plane_bounds n ?m st p"
      unfolding conjunct1 [OF props] by auto
    then show ?thesis
      using plane_bounds_le [OF st_def] by (metis snd_conv)
  qed
  then show "\<forall>(ts, pl) \<in> set planes. plane_ok n (max_wpconv_support wp) pl"
    using props by (auto simp: plane_ok_def)
  fix i
  assume i: "i < n" "good_vis A i \<noteq> 0"
  obtain min_time max_time where "lha_range hours = (min_time, max_time)"
    by (metis surj_pair)
  note spec = average_lha_planes_spec [OF linspace num(2) n [symmetric] _ this refl, of "ap_steps_mem env" "good_vis A"]
  have "0 < n"
    using i(1) by simp
  then have "\<forall>j < n. good_vis A j \<noteq> 0 \<longrightarrow> steps j < ?num"
    using spec unfolding lha by blast
  then have "steps i < ?num"
    using i by blast
  then show "length (filter (takes steps i) planes) = 1"
    by (rule takes_once [OF conjunct1 [OF props] inv num(1) i(1)])
qed

text \<open>
  C7. With A-projection every visibility in bounds is gridded once, with its conjugate, by the kernels of its w-plane and
  time step: exactly one pair of them takes it. The visibility grid, and the sampling grid if it is wanted, is the sum of
  these kernels on the torus of the whole plane, on every row of the half that the code keeps.
\<close>

theorem gridding_with_aprojection:
  assumes "convolve_to_grid_aproj env beam creator N n d weights False os True True wp cell analytic routine ap = Inr out"
    and "threads_ok (ap_gridder env)" and "linspace_documented (ap_linspace env)"
    and "0 < num_wplanes wp" and "0 < a_projection_pars.num_timesteps ap"
    and "sorted_idxs = sorted_by_w (ap_gridder env) n d" and "length sorted_idxs = n" and "s = max_wpconv_support wp"
    and "q = vis_of (reorder sorted_idxs d)" and "weights' = (\<lambda>i. weights (sorted_idxs ! i))"
    and "(A, fracs) = prepare_visibilities True True True n (int N) s (even_oversampling False os) (reorder sorted_idxs d) weights'"
    and "aproj_setup env creator N n (even_oversampling False os) wp cell analytic routine ap (map (\<lambda>i. lha ap ! i) sorted_idxs) A =
      Inr (planes, steps)"
    and "step_grid = (\<lambda>q r c. \<Sum>i \<leftarrow> [0..<n].
      if centre_in_bounds (int N) s (q i) then
        let pl = snd (hd (filter (takes steps i) planes))
        in of_real (weights' i) * sym_term (int N) (vis_kernel (even_oversampling False os) True (plane_cache pl)) (plane_support pl) (q i) r c
      else 0)"
  shows "(\<forall>i < n. centre_in_bounds (int N) s (q i) \<longrightarrow> length (filter (takes steps i) planes) = 1) \<and>
    (\<exists>Gs. out = grid_mats (int N) (int N div 2 + 1) beam
        (2 * (\<Sum>i \<leftarrow> [0..<n]. if centre_in_bounds (int N) s (q i) then weights' i else 0)) Gs \<and>
      (\<forall>r c. int r \<le> int N div 2 \<longrightarrow> c < N \<longrightarrow>
        fst Gs r c = step_grid q r c \<and> snd Gs r c = (if beam then step_grid (unit_vis \<circ> q) r c else 0)))"
proof -
  let ?os = "even_oversampling False os" and ?hours = "map (\<lambda>i. lha ap ! i) sorted_idxs" and ?q' = "\<lambda>i. oriented (q i)"
  define Gs where "Gs = grid_timesteps (int N) (int N div 2 + 1) beam ?os (grid_rbegins (ap_gridder env)) A steps planes"
  note run = assms(1) [unfolded convolve_to_grid_aproj_def Let_def assms(6) [symmetric] assms(8) [symmetric] assms(10) [symmetric] if_True
      assms(11) [symmetric] prod.case assms(12) sum.case, folded Gs_def]
  have N: "even (int N)" and out: "out = grid_mats (int N) (int N div 2 + 1) beam (sample_grid_total n A) Gs"
    using run by (auto simp: even_iff_mod_2_eq_zero split: if_splits)
  have good: "\<forall>i < n. good (reorder sorted_idxs d) i = 1"
    by (simp add: reorder_def)
  have prep: "prepared (int N) s ?os True A i (?q' i) (weights' i)" if "i < n" for i
    using prepare_visibilities_prepared [OF N that _ assms(11)] good that unfolding assms(9) by blast
  have vis_ok: "good_vis A i \<noteq> 0" if "i < n" "centre_in_bounds (int N) s (q i)" for i
    using prep [OF that(1)] that(2) by (auto simp: prepared_def centre_in_bounds_oriented split: prod.splits if_splits)
  note props = aproj_setup_props [OF assms(12,3,4,5), folded assms(8)]
  have once: "length (filter (takes steps i) planes) = 1" if "i < n" "centre_in_bounds (int N) s (q i)" for i
    by (rule props(2)) (use that vis_ok assms(7) in simp_all)
  have planes: "\<forall>(ts, pl) \<in> set planes. plane_ok n s pl"
    by (rule props(1)) (simp add: assms(7))
  have orient: "unit_vis \<circ> ?q' = (\<lambda>i. oriented ((unit_vis \<circ> q) i))"
    by (simp add: fun_eq_iff oriented_unit)
  have unit: "centre_in_bounds (int N) s ((unit_vis \<circ> q) i) = centre_in_bounds (int N) s (q i)" for i
    by (cases "q i") (simp add: centre_in_bounds_def unit_vis_def)
  have sums: "step_sum (int N) s ?os steps planes (\<lambda>i. oriented (p i)) weights' r c = step_grid p r c"
    if "\<And>i. centre_in_bounds (int N) s (p i) = centre_in_bounds (int N) s (q i)" for p r c
    unfolding assms(13) by (subst step_sum_by_visibility [OF planes])
      (use that once in \<open>simp_all add: centre_in_bounds_oriented sym_term_oriented Let_def cong: if_cong\<close>)
  have grids: "fst Gs r c = step_grid q r c \<and> snd Gs r c = (if beam then step_grid (unit_vis \<circ> q) r c else 0)"
    if rc: "int r \<le> int N div 2" "c < N" for r c
  proof -
    have threads: "\<forall>k m. mset (grid_rbegins (ap_gridder env) k m) = mset [0..<m]"
      using assms(2) unfolding threads_ok_def .
    have "int c < int N"
      using rc(2) by simp
    note vals = grid_timesteps_value [OF N even_oversampling_ok planes prep threads rc(1) this, of beam steps, folded Gs_def]
    show ?thesis
      using vals unfolding orient sums [OF refl] sums [OF unit] by blast
  qed
  have total: "sample_grid_total n A = 2 * (\<Sum>i \<leftarrow> [0..<n]. if centre_in_bounds (int N) s (q i) then weights' i else 0)"
    unfolding assms(9) by (rule sample_grid_total_value [OF N good assms(11)])
  show ?thesis
    using once grids out [unfolded total] by blast
qed

end
