(* ===== verification/Wide_Hankel.thy ===== *)
theory Wide_Hankel
  imports Wide_Symmetry
begin

text \<open>
  The Hankel form of the w-kernels: its samples along the radius are those of the transform of two dimensions (with
  the projection slice), and the cache reads the interpolated value of the right radius.
\<close>

section \<open>The projection slice\<close>

lemma sum_end_distance:
  fixes f :: "nat \<Rightarrow> complex"
  assumes "0 < half" and arr: "2 * half \<le> arr"
  shows "(\<Sum>r<arr. if end_distance arr half r < half then f (end_distance arr half r) else 0) = f 0 + 2 * (\<Sum>a = 1..<half. f a)"
proof -
  let ?d = "end_distance arr half" and ?g = "\<lambda>r. if end_distance arr half r < half then f (end_distance arr half r) else 0"
  have "{..<arr} = {0} \<union> {1..<half} \<union> {half..arr - half} \<union> {arr - half<..<arr}"
    using assms by auto
  then have "(\<Sum>r<arr. ?g r) = sum ?g ({0} \<union> {1..<half} \<union> {half..arr - half} \<union> {arr - half<..<arr})"
    by simp
  also have "\<dots> = ?g 0 + (\<Sum>r = 1..<half. ?g r) + (\<Sum>r \<in> {half..arr - half}. ?g r) + (\<Sum>r \<in> {arr - half<..<arr}. ?g r)"
    using assms by (subst sum.union_disjoint, auto)+
  also have "(\<Sum>r \<in> {half..arr - half}. ?g r) = 0"
    using assms by (intro sum.neutral) (auto simp: end_distance_def)
  also have "(\<Sum>r \<in> {arr - half<..<arr}. ?g r) = (\<Sum>a = 1..<half. f a)"
    using assms by (intro sum.reindex_bij_witness [of _ "\<lambda>a. arr - a" "\<lambda>r. arr - r"]) (auto simp: end_distance_def)
  also have "(\<Sum>r = 1..<half. ?g r) = (\<Sum>a = 1..<half. f a)"
    by (intro sum.cong refl) (auto simp: end_distance_def)
  also have "?g 0 = f 0"
    using assms by (simp add: end_distance_def)
  finally show ?thesis
    by simp
qed

text \<open>Loops that write each element of a list once.\<close>

lemma fold_list_add:
  fixes v :: "nat \<Rightarrow> complex"
  shows "length (fold (\<lambda>i out. out[j := out ! j + v i]) is out) = length out \<and>
    (k < length out \<longrightarrow> fold (\<lambda>i out. out[j := out ! j + v i]) is out ! k = (if k = j then out ! j + sum_list (map v is) else out ! k))"
  by (induction "is" arbitrary: out) (auto simp: nth_list_update add.assoc)

lemma fold_list_own:
  assumes "distinct is" and "k < length out" and "\<And>i out. length (f i out) = length (out :: complex list)"
    and "\<And>i k out. k < length out \<Longrightarrow> f i out ! k = (if k = i then g i (out ! i) else out ! k)"
  shows "fold f is out ! k = (if k \<in> set is then g k (out ! k) else out ! k)"
  using assms(1,2)
proof (induction "is" arbitrary: out)
  case (Cons i "is")
  then show ?case
    using assms(3,4) by auto
qed simp

lemma length_fold_list:
  assumes "\<And>i out. length (f i out) = length out"
  shows "length (fold f is out) = length out"
  using assms by (induction "is" arbitrary: out) simp_all

lemma fold_list_mirror:
  assumes "2 * half \<le> arr" and "m \<le> half" and "length out = arr" and "k < arr"
  shows "length (fold (\<lambda>i out. out[arr - i := out ! i]) [1..<m] out) = arr \<and>
    fold (\<lambda>i out. out[arr - i := out ! i]) [1..<m] out ! k = (if arr - m < k then out ! (arr - k) else out ! k)"
  using assms(2,4)
proof (induction m arbitrary: k)
  case 0
  then show ?case
    using assms(3) by simp
next
  case (Suc m)
  show ?case
  proof (cases "m = 0")
    case True
    then show ?thesis
      using assms Suc by (auto simp: upt_rec)
  next
    case False
    have IH: "length (fold (\<lambda>i out. out[arr - i := out ! i]) [1..<m] out) = arr"
      "fold (\<lambda>i out. out[arr - i := out ! i]) [1..<m] out ! k = (if arr - m < k then out ! (arr - k) else out ! k)"
      "fold (\<lambda>i out. out[arr - i := out ! i]) [1..<m] out ! m = (if arr - m < m then out ! (arr - m) else out ! m)"
      using Suc assms by simp_all
    have "\<not> arr - m < m" "[1..<Suc m] = [1..<m] @ [m]" "m \<le> arr"
      using Suc.prems assms(1) False by auto
    then show ?thesis
      using IH Suc.prems False by (auto simp: nth_list_update)
  qed
qed

lemma projected_kernel_sums:
  assumes sizes: "wide_sizes_ok W" and ranges: "wide_ranges_ok env (wf_kernel_size W)" and k: "k < array_size W"
  shows "length (generate_projected_image_domain_kernel env w aa W) = array_size W"
    and "generate_projected_image_domain_kernel env w aa W ! k = (\<Sum>r < array_size W. full_image_kernel aa w W r k)"
proof -
  define arr where "arr = array_size W"
  define half where "half = wf_kernel_size W div 2"
  let ?val = "image_value aa w W" and ?d = "end_distance arr half"
  have half: "0 < half" "2 * half \<le> arr" "half < arr"
    using wide_sizes(5,6) [OF sizes] by (simp_all add: half_def arr_def)
  have set: "set (elements (line_ranges env)) = {1..<half}" "set (elements (square_ranges env)) = {1..<half}"
    "distinct (elements (line_ranges env))" "distinct (elements (square_ranges env))"
    using ranges covers_elements_set unfolding wide_ranges_ok_def half_def by blast+
  define out1 where "out1 = parallel_for (\<lambda>i out. out[i := ?val i 0]) (line_ranges env) (replicate arr 0)"
  define out2 where "out2 = out1[0 := sum_list out1 * 2]"
  define out3 where "out3 = out2[0 := out2 ! 0 + ?val 0 0]"
  define out4 where "out4 = parallel_for (\<lambda>j out. fold (\<lambda>i out. out[j := out ! j + ?val i j * 2]) [1..<half] out) (square_ranges env) out3"
  define out5 where "out5 = fold (\<lambda>i out. out[arr - i := out ! i]) [1..<half] out4"
  have run5: "generate_projected_image_domain_kernel env w aa W = out5"
  proof -
    have val: "combine_2d_kernel_value aa i j w (wf_cell_size W * wf_scaling_factor W) half = ?val i j" for i j
      by (simp add: image_value_def half_def)
    have centre: "?val 0 0 = of_real (aa ! half * aa ! half)"
      unfolding image_value_def combine_2d_kernel_value_centre half_def ..
    show ?thesis
      unfolding generate_projected_image_domain_kernel_def Let_def half_def [symmetric] arr_def [symmetric] val
        out5_def out4_def out3_def out2_def out1_def centre ..
  qed
  have len: "length out1 = arr" "length out2 = arr" "length out3 = arr" "length out4 = arr" "length out5 = arr"
    unfolding out5_def out4_def out3_def out2_def out1_def parallel_for_def
    by (simp_all add: length_fold_list fold_list_add)
  have out1: "out1 ! k = (if 1 \<le> k \<and> k < half then ?val k 0 else 0)" if "k < arr" for k
    unfolding out1_def parallel_for_def
    using fold_list_own [OF set(3), of k "replicate arr 0" "\<lambda>i out. out[i := ?val i 0]" "\<lambda>i _. ?val i 0"] that by (auto simp: set(1))
  have sum_index: "(\<Sum>k<arr. if 1 \<le> k \<and> k < half then f k else 0) = (\<Sum>k = 1..<half. f k)" for f :: "nat \<Rightarrow> complex"
    using half by (intro sum.mono_neutral_cong_right) auto
  have "sum_list out1 = (\<Sum>k<arr. out1 ! k)"
    by (simp add: sum_list_sum_nth len atLeast0LessThan)
  also have "\<dots> = (\<Sum>a = 1..<half. ?val a 0)"
    using out1 by (subst sum_index [symmetric]) simp
  finally have out3: "out3 ! k = (if k = 0 then ?val 0 0 + 2 * (\<Sum>a = 1..<half. ?val a 0) else if k < half then ?val k 0 else 0)"
    if "k < arr" for k
    using that out1 [OF that] half by (auto simp: out3_def out2_def len nth_list_update)
  have out4: "out4 ! k = (if 1 \<le> k \<and> k < half then ?val k 0 + 2 * (\<Sum>a = 1..<half. ?val a k) else out3 ! k)" if "k < arr" for k
  proof -
    have "out4 ! k = (if k \<in> set (elements (square_ranges env)) then out3 ! k + (\<Sum>i \<leftarrow> [1..<half]. ?val i k * 2) else out3 ! k)"
      unfolding out4_def parallel_for_def
      by (rule fold_list_own [OF set(4), where g = "\<lambda>j x. x + (\<Sum>i \<leftarrow> [1..<half]. ?val i j * 2)"])
        (use that fold_list_add in \<open>auto simp: len\<close>)
    moreover have "(\<Sum>i \<leftarrow> [1..<half]. ?val i k * 2) = 2 * (\<Sum>a = 1..<half. ?val a k)"
      by (simp add: interv_sum_list_conv_sum_set_nat sum_distrib_left mult.commute)
    moreover have "out3 ! k = ?val k 0" if "1 \<le> k" "k < half"
      using out3 [OF \<open>k < arr\<close>] that by simp
    ultimately show ?thesis
      by (auto simp: set(2))
  qed
  have sums: "out4 ! k = (if k < half then ?val 0 k + 2 * (\<Sum>a = 1..<half. ?val a k) else 0)" if "k < arr" for k
    using that out4 [OF that] out3 [OF that] image_value_commute [of aa w W k 0] half(1) by (cases "k = 0") auto
  have "out5 ! k = (if ?d k < half then ?val 0 (?d k) + 2 * (\<Sum>a = 1..<half. ?val a (?d k)) else 0)"
  proof -
    have "out5 ! k = (if arr - half < k then out4 ! (arr - k) else out4 ! k)"
      unfolding out5_def using fold_list_mirror [OF half(2) order_refl len(4), of k] k by (simp add: arr_def)
    then show ?thesis
      using sums [of k] sums [of "arr - k"] k half by (auto simp: end_distance_def arr_def)
  qed
  also have "\<dots> = (\<Sum>r < arr. if ?d r < half then (if ?d k < half then ?val (?d r) (?d k) else 0) else 0)"
    by (subst sum_end_distance [OF half(1,2)]) simp
  also have "\<dots> = (\<Sum>r < arr. full_image_kernel aa w W r k)"
    by (intro sum.cong refl) (simp add: full_image_kernel_def Let_def half_def arr_def)
  finally show "generate_projected_image_domain_kernel env w aa W ! k = (\<Sum>r < array_size W. full_image_kernel aa w W r k)"
    by (simp add: run5 arr_def)
  show "length (generate_projected_image_domain_kernel env w aa W) = array_size W"
    by (simp add: run5 len arr_def)
qed

text \<open>The transform of the sums is the transform of two dimensions on an axis.\<close>

lemma projection_slice:
  assumes F: "dft_1d_documented F"
    and slice: "fft_fftw_dft_c2c_1d F (generate_projected_image_domain_kernel env w aa W) routine = Inr radial"
    and sizes: "wide_sizes_ok W" and ranges: "wide_ranges_ok env (wf_kernel_size W)"
  shows "length radial = array_size W"
    and "k < array_size W \<Longrightarrow> radial ! k = dft2 (array_size W) (array_size W) (full_image_kernel aa w W) 0 k"
proof -
  let ?n = "array_size W" and ?p = "generate_projected_image_domain_kernel env w aa W"
  note sums = projected_kernel_sums [OF sizes ranges]
  have radial: "radial = run_dft_1d F ?p"
    using slice by (simp add: fft_fftw_dft_c2c_1d_def split: sum.splits)
  have len: "length ?p = ?n"
    using sums(1) wide_sizes(2) [OF sizes] by blast
  then show "length radial = ?n"
    using F by (simp add: radial dft_1d_documented_def)
  assume k: "k < ?n"
  have "radial ! k = (\<Sum>i<?n. ?p ! i * cis (- wave ?n (k * i)))"
    using F k len unfolding radial dft_1d_documented_def by simp
  also have "\<dots> = (\<Sum>i<?n. \<Sum>r<?n. full_image_kernel aa w W r i * cis (- wave ?n (k * i)))"
    using sums(2) by (intro sum.cong refl) (simp add: sum_distrib_right)
  also have "\<dots> = (\<Sum>r<?n. \<Sum>i<?n. full_image_kernel aa w W r i * cis (- (wave ?n (0 * r) + wave ?n (k * i))))"
    by (subst sum.swap) (simp add: wave_def)
  finally show "radial ! k = dft2 ?n ?n (full_image_kernel aa w W) 0 k"
    by (simp add: dft2_def)
qed

section \<open>Half a quadrant\<close>

text \<open>The index of row \<open>a\<close> and column \<open>b\<close>, from the diagonal on.\<close>

definition row_index :: "nat \<Rightarrow> nat \<Rightarrow> nat \<Rightarrow> nat" where
  "row_index offset a b = a * offset - a * (a + 1) div 2 + b"

lemma triangle_le: "a < offset \<Longrightarrow> a * (a + 1) div 2 \<le> a * offset" for a offset :: nat
proof -
  assume "a < offset"
  then have "a + 1 \<le> offset"
    by simp
  then have "a * (a + 1) \<le> a * offset"
    by (rule mult_le_mono2)
  then show ?thesis
    by linarith
qed

lemma row_index_next:
  assumes "a + 1 < offset"
  shows "row_index offset (a + 1) (a + 1) = row_index offset a offset"
proof -
  have "(a + 1) * (a + 1 + 1) div 2 = a * (a + 1) div 2 + (a + 1)"
    by simp
  moreover have "a * (a + 1) div 2 \<le> a * offset" "(a + 1) * (a + 1 + 1) div 2 \<le> (a + 1) * offset"
    using assms by (intro triangle_le, simp)+
  ultimately show ?thesis
    by (simp add: row_index_def)
qed

lemma row_index_mono:
  assumes "a < a'" and "a' < offset" and "b \<le> offset"
  shows "row_index offset a b \<le> row_index offset a' a'"
  using assms
proof (induction a' arbitrary: b)
  case 0
  then show ?case by simp
next
  case (Suc a')
  have next_row: "row_index offset (Suc a') (Suc a') = row_index offset a' offset"
    using row_index_next [of a' offset] Suc.prems by simp
  show ?case
  proof (cases "a = a'")
    case True
    then show ?thesis
      using Suc.prems unfolding next_row by (simp add: row_index_def)
  next
    case False
    then have "row_index offset a b \<le> row_index offset a' a'"
      using Suc by simp
    also have "\<dots> \<le> row_index offset a' offset"
      using Suc.prems by (simp add: row_index_def)
    finally show ?thesis
      unfolding next_row .
  qed
qed

lemma row_index_last:
  assumes "0 < offset"
  shows "row_index offset (offset - 1) offset = offset + offset * (offset - 1) div 2"
proof -
  obtain m where m: "offset = Suc m"
    using assms gr0_implies_Suc by blast
  have "even (m * Suc m)"
    by simp
  then obtain k where k: "m * Suc m = 2 * k"
    by blast
  have "Suc m * m = 2 * k"
    using k by simp
  then show ?thesis
    unfolding m row_index_def diff_Suc_1 Suc_eq_plus1 [symmetric] k by simp
qed

lemma half_quadrant_nth:
  assumes "a \<le> b" and "b < offset"
  shows "half_quadrant offset val ! row_index offset a b = val a b"
proof -
  define total_size where "total_size = offset + offset * (offset - 1) div 2"
  let ?step = "\<lambda>i (ii, j, acc). let (ii, j) = (if j = offset then (ii + 1, ii + 1) else (ii, j)) in (ii, j + 1, acc @ [val ii j])"
  let ?P = "\<lambda>t (ii, j, acc). ii \<le> j \<and> j \<le> offset \<and> ii < offset \<and> row_index offset ii j = t \<and> length acc = t \<and>
    (\<forall>a b. a \<le> b \<longrightarrow> b < offset \<longrightarrow> row_index offset a b < t \<longrightarrow> acc ! row_index offset a b = val a b)"
  have offset: "0 < offset"
    using assms by simp
  have "?P total_size (fold ?step [0..<total_size] (0, 0, []))"
  proof (rule fold_upt_invariant [where P = ?P])
    show "?P 0 (0, 0, [])"
      using offset by (simp add: row_index_def)
  next
    fix t s
    assume t: "t < total_size" and s: "?P t s"
    obtain ii j acc where sj: "s = (ii, j, acc)"
      by (metis surj_pair)
    obtain ii' j' where ij': "(ii', j') = (if j = offset then (ii + 1, ii + 1) else (ii, j))"
      by (metis surj_pair)
    have row: "ii' \<le> j'" "j' < offset" "row_index offset ii' j' = t"
    proof -
      have "ii + 1 < offset" if "j = offset"
      proof (rule ccontr)
        assume "\<not> ii + 1 < offset"
        moreover have "ii < offset"
          using s sj by simp
        ultimately have "ii = offset - 1"
          by linarith
        then have "t = total_size"
          using s sj that row_index_last [OF offset] by (simp add: total_size_def)
        with t show False by simp
      qed
      then show "ii' \<le> j'" "j' < offset" "row_index offset ii' j' = t"
        using s sj ij' row_index_next [of ii offset] by (auto split: if_splits)
    qed
    have step: "?step t s = (ii', j' + 1, acc @ [val ii' j'])"
      unfolding sj prod.case ij' [symmetric] Let_def ..
    have same: "a = ii' \<and> b = j'" if "a \<le> b" "b < offset" "row_index offset a b = t" for a b
    proof -
      consider "a = ii'" | "a < ii'" | "ii' < a"
        by linarith
      then show ?thesis
      proof cases
        case 1
        then show ?thesis
          using that row by (simp add: row_index_def)
      next
        case 2
        have "row_index offset a (Suc b) \<le> row_index offset ii' ii'"
          using 2 that row by (intro row_index_mono) simp_all
        then show ?thesis
          using that row by (simp add: row_index_def)
      next
        case 3
        have "row_index offset ii' (Suc j') \<le> row_index offset a a"
          using 3 that row by (intro row_index_mono) simp_all
        then show ?thesis
          using that row by (simp add: row_index_def)
      qed
    qed
    have acc: "length acc = t" "\<And>a b. a \<le> b \<Longrightarrow> b < offset \<Longrightarrow> row_index offset a b < t \<Longrightarrow> acc ! row_index offset a b = val a b"
      using s sj by auto
    have "(acc @ [val ii' j']) ! row_index offset a b = val a b"
      if "a \<le> b" "b < offset" "row_index offset a b < Suc t" for a b
      using acc same [OF that(1,2)] that by (cases "row_index offset a b = t") (auto simp: nth_append)
    moreover have "row_index offset ii' (j' + 1) = Suc t"
      using row by (simp add: row_index_def)
    ultimately show "?P (Suc t) (?step t s)"
      unfolding step using row acc(1) by auto
  qed simp
  moreover have "row_index offset a b < total_size"
  proof -
    have "row_index offset a (Suc b) \<le> total_size"
    proof (cases "a = offset - 1")
      case True
      have "row_index offset a (Suc b) \<le> row_index offset a offset"
        using assms by (simp add: row_index_def)
      then show ?thesis
        using row_index_last [OF offset] True by (simp add: total_size_def)
    next
      case False
      have "row_index offset a (Suc b) \<le> row_index offset (offset - 1) (offset - 1)"
        using assms False by (intro row_index_mono) simp_all
      also have "\<dots> \<le> row_index offset (offset - 1) offset"
        by (simp add: row_index_def)
      finally show ?thesis
        using row_index_last [OF offset] by (simp add: total_size_def)
    qed
    then show ?thesis
      by (simp add: row_index_def)
  qed
  ultimately show ?thesis
    using assms by (auto simp: half_quadrant_def total_size_def Let_def split: prod.splits)
qed

lemma quadrant_index_row: "quadrant_index offset dcx dcy = row_index offset (min dcx dcy) (max dcx dcy)"
  by (auto simp: quadrant_index_def row_index_def)

lemma radius_sqrt: "radius ii j = sqrt ((real ii)\<^sup>2 + (real j)\<^sup>2)"
  by (auto simp: radius_def power2_eq_square)

section \<open>The radial profile\<close>

definition profile :: "bool \<Rightarrow> real list \<Rightarrow> complex list \<Rightarrow> spline \<Rightarrow> spline \<Rightarrow> real \<Rightarrow> complex" where
  "profile isCubic x y S_real S_imag r =
     (let k = point_below False x r
      in Complex (spline_at_index isCubic S_real r k (x ! k) (map Re y ! k)) (spline_at_index isCubic S_imag r k (x ! k) (map Im y ! k)))"

text \<open>It goes through the samples, and is linear between them if the interpolation is not cubic.\<close>

lemma profile_sample:
  assumes "x = map real [0..<n]" and "k < n" and "length y = n"
  shows "profile isCubic x y S_real S_imag (real k) = y ! k"
  using assms by (simp add: profile_def point_below_def spline_at_index_def Let_def complex_eq_iff)

lemma linear_profile:
  assumes x: "x = map real [0..<n]" "length y = n"
    and S: "set_points False m m' x (map Re y) False new_spline = Some S_real" "set_points False m m' x (map Im y) False new_spline = Some S_imag"
    and t: "real k \<le> t" "t \<le> real (k + 1)" "k + 1 < n"
  shows "profile False x y S_real S_imag t = y ! k + of_real (t - real k) * (y ! (k + 1) - y ! k)"
proof (cases "t = real (k + 1)")
  case True
  then show ?thesis
    using profile_sample [OF x(1) _ x(2), of "k + 1" False S_real S_imag] t by simp
next
  case False
  then have "nat \<lfloor>t\<rfloor> = k"
    using t by (simp add: nat_eq_iff floor_eq_iff)
  then have k: "point_below False x t = k" "x ! k = real k"
    using x t by (simp_all add: point_below_def Let_def)
  have c: "m_c S_real = linear_coefs x (map Re y)" "m_c S_imag = linear_coefs x (map Im y)"
    using S by (auto simp: set_points_def Let_def split: if_splits)
  have coefs: "linear_coefs x (map f y) k = f (y ! (k + 1)) - f (y ! k)" for f :: "complex \<Rightarrow> real"
    using linear_coefs_slope [of k x "map f y"] x t by (simp add: slope_def gap_def)
  show ?thesis
    using x(2) t unfolding profile_def k spline_at_index_def Let_def c coefs by (simp add: complex_eq_iff algebra_simps)
qed

lemma RadialInterpolate_profile:
  assumes run: "RadialInterpolate env isCubic False x y trunc_at W = Inr (W1, q)" and W: "wide_sizes_ok W"
  obtains S_real S_imag where "set_points isCubic (spline_mem env) (spline_mem env) x (map Re y) False new_spline = Some S_real"
    and "set_points isCubic (spline_mem env) (spline_mem env) x (map Im y) False new_spline = Some S_imag"
    and "q = half_quadrant ((truncated_wpconv_support W1 + 1) * wf_oversampling W)
      (\<lambda>ii j. profile isCubic x y S_real S_imag (radius ii j))"
    and "current_hankel_kernel_size W1 div 2 = (truncated_wpconv_support W1 + 1) * wf_oversampling W"
  using run by (auto simp: RadialInterpolate_def Let_def profile_def split: option.splits if_splits)

text \<open>The distance of an element of the cache from the centre of the kernel, in oversampled pixels.\<close>

definition pixel_offset :: "nat \<Rightarrow> nat \<Rightarrow> nat \<Rightarrow> nat \<Rightarrow> int" where
  "pixel_offset os s a i = (int i - int s) * int os + int (os div 2) - int a"

lemma pixel_offset_bound:
  assumes "0 < os" and "a \<le> 2 * (os div 2)" and "i < 2 * s + 1"
  shows "nat \<bar>pixel_offset os s a i\<bar> < (s + 1) * os"
proof -
  have "\<bar>int i - int s\<bar> \<le> int s"
    using assms(3) by linarith
  then have "\<bar>(int i - int s) * int os\<bar> \<le> int s * int os"
    unfolding abs_mult by (intro mult_mono) simp_all
  moreover have "\<bar>int (os div 2) - int a\<bar> < int os"
    using assms(1,2) by linarith
  ultimately have "\<bar>pixel_offset os s a i\<bar> < int s * int os + int os"
    unfolding pixel_offset_def by linarith
  also have "\<dots> = int ((s + 1) * os)"
    by (simp add: algebra_simps)
  finally have "\<bar>pixel_offset os s a i\<bar> < int ((s + 1) * os)" .
  then show ?thesis
    by (rule nat_less_iff [THEN iffD2, rotated]) simp
qed

lemma hankel_cache_radial:
  assumes W: "hankel_opt (wf_pars W)" "0 < wf_oversampling W" "s = truncated_wpconv_support W" "os = wf_oversampling W"
    and offset: "current_hankel_kernel_size W div 2 = (s + 1) * os"
    and q: "kernel_half_quandrant W = half_quadrant ((s + 1) * os) (\<lambda>ii j. \<rho> (radius ii j))"
    and ab: "a \<le> 2 * (os div 2)" "b \<le> 2 * (os div 2)" and ij: "i < 2 * s + 1" "j < 2 * s + 1"
  defines "r \<equiv> (\<lambda>i j. sqrt ((of_int (pixel_offset os s a i))\<^sup>2 + (of_int (pixel_offset os s b j))\<^sup>2))"
  shows "generate_kernel_cache W a b i j = \<rho> (r i j) / of_real (\<Sum>j<2 * s + 1. \<Sum>i<2 * s + 1. Re (\<rho> (r i j)))"
proof -
  have val: "kernel_half_quandrant W ! quadrant_index ((s + 1) * os)
      (nat \<bar>- int s * int os + int (os div 2) - int b + int j * int os\<bar>) (nat \<bar>- int s * int os + int (os div 2) - int a + int i * int os\<bar>) =
      \<rho> (r i j)" if "i < 2 * s + 1" "j < 2 * s + 1" for i j
  proof -
    let ?x = "nat \<bar>pixel_offset os s b j\<bar>" and ?y = "nat \<bar>pixel_offset os s a i\<bar>"
    have eq: "- int s * int os + int (os div 2) - int b + int j * int os = pixel_offset os s b j"
      "- int s * int os + int (os div 2) - int a + int i * int os = pixel_offset os s a i"
      by (simp_all add: pixel_offset_def algebra_simps)
    have "max ?x ?y < (s + 1) * os"
      using pixel_offset_bound [of os b j s] pixel_offset_bound [of os a i s] that ab W by auto
    then have "kernel_half_quandrant W ! quadrant_index ((s + 1) * os) ?x ?y = \<rho> (radius (min ?x ?y) (max ?x ?y))"
      unfolding q quadrant_index_row
      by (rule half_quadrant_nth [OF order_trans [OF min.cobounded1 max.cobounded1]])
    also have "radius (min ?x ?y) (max ?x ?y) = r i j"
      unfolding radius_sqrt r_def by (auto simp: min_def max_def add.commute)
    finally show ?thesis
      unfolding eq .
  qed
  have sums: "(\<Sum>ty \<leftarrow> [0..<2 * s + 1]. \<Sum>tx \<leftarrow> [0..<2 * s + 1]. Re (f tx ty)) = (\<Sum>j<2 * s + 1. \<Sum>i<2 * s + 1. Re (g i j))"
    if "\<And>i j. i < 2 * s + 1 \<Longrightarrow> j < 2 * s + 1 \<Longrightarrow> f i j = g i j" for f g :: "nat \<Rightarrow> nat \<Rightarrow> complex"
    using that by (simp add: interv_sum_list_conv_sum_set_nat atLeast0LessThan)
  show ?thesis
    unfolding generate_kernel_cache_def Let_def offset W(3,4) [symmetric] if_P [OF W(1)] val [OF ij]
    by (subst sums [OF val]) simp_all
qed

text \<open>
  C6. Without the Hankel form the kernels of a w-plane are samples of the two-dimensional transform of the kernel in the
  image domain, the product of the w-term and the anti-aliasing kernel: an element of the cache is the value at its
  oversampled offset from the centre, rows and columns taken modulo the size of the transform, divided by the sum of the
  real parts. The code does not shift the transform, and computes the places in unsigned arithmetic.
\<close>

theorem transform_kernel:
  assumes "wide_kernels env aa w W = Inr (W', cache, s)" and "\<not> hankel_opt (wf_pars W)"
    and "c2c_documented (wide_fftw env)" and "wide_sizes_ok W" and "wide_ranges_ok env (wf_kernel_size W)"
    and "n = array_size W" and "os = wf_oversampling W"
    and "pos = (\<lambda>a i. nat (pixel_offset os s a i mod int n))"
    and "K = (\<lambda>a b i j. dft2 n n (full_image_kernel aa w W) (pos a i) (pos b j))"
    and "a \<le> 2 * (os div 2)" and "b \<le> 2 * (os div 2)" and "i < 2 * s + 1" and "j < 2 * s + 1"
  shows "cache a b i j = K a b i j / of_real (\<Sum>j<2 * s + 1. \<Sum>i<2 * s + 1. Re (K a b i j))"
proof -
  have run: "generate_convolution_kernel_wproj env w aa (hankel_proj_slice (wf_pars W)) W = Inr W'"
    and cache: "cache = generate_kernel_cache W'" and s: "truncated_wpconv_support W' = s"
    using assms(1) by (auto simp: wide_kernels_def split: sum.splits)
  note same = wproj_transform(1) [OF run assms(2,4,3,5)] and elts = wproj_transform(2) [OF run assms(2,4,3,5)]
  have W': "array_size W' = n" "wf_oversampling W' = os" "wf_pars W' = wf_pars W"
    using same assms(6,7) unfolding same_sizes_def by blast+
  have ok: "wide_sizes_ok W'"
    by (rule same_sizes_ok [OF assms(4) same])
  then have "n < 2 ^ 60"
    unfolding wide_sizes_ok_def W' by blast
  note position = kernel_position_value [OF wide_sizes(1,2) [OF ok, unfolded W'] this wide_sizes(4,3) [OF ok, unfolded s W']]
  have pos: "kernel_position n os s x t = pos x t \<and> pos x t < n" if "x \<le> 2 * (os div 2)" "t < 2 * s + 1" for x t
    using position [OF that] by (metis assms(8) nat_int pixel_offset_def)
  have K: "elt (conv_kernel W') (kernel_position n os s b j) (kernel_position n os s a i) = K a b i j"
    if "i < 2 * s + 1" "j < 2 * s + 1" for i j
    using pos [OF assms(10) that(1)] pos [OF assms(11) that(2)] elts by (simp add: assms(6,9))
  have sums: "(\<Sum>ty \<leftarrow> [0..<2 * s + 1]. \<Sum>tx \<leftarrow> [0..<2 * s + 1]. Re (f tx ty)) = (\<Sum>j<2 * s + 1. \<Sum>i<2 * s + 1. Re (g i j))"
    if "\<And>i j. i < 2 * s + 1 \<Longrightarrow> j < 2 * s + 1 \<Longrightarrow> f i j = g i j" for f g :: "nat \<Rightarrow> nat \<Rightarrow> complex"
    using that by (simp add: interv_sum_list_conv_sum_set_nat atLeast0LessThan)
  show ?thesis
    unfolding cache generate_kernel_cache_def Let_def s W' if_not_P [OF assms(2)] K [OF assms(12,13)]
    by (subst sums [OF K]) simp_all
qed

lemma hankel_slice_profile:
  assumes run: "wide_kernels env aa w W = Inr (W', cache, s)" and W: "hankel_opt (wf_pars W)" "hankel_proj_slice (wf_pars W)"
    and F: "dft_1d_documented (wide_fftw env)" and sizes: "wide_sizes_ok W" and ranges: "wide_ranges_ok env (wf_kernel_size W)"
    and n: "n = array_size W" and os: "os = wf_oversampling W"
    and r: "r = (\<lambda>a b i j. sqrt ((of_int (pixel_offset os s a i))\<^sup>2 + (of_int (pixel_offset os s b j))\<^sup>2))"
  shows "\<exists>\<rho>. (\<forall>k < n. \<rho> (real k) = dft2 n n (full_image_kernel aa w W) 0 k) \<and>
    (w_interp_type (wf_pars W) \<noteq> CUBIC \<longrightarrow> (\<forall>k t. k + 1 < n \<longrightarrow> real k \<le> t \<longrightarrow> t \<le> real (k + 1) \<longrightarrow>
      \<rho> t = \<rho> (real k) + of_real (t - real k) * (\<rho> (real (k + 1)) - \<rho> (real k)))) \<and>
    (\<forall>a b i j. a \<le> 2 * (os div 2) \<longrightarrow> b \<le> 2 * (os div 2) \<longrightarrow> i < 2 * s + 1 \<longrightarrow> j < 2 * s + 1 \<longrightarrow>
      cache a b i j = \<rho> (r a b i j) / of_real (\<Sum>j<2 * s + 1. \<Sum>i<2 * s + 1. Re (\<rho> (r a b i j))))"
proof -
  define W0 where "W0 = W\<lparr>w_value := w\<rparr>"
  define x where "x = map real [0..<n]"
  let ?cubic = "w_interp_type (wf_pars W) = CUBIC"
  have W0: "array_size W0 = array_size W" "wf_kernel_size W0 = wf_kernel_size W" "wf_oversampling W0 = wf_oversampling W"
    "wf_pars W0 = wf_pars W" "truncated_wpconv_support W0 = truncated_wpconv_support W" "wf_r_fft W0 = wf_r_fft W"
    "generate_projected_image_domain_kernel env w aa W0 = generate_projected_image_domain_kernel env w aa W"
    by (simp_all add: W0_def generate_projected_image_domain_kernel_def)
  obtain y W1 q where y: "fft_fftw_dft_c2c_1d (wide_fftw env) (generate_projected_image_domain_kernel env w aa W) (wf_r_fft W) = Inr y"
    and rad: "RadialInterpolate env ?cubic False x y (trunc_at_value (wf_pars W)) W0 = Inr (W1, q)"
    and cache: "cache = generate_kernel_cache (W1\<lparr>kernel_half_quandrant := q\<rparr>)" "s = truncated_wpconv_support W1"
    using run W unfolding wide_kernels_def generate_convolution_kernel_wproj_def Let_def W0_def [symmetric] W0 x_def n
    by (auto split: sum.splits)
  note slice = projection_slice [OF F y sizes ranges]
  have sizes0: "wide_sizes_ok W0"
    using sizes unfolding wide_sizes_ok_def W0 .
  obtain S_real S_imag where S: "set_points ?cubic (spline_mem env) (spline_mem env) x (map Re y) False new_spline = Some S_real"
    "set_points ?cubic (spline_mem env) (spline_mem env) x (map Im y) False new_spline = Some S_imag"
    and q: "q = half_quadrant ((s + 1) * os) (\<lambda>ii j. profile ?cubic x y S_real S_imag (radius ii j))"
    and offset: "current_hankel_kernel_size W1 div 2 = (s + 1) * os"
    using RadialInterpolate_profile [OF rad sizes0] unfolding W0 cache(2) os by metis
  define \<rho> where "\<rho> = profile ?cubic x y S_real S_imag"
  have len: "length y = n"
    using slice(1) n by simp
  have sample: "\<rho> (real k) = y ! k" if "k < n" for k
    unfolding \<rho>_def by (rule profile_sample [OF x_def that len])
  have linear: "\<rho> t = \<rho> (real k) + of_real (t - real k) * (\<rho> (real (k + 1)) - \<rho> (real k))"
    if "\<not> ?cubic" "k + 1 < n" "real k \<le> t" "t \<le> real (k + 1)" for k t
    using linear_profile [OF x_def len, of "spline_mem env" "spline_mem env" S_real S_imag k t] S that sample [of k] sample [of "k + 1"]
    by (simp add: \<rho>_def)
  have radial: "cache a b i j = \<rho> (r a b i j) / of_real (\<Sum>j<2 * s + 1. \<Sum>i<2 * s + 1. Re (\<rho> (r a b i j)))"
    if "a \<le> 2 * (os div 2)" "b \<le> 2 * (os div 2)" "i < 2 * s + 1" "j < 2 * s + 1" for a b i j
  proof -
    let ?W = "W1\<lparr>kernel_half_quandrant := q\<rparr>"
    have same: "same_sizes W0 W1"
      by (rule RadialInterpolate_sizes [OF rad])
    have "hankel_opt (wf_pars ?W)" "0 < wf_oversampling ?W" "s = truncated_wpconv_support ?W" "os = wf_oversampling ?W"
      "current_hankel_kernel_size ?W div 2 = (s + 1) * os"
      "kernel_half_quandrant ?W = half_quadrant ((s + 1) * os) (\<lambda>ii j. \<rho> (radius ii j))"
      using same W(1) sizes offset q by (simp_all add: same_sizes_def W0 cache(2) os wide_sizes_ok_def \<rho>_def)
    from hankel_cache_radial [OF this that] show ?thesis
      unfolding cache(1) r by simp
  qed
  show ?thesis
  proof (rule exI [of _ \<rho>], intro conjI)
    show "\<forall>k < n. \<rho> (real k) = dft2 n n (full_image_kernel aa w W) 0 k"
      using sample slice(2) n by simp
  qed (use linear radial in blast)+
qed

section \<open>The matrix of the discrete Hankel transform\<close>

text \<open>Its columns telescope: the sum of the first rows is the Hankel transform of a disc.\<close>

definition disc_transform :: "nat \<Rightarrow> nat \<Rightarrow> nat \<Rightarrow> real" where
  "disc_transform n i m = (if i = 0 then pi * (dht_rn n m)\<^sup>2
     else dht_kn n i * dht_rn n m * besselj1 (dht_k n i * dht_rn n m))"

lemma dht_column_loop:
  assumes "D m i = v m"
  shows "fold (\<lambda>j D. let D = upd2 D (j - 1) i (v (j - 1)) in upd2 D j i (D j i - D (j - 1) i)) (rev [1..<m + 1]) D r c =
    (if c = i \<and> r \<le> m then (if r = 0 then v 0 else v r - v (r - 1)) else D r c)"
  using assms
proof (induction m arbitrary: D)
  case 0
  then show ?case by simp
next
  case (Suc m)
  let ?D = "upd2 (upd2 D m i (v m)) (Suc m) i (v (Suc m) - v m)"
  have list: "rev [1..<Suc m + 1] = Suc m # rev [1..<m + 1]"
    by simp
  have step: "(let D = upd2 D (Suc m - 1) i (v (Suc m - 1)) in upd2 D (Suc m) i (D (Suc m) i - D (Suc m - 1) i)) = ?D"
    using Suc.prems by (simp add: Let_def)
  have "fold (\<lambda>j D. let D = upd2 D (j - 1) i (v (j - 1)) in upd2 D j i (D j i - D (j - 1) i)) (rev [1..<Suc m + 1]) D r c =
      fold (\<lambda>j D. let D = upd2 D (j - 1) i (v (j - 1)) in upd2 D j i (D j i - D (j - 1) i)) (rev [1..<m + 1]) ?D r c"
    unfolding list fold_simps step ..
  also have "\<dots> = (if c = i \<and> r \<le> m then (if r = 0 then v 0 else v r - v (r - 1)) else ?D r c)"
    by (rule Suc.IH) simp
  also have "\<dots> = (if c = i \<and> r \<le> Suc m then (if r = 0 then v 0 else v r - v (r - 1)) else D r c)"
    by (auto simp: le_Suc_eq)
  finally show ?case .
qed

lemma dht_column_value:
  assumes "0 < n"
  shows "dht_column n i D r c =
    (if c = i \<and> r < n then (let v = (\<lambda>j. dht_kn n i * dht_rn n j * besselj1 (dht_k n i * dht_rn n j)) in if r = 0 then v 0 else v r - v (r - 1))
     else D r c)"
proof -
  let ?v = "\<lambda>j. dht_kn n i * dht_rn n j * besselj1 (dht_k n i * dht_rn n j)"
  have n: "n - 1 + 1 = n"
    using assms by simp
  have "dht_column n i D r c = (if c = i \<and> r \<le> n - 1 then (if r = 0 then ?v 0 else ?v r - ?v (r - 1)) else upd2 D (n - 1) i (?v (n - 1)) r c)"
    unfolding dht_column_def Let_def using dht_column_loop [of "upd2 D (n - 1) i (?v (n - 1))" "n - 1" i ?v r c, unfolded n Let_def]
    by simp
  then show ?thesis
    using assms by (auto simp: Let_def)
qed

lemma dht_first_column_value:
  assumes "0 < n" and "r < n"
  shows "dht_first_column n D r 0 = (if r = 0 then pi * (dht_rn n 0)\<^sup>2 else pi * (dht_rn n r)\<^sup>2 - pi * (dht_rn n (r - 1))\<^sup>2)"
proof -
  let ?v = "\<lambda>j. pi * dht_rn n j * dht_rn n j"
  let ?step = "\<lambda>j (D, prev_value). let cur_value = ?v j in (upd2 D j 0 (cur_value - prev_value), cur_value)"
  let ?P = "\<lambda>j (D, p). p = ?v (j - 1) \<and> (\<forall>r < j. D r 0 = (if r = 0 then ?v 0 else ?v r - ?v (r - 1)))"
  have "?P n (fold ?step [1..<n] (upd2 D 0 0 (?v 0), upd2 D 0 0 (?v 0) 0 0))"
    using assms by (intro fold_upt_invariant [where P = ?P]) (auto simp: Let_def less_Suc_eq)
  then show ?thesis
    using assms by (auto simp: dht_first_column_def Let_def power2_eq_square mult.assoc split: prod.splits)
qed

lemma dht_value:
  assumes "0 < n" and "covers 1 n rs" and "i < n" and "r < n"
  shows "dht rs D n r i = (if r = 0 then disc_transform n i 0 else disc_transform n i r - disc_transform n i (r - 1))"
proof -
  let ?g = "\<lambda>r i. if r = 0 then disc_transform n i 0 else disc_transform n i r - disc_transform n i (r - 1)"
  have set: "set (elements rs) = {1..<n}"
    by (rule covers_elements_set [OF assms(2)])
  have "fold (dht_column n) (elements rs) E = (\<lambda>r c. if \<exists>j \<in> set (elements rs). c = j \<and> r < n then ?g r c else E r c)" for E
    by (rule fold_writes) (use set in \<open>auto simp: fun_eq_iff dht_column_value [OF assms(1)] disc_transform_def Let_def\<close>)
  then have "dht rs D n r i = (if 1 \<le> i then ?g r i else dht_first_column n D r i)"
    using assms(3,4) by (auto simp: dht_def parallel_for_def set)
  then show ?thesis
    using dht_first_column_value [OF assms(1,4), of D] by (cases "i = 0") (auto simp: disc_transform_def)
qed

lemma dht_partial_sums:
  assumes "covers 1 n rs" and "i < n" and "m < n"
  shows "(\<Sum>j \<le> m. dht rs D n j i) = disc_transform n i m"
  using assms(3)
proof (induction m)
  case 0
  then show ?case
    using dht_value [OF _ assms(1,2), of 0 D] assms by simp
next
  case (Suc m)
  then show ?case
    using dht_value [OF _ assms(1,2), of "Suc m" D] by simp
qed

section \<open>The kernels are made\<close>

lemma integer_points_ok: "length y = n \<Longrightarrow> 2 < n \<Longrightarrow> points_ok (map real [0..<n]) y"
  by (simp add: points_ok_def)

lemma RadialInterpolate_total:
  assumes "x = map real [0..<n]" and "length y = n" and "2 < n"
  shows "\<exists>W' q. RadialInterpolate env isCubic isDiagonal x y trunc_at W = Inr (W', q)"
proof -
  have "\<exists>S. set_points isCubic (spline_mem env) (spline_mem env) x (map f y) False new_spline = Some S" for f :: "complex \<Rightarrow> real"
    using assms by (intro set_points_total) (simp add: integer_points_ok)
  then obtain S_real S_imag where "set_points isCubic (spline_mem env) (spline_mem env) x (map Re y) False new_spline = Some S_real"
    "set_points isCubic (spline_mem env) (spline_mem env) x (map Im y) False new_spline = Some S_imag"
    by meson
  then show ?thesis
    by (simp add: RadialInterpolate_def Let_def)
qed

lemma truncate_support_total:
  assumes "wide_sizes_ok W"
  shows "\<exists>W'. truncate_support W = Inr W'"
proof -
  let ?os = "wf_oversampling W" and ?max = "max_wpconv_support (wf_pars W)"
  have "array_size W div 2 = wf_kernel_size W div 2 * ?os"
    using assms by (auto simp: wide_sizes_ok_def elim!: evenE)
  then have "?os dvd min (?max * ?os) (array_size W div 2)"
    by (auto simp: min_def)
  then obtain k where "trunc_loop (\<lambda>i. elt (conv_kernel W) i 0) (cmod (elt (conv_kernel W) 0 0) * trunc_at_value (wf_pars W)) ?os
      (min (?max * ?os) (array_size W div 2)) = Some k"
    using trunc_loop_total [of ?os] assms unfolding wide_sizes_ok_def by blast
  then show ?thesis
    by (simp add: truncate_support_def Let_def)
qed

lemma wide_kernels_returns:
  assumes sizes: "wide_sizes_ok W" and ranges: "wide_ranges_ok env (wf_kernel_size W)" and F: "dft_1d_documented (wide_fftw env)"
    and plan: "\<And>kind n0 n1. make_plan (wide_fftw env) kind (wf_r_fft W) n0 n1 = Inr ()"
    and points: "hankel_opt (wf_pars W) \<Longrightarrow> 2 < array_size W"
      "hankel_opt (wf_pars W) \<Longrightarrow> \<not> hankel_proj_slice (wf_pars W) \<Longrightarrow>
        2 < array_size W div 2 \<and> hankel_radius_points W = map real [0..<array_size W div 2]"
  shows "\<exists>W' cache s. wide_kernels env aa w W = Inr (W', cache, s)"
proof -
  define W0 where "W0 = W\<lparr>w_value := w\<rparr>"
  have W0: "array_size W0 = array_size W" "wf_kernel_size W0 = wf_kernel_size W" "wf_oversampling W0 = wf_oversampling W"
    "wf_pars W0 = wf_pars W" "truncated_wpconv_support W0 = truncated_wpconv_support W" "wf_r_fft W0 = wf_r_fft W"
    "hankel_radius_points W0 = hankel_radius_points W"
    "generate_projected_image_domain_kernel env w aa W0 = generate_projected_image_domain_kernel env w aa W"
    by (simp_all add: W0_def generate_projected_image_domain_kernel_def)
  let ?cubic = "w_interp_type (wf_pars W) = CUBIC" and ?t = "trunc_at_value (wf_pars W)"
  consider "\<not> hankel_opt (wf_pars W)" | "hankel_opt (wf_pars W)" "\<not> hankel_proj_slice (wf_pars W)"
    | "hankel_opt (wf_pars W)" "hankel_proj_slice (wf_pars W)"
    by blast
  then have "\<exists>W'. generate_convolution_kernel_wproj env w aa (hankel_proj_slice (wf_pars W)) W = Inr W'"
  proof cases
    case 1
    have sizes0: "wide_sizes_ok W0"
      using sizes unfolding wide_sizes_ok_def W0 .
    obtain W1 where W1: "generate_image_domain_convolution_kernel env w aa W0 = Inr W1"
      using 1 by (simp add: generate_image_domain_convolution_kernel_def Let_def W0)
    have same: "W1 = W0\<lparr>w_value := w, comb_kernel := comb_kernel W1\<rparr>"
      using image_domain_kernel_value(4) [OF W1 wide_sizes(5) [OF sizes0] refl wide_sizes(6) [OF sizes0]] ranges by (simp add: W0)
    have routine: "wf_r_fft W1 = wf_r_fft W"
      by (subst same) (simp add: W0)
    obtain K where K: "fft_fftw_c2c (wide_fftw env) (comb_kernel W1) (wf_r_fft W1) True = Inr K"
      by (simp add: fft_fftw_c2c_def Let_def plan routine)
    have "wide_sizes_ok (W1\<lparr>conv_kernel := K, comb_kernel := reset_cx_mat (comb_kernel W1)\<rparr>)"
      by (rule same_sizes_ok [OF sizes0], subst same) (simp add: same_sizes_def)
    then show ?thesis
      using truncate_support_total 1 W1 K
      unfolding generate_convolution_kernel_wproj_def Let_def W0_def [symmetric] W0 by simp
  next
    case 2
    have "length (hankel_transform W0 k) = array_size W div 2" for k
      by (simp add: hankel_transform_def W0)
    then obtain W' q where "RadialInterpolate env ?cubic False (hankel_radius_points W)
        (hankel_transform W0 (hankel_image_radius W0 aa)) ?t W0 = Inr (W', q)"
      using RadialInterpolate_total points(2) 2 by metis
    then show ?thesis
      using 2 unfolding generate_convolution_kernel_wproj_def Let_def W0_def [symmetric] W0 by simp
  next
    case 3
    obtain y where y: "fft_fftw_dft_c2c_1d (wide_fftw env) (generate_projected_image_domain_kernel env w aa W) (wf_r_fft W) = Inr y"
      by (simp add: fft_fftw_dft_c2c_1d_def plan)
    then have "length y = array_size W"
      using projection_slice(1) [OF F _ sizes ranges] by blast
    then obtain W' q where "RadialInterpolate env ?cubic False (map real [0..<array_size W]) y ?t W0 = Inr (W', q)"
      using RadialInterpolate_total points(1) 3 by metis
    then show ?thesis
      using 3 y unfolding generate_convolution_kernel_wproj_def Let_def W0_def [symmetric] W0 by simp
  qed
  then show ?thesis
    by (auto simp: wide_kernels_def)
qed

text \<open>C4. The Hankel form with the projection slice makes, for every w-plane, kernels that only depend on the distance
  from the centre: each element of the cache is the value of one radial profile at its distance in oversampled pixels,
  divided by the sum of the real parts. At whole distances the profile is the two-dimensional transform of the full
  kernel in the image domain on an axis, which the code never computes; between them it is linear, unless cubic
  interpolation is chosen.\<close>

theorem hankel_slice_kernel:
  assumes "wide_kernels env aa w W = Inr (W', cache, s)" and "hankel_opt (wf_pars W)" and "hankel_proj_slice (wf_pars W)"
    and "dft_1d_documented (wide_fftw env)" and "wide_sizes_ok W" and "wide_ranges_ok env (wf_kernel_size W)"
    and "n = array_size W" and "os = wf_oversampling W"
    and "r = (\<lambda>a b i j. sqrt ((of_int (pixel_offset os s a i))\<^sup>2 + (of_int (pixel_offset os s b j))\<^sup>2))"
  shows "\<exists>\<rho>. (\<forall>k < n. \<rho> (real k) = dft2 n n (full_image_kernel aa w W) 0 k) \<and>
    (w_interp_type (wf_pars W) \<noteq> CUBIC \<longrightarrow> (\<forall>k t. k + 1 < n \<longrightarrow> real k \<le> t \<longrightarrow> t \<le> real (k + 1) \<longrightarrow>
      \<rho> t = \<rho> (real k) + of_real (t - real k) * (\<rho> (real (k + 1)) - \<rho> (real k)))) \<and>
    (\<forall>a b i j. a \<le> 2 * (os div 2) \<longrightarrow> b \<le> 2 * (os div 2) \<longrightarrow> i < 2 * s + 1 \<longrightarrow> j < 2 * s + 1 \<longrightarrow>
      cache a b i j = \<rho> (r a b i j) / of_real (\<Sum>j<2 * s + 1. \<Sum>i<2 * s + 1. Re (\<rho> (r a b i j))))"
  using assms by (rule hankel_slice_profile)

text \<open>A small kernel: two pixels, twice oversampled.\<close>

definition wide_env_demo :: wide_env where
  "wide_env_demo = \<lparr>wide_fftw = model_fftw, line_ranges = [], square_ranges = [], spline_mem = (\<lambda>i j. 0)\<rparr>"

definition wide_pars_demo :: "bool \<Rightarrow> w_projection_pars" where
  "wide_pars_demo hankel = default_w_proj\<lparr>num_wplanes := 1, max_wpconv_support := 1, hankel_opt := hankel, hankel_proj_slice := True\<rparr>"

definition wide_demo :: "bool \<Rightarrow> wide_field" where
  "wide_demo hankel = (case WideFieldImaging [] (\<lambda>i j. 0) 2 (1 / 10) 2 1 (wide_pars_demo hankel) FFTW_ESTIMATE_FFT of Inr W \<Rightarrow> W)"

lemma wide_demo_simps:
  "array_size (wide_demo h) = 4" "wf_kernel_size (wide_demo h) = 2" "wf_oversampling (wide_demo h) = 2"
  "wf_pars (wide_demo h) = wide_pars_demo h" "truncated_wpconv_support (wide_demo h) = 1" "wf_r_fft (wide_demo h) = FFTW_ESTIMATE_FFT"
  by (simp_all add: wide_demo_def WideFieldImaging_def Let_def wide_pars_demo_def default_w_proj_def)

lemma wide_demo_ok:
  "wide_sizes_ok (wide_demo h)" "wide_ranges_ok wide_env_demo (wf_kernel_size (wide_demo h))"
  "dft_1d_documented (wide_fftw wide_env_demo)"
  by (simp_all add: wide_sizes_ok_def wide_demo_simps wide_pars_demo_def default_w_proj_def wide_ranges_ok_def wide_env_demo_def
      covers_def model_fftw_dft_1d)

theorem hankel_slice_kernel_witness:
  "\<exists>W' cache s \<rho>. wide_kernels wide_env_demo [1, 1] 5 (wide_demo True) = Inr (W', cache, s) \<and>
    (\<forall>k < 4. \<rho> (real k) = dft2 4 4 (full_image_kernel [1, 1] 5 (wide_demo True)) 0 k) \<and>
    cache 1 2 0 0 = \<rho> (sqrt ((of_int (pixel_offset 2 s 1 0))\<^sup>2 + (of_int (pixel_offset 2 s 2 0))\<^sup>2)) /
      of_real (\<Sum>j<2 * s + 1. \<Sum>i<2 * s + 1. Re (\<rho> (sqrt ((of_int (pixel_offset 2 s 1 i))\<^sup>2 + (of_int (pixel_offset 2 s 2 j))\<^sup>2))))"
proof -
  have pars: "hankel_opt (wf_pars (wide_demo True))" "hankel_proj_slice (wf_pars (wide_demo True))"
    by (simp_all add: wide_demo_simps wide_pars_demo_def)
  have "make_plan (wide_fftw wide_env_demo) kind (wf_r_fft (wide_demo True)) n0 n1 = Inr ()" for kind n0 n1
    by (simp add: wide_env_demo_def wide_demo_simps make_plan_def select_flag_def model_fftw_def)
  from wide_kernels_returns [OF wide_demo_ok this, of "[1, 1]" 5]
  obtain W' cache s where run: "wide_kernels wide_env_demo [1, 1] 5 (wide_demo True) = Inr (W', cache, s)"
    using pars by (auto simp: wide_demo_simps)
  obtain \<rho> where \<rho>: "\<forall>k < 4. \<rho> (real k) = dft2 4 4 (full_image_kernel [1, 1] 5 (wide_demo True)) 0 k"
    "\<forall>a b i j. a \<le> 2 * (2 div 2) \<longrightarrow> b \<le> 2 * (2 div 2) \<longrightarrow> i < 2 * s + 1 \<longrightarrow> j < 2 * s + 1 \<longrightarrow>
      cache a b i j = \<rho> (sqrt ((of_int (pixel_offset 2 s a i))\<^sup>2 + (of_int (pixel_offset 2 s b j))\<^sup>2)) /
        of_real (\<Sum>j<2 * s + 1. \<Sum>i<2 * s + 1. Re (\<rho> (sqrt ((of_int (pixel_offset 2 s a i))\<^sup>2 + (of_int (pixel_offset 2 s b j))\<^sup>2))))"
    using hankel_slice_kernel [OF run pars wide_demo_ok(3,1,2) refl refl refl] unfolding wide_demo_simps by (elim exE conjE)
  show ?thesis
    by (rule exI [of _ W'], rule exI [of _ cache], rule exI [of _ s], rule exI [of _ \<rho>], intro conjI run \<rho>(1) \<rho>(2) [rule_format]) simp_all
qed

theorem transform_kernel_witness:
  "\<exists>W' cache s. wide_kernels wide_env_demo [1, 1] 5 (wide_demo False) = Inr (W', cache, s) \<and>
    (\<forall>K. K = (\<lambda>i j. dft2 4 4 (full_image_kernel [1, 1] 5 (wide_demo False))
        (nat (pixel_offset 2 s 1 i mod 4)) (nat (pixel_offset 2 s 2 j mod 4))) \<longrightarrow>
      cache 1 2 0 0 = K 0 0 / of_real (\<Sum>j<2 * s + 1. \<Sum>i<2 * s + 1. Re (K i j)))"
proof -
  have pars: "\<not> hankel_opt (wf_pars (wide_demo False))"
    by (simp add: wide_demo_simps wide_pars_demo_def)
  have F: "c2c_documented (wide_fftw wide_env_demo)"
    by (simp add: wide_env_demo_def model_fftw_c2c)
  have "make_plan (wide_fftw wide_env_demo) kind (wf_r_fft (wide_demo False)) n0 n1 = Inr ()" for kind n0 n1
    by (simp add: wide_env_demo_def wide_demo_simps make_plan_def select_flag_def model_fftw_def)
  from wide_kernels_returns [OF wide_demo_ok this, of "[1, 1]" 5]
  obtain W' cache s where run: "wide_kernels wide_env_demo [1, 1] 5 (wide_demo False) = Inr (W', cache, s)"
    using pars by (auto simp: wide_demo_simps)
  have "cache 1 2 0 0 = dft2 4 4 (full_image_kernel [1, 1] 5 (wide_demo False))
        (nat (pixel_offset 2 s 1 0 mod int 4)) (nat (pixel_offset 2 s 2 0 mod int 4)) /
      of_real (\<Sum>j<2 * s + 1. \<Sum>i<2 * s + 1. Re (dft2 4 4 (full_image_kernel [1, 1] 5 (wide_demo False))
        (nat (pixel_offset 2 s 1 i mod int 4)) (nat (pixel_offset 2 s 2 j mod int 4))))"
    by (rule transform_kernel [OF run pars F wide_demo_ok(1,2) _ _ refl refl]) (simp_all add: wide_demo_simps)
  with run show ?thesis
    by (intro exI [of _ W'] exI [of _ cache] exI [of _ s] conjI allI impI) simp_all
qed

end
