(* ===== verification/Imager.thy ===== *)
theory Imager
  imports Grid_Visibilities Wide_Hankel
begin

text \<open>
  \<^verbatim>\<open>src/src/stp/imager/imager.h\<close> and \<^verbatim>\<open>imager.cpp\<close>: from visibilities to an image, as built by
  default (no \<^verbatim>\<open>FFTSHIFT\<close>) and without A-projection.
\<close>

section \<open>Normalisation\<close>

text \<open>One element of the normalised image; \<open>aa\<close> is the image-domain kernel if it is divided out.\<close>

definition norm_elt :: "real list option \<Rightarrow> real \<Rightarrow> real \<Rightarrow> nat \<Rightarrow> nat \<Rightarrow> real" where
  "norm_elt aa factor v ii jj =
     (case aa of Some k \<Rightarrow> v * factor / (k ! ii * k ! jj) | None \<Rightarrow> v * factor)"

text \<open>A column: the first rows of the padded image, then its last ones; \<open>col\<close> is what was there before.\<close>

definition norm_column ::
  "real list option \<Rightarrow> nat \<Rightarrow> nat \<Rightarrow> real \<Rightarrow> (nat \<Rightarrow> nat \<Rightarrow> real) \<Rightarrow> nat \<Rightarrow> nat \<Rightarrow> (nat \<Rightarrow> real) \<Rightarrow> nat \<Rightarrow> real"
where
  "norm_column aa N im factor src orig_j jj col =
     (\<lambda>i. if i < im div 2 then norm_elt aa factor (src i orig_j) (N div 2 + i) jj
          else if i < im then
            norm_elt aa factor (src (N - im div 2 + (i - im div 2)) orig_j) (N div 2 - im div 2 + (i - im div 2)) jj
          else col i)"

definition norm_matrix ::
  "real list option \<Rightarrow> nat \<Rightarrow> nat \<Rightarrow> real \<Rightarrow> range list \<times> range list \<Rightarrow> (nat \<Rightarrow> nat \<Rightarrow> real) \<Rightarrow> real mat \<Rightarrow> real mat"
where
  "norm_matrix aa N im factor = (\<lambda>(rs1, rs2) uninit img.
     \<lparr>n_rows = im, n_cols = im,
      elt = parallel_for (\<lambda>j m. set_col m j
          (norm_column aa N im factor (elt img) (N + j - im) (N div 2 + j - im) (\<lambda>r. m r j))) rs2
        (parallel_for (\<lambda>j m. set_col m j (norm_column aa N im factor (elt img) j (j + N div 2) (\<lambda>r. m r j))) rs1 uninit)\<rparr>)"

definition empty_mat :: "real mat" where
  "empty_mat = \<lparr>n_rows = 0, n_cols = 0, elt = (\<lambda>i j. 0)\<rparr>"

definition normalise_image_beam_result_1D ::
  "fftw \<Rightarrow> range list \<times> range list \<Rightarrow> (nat \<Rightarrow> nat \<Rightarrow> real) \<Rightarrow> bool \<Rightarrow> kernel_creator \<Rightarrow> real mat \<Rightarrow> real mat \<Rightarrow>
   nat \<Rightarrow> nat \<Rightarrow> real \<Rightarrow> bool \<Rightarrow> bool \<Rightarrow> fft_routine \<Rightarrow> fft_error + real mat \<times> real mat"
where
  "normalise_image_beam_result_1D F rss uninit grid_correction creator image_mat beam_mat N im factor analytic beam routine =
     (case (if grid_correction then map_sum id Some (ImgDomKernel F creator N False analytic routine) else Inr None) of
        Inl e \<Rightarrow> Inl e
      | Inr aa \<Rightarrow>
          Inr (norm_matrix aa N im factor rss uninit image_mat,
               if beam then norm_matrix aa N im factor rss uninit beam_mat else empty_mat))"

section \<open>The imager\<close>

text \<open>
  What a run depends on besides its arguments: what the gridder depends on, and the ranges and memory of the loops that
  normalise the images.
\<close>

record imager_env =
  env_gridder :: gridder_env
  env_ranges :: "range list \<times> range list"
  env_uninit :: "nat \<Rightarrow> nat \<Rightarrow> real"

abbreviation env_fftw :: "imager_env \<Rightarrow> fftw" where
  "env_fftw env \<equiv> grid_fftw (env_gridder env)"

definition imager_checks :: "imager_pars \<Rightarrow> w_projection_pars \<Rightarrow> bool" where
  "imager_checks pars wp \<longleftrightarrow>
     padding_factor pars \<ge> 1 \<and> padded_image_size pars \<ge> imager_pars.image_size pars \<and>
     (kernel_exact pars \<or> oversampling pars \<ge> 1) \<and> padded_image_size pars > 0 \<and>
     ispowerof2 (word_of_nat (padded_image_size pars)) \<and> kernel_support pars > 0 \<and> cell_size pars > 0 \<and>
     \<not> (kernel_exact pars \<and> w_enabled wp)"

text \<open>The coordinates in pixels of the grid.\<close>

definition pixel_coordinates :: "imager_pars \<Rightarrow> (nat \<Rightarrow> real \<times> real \<times> real) \<Rightarrow> (nat \<Rightarrow> complex) \<Rightarrow> vis_data" where
  "pixel_coordinates pars uvw_lambda visibilities =
     (let inv_grid_pixel_width_lambda = arc_sec_to_rad (cell_size pars) * real (padded_image_size pars)
      in \<lparr>u_lambda = (\<lambda>i. fst (uvw_lambda i) * inv_grid_pixel_width_lambda),
          v_lambda = (\<lambda>i. fst (snd (uvw_lambda i)) * inv_grid_pixel_width_lambda),
          w_lambda = (\<lambda>i. snd (snd (uvw_lambda i))), vis = visibilities, good = (\<lambda>i. 1)\<rparr>)"

definition image_visibilities ::
  "imager_env \<Rightarrow> kernel_creator \<Rightarrow> nat \<Rightarrow> (nat \<Rightarrow> complex) \<Rightarrow> (nat \<Rightarrow> real) \<Rightarrow> (nat \<Rightarrow> real \<times> real \<times> real) \<Rightarrow>
   imager_pars \<Rightarrow> w_projection_pars \<Rightarrow> fft_error + real mat \<times> real mat"
where
  "image_visibilities env creator n visibilities weights uvw_lambda pars wp =
     (let F = env_fftw env;
          N = padded_image_size pars;
          beam = generate_beam pars;
          routine = r_fft pars;
          in_place = (routine = FFTW_WISDOM_INPLACE_FFT)
      in if \<not> imager_checks pars wp then Inl Assertion_failed
         else case init_fftw F routine (fft_wisdom_filename pars) of
           Inl e \<Rightarrow> Inl e
         | Inr _ \<Rightarrow>
         (case convolve_to_grid (env_gridder env) beam creator (kernel_support pars) N n
               (pixel_coordinates pars uvw_lambda visibilities) weights (kernel_exact pars) (oversampling pars) True True wp
               (cell_size pars) (analytic_gcf pars) routine of
            Inl e \<Rightarrow> Inl e
          | Inr gridded \<Rightarrow>
          (case fft_fftw_c2r F in_place (out_vis_grid gridded) routine of
             Inl e \<Rightarrow> Inl e
           | Inr fft_result_image \<Rightarrow>
           (case (if beam then fft_fftw_c2r F in_place (out_sampling_grid gridded) routine else Inr empty_mat) of
              Inl e \<Rightarrow> Inl e
            | Inr fft_result_beam \<Rightarrow>
                if out_sample_total gridded > 0 then
                  normalise_image_beam_result_1D F (env_ranges env) (env_uninit env) (gridding_correction pars) creator
                    fft_result_image fft_result_beam N (imager_pars.image_size pars) (1 / out_sample_total gridded)
                    (analytic_gcf pars) beam routine
                else Inr (empty_mat, empty_mat)))))"

text \<open>The kernel function of the settings, with its default widths.\<close>

definition select_kernel :: "kernel_function \<Rightarrow> real \<Rightarrow> kernel_creator" where
  "select_kernel kf support =
     (case kf of
        TopHat \<Rightarrow> TopHat_creator support
      | Triangle \<Rightarrow> Triangle_creator support
      | Sinc \<Rightarrow> Sinc_creator support 1
      | Gaussian \<Rightarrow> Gaussian_creator support 1
      | GaussianSinc \<Rightarrow> GaussianSinc_creator support 2.52 1.55
      | PSWF \<Rightarrow> PSWF_creator support)"

definition ImageVisibilities ::
  "imager_env \<Rightarrow> nat \<Rightarrow> (nat \<Rightarrow> complex) \<Rightarrow> (nat \<Rightarrow> real) \<Rightarrow> (nat \<Rightarrow> real \<times> real \<times> real) \<Rightarrow>
   imager_pars \<Rightarrow> w_projection_pars \<Rightarrow> fft_error + real mat \<times> real mat"
where
  "ImageVisibilities env n visibilities weights uvw_lambda pars wp =
     image_visibilities env (select_kernel (kernel_func pars) (real (kernel_support pars))) n visibilities weights
       uvw_lambda pars wp"

lemma select_kernel_even: "even_kernel (kernel_fun (select_kernel kf support))"
  by (cases kf) (simp_all add: select_kernel_def creators_even)

section \<open>The normalised image\<close>

text \<open>The pixel of the padded image, and the element of the image-domain kernel, for a pixel of the image.\<close>

definition image_pos :: "nat \<Rightarrow> nat \<Rightarrow> nat \<Rightarrow> nat" where
  "image_pos N im i = (if i < im div 2 then i else N + i - im)"

definition kernel_pos :: "nat \<Rightarrow> nat \<Rightarrow> nat \<Rightarrow> nat" where
  "kernel_pos N im i = (if i < im div 2 then N div 2 + i else N div 2 + i - im)"

lemma norm_column_value:
  assumes "even im" and "im \<le> N" and "i < im"
  shows "norm_column aa N im factor src orig_j jj col i =
    norm_elt aa factor (src (image_pos N im i) orig_j) (kernel_pos N im i) jj"
proof (cases "i < im div 2")
  case True
  then show ?thesis
    by (simp add: norm_column_def image_pos_def kernel_pos_def)
next
  case False
  then have "N - im div 2 + (i - im div 2) = N + i - im" "N div 2 - im div 2 + (i - im div 2) = N div 2 + i - im"
    using assms by (auto elim!: evenE)
  then show ?thesis
    using False assms(3) by (simp add: norm_column_def image_pos_def kernel_pos_def)
qed

lemma norm_matrix_value:
  assumes im: "even im" "im \<le> N" and ij: "i < im" "j < im"
    and rss: "covers 0 (im div 2) (fst rss)" "covers (im div 2) im (snd rss)"
  shows "elt (norm_matrix aa N im factor rss uninit img) i j =
    norm_elt aa factor (elt img (image_pos N im i) (image_pos N im j)) (kernel_pos N im i) (kernel_pos N im j)"
proof -
  obtain rs1 rs2 where rs: "rss = (rs1, rs2)"
    by (metis surj_pair)
  let ?f1 = "\<lambda>j m. norm_column aa N im factor (elt img) j (j + N div 2) (\<lambda>r. m r j)"
  let ?f2 = "\<lambda>j m. norm_column aa N im factor (elt img) (N + j - im) (N div 2 + j - im) (\<lambda>r. m r j)"
  have set1: "set (elements rs1) = {0..<im div 2}" "distinct (elements rs1)"
    and set2: "set (elements rs2) = {im div 2..<im}" "distinct (elements rs2)"
    using rss by (simp_all add: rs covers_elements_set)
  have loop: "fold (\<lambda>j m. set_col m j (f j m)) xs m i j = (if j \<in> set xs then f j m i else m i j)"
    if "distinct xs" "\<And>j m m'. (\<And>r. m r j = m' r j) \<Longrightarrow> f j m = f j m'"
    for f :: "nat \<Rightarrow> (nat \<Rightarrow> nat \<Rightarrow> real) \<Rightarrow> nat \<Rightarrow> real" and xs m
  proof -
    have inv: "the_inv_into (set xs) (\<lambda>i. i) j = j" if "j \<in> set xs"
      using that by (intro the_inv_into_f_eq) (simp_all add: inj_on_def)
    have "fold (\<lambda>j m. set_col m j (f j m)) xs m i j =
        (if j \<in> (\<lambda>i. i) ` set xs then f (the_inv_into (set xs) (\<lambda>i. i) j) m i else m i j)"
      by (rule fold_set_col [OF that(1)]) (simp add: inj_on_def, rule that(2))
    then show ?thesis
      using inv by (cases "j \<in> set xs") simp_all
  qed
  have run1: "fold (\<lambda>j m. set_col m j (?f1 j m)) (elements rs1) m i j = (if j \<in> set (elements rs1) then ?f1 j m i else m i j)" for m
    by (rule loop [where f = ?f1, OF set1(2)]) simp
  have run2: "fold (\<lambda>j m. set_col m j (?f2 j m)) (elements rs2) m i j = (if j \<in> set (elements rs2) then ?f2 j m i else m i j)" for m
    by (rule loop [where f = ?f2, OF set2(2)]) simp
  have "elt (norm_matrix aa N im factor rss uninit img) i j =
      (if im div 2 \<le> j then ?f2 j (fold (\<lambda>j m. set_col m j (?f1 j m)) (elements rs1) uninit) i else ?f1 j uninit i)"
    unfolding norm_matrix_def rs prod.case mat.select_convs parallel_for_def run2 run1 using ij by (simp add: set1 set2)
  then show ?thesis
    using norm_column_value [OF im ij(1)] by (simp add: image_pos_def kernel_pos_def add.commute)
qed

section \<open>The image of the visibilities\<close>

lemma opp_opposite:
  assumes "k < n"
  shows "opp n k = opposite (int n) k"
proof -
  have "int (opp n k) = (int n - int k) mod int n"
    using assms by (simp add: opp_def zmod_int of_nat_diff)
  also have "\<dots> = (- int k) mod int n"
    by (simp add: mod_diff_left_eq [symmetric])
  finally show ?thesis
    using assms by (simp add: opposite_def)
qed

lemma whole_grid_hermitian:
  assumes "even_kernel kern"
  shows "hermitian N N (\<lambda>c r. whole_grid exact kern s (int N) n os q weights r c)"
  using whole_grid_opposite [OF assms] by (simp add: hermitian_def opp_opposite)

lemma power_of_two_dvd:
  assumes "ispowerof2 (word_of_nat N)" and "4 \<le> N" and "N < 2 ^ 32"
  shows "4 dvd N"
proof -
  have "unat (word_of_nat N :: 32 word) = N"
    using assms(3) by (simp add: unat_of_nat)
  then obtain k where k: "N = 2 ^ k"
    using assms(1) ispowerof2_correct by metis
  have "2 \<le> k"
  proof (rule ccontr)
    assume "\<not> 2 \<le> k"
    then have "k = 0 \<or> k = 1"
      by linarith
    then show False
      using k assms(2) by auto
  qed
  then have "(2 :: nat) ^ 2 dvd 2 ^ k"
    by (rule le_imp_power_dvd)
  then show ?thesis
    by (simp add: k)
qed

text \<open>One grid of the gridder, transformed and normalised.\<close>

lemma normalised_transform:
  assumes F: "c2r_documented F" and c2r: "fft_fftw_c2r F in_place grid routine = Inr img"
    and X: "hermitian N N X" and N: "4 dvd N" and im: "even im" "im \<le> N" and ij: "i < im" "j < im"
    and grid: "n_rows grid = N div 2 + 1" "n_cols grid = N"
      "\<And>r c. r < N div 2 + 1 \<Longrightarrow> c < N \<Longrightarrow> elt grid r c = X c r"
    and rss: "covers 0 (im div 2) (fst rss)" "covers (im div 2) im (snd rss)"
    and corr: "\<And>k. corr k = (case aa of Some k' \<Rightarrow> k' ! kernel_pos N im k | None \<Rightarrow> 1)"
  shows "complex_of_real (elt (norm_matrix aa N im (1 / total_weight) rss uninit img) i j) =
    idft2 N N X (image_pos N im j) (image_pos N im i) / complex_of_real (total_weight * corr i * corr j)"
proof -
  have pos: "image_pos N im i < N" "image_pos N im j < N"
    using ij im by (auto simp: image_pos_def)
  have "complex_of_real (elt img (image_pos N im i) (image_pos N im j)) = idft2 N N X (image_pos N im j) (image_pos N im i)"
    using c2r_value(1) [OF F c2r, of N X] X N grid pos by simp
  then show ?thesis
    unfolding norm_matrix_value [OF im ij rss] by (cases aa) (simp_all add: norm_elt_def corr)
qed

text \<open>
  For an odd size the loop over the last rows begins one row too early for its count: its last row is behind the
  padded image.
\<close>

lemma odd_image_row: "odd (im :: nat) \<Longrightarrow> im \<le> N \<Longrightarrow> N - im div 2 + (im - 1 - im div 2) = N"
  by (auto elim!: oddE)

text \<open>The stages of a run that returns.\<close>

definition gridded_run ::
  "imager_env \<Rightarrow> kernel_creator \<Rightarrow> nat \<Rightarrow> (nat \<Rightarrow> complex) \<Rightarrow> (nat \<Rightarrow> real) \<Rightarrow> (nat \<Rightarrow> real \<times> real \<times> real) \<Rightarrow>
   imager_pars \<Rightarrow> w_projection_pars \<Rightarrow> fft_error + gridder_output"
where
  "gridded_run env creator n visibilities weights uvw_lambda pars wp =
     convolve_to_grid (env_gridder env) (generate_beam pars) creator (kernel_support pars) (padded_image_size pars) n
       (pixel_coordinates pars uvw_lambda visibilities) weights (kernel_exact pars) (oversampling pars) True True wp
       (cell_size pars) (analytic_gcf pars) (r_fft pars)"

lemma image_visibilities_stages:
  assumes "image_visibilities env creator n visibilities weights uvw_lambda pars wp = Inr (img, beam_img)"
    and "in_place = (r_fft pars = FFTW_WISDOM_INPLACE_FFT)"
  obtains gridded f1 f2 where "imager_checks pars wp"
    and "gridded_run env creator n visibilities weights uvw_lambda pars wp = Inr gridded"
    and "fft_fftw_c2r (env_fftw env) in_place (out_vis_grid gridded) (r_fft pars) = Inr f1"
    and "generate_beam pars \<longrightarrow> fft_fftw_c2r (env_fftw env) in_place (out_sampling_grid gridded) (r_fft pars) = Inr f2"
    and "0 < out_sample_total gridded \<longrightarrow>
      normalise_image_beam_result_1D (env_fftw env) (env_ranges env) (env_uninit env) (gridding_correction pars) creator f1 f2
        (padded_image_size pars) (imager_pars.image_size pars) (1 / out_sample_total gridded) (analytic_gcf pars)
        (generate_beam pars) (r_fft pars) = Inr (img, beam_img)"
  using assms unfolding image_visibilities_def gridded_run_def Let_def
  by (auto split: if_splits sum.splits)

lemma normalise_stages:
  assumes "normalise_image_beam_result_1D F rss uninit correction creator f1 f2 N im factor analytic beam routine = Inr (img, beam_img)"
    and "correction \<Longrightarrow> ImgDomKernel F creator N False analytic routine = Inr aa"
  shows "img = norm_matrix (if correction then Some aa else None) N im factor rss uninit f1"
    and "beam \<Longrightarrow> beam_img = norm_matrix (if correction then Some aa else None) N im factor rss uninit f2"
  using assms by (auto simp: normalise_image_beam_result_1D_def split: if_splits)

text \<open>
  What the schedules and sizes of a run must be: every column of the image is in one subrange of one of the two loops, and
  the padded image has at least 4 rows. For a power of two this makes its halves even.
\<close>

definition image_run_ok :: "imager_env \<Rightarrow> imager_pars \<Rightarrow> bool" where
  "image_run_ok env pars \<longleftrightarrow>
     threads_ok (env_gridder env) \<and> 4 \<le> padded_image_size pars \<and> padded_image_size pars < 2 ^ 32 \<and>
     even (imager_pars.image_size pars) \<and> covers 0 (imager_pars.image_size pars div 2) (fst (env_ranges env)) \<and>
     covers (imager_pars.image_size pars div 2) (imager_pars.image_size pars) (snd (env_ranges env))"

text \<open>Half of a Hermitian grid gives the image and the beam.\<close>

lemma image_of_grid:
  assumes run: "image_visibilities env creator n visibilities weights uvw_lambda pars wp = Inr (img, beam_img)"
    and F: "c2r_documented (env_fftw env)" and ok: "image_run_ok env pars"
    and N: "N = padded_image_size pars" and im: "im = imager_pars.image_size pars" and ij: "i < im" "j < im"
    and gridded: "\<And>gridded. gridded_run env creator n visibilities weights uvw_lambda pars wp = Inr gridded \<Longrightarrow>
      \<exists>Gs. gridded = grid_mats (int N) (int N div 2 + 1) (generate_beam pars) total_weight Gs \<and>
        (\<forall>r c. int r \<le> int N div 2 \<longrightarrow> c < N \<longrightarrow> fst Gs r c = X c r \<and> snd Gs r c = (if generate_beam pars then B c r else 0))"
    and herm: "hermitian N N X" "hermitian N N B" and pos: "0 < total_weight"
    and aa: "gridding_correction pars \<Longrightarrow> ImgDomKernel (env_fftw env) creator N False (analytic_gcf pars) (r_fft pars) = Inr aa"
    and corr_def: "corr = (\<lambda>i. if gridding_correction pars then aa ! kernel_pos N im i else 1)"
  shows "complex_of_real (elt img i j) =
      idft2 N N X (image_pos N im j) (image_pos N im i) / complex_of_real (total_weight * corr i * corr j) \<and>
    (generate_beam pars \<longrightarrow> complex_of_real (elt beam_img i j) =
      idft2 N N B (image_pos N im j) (image_pos N im i) / complex_of_real (total_weight * corr i * corr j))"
proof -
  let ?F = "env_fftw env" and ?h = "N div 2 + 1"
  let ?aa = "if gridding_correction pars then Some aa else None"
  define in_place where "in_place = (r_fft pars = FFTW_WISDOM_INPLACE_FFT)"
  obtain gridded f1 f2 where stages: "imager_checks pars wp"
    "gridded_run env creator n visibilities weights uvw_lambda pars wp = Inr gridded"
    "fft_fftw_c2r ?F in_place (out_vis_grid gridded) (r_fft pars) = Inr f1"
    "generate_beam pars \<longrightarrow> fft_fftw_c2r ?F in_place (out_sampling_grid gridded) (r_fft pars) = Inr f2"
    "0 < out_sample_total gridded \<longrightarrow> normalise_image_beam_result_1D ?F (env_ranges env) (env_uninit env) (gridding_correction pars)
        creator f1 f2 N im (1 / out_sample_total gridded) (analytic_gcf pars) (generate_beam pars) (r_fft pars) = Inr (img, beam_img)"
    by (rule image_visibilities_stages [OF run in_place_def, folded N im])
  obtain Gs where Gs: "gridded = grid_mats (int N) (int N div 2 + 1) (generate_beam pars) total_weight Gs"
    "\<forall>r c. int r \<le> int N div 2 \<longrightarrow> c < N \<longrightarrow> fst Gs r c = X c r \<and> snd Gs r c = (if generate_beam pars then B c r else 0)"
    using gridded [OF stages(2)] by blast
  have sizes: "4 \<le> N" "N < 2 ^ 32" "even im" "covers 0 (im div 2) (fst (env_ranges env))" "covers (im div 2) im (snd (env_ranges env))"
    using ok by (simp_all add: image_run_ok_def N im)
  have dims: "nat (int N div 2 + 1) = ?h" and r: "int r \<le> int N div 2 \<longleftrightarrow> r < ?h" for r
    by (simp_all add: nat_add_distrib, presburger)
  have "ispowerof2 (word_of_nat N)" and im_le: "im \<le> N"
    using stages(1) by (simp_all add: imager_checks_def N im)
  then have N4: "4 dvd N"
    using power_of_two_dvd sizes(1,2) by blast
  have result: "normalise_image_beam_result_1D ?F (env_ranges env) (env_uninit env) (gridding_correction pars) creator f1 f2 N im
      (1 / total_weight) (analytic_gcf pars) (generate_beam pars) (r_fft pars) = Inr (img, beam_img)"
    using stages(5) pos by (simp add: Gs(1) grid_mats_def)
  have norm: "img = norm_matrix ?aa N im (1 / total_weight) (env_ranges env) (env_uninit env) f1"
    "generate_beam pars \<Longrightarrow> beam_img = norm_matrix ?aa N im (1 / total_weight) (env_ranges env) (env_uninit env) f2"
    by (rule normalise_stages(1) [OF result], rule aa, assumption) (rule normalise_stages(2) [OF result], rule aa)
  have corr: "corr k = (case ?aa of Some k' \<Rightarrow> k' ! kernel_pos N im k | None \<Rightarrow> 1)" for k
    by (simp add: corr_def)
  have "complex_of_real (elt img i j) =
      idft2 N N X (image_pos N im j) (image_pos N im i) / complex_of_real (total_weight * corr i * corr j)"
    unfolding norm(1)
    by (rule normalised_transform [OF F stages(3) herm(1) N4 sizes(3) im_le ij _ _ _ sizes(4,5) corr])
      (use Gs(2) dims r in \<open>simp_all add: Gs(1) grid_mats_def\<close>)
  moreover have "complex_of_real (elt beam_img i j) =
      idft2 N N B (image_pos N im j) (image_pos N im i) / complex_of_real (total_weight * corr i * corr j)"
    if "generate_beam pars"
    unfolding norm(2) [OF that]
    by (rule normalised_transform [OF F mp [OF stages(4) that] herm(2) N4 sizes(3) im_le ij _ _ _ sizes(4,5) corr])
      (use Gs(2) dims r that in \<open>simp_all add: Gs(1) grid_mats_def\<close>)
  ultimately show ?thesis
    by blast
qed

text \<open>
  C1. The image is the inverse Fourier transform of the grid of all visibilities and their conjugates on the whole plane,
  divided by twice the sum of the weights and, if gridding is corrected, by the image-domain kernel, with the centre at the
  origin of the transform; the beam is the same for visibilities of value 1. This holds for all kernel functions, exact or
  oversampled, and all schedules, although the code grids half of the plane only.
\<close>

theorem image_of_visibilities:
  assumes "ImageVisibilities env n visibilities weights uvw_lambda pars wp = Inr (img, beam_img)"
    and "c2r_documented (env_fftw env)" and "image_run_ok env pars" and "\<not> w_enabled wp"
    and "N = padded_image_size pars" and "im = imager_pars.image_size pars" and "i < im" and "j < im"
    and "creator = select_kernel (kernel_func pars) (real (kernel_support pars))"
    and "q = vis_of ((pixel_coordinates pars uvw_lambda visibilities)\<lparr>w_lambda := (\<lambda>i. 0)\<rparr>)"
    and "total_weight = 2 * (\<Sum>i \<leftarrow> [0..<n]. if centre_in_bounds (int N) (kernel_support pars) (q i) then weights i else 0)"
    and "0 < total_weight"
    and "gridding_correction pars \<Longrightarrow> ImgDomKernel (env_fftw env) creator N False (analytic_gcf pars) (r_fft pars) = Inr aa"
    and "corr = (\<lambda>i. if gridding_correction pars then aa ! kernel_pos N im i else 1)"
    and "grid = (\<lambda>q c r. whole_grid (kernel_exact pars) (kernel_fun creator) (kernel_support pars) (int N) n (oversampling pars) q weights r c)"
  shows "complex_of_real (elt img i j) =
      idft2 N N (grid q) (image_pos N im j) (image_pos N im i) / complex_of_real (total_weight * corr i * corr j) \<and>
    (generate_beam pars \<longrightarrow> complex_of_real (elt beam_img i j) =
      idft2 N N (grid (unit_vis \<circ> q)) (image_pos N im j) (image_pos N im i) / complex_of_real (total_weight * corr i * corr j))"
proof (rule image_of_grid [OF assms(1) [unfolded ImageVisibilities_def, folded assms(9)] assms(2,3,5-8) _ _ _ assms(12-14)])
  have even: "even_kernel (kernel_fun creator)"
    unfolding assms(9) by (rule select_kernel_even)
  show "hermitian N N (grid q)" "hermitian N N (grid (unit_vis \<circ> q))"
    unfolding assms(15) by (rule whole_grid_hermitian [OF even])+
  have threads: "threads_ok (env_gridder env)"
    using assms(3) by (simp add: image_run_ok_def)
  fix gridded
  assume run: "gridded_run env creator n visibilities weights uvw_lambda pars wp = Inr gridded"
  show "\<exists>Gs. gridded = grid_mats (int N) (int N div 2 + 1) (generate_beam pars) total_weight Gs \<and>
      (\<forall>r c. int r \<le> int N div 2 \<longrightarrow> c < N \<longrightarrow> fst Gs r c = grid q c r \<and>
        snd Gs r c = (if generate_beam pars then grid (unit_vis \<circ> q) c r else 0))"
    unfolding assms(11,15) by (rule convolve_to_grid_value [OF run [unfolded gridded_run_def] assms(4) threads assms(10), folded assms(5)])
qed

lemma unit_vis_bounds: "centre_in_bounds N s ((unit_vis \<circ> q) i) = centre_in_bounds N s (q i)"
  by (cases "q i") (simp add: centre_in_bounds_def unit_vis_def)

lemma unit_vis_w: "fst (snd (snd ((unit_vis \<circ> q) i))) = fst (snd (snd (q i)))"
  by (cases "q i") (simp add: unit_vis_def)

lemma wide_grid_hermitian:
  assumes "\<forall>p \<in> set planes. even_cache os (plane_cache p) (plane_support p) \<and> vi_end p \<le> n"
    and "\<And>i. i < n \<Longrightarrow> centre_in_bounds (int N) s (q i) \<Longrightarrow> fst (snd (snd (q i))) \<noteq> 0"
  shows "hermitian N N (\<lambda>c r. grid_sum (int N) s os True planes q weights r c)"
  using wide_grid_opposite [of planes os n "int N" s q] assms by (simp add: hermitian_def opp_opposite)

text \<open>
  C2. With W-projection too the image and the beam are the inverse Fourier transform of the grid of all visibilities and
  their conjugates on the whole plane, divided by twice the sum of the weights and the image-domain kernel: the kernels
  are those that the class WideFieldImaging makes for the w-plane of a visibility, their complex conjugates where w is
  negative. The planes hold every visibility once. No visibility in bounds may have w = 0.
\<close>

theorem image_with_wprojection:
  assumes "ImageVisibilities env n visibilities weights uvw_lambda pars wp = Inr (img, beam_img)"
    and "c2r_documented (env_fftw env)" and "c2c_documented (env_fftw env)"
    and "image_run_ok env pars" and "w_enabled wp" and "wide_run_ok (env_gridder env) wp N (oversampling pars)"
    and "N = padded_image_size pars" and "im = imager_pars.image_size pars" and "i < im" and "j < im"
    and "creator = select_kernel (kernel_func pars) (real (kernel_support pars))"
    and "sorted_idxs = sorted_by_w (env_gridder env) n (pixel_coordinates pars uvw_lambda visibilities)"
    and "d = reorder sorted_idxs (pixel_coordinates pars uvw_lambda visibilities)" and "wt = (\<lambda>i. weights (sorted_idxs ! i))"
    and "s = max_wpconv_support wp" and "os = even_oversampling False (oversampling pars)"
    and "(A, fracs) = prepare_visibilities True True True n (int N) s os d wt"
    and "oversampled_planes (env_gridder env) creator (kernel_support pars) N n os wp (cell_size pars) (analytic_gcf pars) (r_fft pars) A = Inr planes"
    and "\<And>i. i < n \<Longrightarrow> centre_in_bounds (int N) s (vis_of d i) \<Longrightarrow> w_lambda d i \<noteq> 0"
    and "total_weight = 2 * (\<Sum>i \<leftarrow> [0..<n]. if centre_in_bounds (int N) s (vis_of d i) then wt i else 0)"
    and "0 < total_weight"
    and "gridding_correction pars \<Longrightarrow> ImgDomKernel (env_fftw env) creator N False (analytic_gcf pars) (r_fft pars) = Inr aa"
    and "corr = (\<lambda>i. if gridding_correction pars then aa ! kernel_pos N im i else 1)"
    and "grid = (\<lambda>q c r. grid_sum (int N) s os True planes q wt r c)"
  shows "complex_of_real (elt img i j) =
      idft2 N N (grid (vis_of d)) (image_pos N im j) (image_pos N im i) / complex_of_real (total_weight * corr i * corr j) \<and>
    (generate_beam pars \<longrightarrow> complex_of_real (elt beam_img i j) =
      idft2 N N (grid (unit_vis \<circ> vis_of d)) (image_pos N im j) (image_pos N im i) / complex_of_real (total_weight * corr i * corr j)) \<and>
    (0 < num_wplanes wp \<longrightarrow> concat (map (\<lambda>p. [vi_begin p..<vi_end p]) planes) = [0..<n])"
proof -
  define st where "st = average_w_planes n (\<lambda>i. \<bar>w_values A i\<bar>) (good_vis A) (num_wplanes wp) (wplanes_median wp)"
  note run = assms(1) [unfolded ImageVisibilities_def, folded assms(11)]
  note planes = assms(18) [unfolded assms(16)]
  have threads: "threads_ok (env_gridder env)"
    using assms(4) by (simp add: image_run_ok_def)
  have gridded: "(\<exists>Gs. gridded = grid_mats (int N) (int N div 2 + 1) (generate_beam pars) total_weight Gs \<and>
      (\<forall>r c. int r \<le> int N div 2 \<longrightarrow> c < N \<longrightarrow> fst Gs r c = grid (vis_of d) c r \<and>
        snd Gs r c = (if generate_beam pars then grid (unit_vis \<circ> vis_of d) c r else 0))) \<and>
      (\<forall>p \<in> set planes. even_cache os (plane_cache p) (plane_support p) \<and> vi_end p \<le> n)"
    if gr: "gridded_run env creator n visibilities weights uvw_lambda pars wp = Inr gridded" for gridded
  proof -
    note defs = assms(13) [unfolded assms(12)] assms(14) [unfolded assms(12)]
    obtain planes' Gs where *: "oversampled_planes (env_gridder env) creator (kernel_support pars) N n os wp (cell_size pars)
        (analytic_gcf pars) (r_fft pars) A = Inr planes'"
      "\<forall>p \<in> set planes'. even_cache os (plane_cache p) (plane_support p) \<and> vi_end p \<le> n"
      "gridded = grid_mats (int N) (int N div 2 + 1) (generate_beam pars)
        (2 * (\<Sum>i \<leftarrow> [0..<n]. if centre_in_bounds (int N) s (vis_of d i) then wt i else 0)) Gs"
      "\<forall>r c. int r \<le> int N div 2 \<longrightarrow> c < N \<longrightarrow> fst Gs r c = grid_sum (int N) s os True planes' (vis_of d) wt r c \<and>
        snd Gs r c = (if generate_beam pars then grid_sum (int N) s os True planes' (unit_vis \<circ> vis_of d) wt r c else 0)"
      by (rule convolve_to_grid_wide [OF gr [unfolded gridded_run_def, folded assms(7)] assms(5) threads assms(6,3) refl
            defs(2) assms(17) [unfolded assms(13,15,16) assms(12)] st_def, folded assms(12), folded assms(13,15,16)])
    have "planes' = planes"
      using *(1) assms(18) by simp
    with *(2-4) show ?thesis
      unfolding assms(20,24) by blast
  qed
  obtain gridded where "gridded_run env creator n visibilities weights uvw_lambda pars wp = Inr gridded"
    using image_visibilities_stages [OF run refl] by metis
  then have even: "\<forall>p \<in> set planes. even_cache os (plane_cache p) (plane_support p) \<and> vi_end p \<le> n"
    using gridded by blast
  have w: "fst (snd (snd (vis_of d i))) \<noteq> 0" if "i < n" "centre_in_bounds (int N) s (vis_of d i)" for i
    using assms(19) [OF that] by (simp add: vis_of_def)
  have herm: "hermitian N N (grid (vis_of d))" "hermitian N N (grid (unit_vis \<circ> vis_of d))"
    unfolding assms(24)
    by (rule wide_grid_hermitian [OF even], erule (1) w)
      (rule wide_grid_hermitian [OF even, unfolded unit_vis_bounds], unfold unit_vis_bounds unit_vis_w, erule (1) w)
  have "concat (map (\<lambda>p. [vi_begin p..<vi_end p]) planes) = [0..<n]" if "0 < num_wplanes wp"
    by (rule oversampled_planes_partition [OF planes assms(5,6,3) that])
  then show ?thesis
    using image_of_grid [OF run assms(2,4,7-10) conjunct1 [OF gridded] herm assms(21-23)] by blast
qed

section \<open>Returning\<close>

text \<open>A run returns an image if the checks hold and FFTW can be set up and makes plans.\<close>

lemma make_plan_returns:
  assumes "select_flag routine = Inr flag" and "\<And>n0 n1. plannable F kind FLAG_ESTIMATE n0 n1"
  shows "make_plan F kind routine n0 n1 = Inr ()"
  using assms by (simp add: make_plan_def)

lemma image_visibilities_returns:
  assumes checks: "imager_checks pars wp"
    and grid: "gridded_run env creator n visibilities weights uvw_lambda pars wp = Inr gridded"
    and init: "init_threads (env_fftw env)" "import_wisdom (env_fftw env) (fft_wisdom_filename pars)"
    and flag: "select_flag (r_fft pars) = Inr flag"
    and plans: "\<And>kind n0 n1. plannable (env_fftw env) kind FLAG_ESTIMATE n0 n1"
    and gcf: "gridding_correction pars \<Longrightarrow> analytic_gcf pars \<Longrightarrow> kernel_gcf creator \<noteq> None"
  shows "\<exists>img beam_img. image_visibilities env creator n visibilities weights uvw_lambda pars wp = Inr (img, beam_img)"
proof -
  let ?F = "env_fftw env"
  have init': "init_fftw ?F (r_fft pars) (fft_wisdom_filename pars) = Inr ()"
    using init by (simp add: init_fftw_def)
  have plan: "make_plan ?F kind (r_fft pars) n0 n1 = Inr ()" for kind n0 n1
    by (rule make_plan_returns [OF flag plans])
  have c2r: "\<exists>out. fft_fftw_c2r ?F ip m (r_fft pars) = Inr out" for ip m
    by (simp add: fft_fftw_c2r_def Let_def plan)
  have r2r: "\<exists>out. fft_fftw_dft_r2r_1d ?F l routine = Inr out" if "routine = r_fft pars \<or> routine = FFTW_ESTIMATE_FFT" for l routine
    using that plan plans by (auto simp: fft_fftw_dft_r2r_1d_def make_plan_def [of _ _ FFTW_ESTIMATE_FFT] select_flag_def)
  have kernel: "\<exists>aa. ImgDomKernel ?F creator N False (analytic_gcf pars) (r_fft pars) = Inr aa" if "gridding_correction pars" for N
  proof (cases "analytic_gcf pars")
    case True
    then show ?thesis
      using gcf that by (auto simp: ImgDomKernel_def)
  next
    case False
    define routine where "routine = (if (r_fft pars = FFTW_WISDOM_FFT \<or> r_fft pars = FFTW_WISDOM_INPLACE_FFT) \<and> N < 4
      then FFTW_ESTIMATE_FFT else r_fft pars)"
    have "routine = r_fft pars \<or> routine = FFTW_ESTIMATE_FFT"
      by (simp add: routine_def)
    then obtain out where "fft_fftw_dft_r2r_1d ?F (shifted_samples (kernel_fun creator) N) routine = Inr out"
      using r2r by blast
    then show ?thesis
      using False by (simp add: ImgDomKernel_def Let_def routine_def [symmetric])
  qed
  obtain f1 f2 where "fft_fftw_c2r ?F (r_fft pars = FFTW_WISDOM_INPLACE_FFT) (out_vis_grid gridded) (r_fft pars) = Inr f1"
    "fft_fftw_c2r ?F (r_fft pars = FFTW_WISDOM_INPLACE_FFT) (out_sampling_grid gridded) (r_fft pars) = Inr f2"
    using c2r by metis
  moreover obtain aa where "gridding_correction pars \<longrightarrow> ImgDomKernel ?F creator (padded_image_size pars) False (analytic_gcf pars) (r_fft pars) = Inr aa"
    using kernel by blast
  ultimately show ?thesis
    using checks by (simp add: image_visibilities_def init' grid [unfolded gridded_run_def] normalise_image_beam_result_1D_def Let_def)
qed


text \<open>Without the Hankel form and without truncation the kernels of all planes have the largest support.\<close>

lemma wide_kernels_plain:
  assumes "\<not> hankel_opt (wf_pars W)" and "\<not> kernel_trunc_perc (wf_pars W) > 0"
    and "\<And>kind n0 n1. make_plan (wide_fftw env) kind (wf_r_fft W) n0 n1 = Inr ()"
  shows "\<exists>W' cache. wide_kernels env aa w W = Inr (W', cache, truncated_wpconv_support W) \<and> wf_pars W' = wf_pars W \<and>
    wf_r_fft W' = wf_r_fft W \<and> truncated_wpconv_support W' = truncated_wpconv_support W"
  using assms
  by (simp add: wide_kernels_def generate_convolution_kernel_wproj_def generate_image_domain_convolution_kernel_def
      fft_fftw_c2c_def truncate_support_def trunc_at_value_def Let_def)

lemma wide_planes_plain:
  assumes "\<not> hankel_opt (wf_pars W)" and "\<not> kernel_trunc_perc (wf_pars W) > 0" and "truncated_wpconv_support W \<noteq> 0"
    and "\<And>kind n0 n1. make_plan (grid_fftw env) kind (wf_r_fft W) n0 n1 = Inr ()"
  shows "\<exists>planes. wide_planes env aa n m st pls W = Inr planes"
  using assms
proof (induction pls arbitrary: W)
  case (Cons pl pls)
  have "make_plan (wide_fftw (plane_env env pl)) kind (wf_r_fft W) n0 n1 = Inr ()" for kind n0 n1
    using Cons.prems(4) by (simp add: plane_env_def)
  then obtain W' cache where run: "wide_kernels (plane_env env pl) aa (w_avg_values st pl) W = Inr (W', cache, truncated_wpconv_support W)"
    and same: "wf_pars W' = wf_pars W" "wf_r_fft W' = wf_r_fft W" "truncated_wpconv_support W' = truncated_wpconv_support W"
    using wide_kernels_plain [OF Cons.prems(1,2)] by metis
  obtain planes where "wide_planes env aa n m st pls W' = Inr planes"
    using Cons.IH [of W'] Cons.prems unfolding same by blast
  then show ?case
    using run Cons.prems(3) by simp
qed simp


section \<open>A run\<close>

definition gridder_demo :: gridder_env where
  "gridder_demo = \<lparr>grid_fftw = model_fftw, grid_sort_index = (\<lambda>n f. [0..<n]), grid_rbegins = (\<lambda>pl m. rev [0..<m]),
     grid_wide = (\<lambda>pl. wide_env_demo\<lparr>line_ranges := [(1, 2)], square_ranges := [(1, 2)]\<rparr>),
     grid_dht_ranges = [], grid_dht_mem = (\<lambda>i j. 0)\<rparr>"

definition env_demo :: imager_env where
  "env_demo = \<lparr>env_gridder = gridder_demo, env_ranges = ([(0, 2)], [(2, 4)]), env_uninit = (\<lambda>i j. 0)\<rparr>"

definition pars_demo :: imager_pars where
  "pars_demo = make_imager_pars 4 1 2 Triangle 1 False 2 True True False FFTW_ESTIMATE_FFT ''''"

lemma demo_checks: "imager_checks pars_demo default_w_proj" "\<not> w_enabled default_w_proj"
proof -
  have pow: "ispowerof2 (word_of_nat 8)"
    unfolding ispowerof2_def by simp
  show "\<not> w_enabled default_w_proj"
    by (simp add: w_enabled_def default_w_proj_def)
  then show "imager_checks pars_demo default_w_proj"
    using pow by (simp add: imager_checks_def pars_demo_def make_imager_pars_def)
qed

lemma demo_runs:
  obtains img beam_img where
    "ImageVisibilities env_demo 1 (\<lambda>i. \<i>) (\<lambda>i. 3) (\<lambda>i. (0, 0, 0)) pars_demo default_w_proj = Inr (img, beam_img)"
proof -
  have "even (padded_image_size pars_demo)" "kernel_support pars_demo \<noteq> 0" "kernel_exact pars_demo \<or> oversampling pars_demo \<ge> 1"
    by (simp_all add: pars_demo_def make_imager_pars_def)
  from convolve_to_grid_returns [OF this demo_checks(2)] obtain gridded where
    grid: "gridded_run env_demo (select_kernel (kernel_func pars_demo) (real (kernel_support pars_demo))) 1 (\<lambda>i. \<i>) (\<lambda>i. 3)
      (\<lambda>i. (0, 0, 0)) pars_demo default_w_proj = Inr gridded"
    unfolding gridded_run_def by blast
  have "\<exists>img beam_img. ImageVisibilities env_demo 1 (\<lambda>i. \<i>) (\<lambda>i. 3) (\<lambda>i. (0, 0, 0)) pars_demo default_w_proj = Inr (img, beam_img)"
    unfolding ImageVisibilities_def
    by (rule image_visibilities_returns [OF demo_checks(1) grid])
      (simp_all add: pars_demo_def make_imager_pars_def env_demo_def gridder_demo_def model_fftw_def select_flag_def)
  then show ?thesis
    using that by blast
qed


lemma demo_run_ok: "image_run_ok env_demo pars_demo"
  by (simp add: image_run_ok_def threads_ok_def env_demo_def gridder_demo_def pars_demo_def make_imager_pars_def covers_def upt_rec)

definition grid_demo :: "(nat \<Rightarrow> visibility) \<Rightarrow> nat \<Rightarrow> nat \<Rightarrow> complex" where
  "grid_demo q c r = whole_grid False (triangle_kernel 1) 1 8 1 2 q (\<lambda>i. 3) r c"

theorem image_of_visibilities_witness:
  "case ImageVisibilities env_demo 1 (\<lambda>i. \<i>) (\<lambda>i. 3) (\<lambda>i. (0, 0, 0)) pars_demo default_w_proj of
     Inr (img, beam_img) \<Rightarrow>
       (case ImgDomKernel model_fftw (Triangle_creator 1) 8 False False FFTW_ESTIMATE_FFT of
          Inr aa \<Rightarrow> complex_of_real (elt img 1 2) =
            idft2 8 8 (grid_demo (\<lambda>i. (0, 0, 0, \<i>))) 6 1 / complex_of_real (6 * aa ! 5 * aa ! 2)
        | Inl e \<Rightarrow> False)
   | Inl e \<Rightarrow> False"
proof -
  obtain img beam_img where run:
    "ImageVisibilities env_demo 1 (\<lambda>i. \<i>) (\<lambda>i. 3) (\<lambda>i. (0, 0, 0)) pars_demo default_w_proj = Inr (img, beam_img)"
    by (rule demo_runs)
  obtain aa where aa: "ImgDomKernel model_fftw (Triangle_creator 1) 8 False False FFTW_ESTIMATE_FFT = Inr aa"
    by (simp add: ImgDomKernel_def fft_fftw_dft_r2r_1d_def make_plan_def select_flag_def model_fftw_def)
  have pars: "padded_image_size pars_demo = 8" "imager_pars.image_size pars_demo = 4" "kernel_support pars_demo = 1"
    "gridding_correction pars_demo" "analytic_gcf pars_demo = False" "r_fft pars_demo = FFTW_ESTIMATE_FFT"
    "kernel_func pars_demo = Triangle" "kernel_exact pars_demo = False" "oversampling pars_demo = 2"
    by (simp_all add: pars_demo_def make_imager_pars_def)
  have env: "env_fftw env_demo = model_fftw"
    by (simp add: env_demo_def gridder_demo_def)
  have "vis_of ((pixel_coordinates pars_demo (\<lambda>i. (0, 0, 0)) (\<lambda>i. \<i>))\<lparr>w_lambda := (\<lambda>i. 0)\<rparr>) = (\<lambda>i. (0, 0, 0, \<i>))"
    by (simp add: vis_of_def pixel_coordinates_def Let_def fun_eq_iff)
  note q = this [symmetric]
  have rint: "rint 0 = 0"
    by (simp add: rint_def)
  have creator: "Triangle_creator 1 = select_kernel (kernel_func pars_demo) (real (kernel_support pars_demo))"
    by (simp add: select_kernel_def pars)
  have grid: "grid_demo = (\<lambda>q c r. whole_grid (kernel_exact pars_demo) (kernel_fun (Triangle_creator 1)) (kernel_support pars_demo)
      (int 8) 1 (oversampling pars_demo) q (\<lambda>i. 3) r c)"
    by (intro ext) (simp add: grid_demo_def pars Triangle_creator_def)
  have "complex_of_real (elt img 1 2) = idft2 8 8 (grid_demo (\<lambda>i. (0, 0, 0, \<i>))) (image_pos 8 4 2) (image_pos 8 4 1) /
      complex_of_real (6 * (if gridding_correction pars_demo then aa ! kernel_pos 8 4 1 else 1) *
        (if gridding_correction pars_demo then aa ! kernel_pos 8 4 2 else 1))"
    by (rule image_of_visibilities [where creator = "Triangle_creator 1" and aa = aa, THEN conjunct1, OF run])
      (use demo_checks aa in \<open>simp_all add: model_fftw_c2r pars env q creator grid demo_run_ok
        centre_in_bounds_def rint\<close>)
  then show ?thesis
    unfolding run aa sum.case prod.case by (simp add: pars image_pos_def kernel_pos_def)
qed

section \<open>A run with W-projection\<close>

definition wp_demo :: w_projection_pars where
  "wp_demo = default_w_proj\<lparr>num_wplanes := 1, max_wpconv_support := 1\<rparr>"

lemma wp_demo_simps: "w_enabled wp_demo" "max_wpconv_support wp_demo = 1" "num_wplanes wp_demo = 1" "hankel_opt wp_demo = False"
  "kernel_trunc_perc wp_demo = 0" "undersampling_opt wp_demo = 1"
  by (simp_all add: wp_demo_def w_enabled_def default_w_proj_def)

lemma demo_workarea: "workarea_size wp_demo 8 1 = 4"
  by (simp add: workarea_size_def wp_demo_simps enlarge.simps)

lemma demo_oversampling: "even_oversampling False 2 = 2"
  by (simp add: even_oversampling_def)

lemma demo_plans: "make_plan model_fftw kind FFTW_ESTIMATE_FFT n0 n1 = Inr ()"
  by (simp add: make_plan_def select_flag_def model_fftw_def)

lemma demo_wide_checks: "imager_checks pars_demo wp_demo"
proof -
  have pow: "ispowerof2 (word_of_nat 8)"
    unfolding ispowerof2_def by simp
  show ?thesis
    using pow by (simp add: imager_checks_def pars_demo_def make_imager_pars_def)
qed

lemma demo_wide_run_ok: "wide_run_ok gridder_demo wp_demo 8 2"
  by (simp add: wide_run_ok_def wp_demo_simps demo_workarea [simplified] demo_oversampling wide_ranges_ok_def gridder_demo_def covers_def Let_def)

lemma demo_wide_planes:
  obtains planes where "oversampled_planes gridder_demo (Triangle_creator 1) 1 8 1 2 wp_demo c False FFTW_ESTIMATE_FFT A = Inr planes"
proof -
  have F: "grid_fftw gridder_demo = model_fftw"
    by (simp add: gridder_demo_def)
  obtain aa where aa: "ImgDomKernel model_fftw (Triangle_creator 1) 4 False False FFTW_ESTIMATE_FFT = Inr aa"
    by (simp add: ImgDomKernel_def fft_fftw_dft_r2r_1d_def demo_plans)
  obtain W where W: "WideFieldImaging (grid_dht_ranges gridder_demo) (grid_dht_mem gridder_demo) 4 (arc_sec_to_rad c) 2 2 wp_demo
      FFTW_ESTIMATE_FFT = Inr W"
    by (simp add: WideFieldImaging_def Let_def)
  then have fields: "wf_pars W = wp_demo" "wf_r_fft W = FFTW_ESTIMATE_FFT" "truncated_wpconv_support W = 1"
    by (auto simp: WideFieldImaging_def Let_def wp_demo_simps)
  have wide: "\<exists>planes. wide_planes gridder_demo aa n m st pls W = Inr planes" for n m st pls
    by (rule wide_planes_plain) (simp_all add: fields wp_demo_simps F demo_plans)
  have half: "real 8 / real (4 :: nat) = 2"
    by simp
  have "\<exists>planes. oversampled_planes gridder_demo (Triangle_creator 1) 1 8 1 2 wp_demo c False FFTW_ESTIMATE_FFT A = Inr planes"
    unfolding oversampled_planes_def Let_def wp_demo_simps demo_workarea F aa sum.case half W eqTrueI [OF wp_demo_simps(1)] if_True
    by (rule wide)
  then show ?thesis
    using that by blast
qed

theorem image_with_wprojection_witness:
  "\<exists>img beam_img A fracs planes aa.
    ImageVisibilities env_demo 1 (\<lambda>i. \<i>) (\<lambda>i. 3) (\<lambda>i. (0, 0, 5)) pars_demo wp_demo = Inr (img, beam_img) \<and>
    (A, fracs) = prepare_visibilities True True True 1 8 1 2
      (reorder [0] (pixel_coordinates pars_demo (\<lambda>i. (0, 0, 5)) (\<lambda>i. \<i>))) (\<lambda>i. 3) \<and>
    oversampled_planes gridder_demo (Triangle_creator 1) 1 8 1 2 wp_demo (cell_size pars_demo) False FFTW_ESTIMATE_FFT A = Inr planes \<and>
    ImgDomKernel model_fftw (Triangle_creator 1) 8 False False FFTW_ESTIMATE_FFT = Inr aa \<and>
    complex_of_real (elt img 1 2) =
      idft2 8 8 (\<lambda>c r. grid_sum 8 1 2 True planes (\<lambda>i. (0, 0, 5, \<i>)) (\<lambda>i. 3) r c) 6 1 / complex_of_real (6 * aa ! 5 * aa ! 2)"
proof -
  have pars: "padded_image_size pars_demo = 8" "imager_pars.image_size pars_demo = 4" "kernel_support pars_demo = 1"
    "gridding_correction pars_demo" "analytic_gcf pars_demo = False" "r_fft pars_demo = FFTW_ESTIMATE_FFT"
    "kernel_func pars_demo = Triangle" "kernel_exact pars_demo = False" "oversampling pars_demo = 2"
    by (simp_all add: pars_demo_def make_imager_pars_def)
  have env: "env_gridder env_demo = gridder_demo" "grid_fftw gridder_demo = model_fftw"
    by (simp_all add: env_demo_def gridder_demo_def)
  have creator: "Triangle_creator 1 = select_kernel (kernel_func pars_demo) (real (kernel_support pars_demo))"
    by (simp add: select_kernel_def pars)
  define d0 where "d0 = pixel_coordinates pars_demo (\<lambda>i. (0, 0, 5)) (\<lambda>i. \<i>)"
  have idxs: "[0] = sorted_by_w gridder_demo 1 d0"
    by (simp add: sorted_by_w_def gridder_demo_def)
  obtain A fracs where A: "(A, fracs) = prepare_visibilities True True True 1 8 1 2 (reorder [0] d0) (\<lambda>i. 3)"
    by (metis surj_pair)
  obtain planes where planes: "oversampled_planes gridder_demo (Triangle_creator 1) 1 8 1 2 wp_demo (cell_size pars_demo) False
      FFTW_ESTIMATE_FFT A = Inr planes"
    by (rule demo_wide_planes)
  obtain aa where aa: "ImgDomKernel model_fftw (Triangle_creator 1) 8 False False FFTW_ESTIMATE_FFT = Inr aa"
    by (simp add: ImgDomKernel_def fft_fftw_dft_r2r_1d_def demo_plans)
  have A': "(A, fracs) = prepare_visibilities True True True 1 (int 8) (max_wpconv_support wp_demo) (even_oversampling False 2)
      (reorder (sorted_by_w gridder_demo 1 d0) d0) (\<lambda>i. 3)"
    unfolding wp_demo_simps demo_oversampling idxs [symmetric] using A by simp
  have "\<exists>out. gridded_run env_demo (Triangle_creator 1) 1 (\<lambda>i. \<i>) (\<lambda>i. 3) (\<lambda>i. (0, 0, 5)) pars_demo wp_demo = Inr out"
    unfolding gridded_run_def d0_def [symmetric] env pars convolve_to_grid_wide_run [OF wp_demo_simps(1) refl refl A']
      demo_oversampling planes sum.case
    by (simp add: wp_demo_simps)
  then obtain gridded where "gridded_run env_demo (select_kernel (kernel_func pars_demo) (real (kernel_support pars_demo))) 1 (\<lambda>i. \<i>)
      (\<lambda>i. 3) (\<lambda>i. (0, 0, 5)) pars_demo wp_demo = Inr gridded"
    unfolding creator by blast
  from image_visibilities_returns [OF demo_wide_checks this]
  obtain img beam_img where run: "ImageVisibilities env_demo 1 (\<lambda>i. \<i>) (\<lambda>i. 3) (\<lambda>i. (0, 0, 5)) pars_demo wp_demo = Inr (img, beam_img)"
    unfolding ImageVisibilities_def env pars by (auto simp: model_fftw_def select_flag_def)
  have rint: "rint 0 = 0" and select: "select_kernel Triangle 1 = Triangle_creator 1"
    by (simp_all add: rint_def select_kernel_def)
  have q: "vis_of (reorder [0] d0) = (\<lambda>i. (0, 0, 5, \<i>))" and w: "w_lambda (reorder [0] d0) i = 5" for i
    by (simp_all add: vis_of_def reorder_def d0_def pixel_coordinates_def Let_def fun_eq_iff)
  have "complex_of_real (elt img 1 2) = idft2 8 8 (\<lambda>c r. grid_sum (int 8) 1 2 True planes (vis_of (reorder [0] d0)) (\<lambda>i. 3) r c)
      (image_pos 8 4 2) (image_pos 8 4 1) /
      complex_of_real (6 * (if gridding_correction pars_demo then aa ! kernel_pos 8 4 1 else 1) *
        (if gridding_correction pars_demo then aa ! kernel_pos 8 4 2 else 1))"
    by (rule image_with_wprojection [where creator = "Triangle_creator 1" and aa = aa and A = A and fracs = fracs and planes = planes and
          s = 1 and os = 2 and sorted_idxs = "[0]", THEN conjunct1, OF run])
      (use demo_wide_run_ok aa A planes in \<open>simp_all add: model_fftw_c2r model_fftw_c2c pars env q w demo_run_ok select
        idxs [symmetric, unfolded One_nat_def] wp_demo_simps demo_oversampling centre_in_bounds_def rint d0_def [symmetric]\<close>)
  then have "complex_of_real (elt img 1 2) =
      idft2 8 8 (\<lambda>c r. grid_sum 8 1 2 True planes (\<lambda>i. (0, 0, 5, \<i>)) (\<lambda>i. 3) r c) 6 1 / complex_of_real (6 * aa ! 5 * aa ! 2)"
    by (simp add: q pars image_pos_def kernel_pos_def)
  then show ?thesis
    using run A [unfolded d0_def] planes aa by blast
qed

end
