(* ===== verification/Aproj_Run.thy ===== *)
theory Aproj_Run
  imports Aproj_Grid Imager
begin

text \<open>Runs of the gridder with A-projection: when they return, and one of them.\<close>

section \<open>Runs that return\<close>

text \<open>A kernel object without the Hankel form and without truncation, whose kernel has a support.\<close>

definition plain_field :: "nat \<Rightarrow> fft_routine \<Rightarrow> wide_field \<Rightarrow> bool" where
  "plain_field workarea routine W \<longleftrightarrow>
     \<not> hankel_opt (wf_pars W) \<and> \<not> kernel_trunc_perc (wf_pars W) > 0 \<and> truncated_wpconv_support W \<noteq> 0 \<and>
     array_size W \<noteq> 0 \<and> wf_kernel_size W = workarea \<and> wf_r_fft W = routine"

lemma a_kernel_cols: "n_cols (a_kernel env sch ap fov workarea rot_angle) = workarea"
  by (simp add: a_kernel_def generate_a_kernel_def Let_def)

lemma aproj_kernel_plain:
  assumes "plain_field workarea routine W" and "n_elem (comb_kernel W) \<noteq> 0" and "n_cols K = workarea"
    and "\<And>kind n0 n1. make_plan F kind routine n0 n1 = Inr ()"
  shows "\<exists>W'. generate_convolution_kernel_aproj F rss K W = Inr W' \<and> plain_field workarea routine W' \<and> comb_kernel W' = comb_kernel W"
  using assms
  by (cases rss) (simp add: generate_convolution_kernel_aproj_def plain_field_def fft_fftw_c2c_def truncate_support_def trunc_at_value_def
      Let_def)

lemma timestep_kernel_plain:
  assumes "plain_field workarea routine W" and "n_elem (comb_kernel W) \<noteq> 0"
    and "\<And>kind n0 n1. make_plan (grid_fftw (ap_gridder env)) kind routine n0 n1 = Inr ()"
  shows "\<exists>W'. timestep_kernel env sch ap fov workarea h W = Inr W' \<and> plain_field workarea routine W' \<and> comb_kernel W' = comb_kernel W"
proof (cases "aproj_opt ap")
  case True
  then show ?thesis
    using assms by (simp add: timestep_kernel_def rotate_kernel_def plain_field_def Let_def)
next
  case False
  then show ?thesis
    using aproj_kernel_plain [OF assms(1,2) a_kernel_cols assms(3)] by (simp add: timestep_kernel_def Let_def)
qed

lemma aproj_timesteps_plain:
  assumes "plain_field workarea routine W" and "n_elem (comb_kernel W) \<noteq> 0"
    and "\<And>kind n0 n1. make_plan (grid_fftw (ap_gridder env)) kind routine n0 n1 = Inr ()"
  shows "\<exists>planes W'. aproj_timesteps env ap fov workarea lhas pl bounds tss W = Inr (planes, W') \<and> plain_field workarea routine W'"
  using assms
proof (induction tss arbitrary: W)
  case (Cons ts tss)
  obtain W1 where W1: "timestep_kernel env (ap_schedule env pl ts) ap fov workarea (lhas ts) W = Inr W1" "plain_field workarea routine W1"
    "comb_kernel W1 = comb_kernel W"
    using timestep_kernel_plain [OF Cons.prems] by blast
  obtain planes W' where "aproj_timesteps env ap fov workarea lhas pl bounds tss W1 = Inr (planes, W')" "plain_field workarea routine W'"
    using Cons.IH [OF W1(2)] Cons.prems(2,3) W1(3) by metis
  then show ?case
    using W1(1,2) by (simp add: plain_field_def)
qed simp

lemma plane_kernel_plain:
  assumes "plain_field workarea routine W" and "n_cols K = workarea"
    and "\<And>kind n0 n1. make_plan (grid_fftw (ap_gridder env)) kind routine n0 n1 = Inr ()"
  shows "\<exists>W'. aproj_plane_kernel env ap aa K pl w W = Inr W' \<and> plain_field workarea routine W' \<and> n_elem (comb_kernel W') \<noteq> 0"
proof -
  obtain W1 where W1: "generate_image_domain_convolution_kernel (plane_env (ap_gridder env) pl) w aa W = Inr W1"
    "plain_field workarea routine W1" "n_elem (comb_kernel W1) \<noteq> 0"
    using assms(1) by (simp add: generate_image_domain_convolution_kernel_def plain_field_def n_elem_def Let_def)
  then show ?thesis
    using aproj_kernel_plain [OF W1(2,3) assms(2,3), of "product_ranges (ap_schedule env pl 0)"]
    by (cases "aproj_opt ap") (auto simp: aproj_plane_kernel_def)
qed

lemma aproj_planes_plain:
  assumes "plain_field workarea routine W" and "n_cols K = workarea"
    and "\<And>kind n0 n1. make_plan (grid_fftw (ap_gridder env)) kind routine n0 n1 = Inr ()"
  shows "\<exists>planes. aproj_planes env ap aa K fov workarea lhas n m st pls W = Inr planes"
  using assms
proof (induction pls arbitrary: W)
  case (Cons pl pls)
  obtain W1 where W1: "aproj_plane_kernel env ap aa K pl (w_avg_values st pl) W = Inr W1" "plain_field workarea routine W1"
    "n_elem (comb_kernel W1) \<noteq> 0"
    using plane_kernel_plain [OF Cons.prems] by metis
  obtain first W2 where W2: "aproj_timesteps env ap fov workarea lhas pl (plane_bounds n m st pl) [0..<a_projection_pars.num_timesteps ap] W1 =
      Inr (first, W2)" "plain_field workarea routine W2"
    using aproj_timesteps_plain [OF W1(2,3) Cons.prems(3)] by blast
  then show ?case
    using Cons.IH [OF W2(2) Cons.prems(2,3)] W1(1) by auto
qed simp

text \<open>The gridder makes all planes and time steps if FFTW can plan its transforms.\<close>

lemma aproj_setup_returns:
  assumes "2 * max_wpconv_support wp \<le> N" and "max_wpconv_support wp \<noteq> 0" and "os \<noteq> 0"
    and "\<not> hankel_opt wp" and "\<not> kernel_trunc_perc wp > 0" and "\<not> analytic"
    and plans: "\<And>kind n0 n1. make_plan (grid_fftw (ap_gridder env)) kind routine n0 n1 = Inr ()"
      "\<And>kind n0 n1. make_plan (grid_fftw (ap_gridder env)) kind FFTW_ESTIMATE_FFT n0 n1 = Inr ()"
    and "linspace_documented (ap_linspace env)" and "0 < a_projection_pars.num_timesteps ap" and "length hours = n" and "0 < n"
  shows "\<exists>planes steps. aproj_setup env creator N n os wp cell analytic routine ap hours A = Inr (planes, steps)"
proof -
  let ?g = "ap_gridder env"
  define workarea where "workarea = workarea_size wp N (max_wpconv_support wp)"
  have area: "even workarea" "workarea \<noteq> 0"
    using workarea_size_ok(1,2) [OF assms(1), of wp] by (simp_all add: workarea_def)
  have plan: "make_plan (grid_fftw ?g) kind (if c then FFTW_ESTIMATE_FFT else routine) n0 n1 = Inr ()" for c kind n0 n1
    using plans by simp
  obtain aa where aa: "ImgDomKernel (grid_fftw ?g) creator workarea False analytic routine = Inr aa"
    using assms(6) plan by (simp add: ImgDomKernel_def fft_fftw_dft_r2r_1d_def Let_def del: split_paired_All)
  obtain W where W: "WideFieldImaging (grid_dht_ranges ?g) (grid_dht_mem ?g) workarea (arc_sec_to_rad cell) os (real N / real workarea) wp
      routine = Inr W"
    using area(1) by (simp add: WideFieldImaging_def Let_def)
  define routine' where "routine' = (if workarea * os < 4 then FFTW_ESTIMATE_FFT else routine)"
  have plain: "plain_field workarea routine' W"
    using W assms(2-5) area by (auto simp: WideFieldImaging_def plain_field_def routine'_def Let_def split: if_splits)
  have plans': "make_plan (grid_fftw ?g) kind routine' n0 n1 = Inr ()" for kind n0 n1
    using plans by (simp add: routine'_def)
  obtain min_time max_time where "lha_range hours = (min_time, max_time)"
    by (metis surj_pair)
  from average_lha_planes_spec [OF assms(9,10) assms(11) [symmetric] assms(12) this refl, of "ap_steps_mem env" "good_vis A"]
  obtain lhas steps where lha: "average_lha_planes (ap_linspace env) (ap_steps_mem env) hours (good_vis A)
      (a_projection_pars.num_timesteps ap) = Some (lhas, steps)"
    by blast
  define st where "st = average_w_planes n (\<lambda>i. \<bar>w_values A i\<bar>) (good_vis A) (num_wplanes wp) (wplanes_median wp)"
  obtain planes where "aproj_planes env ap aa (a_kernel env (ap_schedule env 0 0) ap (arc_sec_to_rad cell * real N) workarea 0)
      (arc_sec_to_rad cell * real N) workarea lhas n (num_wplanes wp) st [0..<num_wplanes wp] W = Inr planes"
    using aproj_planes_plain [OF plain a_kernel_cols plans'] by blast
  then show ?thesis
    unfolding aproj_setup_def Let_def workarea_def [symmetric] st_def [symmetric] aa W lha sum.case option.case prod.case by simp
qed

lemma aproj_run_returns:
  assumes "even N" and "1 \<le> os" and "w_enabled wp" and "\<not> hankel_opt wp" and "\<not> kernel_trunc_perc wp > 0" and "\<not> analytic"
    and "max_wpconv_support wp \<noteq> 0" and "2 * max_wpconv_support wp \<le> N"
    and "\<And>kind n0 n1. make_plan (grid_fftw (ap_gridder env)) kind routine n0 n1 = Inr ()"
    and "\<And>kind n0 n1. make_plan (grid_fftw (ap_gridder env)) kind FFTW_ESTIMATE_FFT n0 n1 = Inr ()"
    and "linspace_documented (ap_linspace env)" and "0 < a_projection_pars.num_timesteps ap"
    and "length (sorted_by_w (ap_gridder env) n d) = n" and "0 < n"
  shows "\<exists>out. convolve_to_grid_aproj env beam creator N n d weights False os shift_uv halfplane wp cell analytic routine ap = Inr out"
proof -
  let ?idxs = "sorted_by_w (ap_gridder env) n d" and ?os = "even_oversampling False os"
  have os: "?os \<noteq> 0"
    by (simp add: even_oversampling_def Let_def)
  obtain A fracs where A: "prepare_visibilities True halfplane shift_uv n (int N) (max_wpconv_support wp) ?os (reorder ?idxs d)
      (\<lambda>i. weights (?idxs ! i)) = (A, fracs)"
    by (metis surj_pair)
  obtain planes steps where made: "aproj_setup env creator N n ?os wp cell analytic routine ap (map (\<lambda>i. lha ap ! i) ?idxs) A = Inr (planes, steps)"
    using aproj_setup_returns [OF assms(8,7) os assms(4-6,9-12), of "map (\<lambda>i. lha ap ! i) ?idxs" n] assms(13,14) by (metis length_map)
  have checks: "(\<not> (False \<or> os \<ge> 1) \<or> N mod 2 \<noteq> 0 \<or> False \<or> \<not> w_enabled wp \<or> hankel_opt wp \<or> max_wpconv_support wp = 0) = False"
    using assms by auto
  show ?thesis
    unfolding convolve_to_grid_aproj_def Let_def A prod.case checks if_False made sum.case by blast
qed


section \<open>A run\<close>

definition aproj_demo :: aproj_env where
  "aproj_demo = \<lparr>ap_gridder = gridder_demo, ap_EvalSH = (\<lambda>l m phi theta. 1), ap_linspace = linspace_demo,
     ap_shift = (\<lambda>M n d. M), ap_steps_mem = (\<lambda>i. 7),
     ap_schedule = (\<lambda>pl ts. \<lparr>a_kernel_ranges = [(0, 4)], a_kernel_mem = (\<lambda>i j. 0), product_ranges = ([(0, 2)], [(6, 8)]),
       rotate_ranges = [], rotate_mem = (\<lambda>i j. 0), shift_ranges_1 = (\<lambda>k. ([], [])), shift_ranges_2 = (\<lambda>k. ([], []))\<rparr>)\<rparr>"

definition ap_demo :: a_projection_pars where
  "ap_demo = default_a_proj\<lparr>num_timesteps := 2, lha := [1, 3], pbeam_coefs := [1]\<rparr>"

definition two_vis :: vis_data where
  "two_vis = pixel_coordinates pars_demo (\<lambda>i. (0, 0, 5)) (\<lambda>i. if i = 0 then 1 else \<i>)"

lemma aproj_demo_simps:
  "ap_gridder aproj_demo = gridder_demo" "linspace_documented (ap_linspace aproj_demo)" "a_projection_pars.num_timesteps ap_demo = 2"
  "lha ap_demo = [1, 3]" "grid_fftw gridder_demo = model_fftw" "sorted_by_w gridder_demo n d = [0..<n]"
  by (simp_all add: aproj_demo_def linspace_demo_documented ap_demo_def gridder_demo_def sorted_by_w_def)

lemma aprojection_demo_run:
  "\<exists>out. convolve_to_grid_aproj aproj_demo False (Triangle_creator 1) 8 2 two_vis (\<lambda>i. 3) False 2 True True wp_demo 1 False
     FFTW_ESTIMATE_FFT ap_demo = Inr out"
  by (rule aproj_run_returns) (simp_all add: aproj_demo_simps wp_demo_simps demo_plans)


definition step_term :: "(nat \<Rightarrow> nat) \<Rightarrow> step_plane list \<Rightarrow> nat \<Rightarrow> visibility \<Rightarrow> nat \<Rightarrow> nat \<Rightarrow> complex" where
  "step_term steps planes i q r c =
     (let pl = snd (hd (filter (takes steps i) planes))
      in of_real 3 * sym_term 8 (vis_kernel 2 True (plane_cache pl)) (plane_support pl) q r c)"

theorem gridding_with_aprojection_witness:
  "\<exists>out A fracs planes steps Gs.
     convolve_to_grid_aproj aproj_demo False (Triangle_creator 1) 8 2 two_vis (\<lambda>i. 3) False 2 True True wp_demo 1 False
       FFTW_ESTIMATE_FFT ap_demo = Inr out \<and>
     (A, fracs) = prepare_visibilities True True True 2 8 1 2 (reorder [0, 1] two_vis) (\<lambda>i. 3) \<and>
     aproj_setup aproj_demo (Triangle_creator 1) 8 2 2 wp_demo 1 False FFTW_ESTIMATE_FFT ap_demo [1, 3] A = Inr (planes, steps) \<and>
     length (filter (takes steps 1) planes) = 1 \<and> out = grid_mats 8 5 False 12 Gs \<and>
     fst Gs 1 2 = step_term steps planes 0 (0, 0, 5, 1) 1 2 + step_term steps planes 1 (0, 0, 5, \<i>) 1 2"
proof -
  have idxs: "[0, 1] = [0..<2 :: nat]"
    by (simp add: upt_rec)
  have hours: "map (\<lambda>i. lha ap_demo ! i) [0, 1] = [1, 3]"
    by (simp add: aproj_demo_simps)
  obtain out where run: "convolve_to_grid_aproj aproj_demo False (Triangle_creator 1) 8 2 two_vis (\<lambda>i. 3) False 2 True True wp_demo 1 False
       FFTW_ESTIMATE_FFT ap_demo = Inr out"
    using aprojection_demo_run by blast
  obtain A fracs where A: "(A, fracs) = prepare_visibilities True True True 2 8 1 2 (reorder [0, 1] two_vis) (\<lambda>i. 3)"
    by (metis surj_pair)
  have "\<exists>planes steps. aproj_setup aproj_demo (Triangle_creator 1) 8 2 2 wp_demo 1 False FFTW_ESTIMATE_FFT ap_demo [1, 3] A = Inr (planes, steps)"
    by (rule aproj_setup_returns) (simp_all add: aproj_demo_simps wp_demo_simps demo_plans)
  then obtain planes steps where made:
    "aproj_setup aproj_demo (Triangle_creator 1) 8 2 2 wp_demo 1 False FFTW_ESTIMATE_FFT ap_demo [1, 3] A = Inr (planes, steps)"
    by blast
  define q where "q = vis_of (reorder [0, 1] two_vis)"
  define step_grid where "step_grid q r c = (\<Sum>i \<leftarrow> [0..<2]. if centre_in_bounds (int 8) 1 (q i) then
      let pl = snd (hd (filter (takes steps i) planes))
      in of_real 3 * sym_term (int 8) (vis_kernel 2 True (plane_cache pl)) (plane_support pl) (q i) r c
    else 0)" for q r c
  have q: "q 0 = (0, 0, 5, 1)" "q 1 = (0, 0, 5, \<i>)"
    by (simp_all add: q_def vis_of_def reorder_def two_vis_def pixel_coordinates_def Let_def)
  have rint: "rint 0 = 0"
    by (simp add: rint_def)
  have in_bounds: "centre_in_bounds (int 8) 1 (q i)" if "i < 2" for i
    using that q by (auto simp: less_2_cases_iff centre_in_bounds_def rint)
  have upt: "[0..<2] = [0, Suc 0]"
    by (simp add: upt_rec)
  have q1: "q (Suc 0) = (0, 0, 5, \<i>)"
    using q(2) by simp
  have sum: "2 * (\<Sum>i \<leftarrow> [0..<2]. if centre_in_bounds (int 8) 1 (q i) then 3 else 0) = (12 :: real)"
    using in_bounds [of 0] in_bounds [of 1] by (simp add: upt)
  have grid: "step_grid q 1 2 = step_term steps planes 0 (0, 0, 5, 1) 1 2 + step_term steps planes 1 (0, 0, 5, \<i>) 1 2"
    using in_bounds [of 0] in_bounds [of 1] unfolding step_grid_def upt by (simp add: step_term_def q q1)
  have "(\<forall>i < 2. centre_in_bounds (int 8) 1 (q i) \<longrightarrow> length (filter (takes steps i) planes) = 1) \<and>
    (\<exists>Gs. out = grid_mats (int 8) (int 8 div 2 + 1) False
        (2 * (\<Sum>i \<leftarrow> [0..<2]. if centre_in_bounds (int 8) 1 (q i) then 3 else 0)) Gs \<and>
      (\<forall>r c. int r \<le> int 8 div 2 \<longrightarrow> c < 8 \<longrightarrow>
        fst Gs r c = step_grid q r c \<and> snd Gs r c = (if False then step_grid (unit_vis \<circ> q) r c else 0)))"
    by (rule gridding_with_aprojection [where A = A and fracs = fracs and planes = planes and steps = steps and sorted_idxs = "[0, 1]", OF run])
      (use A made in \<open>simp_all add: aproj_demo_simps wp_demo_simps threads_ok_def demo_oversampling q_def step_grid_def fun_eq_iff
        upt hours cong: if_cong\<close>, simp_all add: gridder_demo_def aproj_demo_simps)
  then have once: "length (filter (takes steps 1) planes) = 1"
    and Gs: "\<exists>Gs. out = grid_mats 8 5 False 12 Gs \<and> fst Gs 1 2 = step_grid q 1 2"
    using in_bounds [of 1] unfolding sum by auto
  from Gs obtain Gs where "out = grid_mats 8 5 False 12 Gs" "fst Gs 1 2 = step_grid q 1 2"
    by blast
  then show ?thesis
    using run A made once unfolding grid by blast
qed

end
