(* ===== verification/Visibility.thy ===== *)
theory Visibility
  imports Convolve
begin

text \<open>
  The simulated visibilities of \<^verbatim>\<open>src/src/stp/visibility/visibility.cpp\<close>. A square root of a negative number
  is an error, \<open>Not_a_number\<close>: the code goes on with it, and every visibility that it touches is not a number.
\<close>

datatype vis_error = Not_a_number | Size_mismatch

definition degree_to_rad :: "real \<Rightarrow> real" where
  "degree_to_rad v = v * pi / 180"

text \<open>The product of a matrix of baselines with the offset of the source; armadillo checks the sizes.\<close>

definition mat_vec :: "real mat \<Rightarrow> real list \<Rightarrow> nat \<Rightarrow> real" where
  "mat_vec M xs i = (\<Sum>k<n_cols M. elt M i k * xs ! k)"

definition visibilities_for_point_source :: "real mat \<Rightarrow> real \<Rightarrow> real \<Rightarrow> real \<Rightarrow> vis_error + complex mat" where
  "visibilities_for_point_source dist_uvw l m flux =
     (if 1 - l * l - m * m < 0 then Inl Not_a_number
      else if n_cols dist_uvw \<noteq> 3 then Inl Size_mismatch
      else
        let src_n = sqrt (1 - l * l - m * m);
            src_offset = map (\<lambda>x. x * -1) [l, m, src_n - 1]
        in Inr \<lparr>n_rows = n_rows dist_uvw, n_cols = 1,
             elt = (\<lambda>i j. of_real (flux * src_n) * exp (Complex 0 (-2 * pi) * of_real (mat_vec dist_uvw src_offset i)))\<rparr>)"

definition add_columns :: "complex mat \<Rightarrow> complex mat \<Rightarrow> complex mat" where
  "add_columns A B = A\<lparr>elt := (\<lambda>i j. elt A i j + elt B i j)\<rparr>"

text \<open>One row of the sky model: the direction of a source and its flux.\<close>

definition add_source :: "real mat \<Rightarrow> real mat \<Rightarrow> nat \<Rightarrow> vis_error + complex mat \<Rightarrow> vis_error + complex mat" where
  "add_source uvw_baselines skymodel r acc =
     (case acc of
        Inl e \<Rightarrow> Inl e
      | Inr model_vis \<Rightarrow>
          (case visibilities_for_point_source uvw_baselines (elt skymodel r 0) (elt skymodel r 1) (elt skymodel r 2) of
             Inl e \<Rightarrow> Inl e
           | Inr V \<Rightarrow> Inr (add_columns model_vis V)))"

definition generate_visibilities_from_local_skymodel :: "real mat \<Rightarrow> real mat \<Rightarrow> vis_error + complex mat" where
  "generate_visibilities_from_local_skymodel skymodel uvw_baselines =
     fold (add_source uvw_baselines skymodel) [0..<n_rows skymodel]
       (Inr \<lparr>n_rows = n_rows uvw_baselines, n_cols = 1, elt = (\<lambda>i j. 0)\<rparr>)"

section \<open>The measurement equation\<close>

text \<open>The visibility of a source at direction \<open>(l, m)\<close> on the baseline \<open>(u, v, w)\<close>.\<close>

definition response :: "real \<Rightarrow> real \<Rightarrow> real \<Rightarrow> real \<times> real \<times> real \<Rightarrow> complex" where
  "response l m flux = (\<lambda>(u, v, w).
     (let n = sqrt (1 - l\<^sup>2 - m\<^sup>2) in of_real (flux * n) * cis (2 * pi * (u * l + v * m + w * (n - 1)))))"

definition baseline :: "real mat \<Rightarrow> nat \<Rightarrow> real \<times> real \<times> real" where
  "baseline B i = (elt B i 0, elt B i 1, elt B i 2)"

definition sky_visibility :: "real mat \<Rightarrow> real mat \<Rightarrow> nat \<Rightarrow> complex" where
  "sky_visibility S B i = (\<Sum>r<n_rows S. response (elt S r 0) (elt S r 1) (elt S r 2) (baseline B i))"

lemma point_source_value:
  assumes "l\<^sup>2 + m\<^sup>2 \<le> 1" and "n_cols B = 3"
  shows "visibilities_for_point_source B l m flux =
    Inr \<lparr>n_rows = n_rows B, n_cols = 1, elt = (\<lambda>i j. response l m flux (baseline B i))\<rparr>"
proof -
  let ?n = "sqrt (1 - l * l - m * m)"
  have three: "(\<Sum>k<3. f k) = f 0 + f 1 + f 2" for f :: "nat \<Rightarrow> real"
    by (simp add: eval_nat_numeral)
  have "mat_vec B (map (\<lambda>x. x * -1) [l, m, ?n - 1]) i = - (elt B i 0 * l + elt B i 1 * m + elt B i 2 * (?n - 1))" for i
    unfolding mat_vec_def assms(2) three by (simp add: algebra_simps)
  moreover have phase: "exp (Complex 0 (-2 * pi) * of_real (- x)) = cis (2 * pi * x)" for x
  proof -
    have "Complex 0 (-2 * pi) * of_real (- x) = \<i> * of_real (2 * pi * x)"
      by (simp add: complex_eq_iff)
    then show ?thesis
      by (simp only: cis_conv_exp)
  qed
  ultimately have "exp (Complex 0 (-2 * pi) * of_real (mat_vec B (map (\<lambda>x. x * -1) [l, m, ?n - 1]) i)) =
      cis (2 * pi * (elt B i 0 * l + elt B i 1 * m + elt B i 2 * (?n - 1)))" for i
    by metis
  then show ?thesis
    using assms by (simp add: visibilities_for_point_source_def response_def baseline_def power2_eq_square Let_def)
qed

lemma skymodel_value:
  assumes "\<forall>r < n_rows S. (elt S r 0)\<^sup>2 + (elt S r 1)\<^sup>2 \<le> 1" and "n_cols B = 3"
  shows "generate_visibilities_from_local_skymodel S B =
    Inr \<lparr>n_rows = n_rows B, n_cols = 1, elt = (\<lambda>i j. sky_visibility S B i)\<rparr>"
proof -
  have "fold (add_source B S) [0..<k] (Inr \<lparr>n_rows = n_rows B, n_cols = 1, elt = (\<lambda>i j. 0)\<rparr>) =
      Inr \<lparr>n_rows = n_rows B, n_cols = 1, elt = (\<lambda>i j. \<Sum>r<k. response (elt S r 0) (elt S r 1) (elt S r 2) (baseline B i))\<rparr>"
    if "k \<le> n_rows S" for k
    using that
  proof (induction k)
    case (Suc k)
    have "(elt S k 0)\<^sup>2 + (elt S k 1)\<^sup>2 \<le> 1"
      using assms(1) Suc.prems by simp
    from point_source_value [OF this assms(2)] show ?case
      using Suc by (simp add: add_source_def add_columns_def)
  qed simp
  then show ?thesis
    by (simp add: generate_visibilities_from_local_skymodel_def sky_visibility_def)
qed

text \<open>The opposite baseline has the conjugate visibility, which the gridder relies on.\<close>

definition opposite_baselines :: "real mat \<Rightarrow> real mat" where
  "opposite_baselines B = B\<lparr>elt := (\<lambda>i j. - elt B i j)\<rparr>"

lemma response_opposite: "response l m flux (- u, - v, - w) = cnj (response l m flux (u, v, w))"
  by (simp add: response_def Let_def cis_cnj algebra_simps)

lemma sky_visibility_opposite: "sky_visibility S (opposite_baselines B) i = cnj (sky_visibility S B i)"
  by (simp add: sky_visibility_def baseline_def opposite_baselines_def response_opposite)

text \<open>
  C39. The model visibilities satisfy the measurement equation: on every baseline they are the sum over all sources of
  the sky model, and the opposite baseline has the conjugate visibility, as the conjugates that the gridder adds have it.
\<close>

theorem model_visibilities:
  assumes "\<forall>r < n_rows S. (elt S r 0)\<^sup>2 + (elt S r 1)\<^sup>2 \<le> 1" and "n_cols B = 3"
  shows "\<exists>V V'. generate_visibilities_from_local_skymodel S B = Inr V \<and>
    generate_visibilities_from_local_skymodel S (opposite_baselines B) = Inr V' \<and> n_rows V = n_rows B \<and>
    (\<forall>i < n_rows B. elt V i 0 = sky_visibility S B i \<and>
      (case baseline B i of (u, v, w) \<Rightarrow> case baseline (opposite_baselines B) i of (u', v', w') \<Rightarrow>
         (u', v', w', elt V' i 0) = conjugate_vis (u, v, w, elt V i 0)))"
proof -
  have "n_cols (opposite_baselines B) = 3"
    using assms(2) by (simp add: opposite_baselines_def)
  from skymodel_value [OF assms(1) this] skymodel_value [OF assms] show ?thesis
    by (simp add: sky_visibility_opposite conjugate_vis_def baseline_def) (simp add: opposite_baselines_def)
qed

definition sky_demo :: "real mat" where
  "sky_demo = mat_of_rows [[0, 0, 2], [3 / 5, 0, 5]]"

definition baselines_demo :: "real mat" where
  "baselines_demo = mat_of_rows [[0, 0, 0], [1, 2, 5]]"

theorem model_visibilities_witness:
  "\<exists>V. generate_visibilities_from_local_skymodel sky_demo baselines_demo = Inr V \<and> elt V 0 0 = 6 \<and>
    elt V 1 0 = 2 + 4 * cis (2 * pi * (- 2 / 5))"
proof -
  have sizes: "n_rows sky_demo = 2" "n_cols baselines_demo = 3" "n_rows baselines_demo = 2"
    by (simp_all add: sky_demo_def baselines_demo_def mat_of_rows_def)
  have two: "(\<Sum>r<2. f r) = f 0 + f 1" for f :: "nat \<Rightarrow> complex"
    by (simp add: eval_nat_numeral)
  have root: "sqrt (1 - (3 / 5)\<^sup>2) = 4 / 5"
    by (rule real_sqrt_unique) (simp_all add: power2_eq_square)
  have "\<forall>r < n_rows sky_demo. (elt sky_demo r 0)\<^sup>2 + (elt sky_demo r 1)\<^sup>2 \<le> 1"
    unfolding sizes less_2_cases_iff by (auto simp: sky_demo_def mat_of_rows_def power2_eq_square)
  from model_visibilities [OF this sizes(2)] obtain V where V: "generate_visibilities_from_local_skymodel sky_demo baselines_demo = Inr V"
    "elt V 0 0 = sky_visibility sky_demo baselines_demo 0" "elt V 1 0 = sky_visibility sky_demo baselines_demo 1"
    unfolding sizes by auto
  have "sky_visibility sky_demo baselines_demo 0 = 6"
    "sky_visibility sky_demo baselines_demo 1 = 2 + 4 * cis (2 * pi * (- 2 / 5))"
    unfolding sky_visibility_def sizes two
    by (simp_all add: sky_demo_def baselines_demo_def mat_of_rows_def baseline_def response_def root Let_def algebra_simps)
  then show ?thesis
    using V by auto
qed

end
