(* ===== verification/Matstp.thy ===== *)
theory Matstp
  imports Main "HOL-Library.Word"
begin

unbundle bit_operations_syntax

text \<open>
  The memory of the matrices that start with zeros (\<^verbatim>\<open>src/src/stp/common/matstp.h\<close>): the buffers of
  \<^verbatim>\<open>ZeroMemAlloc\<close>, who owns them, and the aligned place in them that \<^verbatim>\<open>MatStp\<close> hands to
  armadillo. Pointers are words of 64 bits, and \<open>0\<close> is the null pointer. \<^verbatim>\<open>std::calloc\<close> is a parameter.
\<close>

type_synonym pointer = "64 word"

definition CACHE_LINE_SIZE :: nat where
  "CACHE_LINE_SIZE = 64"

section \<open>Alignment\<close>

text \<open>\<^verbatim>\<open>std::align\<close> of the C++ library: \<open>None\<close> is a null pointer for lack of space.\<close>

definition std_align :: "nat \<Rightarrow> nat \<Rightarrow> pointer \<Rightarrow> nat \<Rightarrow> pointer option" where
  "std_align alignment size_T p space =
     (if space < size_T then None
      else
        let aligned = (p - 1 + of_nat alignment) AND - of_nat alignment;
            diff = unat (aligned - p)
        in if diff > space - size_T then None else Some aligned)"

record zero_mem =
  mem_ptr :: pointer
  num_elems :: nat

definition ZeroMemAlloc :: "(nat \<Rightarrow> nat \<Rightarrow> pointer) \<Rightarrow> nat \<Rightarrow> nat \<Rightarrow> zero_mem" where
  "ZeroMemAlloc calloc size_T count_elems = \<lparr>mem_ptr = calloc count_elems size_T, num_elems = count_elems\<rparr>"

definition aligned_mem_ptr :: "nat \<Rightarrow> zero_mem \<Rightarrow> pointer option" where
  "aligned_mem_ptr size_T b = std_align CACHE_LINE_SIZE size_T (mem_ptr b) (num_elems b)"

text \<open>A matrix: its buffer, and what armadillo is told about its elements.\<close>

record mat_stp =
  buffer :: zero_mem
  arma_mem :: "pointer option"
  arma_rows :: nat
  arma_cols :: nat

definition MatStp :: "(nat \<Rightarrow> nat \<Rightarrow> pointer) \<Rightarrow> nat \<Rightarrow> nat \<Rightarrow> nat \<Rightarrow> mat_stp" where
  "MatStp calloc size_T rows cols =
     (let b = ZeroMemAlloc calloc size_T (rows * cols + CACHE_LINE_SIZE)
      in \<lparr>buffer = b, arma_mem = aligned_mem_ptr size_T b, arma_rows = rows, arma_cols = cols\<rparr>)"

text \<open>What is relied on: a result that is not null is aligned for every type, and its elements lie in the address space.\<close>

definition calloc_documented :: "(nat \<Rightarrow> nat \<Rightarrow> pointer) \<Rightarrow> bool" where
  "calloc_documented calloc \<longleftrightarrow>
     (\<forall>n s. calloc n s \<noteq> 0 \<longrightarrow> 16 dvd unat (calloc n s) \<and> unat (calloc n s) + n * s \<le> 2 ^ 64)"

lemma and_not_mask: "x AND NOT (mask n) = push_bit n (drop_bit n (x :: 'a::len word))"
  by (rule bit_word_eqI) (auto simp: bit_simps)

lemma and_minus_64:
  fixes x :: pointer
  shows "unat (x AND - 64) = unat x div 64 * 64"
proof -
  have "x AND - 64 = push_bit 6 (drop_bit 6 x)"
  proof -
    have "- 64 = (NOT (mask 6) :: pointer)"
      by (simp add: mask_eq_exp_minus_1 not_eq_complement)
    then show ?thesis
      by (simp only: and_not_mask)
  qed
  then have "unat (x AND - 64) = take_bit 64 (push_bit 6 (drop_bit 6 (unat x)))"
    using unsigned_less [of x, where 'a = nat] by (simp add: unsigned_push_bit_eq unsigned_drop_bit_eq take_bit_nat_eq_self)
  also have "\<dots> = unat x div 64 * 64"
  proof -
    have "unat x div 64 * 64 \<le> unat x"
      by simp
    also have "\<dots> < 2 ^ 64"
      using unsigned_less [of x, where 'a = nat] by simp
    finally show ?thesis
      by (simp add: push_bit_eq_mult drop_bit_eq_div take_bit_eq_mod)
  qed
  finally show ?thesis .
qed

text \<open>
  C37. The elements of a matrix lie in its buffer, at the next address that is a multiple of a cache line, for all sizes and
  all types of at most 16 bytes: the elements that are allocated besides them are enough for the alignment.
\<close>

theorem elements_in_buffer:
  assumes "calloc_documented calloc" and "0 < size_T" and "size_T \<le> 16"
    and "M = MatStp calloc size_T rows cols" and "mem_ptr (buffer M) \<noteq> 0"
  shows "\<exists>a. arma_mem M = Some a \<and> CACHE_LINE_SIZE dvd unat a \<and> unat (mem_ptr (buffer M)) \<le> unat a \<and>
    unat a < unat (mem_ptr (buffer M)) + CACHE_LINE_SIZE \<and>
    unat a + arma_rows M * arma_cols M * size_T \<le> unat (mem_ptr (buffer M)) + num_elems (buffer M) * size_T"
proof -
  let ?n = "rows * cols + 64"
  define p where "p = mem_ptr (buffer M)"
  have p: "p = calloc ?n size_T" and M: "num_elems (buffer M) = ?n" "arma_rows M = rows" "arma_cols M = cols"
    "arma_mem M = std_align 64 size_T p ?n"
    by (simp_all add: p_def assms(4) MatStp_def ZeroMemAlloc_def aligned_mem_ptr_def CACHE_LINE_SIZE_def Let_def)
  have doc: "16 dvd unat p" "unat p + ?n * size_T \<le> 2 ^ 64"
    using assms(1,5) p unfolding calloc_documented_def p_def by metis+
  have room: "rows * cols * size_T + 64 * size_T = ?n * size_T"
    by (simp add: algebra_simps)
  define q where "q = (unat p + 63) div 64 * 64"
  have q: "unat p \<le> q" "q \<le> unat p + 48" "64 dvd q"
  proof -
    obtain k where k: "unat p = 16 * k"
      using doc(1) by blast
    define d r where "d = (unat p + 63) div 64" and "r = (unat p + 63) mod 64"
    have "16 * k + 63 = 64 * d + r" "r < 64" "q = 64 * d"
      unfolding d_def r_def q_def k by simp_all
    then show "unat p \<le> q" "q \<le> unat p + 48" "64 dvd q"
      unfolding k by presburger+
  qed
  have "unat p + 64 * 1 \<le> unat p + ?n * size_T"
    unfolding room [symmetric] using assms(2) by simp
  then have "unat p + 63 < 2 ^ 64"
    using doc(2) by linarith
  moreover have "unat p + 63 = unat p - 1 + 64" "0 < unat p"
    using assms(5) by (simp_all add: p_def unat_gt_0)
  ultimately have sum: "unat (p - 1 + 64) = unat p + 63"
    using unat_add_lem [of "p - 1" 64] assms(5) by (simp add: p_def unat_minus_one)
  define a where "a = (p - 1 + 64) AND - 64"
  have a: "unat a = q"
    by (simp only: a_def and_minus_64 sum q_def)
  have "unat (a - p) = q - unat p"
    using q(1) a by (simp add: unat_sub word_le_nat_alt)
  then have "arma_mem M = Some a"
    using q(2) assms(3) unfolding M std_align_def Let_def a_def by simp
  moreover have "unat a + rows * cols * size_T \<le> unat p + ?n * size_T"
  proof -
    have "48 \<le> 64 * size_T"
      using assms(2) by simp
    then show ?thesis
      using q(2) unfolding a room [symmetric] by linarith
  qed
  ultimately show ?thesis
    using q unfolding M p_def [symmetric] CACHE_LINE_SIZE_def by (intro exI [of _ a]) (simp add: a)
qed

definition calloc_demo :: "nat \<Rightarrow> nat \<Rightarrow> pointer" where
  "calloc_demo n s = (if 4112 + n * s \<le> 2 ^ 64 then 4112 else 0)"

theorem elements_in_buffer_witness:
  "arma_mem (MatStp calloc_demo 16 3 5) = Some 4160 \<and> CACHE_LINE_SIZE dvd 4160 \<and> 4160 + 3 * 5 * 16 \<le> (4112 :: nat) + (3 * 5 + 64) * 16"
proof -
  define M where "M = MatStp calloc_demo 16 3 5"
  have M: "unat (mem_ptr (buffer M)) = 4112" "mem_ptr (buffer M) \<noteq> 0" "num_elems (buffer M) = 79" "arma_rows M * arma_cols M = 15"
    by (simp_all add: M_def MatStp_def ZeroMemAlloc_def calloc_demo_def CACHE_LINE_SIZE_def Let_def)
  have "calloc_documented calloc_demo"
    by (auto simp: calloc_documented_def calloc_demo_def)
  from elements_in_buffer [OF this _ _ M_def M(2)] obtain a where a: "arma_mem M = Some a" "64 dvd unat a" "4112 \<le> unat a" "unat a < 4176"
    unfolding M CACHE_LINE_SIZE_def by auto
  then have "unat a = 4160"
    by presburger
  then have "a = 4160"
    by (simp add: word_unat_eq_iff)
  then show ?thesis
    using a(1) by (simp add: M_def CACHE_LINE_SIZE_def)
qed

section \<open>Ownership\<close>

text \<open>
  The objects of a program by name, and the buffers that are allocated. A \<^verbatim>\<open>std::unique_ptr\<close> frees its buffer
  when it is destroyed, reset or assigned to, and a move leaves a null pointer behind (and the number of elements).
\<close>

record mem_state =
  objects :: "nat \<Rightarrow> zero_mem option"
  allocated :: "pointer set"

datatype mem_op =
  Construct nat nat
| Move_construct nat nat
| Move_assign nat nat
| Reset_buffer nat
| Destroy nat

datatype mem_error = No_such_object | Double_free

definition free_buffer :: "pointer \<Rightarrow> mem_state \<Rightarrow> mem_error + mem_state" where
  "free_buffer p st =
     (if p = 0 then Inr st
      else if p \<in> allocated st then Inr (st\<lparr>allocated := allocated st - {p}\<rparr>)
      else Inl Double_free)"

definition put_object :: "nat \<Rightarrow> zero_mem option \<Rightarrow> mem_state \<Rightarrow> mem_state" where
  "put_object i z st = st\<lparr>objects := (objects st)(i := z)\<rparr>"

definition freed_object :: "mem_error + mem_state \<Rightarrow> nat \<Rightarrow> zero_mem option \<Rightarrow> mem_error + mem_state" where
  "freed_object r i z = (case r of Inl e \<Rightarrow> Inl e | Inr st \<Rightarrow> Inr (put_object i z st))"

text \<open>\<open>alloc\<close> is \<^verbatim>\<open>std::calloc\<close> of so many elements when the given buffers are allocated.\<close>

fun mem_step :: "(pointer set \<Rightarrow> nat \<Rightarrow> pointer) \<Rightarrow> mem_op \<Rightarrow> mem_state \<Rightarrow> mem_error + mem_state" where
  "mem_step alloc (Construct i n) st =
     (case objects st i of
        Some z \<Rightarrow> Inl No_such_object
      | None \<Rightarrow>
          let p = alloc (allocated st) n
          in Inr (put_object i (Some \<lparr>mem_ptr = p, num_elems = n\<rparr>) (st\<lparr>allocated := allocated st \<union> ({p} - {0})\<rparr>)))"
| "mem_step alloc (Move_construct i j) st =
     (case (objects st i, objects st j) of
        (None, Some z) \<Rightarrow> Inr (put_object i (Some z) (put_object j (Some (z\<lparr>mem_ptr := 0\<rparr>)) st))
      | _ \<Rightarrow> Inl No_such_object)"
| "mem_step alloc (Move_assign i j) st =
     (case (objects st i, objects st j) of
        (Some y, Some z) \<Rightarrow>
          if i = j then Inr st
          else freed_object (free_buffer (mem_ptr y) (put_object j (Some (z\<lparr>mem_ptr := 0\<rparr>)) st)) i (Some z)
      | _ \<Rightarrow> Inl No_such_object)"
| "mem_step alloc (Reset_buffer i) st =
     (case objects st i of None \<Rightarrow> Inl No_such_object | Some y \<Rightarrow> freed_object (free_buffer (mem_ptr y) st) i (Some (y\<lparr>mem_ptr := 0\<rparr>)))"
| "mem_step alloc (Destroy i) st =
     (case objects st i of None \<Rightarrow> Inl No_such_object | Some y \<Rightarrow> freed_object (free_buffer (mem_ptr y) st) i None)"

inductive mem_reachable :: "(pointer set \<Rightarrow> nat \<Rightarrow> pointer) \<Rightarrow> mem_state \<Rightarrow> bool" for alloc where
  start: "mem_reachable alloc \<lparr>objects = (\<lambda>i. None), allocated = {}\<rparr>"
| step: "mem_reachable alloc st \<Longrightarrow> mem_step alloc opn st = Inr st' \<Longrightarrow> mem_reachable alloc st'"

text \<open>The buffer of an object; every allocated buffer has exactly one owner.\<close>

definition owns :: "mem_state \<Rightarrow> nat \<Rightarrow> pointer \<Rightarrow> bool" where
  "owns st i p \<longleftrightarrow> p \<noteq> 0 \<and> (\<exists>z. objects st i = Some z \<and> mem_ptr z = p)"

definition one_owner :: "mem_state \<Rightarrow> bool" where
  "one_owner st \<longleftrightarrow> (\<forall>p. p \<in> allocated st \<longleftrightarrow> (\<exists>i. owns st i p)) \<and> (\<forall>i j p. owns st i p \<longrightarrow> owns st j p \<longrightarrow> i = j)"

definition alloc_documented :: "(pointer set \<Rightarrow> nat \<Rightarrow> pointer) \<Rightarrow> bool" where
  "alloc_documented alloc \<longleftrightarrow> (\<forall>L n. alloc L n = 0 \<or> alloc L n \<notin> L)"

lemma put_object_simps [simp]:
  "objects (put_object i z st) k = (if k = i then z else objects st k)"
  "allocated (put_object i z st) = allocated st"
  by (simp_all add: put_object_def)

lemma owns_put [simp]: "owns (put_object i z st) k p = (if k = i then p \<noteq> 0 \<and> (\<exists>y. z = Some y \<and> mem_ptr y = p) else owns st k p)"
  by (auto simp: owns_def)

lemma owns_allocated [simp]: "owns (st\<lparr>allocated := L\<rparr>) k p = owns st k p"
  by (simp add: owns_def)

text \<open>The buffer of an object is freed at most once, and the object that is put in its place does not own it.\<close>

lemma free_owned:
  assumes "one_owner st" and "objects st i = Some y"
  shows "\<exists>st1. free_buffer (mem_ptr y) st = Inr st1 \<and> objects st1 = objects st \<and> allocated st1 = allocated st - {mem_ptr y}"
proof (cases "mem_ptr y = 0")
  case True
  then have "mem_ptr y \<notin> allocated st"
    using assms(1) by (auto simp: one_owner_def owns_def)
  then show ?thesis
    using True by (simp add: free_buffer_def)
next
  case False
  then have "owns st i (mem_ptr y)"
    using assms(2) by (simp add: owns_def)
  then have "mem_ptr y \<in> allocated st"
    using assms(1) by (auto simp: one_owner_def)
  then show ?thesis
    using False by (simp add: free_buffer_def)
qed

lemma one_owner_drop:
  assumes "one_owner st" and "objects st i = Some y" and "z = None \<or> (\<exists>x. z = Some x \<and> mem_ptr x = 0)"
    and "objects st1 = (objects st)(i := z)" and "allocated st1 = allocated st - {mem_ptr y}"
  shows "one_owner st1"
proof -
  have owns: "owns st1 k p \<longleftrightarrow> k \<noteq> i \<and> owns st k p" for k p
    using assms(3,4) by (auto simp: owns_def)
  have y: "owns st i p \<longleftrightarrow> p \<noteq> 0 \<and> p = mem_ptr y" for p
    using assms(2) by (auto simp: owns_def)
  have "0 \<notin> allocated st"
    using assms(1) by (auto simp: one_owner_def owns_def)
  then show ?thesis
    using assms(1,5) y unfolding one_owner_def owns by (metis DiffE DiffI singletonD singletonI)
qed

lemma one_owner_move:
  assumes "one_owner st" and "objects st j = Some z" and "i \<noteq> j" and "objects st i = None \<or> (\<exists>y. objects st i = Some y \<and> mem_ptr y = 0)"
    and "objects st1 = (objects st)(j := Some (z\<lparr>mem_ptr := 0\<rparr>), i := Some z)" and "allocated st1 = allocated st"
  shows "one_owner st1"
proof -
  define f where "f k = (if k = i then j else if k = j then i else k)" for k
  have f: "f (f k) = k" for k
    by (simp add: f_def)
  have "\<not> owns st i p" for p
    using assms(4) by (auto simp: owns_def)
  then have owns: "owns st1 k p \<longleftrightarrow> owns st (f k) p" for k p
    using assms(2,3,5) by (auto simp: owns_def f_def)
  show ?thesis
    using assms(1) f unfolding one_owner_def owns assms(6) by metis
qed

lemma one_owner_new:
  assumes "one_owner st" and "objects st i = None" and "p \<notin> allocated st"
    and "objects st1 = (objects st)(i := Some z)" and "mem_ptr z = p" and "allocated st1 = allocated st \<union> ({p} - {0})"
  shows "one_owner st1"
proof -
  have owns: "owns st1 k q \<longleftrightarrow> (if k = i then q \<noteq> 0 \<and> q = p else owns st k q)" for k q
    using assms(4,5) by (auto simp: owns_def)
  have none: "\<not> owns st i q" "\<not> owns st k p" "\<not> owns st k 0" for k q
    using assms(1-3) by (auto simp: owns_def one_owner_def)
  have alive: "q \<in> allocated st \<longleftrightarrow> (\<exists>k. owns st k q)" for q
    using assms(1) by (simp add: one_owner_def)
  have unique: "owns st k q \<Longrightarrow> owns st l q \<Longrightarrow> k = l" for k l q
    using assms(1) by (simp add: one_owner_def)
  have "q \<in> allocated st1 \<longleftrightarrow> (\<exists>k. owns st1 k q)" for q
    unfolding owns assms(6) using alive none by (cases "q = p") (auto, metis)
  moreover have "k = l" if "owns st1 k q" "owns st1 l q" for k l q
    using that none unique unfolding owns by (auto split: if_splits)
  ultimately show ?thesis
    by (simp add: one_owner_def)
qed

text \<open>Every operation keeps one owner for every buffer, and frees only buffers that are allocated.\<close>

lemma mem_step_owners:
  assumes alloc: "alloc_documented alloc" and inv: "one_owner st"
  shows "mem_step alloc opn st \<noteq> Inl Double_free" and "mem_step alloc opn st = Inr st' \<Longrightarrow> one_owner st'"
proof -
  have "mem_step alloc opn st \<noteq> Inl Double_free \<and> (\<forall>st'. mem_step alloc opn st = Inr st' \<longrightarrow> one_owner st')"
  proof (cases opn)
    case (Construct i n)
    have "0 \<notin> allocated st"
      using inv by (auto simp: one_owner_def owns_def)
    then have "alloc (allocated st) n \<notin> allocated st"
      using alloc by (metis alloc_documented_def)
    then show ?thesis
      using one_owner_new [OF inv, of i] by (auto simp: Construct Let_def put_object_def split: option.split)
  next
    case (Move_construct i j)
    have "i \<noteq> j" if "objects st i = None" "objects st j = Some z" for z
      using that by auto
    then show ?thesis
      using one_owner_move [OF inv, of j _ i] by (auto simp: Move_construct put_object_def split: option.split)
  next
    case (Move_assign i j)
    show ?thesis
    proof (cases "\<exists>y z. objects st i = Some y \<and> objects st j = Some z \<and> i \<noteq> j")
      case True
      then obtain y z where yz: "objects st i = Some y" "objects st j = Some z" "i \<noteq> j"
        by blast
      obtain st1 where st1: "free_buffer (mem_ptr y) st = Inr st1" "objects st1 = objects st" "allocated st1 = allocated st - {mem_ptr y}"
        using free_owned [OF inv yz(1)] by blast
      define st2 where "st2 = st1\<lparr>objects := (objects st)(i := None)\<rparr>"
      have "one_owner st2"
        by (rule one_owner_drop [OF inv yz(1), where z = None]) (simp_all add: st2_def st1(3))
      then have "one_owner (put_object i (Some z) (put_object j (Some (z\<lparr>mem_ptr := 0\<rparr>)) st1))"
        by (rule one_owner_move [where j = j and z = z and i = i])
          (use yz in \<open>simp_all add: st2_def st1(2) put_object_def\<close>)
      moreover have "free_buffer (mem_ptr y) (put_object j x st) = Inr (put_object j x st1)" for x
        using st1 by (auto simp: free_buffer_def put_object_def split: if_splits)
      ultimately show ?thesis
        using yz by (simp add: Move_assign freed_object_def)
    next
      case False
      then show ?thesis
        using inv by (auto simp: Move_assign split: option.split)
    qed
  next
    case (Reset_buffer i)
    have "one_owner st1" if "objects st i = Some y" "objects st1 = (objects st)(i := Some (y\<lparr>mem_ptr := 0\<rparr>))"
      "allocated st1 = allocated st - {mem_ptr y}" for y st1
      using one_owner_drop [OF inv that(1) _ that(2,3)] by simp
    then show ?thesis
      using free_owned [OF inv, of i] by (auto simp: Reset_buffer freed_object_def put_object_def
        split: option.split)
  next
    case (Destroy i)
    then show ?thesis
      using free_owned [OF inv, of i] one_owner_drop [OF inv, of i _ None]
      by (auto simp: freed_object_def put_object_def split: option.split)
  qed
  then show "mem_step alloc opn st \<noteq> Inl Double_free" "mem_step alloc opn st = Inr st' \<Longrightarrow> one_owner st'"
    by blast+
qed

lemma reachable_owners: "mem_reachable alloc st \<Longrightarrow> alloc_documented alloc \<Longrightarrow> one_owner st"
proof (induction rule: mem_reachable.induct)
  case start
  then show ?case
    by (simp add: one_owner_def owns_def)
next
  case (step st opn st')
  then show ?case
    using mem_step_owners(2) by blast
qed

text \<open>
  C38. However a program constructs, moves, assigns, resets and destroys its matrices, no buffer is freed twice, every
  allocated buffer belongs to exactly one of them, and none is left when all are destroyed.
\<close>

theorem buffers_freed_once:
  assumes "alloc_documented alloc" and "mem_reachable alloc st"
  shows "mem_step alloc opn st \<noteq> Inl Double_free \<and> (\<forall>p \<in> allocated st. \<exists>!i. owns st i p) \<and>
    ((\<forall>i. objects st i = None) \<longrightarrow> allocated st = {})"
proof -
  have inv: "one_owner st"
    by (rule reachable_owners [OF assms(2,1)])
  then show ?thesis
    using mem_step_owners(1) [OF assms(1) inv] by (auto simp: one_owner_def) (auto simp: owns_def)
qed

definition alloc_demo :: "pointer set \<Rightarrow> nat \<Rightarrow> pointer" where
  "alloc_demo L n = (if 16 \<notin> L then 16 else 0)"

text \<open>A matrix is made and moved; then the old object is reset, and the new one destroyed.\<close>

theorem buffers_freed_once_witness:
  "mem_step alloc_demo (Reset_buffer 0)
     \<lparr>objects = [0 \<mapsto> \<lparr>mem_ptr = 0, num_elems = 5\<rparr>, 1 \<mapsto> \<lparr>mem_ptr = 16, num_elems = 5\<rparr>], allocated = {16}\<rparr> \<noteq> Inl Double_free"
proof -
  let ?s1 = "\<lparr>objects = [0 \<mapsto> \<lparr>mem_ptr = 16, num_elems = 5\<rparr>], allocated = {16}\<rparr>"
  let ?s2 = "\<lparr>objects = [0 \<mapsto> \<lparr>mem_ptr = 0, num_elems = 5\<rparr>, 1 \<mapsto> \<lparr>mem_ptr = 16, num_elems = 5\<rparr>], allocated = {16}\<rparr>"
  have "mem_step alloc_demo (Construct 0 5) \<lparr>objects = (\<lambda>i. None), allocated = {}\<rparr> = Inr ?s1"
    by (simp add: alloc_demo_def put_object_def Let_def)
  from mem_reachable.step [OF mem_reachable.start this] have "mem_reachable alloc_demo ?s1" .
  moreover have "mem_step alloc_demo (Move_construct 1 0) ?s1 = Inr ?s2"
    by (simp add: put_object_def fun_eq_iff)
  ultimately have reach: "mem_reachable alloc_demo ?s2"
    by (rule mem_reachable.step)
  have "alloc_documented alloc_demo"
    by (auto simp: alloc_documented_def alloc_demo_def)
  from buffers_freed_once [OF this reach] show ?thesis
    by blast
qed

end
