(* ===== verification/Config.thy ===== *)
theory Config
  imports Stp_Types
begin

text \<open>
  The configuration file (\<^verbatim>\<open>src/src/auxiliary/load_json_config.h\<close> and \<^verbatim>\<open>.cpp\<close>) and
  the sizes that the executables make of it (\<^verbatim>\<open>src/src/reduce/common_functions.cpp\<close>). RapidJSON is a
  parameter: a record of the functions of its values that the code calls, where \<open>None\<close> is a failed assertion
  about the type of the value. A failed assertion of the code is \<open>None\<close> too.
\<close>

section \<open>The values of RapidJSON\<close>

record 'v rapidjson =
  is_object :: "'v \<Rightarrow> bool"
  find_member :: "'v \<Rightarrow> string \<Rightarrow> 'v option"
  get_uint :: "'v \<Rightarrow> nat option"
  get_int :: "'v \<Rightarrow> int option"
  get_double :: "'v \<Rightarrow> real option"
  get_bool :: "'v \<Rightarrow> bool option"
  get_string :: "'v \<Rightarrow> string option"
  get_array :: "'v \<Rightarrow> 'v list option"

section \<open>Names of the enumerations\<close>

definition parse_kernel_function :: "string \<Rightarrow> kernel_function option" where
  "parse_kernel_function s =
     (if s = ''TopHat'' then Some TopHat else if s = ''Triangle'' then Some Triangle else if s = ''Sinc'' then Some Sinc
      else if s = ''Gaussian'' then Some Gaussian else if s = ''GaussianSinc'' then Some GaussianSinc
      else if s = ''PSWF'' then Some PSWF else None)"

definition parse_fft_routine :: "string \<Rightarrow> fft_routine option" where
  "parse_fft_routine s =
     (if s = ''FFTW_ESTIMATE_FFT'' then Some FFTW_ESTIMATE_FFT else if s = ''FFTW_MEASURE_FFT'' then Some FFTW_MEASURE_FFT
      else if s = ''FFTW_PATIENT_FFT'' then Some FFTW_PATIENT_FFT else if s = ''FFTW_WISDOM_FFT'' then Some FFTW_WISDOM_FFT
      else if s = ''FFTW_WISDOM_INPLACE_FFT'' then Some FFTW_WISDOM_INPLACE_FFT else None)"

definition parse_interp_type :: "string \<Rightarrow> interp_type option" where
  "parse_interp_type s =
     (if s = ''linear'' then Some LINEAR else if s = ''cosine'' then Some COSINE else if s = ''cubic'' then Some CUBIC else None)"

definition parse_median_method :: "string \<Rightarrow> median_method option" where
  "parse_median_method s =
     (if s = ''ZEROMEDIAN'' then Some ZEROMEDIAN else if s = ''BINMEDIAN'' then Some BINMEDIAN
      else if s = ''BINAPPROX'' then Some BINAPPROX else if s = ''NTHELEMENT'' then Some NTHELEMENT else None)"

definition parse_ceres_diffmethod :: "string \<Rightarrow> ceres_diff_method option" where
  "parse_ceres_diffmethod s =
     (if s = ''AutoDiff'' then Some AutoDiff else if s = ''AutoDiff_SingleResBlk'' then Some AutoDiff_SingleResBlk
      else if s = ''AnalyticDiff'' then Some AnalyticDiff
      else if s = ''AnalyticDiff_SingleResBlk'' then Some AnalyticDiff_SingleResBlk else None)"

definition parse_ceres_solvertype :: "string \<Rightarrow> ceres_solver_type option" where
  "parse_ceres_solvertype s =
     (if s = ''LinearSearch_BFGS'' then Some LinearSearch_BFGS else if s = ''LinearSearch_LBFGS'' then Some LinearSearch_LBFGS
      else if s = ''TrustRegion_DenseQR'' then Some TrustRegion_DenseQR else None)"

section \<open>The configuration\<close>

record configuration =
  img_pars :: imager_pars
  w_proj :: w_projection_pars
  a_proj :: a_projection_pars
  s_kernel_function :: string
  s_fft_routine :: string
  s_interp_type :: string
  detection_n_sigma :: real
  analysis_n_sigma :: real
  find_negative_sources :: bool
  estimate_rms_value :: real
  sigma_clip_iters :: int
  s_median_method :: string
  cfg_median_method :: median_method
  gaussian_fitting :: bool
  ccl_4connectivity :: bool
  generate_labelmap :: bool
  s_ceres_diffmethod :: string
  s_ceres_solvertype :: string
  cfg_ceres_diffmethod :: ceres_diff_method
  cfg_ceres_solvertype :: ceres_solver_type
  source_min_area :: int

definition default_configuration :: configuration where
  "default_configuration =
     \<lparr>img_pars = default_imager_pars, w_proj = default_w_proj, a_proj = default_a_proj,
      s_kernel_function = ''PSWF'', s_fft_routine = ''FFTW_ESTIMATE_FFT'', s_interp_type = ''linear'',
      detection_n_sigma = 0, analysis_n_sigma = 0, find_negative_sources = True, estimate_rms_value = 0, sigma_clip_iters = 5,
      s_median_method = ''BINMEDIAN'', cfg_median_method = BINMEDIAN, gaussian_fitting = True, ccl_4connectivity = False,
      generate_labelmap = False, s_ceres_diffmethod = ''AutoDiff_SingleResBlk'', s_ceres_solvertype = ''LinearSearch_BFGS'',
      cfg_ceres_diffmethod = AutoDiff_SingleResBlk, cfg_ceres_solvertype = LinearSearch_BFGS, source_min_area = 5\<rparr>"

text \<open>One member of a section: if it is there, it is read and stored.\<close>

definition setting ::
  "'v rapidjson \<Rightarrow> 'v \<Rightarrow> string \<Rightarrow> ('v \<Rightarrow> 'x option) \<Rightarrow> ('x \<Rightarrow> configuration \<Rightarrow> configuration) \<Rightarrow> configuration \<Rightarrow> configuration option"
where
  "setting rj sec name get store cfg =
     (case find_member rj sec name of None \<Rightarrow> Some cfg | Some v \<Rightarrow> map_option (\<lambda>x. store x cfg) (get v))"

definition named :: "'v rapidjson \<Rightarrow> (string \<Rightarrow> 'e option) \<Rightarrow> 'v \<Rightarrow> (string \<times> 'e) option" where
  "named rj parse v = Option.bind (get_string rj v) (\<lambda>s. map_option (\<lambda>e. (s, e)) (parse s))"

text \<open>An array is read element by element.\<close>

fun doubles :: "'v rapidjson \<Rightarrow> 'v list \<Rightarrow> real list option" where
  "doubles rj [] = Some []"
| "doubles rj (v # vs) = Option.bind (get_double rj v) (\<lambda>x. map_option ((#) x) (doubles rj vs))"

definition run_settings :: "(configuration \<Rightarrow> configuration option) list \<Rightarrow> configuration \<Rightarrow> configuration option" where
  "run_settings steps cfg = fold (\<lambda>f m. Option.bind m f) steps (Some cfg)"

definition load_section ::
  "'v rapidjson \<Rightarrow> 'v \<Rightarrow> string \<Rightarrow> ('v \<Rightarrow> (configuration \<Rightarrow> configuration option) list) \<Rightarrow> configuration \<Rightarrow> configuration option"
where
  "load_section rj document name steps cfg =
     (case find_member rj document name of None \<Rightarrow> Some cfg
      | Some sec \<Rightarrow> if is_object rj sec then run_settings (steps sec) cfg else None)"

text \<open>Without padding factor the padded size is the image size.\<close>

definition padding_setting :: "'v rapidjson \<Rightarrow> 'v \<Rightarrow> configuration \<Rightarrow> configuration option" where
  "padding_setting rj sec cfg =
     (case find_member rj sec ''padding_factor'' of
        None \<Rightarrow> Some (cfg\<lparr>img_pars := (img_pars cfg)\<lparr>padded_image_size := image_size (img_pars cfg)\<rparr>\<rparr>)
      | Some v \<Rightarrow> map_option (\<lambda>x. cfg\<lparr>img_pars := (img_pars cfg)\<lparr>padding_factor := x,
          padded_image_size := nat \<lfloor>real (image_size (img_pars cfg)) * x\<rfloor>\<rparr>\<rparr>) (get_double rj v))"

definition imager_settings :: "'v rapidjson \<Rightarrow> 'v \<Rightarrow> (configuration \<Rightarrow> configuration option) list" where
  "imager_settings rj sec =
     [setting rj sec ''image_size_pix'' (get_uint rj) (\<lambda>x. img_pars_update (image_size_update (\<lambda>_. x))),
      setting rj sec ''cell_size_arcsec'' (get_double rj) (\<lambda>x. img_pars_update (cell_size_update (\<lambda>_. x))),
      padding_setting rj sec,
      setting rj sec ''kernel_function'' (named rj parse_kernel_function)
        (\<lambda>(s, k). img_pars_update (kernel_func_update (\<lambda>_. k)) \<circ> s_kernel_function_update (\<lambda>_. s)),
      setting rj sec ''kernel_support'' (get_uint rj) (\<lambda>x. img_pars_update (kernel_support_update (\<lambda>_. x))),
      setting rj sec ''kernel_exact'' (get_bool rj) (\<lambda>x. img_pars_update (kernel_exact_update (\<lambda>_. x))),
      setting rj sec ''oversampling'' (get_uint rj) (\<lambda>x. img_pars_update (oversampling_update (\<lambda>_. x))),
      setting rj sec ''generate_beam'' (get_bool rj) (\<lambda>x. img_pars_update (generate_beam_update (\<lambda>_. x))),
      setting rj sec ''gridding_correction'' (get_bool rj) (\<lambda>x. img_pars_update (gridding_correction_update (\<lambda>_. x))),
      setting rj sec ''analytic_gcf'' (get_bool rj) (\<lambda>x. img_pars_update (analytic_gcf_update (\<lambda>_. x))),
      setting rj sec ''fft_routine'' (named rj parse_fft_routine)
        (\<lambda>(s, k). img_pars_update (r_fft_update (\<lambda>_. k)) \<circ> s_fft_routine_update (\<lambda>_. s)),
      setting rj sec ''fft_wisdom_filename'' (get_string rj) (\<lambda>x. img_pars_update (fft_wisdom_filename_update (\<lambda>_. x)))]"

definition wprojection_settings :: "'v rapidjson \<Rightarrow> 'v \<Rightarrow> (configuration \<Rightarrow> configuration option) list" where
  "wprojection_settings rj sec =
     [setting rj sec ''num_wplanes'' (get_uint rj) (\<lambda>x. w_proj_update (num_wplanes_update (\<lambda>_. x))),
      setting rj sec ''max_wpconv_support'' (get_uint rj) (\<lambda>x. w_proj_update (max_wpconv_support_update (\<lambda>_. x))),
      setting rj sec ''undersampling_opt'' (get_uint rj) (\<lambda>x. w_proj_update (undersampling_opt_update (\<lambda>_. x))),
      setting rj sec ''kernel_trunc_perc'' (get_double rj) (\<lambda>x. w_proj_update (kernel_trunc_perc_update (\<lambda>_. x))),
      setting rj sec ''hankel_opt'' (get_bool rj) (\<lambda>x. w_proj_update (hankel_opt_update (\<lambda>_. x))),
      setting rj sec ''hankel_proj_slice'' (get_bool rj) (\<lambda>x. w_proj_update (hankel_proj_slice_update (\<lambda>_. x))),
      setting rj sec ''interp_type'' (named rj parse_interp_type)
        (\<lambda>(s, k). w_proj_update (w_interp_type_update (\<lambda>_. k)) \<circ> s_interp_type_update (\<lambda>_. s)),
      setting rj sec ''wplanes_median'' (get_bool rj) (\<lambda>x. w_proj_update (wplanes_median_update (\<lambda>_. x)))]"

definition aprojection_settings :: "'v rapidjson \<Rightarrow> 'v \<Rightarrow> (configuration \<Rightarrow> configuration option) list" where
  "aprojection_settings rj sec =
     [setting rj sec ''aproj_numtimesteps'' (get_uint rj) (\<lambda>x. a_proj_update (num_timesteps_update (\<lambda>_. x))),
      setting rj sec ''obs_dec'' (get_double rj) (\<lambda>x. a_proj_update (obs_dec_update (\<lambda>_. x))),
      setting rj sec ''obs_ra'' (get_double rj) (\<lambda>x. a_proj_update (obs_ra_update (\<lambda>_. x))),
      setting rj sec ''pbeam_coefs'' (\<lambda>v. Option.bind (get_array rj v) (doubles rj)) (\<lambda>xs. a_proj_update (pbeam_coefs_update (\<lambda>_. xs))),
      setting rj sec ''aproj_opt'' (get_bool rj) (\<lambda>x. a_proj_update (aproj_opt_update (\<lambda>_. x))),
      setting rj sec ''aproj_mask_perc'' (get_double rj) (\<lambda>x. a_proj_update (aproj_mask_perc_update (\<lambda>_. x)))]"

definition sourcefind_settings :: "'v rapidjson \<Rightarrow> 'v \<Rightarrow> (configuration \<Rightarrow> configuration option) list" where
  "sourcefind_settings rj sec =
     [setting rj sec ''sourcefind_detection'' (get_double rj) (\<lambda>x. detection_n_sigma_update (\<lambda>_. x)),
      setting rj sec ''sourcefind_analysis'' (get_double rj) (\<lambda>x. analysis_n_sigma_update (\<lambda>_. x)),
      setting rj sec ''find_negative_sources'' (get_bool rj) (\<lambda>x. find_negative_sources_update (\<lambda>_. x)),
      setting rj sec ''rms_estimation'' (get_double rj) (\<lambda>x. estimate_rms_value_update (\<lambda>_. x)),
      setting rj sec ''sigma_clip_iters'' (get_int rj) (\<lambda>x. sigma_clip_iters_update (\<lambda>_. x)),
      setting rj sec ''median_method'' (named rj parse_median_method)
        (\<lambda>(s, k). cfg_median_method_update (\<lambda>_. k) \<circ> s_median_method_update (\<lambda>_. s)),
      setting rj sec ''gaussian_fitting'' (get_bool rj) (\<lambda>x. gaussian_fitting_update (\<lambda>_. x)),
      setting rj sec ''ccl_4connectivity'' (get_bool rj) (\<lambda>x. ccl_4connectivity_update (\<lambda>_. x)),
      setting rj sec ''generate_labelmap'' (get_bool rj) (\<lambda>x. generate_labelmap_update (\<lambda>_. x)),
      setting rj sec ''source_min_area'' (get_int rj) (\<lambda>x. source_min_area_update (\<lambda>_. x)),
      setting rj sec ''ceres_diffmethod'' (named rj parse_ceres_diffmethod)
        (\<lambda>(s, k). cfg_ceres_diffmethod_update (\<lambda>_. k) \<circ> s_ceres_diffmethod_update (\<lambda>_. s)),
      setting rj sec ''ceres_solvertype'' (named rj parse_ceres_solvertype)
        (\<lambda>(s, k). cfg_ceres_solvertype_update (\<lambda>_. k) \<circ> s_ceres_solvertype_update (\<lambda>_. s))]"

definition load_document :: "'v rapidjson \<Rightarrow> 'v \<Rightarrow> configuration option" where
  "load_document rj document =
     (if is_object rj document then
        run_settings
          [load_section rj document ''imager_settings'' (imager_settings rj),
           load_section rj document ''wprojection_settings'' (wprojection_settings rj),
           load_section rj document ''aprojection_settings'' (aprojection_settings rj),
           load_section rj document ''sourcefind_settings'' (sourcefind_settings rj)]
          default_configuration
      else None)"

text \<open>The file is read as a string; \<open>parse\<close> is the parser of RapidJSON.\<close>

datatype config_error = Failed_to_read | Config_assertion

definition ConfigurationFile :: "'v rapidjson \<Rightarrow> (string \<Rightarrow> 'v) \<Rightarrow> string \<Rightarrow> config_error + configuration" where
  "ConfigurationFile rj parse contents =
     (if contents = [] then Inl Failed_to_read
      else case load_document rj (parse contents) of None \<Rightarrow> Inl Config_assertion | Some cfg \<Rightarrow> Inr cfg)"

section \<open>Sizes\<close>

function next_multiple_4 :: "nat \<Rightarrow> nat" where
  "next_multiple_4 x = (if x mod 4 \<noteq> 0 then next_multiple_4 (x + 1) else x)"
  by pat_completeness auto
termination
  by (relation "measure (\<lambda>x. (4 - x mod 4) mod 4)") (auto simp: mod_Suc)

declare next_multiple_4.simps [simp del]

definition set_image_sizes :: "imager_pars \<Rightarrow> imager_pars" where
  "set_image_sizes pars =
     (let size = next_multiple_4 (image_size pars)
      in pars\<lparr>image_size := size, padded_image_size := next_multiple_4 (nat \<lfloor>real size * padding_factor pars\<rfloor>)\<rparr>)"

section \<open>Documents\<close>

text \<open>A type of JSON documents with the functions that the code calls.\<close>

datatype json =
  JObject "(string \<times> json) list" | JArray "json list" | JUint nat | JInt int | JDouble real | JBool bool | JString string

definition json_rj :: "json rapidjson" where
  "json_rj =
     \<lparr>is_object = (\<lambda>v. case v of JObject ms \<Rightarrow> True | _ \<Rightarrow> False),
      find_member = (\<lambda>v name. case v of JObject ms \<Rightarrow> map_of ms name | _ \<Rightarrow> None),
      get_uint = (\<lambda>v. case v of JUint n \<Rightarrow> Some n | _ \<Rightarrow> None),
      get_int = (\<lambda>v. case v of JInt n \<Rightarrow> Some n | JUint n \<Rightarrow> Some (int n) | _ \<Rightarrow> None),
      get_double = (\<lambda>v. case v of JDouble x \<Rightarrow> Some x | JUint n \<Rightarrow> Some (real n) | JInt n \<Rightarrow> Some (of_int n) | _ \<Rightarrow> None),
      get_bool = (\<lambda>v. case v of JBool b \<Rightarrow> Some b | _ \<Rightarrow> None),
      get_string = (\<lambda>v. case v of JString s \<Rightarrow> Some s | _ \<Rightarrow> None),
      get_array = (\<lambda>v. case v of JArray vs \<Rightarrow> Some vs | _ \<Rightarrow> None)\<rparr>"

lemma json_rj_simps [simp]:
  "is_object json_rj (JObject ms)"
  "find_member json_rj (JObject ms) name = map_of ms name"
  "get_uint json_rj (JUint n) = Some n"
  "get_int json_rj (JInt i) = Some i"
  "get_double json_rj (JDouble x) = Some x"
  "get_bool json_rj (JBool b) = Some b"
  "get_string json_rj (JString s) = Some s"
  "get_array json_rj (JArray vs) = Some vs"
  by (simp_all add: json_rj_def)

fun kernel_name :: "kernel_function \<Rightarrow> string" where
  "kernel_name TopHat = ''TopHat''"
| "kernel_name Triangle = ''Triangle''"
| "kernel_name Sinc = ''Sinc''"
| "kernel_name Gaussian = ''Gaussian''"
| "kernel_name GaussianSinc = ''GaussianSinc''"
| "kernel_name PSWF = ''PSWF''"

fun fft_name :: "fft_routine \<Rightarrow> string" where
  "fft_name FFTW_ESTIMATE_FFT = ''FFTW_ESTIMATE_FFT''"
| "fft_name FFTW_MEASURE_FFT = ''FFTW_MEASURE_FFT''"
| "fft_name FFTW_PATIENT_FFT = ''FFTW_PATIENT_FFT''"
| "fft_name FFTW_WISDOM_FFT = ''FFTW_WISDOM_FFT''"
| "fft_name FFTW_WISDOM_INPLACE_FFT = ''FFTW_WISDOM_INPLACE_FFT''"

fun interp_name :: "interp_type \<Rightarrow> string" where
  "interp_name LINEAR = ''linear''"
| "interp_name COSINE = ''cosine''"
| "interp_name CUBIC = ''cubic''"

fun median_name :: "median_method \<Rightarrow> string" where
  "median_name ZEROMEDIAN = ''ZEROMEDIAN''"
| "median_name BINMEDIAN = ''BINMEDIAN''"
| "median_name BINAPPROX = ''BINAPPROX''"
| "median_name NTHELEMENT = ''NTHELEMENT''"

fun diff_name :: "ceres_diff_method \<Rightarrow> string" where
  "diff_name AutoDiff = ''AutoDiff''"
| "diff_name AutoDiff_SingleResBlk = ''AutoDiff_SingleResBlk''"
| "diff_name AnalyticDiff = ''AnalyticDiff''"
| "diff_name AnalyticDiff_SingleResBlk = ''AnalyticDiff_SingleResBlk''"

fun solver_name :: "ceres_solver_type \<Rightarrow> string" where
  "solver_name LinearSearch_BFGS = ''LinearSearch_BFGS''"
| "solver_name LinearSearch_LBFGS = ''LinearSearch_LBFGS''"
| "solver_name TrustRegion_DenseQR = ''TrustRegion_DenseQR''"

text \<open>A string names a constant only if it is the name of that constant; every other string fails the assertion.\<close>

lemma parse_names:
  "parse_kernel_function s = Some k \<longleftrightarrow> s = kernel_name k"
  "parse_fft_routine s = Some r \<longleftrightarrow> s = fft_name r"
  "parse_interp_type s = Some i \<longleftrightarrow> s = interp_name i"
  "parse_median_method s = Some m \<longleftrightarrow> s = median_name m"
  "parse_ceres_diffmethod s = Some d \<longleftrightarrow> s = diff_name d"
  "parse_ceres_solvertype s = Some v \<longleftrightarrow> s = solver_name v"
  subgoal by (cases k) (auto simp: parse_kernel_function_def)
  subgoal by (cases r) (auto simp: parse_fft_routine_def)
  subgoal by (cases i) (auto simp: parse_interp_type_def)
  subgoal by (cases m) (auto simp: parse_median_method_def)
  subgoal by (cases d) (auto simp: parse_ceres_diffmethod_def)
  subgoal by (cases v) (auto simp: parse_ceres_solvertype_def)
  done

lemma named_json: "parse s = Some e \<Longrightarrow> named json_rj parse (JString s) = Some (s, e)"
  by (simp add: named_def)

lemma doubles_json: "doubles json_rj (map JDouble xs) = Some xs"
  by (induction xs) simp_all

text \<open>The document with every member of a configuration.\<close>

definition imager_members :: "configuration \<Rightarrow> (string \<times> json) list" where
  "imager_members c = (let p = img_pars c in
     [(''image_size_pix'', JUint (image_size p)), (''cell_size_arcsec'', JDouble (cell_size p)),
      (''padding_factor'', JDouble (padding_factor p)), (''kernel_function'', JString (kernel_name (kernel_func p))),
      (''kernel_support'', JUint (kernel_support p)), (''kernel_exact'', JBool (kernel_exact p)),
      (''oversampling'', JUint (oversampling p)), (''generate_beam'', JBool (generate_beam p)),
      (''gridding_correction'', JBool (gridding_correction p)), (''analytic_gcf'', JBool (analytic_gcf p)),
      (''fft_routine'', JString (fft_name (r_fft p))), (''fft_wisdom_filename'', JString (fft_wisdom_filename p))])"

definition wprojection_members :: "configuration \<Rightarrow> (string \<times> json) list" where
  "wprojection_members c = (let p = w_proj c in
     [(''num_wplanes'', JUint (num_wplanes p)), (''max_wpconv_support'', JUint (max_wpconv_support p)),
      (''undersampling_opt'', JUint (undersampling_opt p)), (''kernel_trunc_perc'', JDouble (kernel_trunc_perc p)),
      (''hankel_opt'', JBool (hankel_opt p)), (''hankel_proj_slice'', JBool (hankel_proj_slice p)),
      (''interp_type'', JString (interp_name (w_interp_type p))), (''wplanes_median'', JBool (wplanes_median p))])"

definition aprojection_members :: "configuration \<Rightarrow> (string \<times> json) list" where
  "aprojection_members c = (let p = a_proj c in
     [(''aproj_numtimesteps'', JUint (num_timesteps p)), (''obs_dec'', JDouble (obs_dec p)), (''obs_ra'', JDouble (obs_ra p)),
      (''pbeam_coefs'', JArray (map JDouble (pbeam_coefs p))), (''aproj_opt'', JBool (aproj_opt p)),
      (''aproj_mask_perc'', JDouble (aproj_mask_perc p))])"

definition sourcefind_members :: "configuration \<Rightarrow> (string \<times> json) list" where
  "sourcefind_members c =
     [(''sourcefind_detection'', JDouble (detection_n_sigma c)), (''sourcefind_analysis'', JDouble (analysis_n_sigma c)),
      (''find_negative_sources'', JBool (find_negative_sources c)), (''rms_estimation'', JDouble (estimate_rms_value c)),
      (''sigma_clip_iters'', JInt (sigma_clip_iters c)), (''median_method'', JString (median_name (cfg_median_method c))),
      (''gaussian_fitting'', JBool (gaussian_fitting c)), (''ccl_4connectivity'', JBool (ccl_4connectivity c)),
      (''generate_labelmap'', JBool (generate_labelmap c)), (''source_min_area'', JInt (source_min_area c)),
      (''ceres_diffmethod'', JString (diff_name (cfg_ceres_diffmethod c))),
      (''ceres_solvertype'', JString (solver_name (cfg_ceres_solvertype c)))]"

definition document_of :: "configuration \<Rightarrow> json" where
  "document_of c = JObject
     [(''imager_settings'', JObject (imager_members c)), (''wprojection_settings'', JObject (wprojection_members c)),
      (''aprojection_settings'', JObject (aprojection_members c)), (''sourcefind_settings'', JObject (sourcefind_members c))]"

text \<open>The configurations of documents: the strings are the names, and the padded size is that of the factor.\<close>

definition consistent :: "configuration \<Rightarrow> bool" where
  "consistent c \<longleftrightarrow>
     s_kernel_function c = kernel_name (kernel_func (img_pars c)) \<and> s_fft_routine c = fft_name (r_fft (img_pars c)) \<and>
     s_interp_type c = interp_name (w_interp_type (w_proj c)) \<and> s_median_method c = median_name (cfg_median_method c) \<and>
     s_ceres_diffmethod c = diff_name (cfg_ceres_diffmethod c) \<and> s_ceres_solvertype c = solver_name (cfg_ceres_solvertype c) \<and>
     padded_image_size (img_pars c) = nat \<lfloor>real (image_size (img_pars c)) * padding_factor (img_pars c)\<rfloor> \<and> lha (a_proj c) = []"

lemma run_settings_simps [simp]:
  "run_settings [] c = Some c"
  "run_settings (f # fs) c = Option.bind (f c) (run_settings fs)"
proof -
  have "fold (\<lambda>f m. Option.bind m f) fs None = None" for fs :: "(configuration \<Rightarrow> configuration option) list"
    by (induction fs) simp_all
  then show "run_settings [] c = Some c" "run_settings (f # fs) c = Option.bind (f c) (run_settings fs)"
    by (simp_all add: run_settings_def split: bind_split)
qed

lemma setting_found: "find_member rj sec name = Some v \<Longrightarrow> get v = Some x \<Longrightarrow> setting rj sec name get store c = Some (store x c)"
  by (simp add: setting_def)

lemma imager_section:
  assumes "padded_image_size (img_pars c) = nat \<lfloor>real (image_size (img_pars c)) * padding_factor (img_pars c)\<rfloor>"
  shows "run_settings (imager_settings json_rj (JObject (imager_members c))) c0 = Some (c0\<lparr>img_pars := img_pars c,
    s_kernel_function := kernel_name (kernel_func (img_pars c)), s_fft_routine := fft_name (r_fft (img_pars c))\<rparr>)"
  using assms
  by (simp add: imager_settings_def imager_members_def setting_def padding_setting_def named_json parse_names Let_def)

lemma wprojection_section:
  "run_settings (wprojection_settings json_rj (JObject (wprojection_members c))) c0 =
    Some (c0\<lparr>w_proj := w_proj c, s_interp_type := interp_name (w_interp_type (w_proj c))\<rparr>)"
  by (simp add: wprojection_settings_def wprojection_members_def setting_def named_json parse_names Let_def)

lemma aprojection_section:
  "run_settings (aprojection_settings json_rj (JObject (aprojection_members c))) c0 =
    Some (c0\<lparr>a_proj := (a_proj c)\<lparr>lha := lha (a_proj c0)\<rparr>\<rparr>)"
  by (simp add: aprojection_settings_def aprojection_members_def setting_def doubles_json Let_def)

lemma sourcefind_section:
  "run_settings (sourcefind_settings json_rj (JObject (sourcefind_members c))) c0 =
    Some (c\<lparr>img_pars := img_pars c0, w_proj := w_proj c0, a_proj := a_proj c0, s_kernel_function := s_kernel_function c0,
      s_fft_routine := s_fft_routine c0, s_interp_type := s_interp_type c0, s_median_method := median_name (cfg_median_method c),
      s_ceres_diffmethod := diff_name (cfg_ceres_diffmethod c), s_ceres_solvertype := solver_name (cfg_ceres_solvertype c)\<rparr>)"
  by (simp add: sourcefind_settings_def sourcefind_members_def setting_def named_json parse_names Let_def)

text \<open>
  C40. A configuration is read back from the document that has all its members: every member is stored in its field, in its own
  section only, the padded size is the product with the padding factor, and the names of the enumerations are read as them.
\<close>

theorem configuration_roundtrip:
  assumes "consistent c"
  shows "load_document json_rj (document_of c) = Some c"
  using assms
  by (simp add: load_document_def load_section_def document_of_def imager_section wprojection_section aprojection_section sourcefind_section
      consistent_def default_configuration_def default_a_proj_def)

definition config_demo :: configuration where
  "config_demo = default_configuration
     \<lparr>img_pars := make_imager_pars 100 (1 / 2) (3 / 2) Triangle 3 False 9 True True False FFTW_MEASURE_FFT ''wisdom'',
      a_proj := default_a_proj\<lparr>num_timesteps := 2, pbeam_coefs := [1, 1 / 2]\<rparr>,
      s_kernel_function := ''Triangle'', s_fft_routine := ''FFTW_MEASURE_FFT'', sigma_clip_iters := 7\<rparr>"

theorem configuration_roundtrip_witness:
  "consistent config_demo \<and> load_document json_rj (document_of config_demo) = Some config_demo"
proof -
  have "consistent config_demo"
    by (simp add: consistent_def config_demo_def default_configuration_def default_w_proj_def default_a_proj_def make_imager_pars_def)
  then show ?thesis
    using configuration_roundtrip by blast
qed

section \<open>The sizes of the imager\<close>

lemma next_multiple_4_spec: "4 dvd next_multiple_4 x \<and> x \<le> next_multiple_4 x \<and> next_multiple_4 x < x + 4"
proof (induction x rule: next_multiple_4.induct)
  case (1 x)
  show ?case
  proof (cases "x mod 4 = 0")
    case True
    then have "next_multiple_4 x = x"
      by (subst next_multiple_4.simps) simp
    then show ?thesis
      using True by (simp add: dvd_eq_mod_eq_0)
  next
    case False
    then have eq: "next_multiple_4 x = next_multiple_4 (x + 1)"
      by (subst next_multiple_4.simps) simp
    have IH: "4 dvd next_multiple_4 (x + 1)" "x + 1 \<le> next_multiple_4 (x + 1)" "next_multiple_4 (x + 1) < x + 5"
      using 1 False by simp_all
    have "next_multiple_4 (x + 1) \<noteq> x + 4"
    proof
      assume "next_multiple_4 (x + 1) = x + 4"
      then have "4 dvd x"
        using IH(1) by simp
      then show False
        using False by (simp add: dvd_eq_mod_eq_0)
    qed
    then show ?thesis
      using IH unfolding eq by linarith
  qed
qed

text \<open>
  The executables round the image size up to the next multiple of four, and the padded size too: it is the next multiple of
  four from the truncated product with the padding factor on, and not smaller than the image.
\<close>

theorem image_sizes_multiple_of_4:
  assumes "1 \<le> padding_factor pars" and "p = set_image_sizes pars"
  shows "4 dvd image_size p \<and> image_size pars \<le> image_size p \<and> image_size p < image_size pars + 4 \<and>
    4 dvd padded_image_size p \<and> image_size p \<le> padded_image_size p \<and>
    real (padded_image_size p) < real (image_size p) * padding_factor pars + 4 \<and>
    real (image_size p) * padding_factor pars < real (padded_image_size p) + 1"
proof -
  define size where "size = next_multiple_4 (image_size pars)"
  define product where "product = nat \<lfloor>real size * padding_factor pars\<rfloor>"
  have p: "image_size p = size" "padded_image_size p = next_multiple_4 product"
    by (simp_all add: assms(2) set_image_sizes_def Let_def size_def product_def)
  have "real size * 1 \<le> real size * padding_factor pars"
    by (rule mult_left_mono) (use assms(1) in simp_all)
  then have product: "size \<le> product" "real product \<le> real size * padding_factor pars" "real size * padding_factor pars < real product + 1"
    unfolding product_def by linarith+
  show ?thesis
    using next_multiple_4_spec [of "image_size pars"] next_multiple_4_spec [of product] product
    unfolding p size_def [symmetric] by linarith
qed

theorem image_sizes_multiple_of_4_witness:
  "set_image_sizes (default_imager_pars\<lparr>image_size := 10, padding_factor := 3 / 2\<rparr>) =
    default_imager_pars\<lparr>image_size := 12, padding_factor := 3 / 2, padded_image_size := 20\<rparr>"
proof -
  define p where "p = set_image_sizes (default_imager_pars\<lparr>image_size := 10, padding_factor := 3 / 2\<rparr>)"
  have sizes: "4 dvd image_size p" "10 \<le> image_size p" "image_size p < 14" "4 dvd padded_image_size p"
    "real (padded_image_size p) < real (image_size p) * (3 / 2) + 4" "real (image_size p) * (3 / 2) < real (padded_image_size p) + 1"
    using image_sizes_multiple_of_4 [of "default_imager_pars\<lparr>image_size := 10, padding_factor := 3 / 2\<rparr>" p] by (simp_all add: p_def)
  then have size: "image_size p = 12"
    by presburger
  then have "17 < padded_image_size p" "padded_image_size p < 22"
    using sizes(5,6) by simp_all
  then have "padded_image_size p = 20"
    using sizes(4) by presburger
  with size show ?thesis
    by (simp add: p_def set_image_sizes_def Let_def)
qed

text \<open>The imager asserts more: that the padded size is a power of two.\<close>

lemma sizes_not_powers: "\<not> ispowerof2 (word_of_nat (padded_image_size (set_image_sizes (default_imager_pars\<lparr>image_size := 12\<rparr>))))"
  by (simp add: set_image_sizes_def default_imager_pars_def next_multiple_4.simps ispowerof2_def)

end
