(* ===== verification/Spec2Isabelle.thy ===== *)
theory Spec2Isabelle
  imports Ccl_Capacity Source_Find Aproj_Run Visibility Matstp Config
begin

text \<open>
  FastImaging (STP): a verification development for the imaging and source finding library under
  \<^verbatim>\<open>src/src/stp\<close>, and for the configuration of its executables.

  \<^bold>\<open>The program.\<close> The library has two entry points. \<^verbatim>\<open>ImageVisibilities\<close>
  (\<^verbatim>\<open>imager/imager.h\<close>) makes an image and a beam of radio visibilities: it scales the coordinates to pixels,
  grids the visibilities with convolution kernels (\<^verbatim>\<open>convolve_to_grid\<close> of \<^verbatim>\<open>gridder/gridder.h\<close>, with
  the kernels of \<^verbatim>\<open>convolution/conv_func.h\<close>, or the wide-field kernels of \<^verbatim>\<open>gridder/aw_projection.cpp\<close>), transforms
  the grids with FFTW (\<^verbatim>\<open>common/fft.cpp\<close>) and divides by the total weight and the kernel in the image domain.
  \<^verbatim>\<open>SourceFindImage\<close> (\<^verbatim>\<open>sourcefind/sourcefind.cpp\<close>) finds the sources of an image: background (the
  medians of \<^verbatim>\<open>common/matrix_math.cpp\<close>), noise (\<^verbatim>\<open>estimate_rms\<close>), connected component labelling
  (\<^verbatim>\<open>common/ccl.h\<close>), detection with the moments of the islands, and the fit of a Gaussian with Ceres
  (\<^verbatim>\<open>sourcefind/fitting.h\<close>). Nearly all loops run in parallel on Intel TBB.

  \<^bold>\<open>Foundations.\<close> \<^verbatim>\<open>Prelude\<close>: the record \<open>mat\<close> of an armadillo matrix, equivalence closures, and shared list
  lemmas. \<^verbatim>\<open>Tbb\<close>: what is relied on of TBB; a schedule is a list of subranges that cover the range once, in any
  order. \<^verbatim>\<open>Reduction\<close> and \<^verbatim>\<open>Shared_Loop\<close>: the locales \<open>reduction\<close>, \<open>sum_reduction\<close> and
  \<open>shared_loop\<close>, which say once what a parallel reduction and a parallel loop over shared memory compute, for all
  schedules; the components interpret them on their loop bodies. \<^verbatim>\<open>Float_Bits\<close>: the comparison of doubles through
  their bits (\<open>FloatTwiddler\<close>), on words of 64 bits. \<^verbatim>\<open>Stp_Types\<close>: the enumerations, settings and macros of
  \<^verbatim>\<open>types.h\<close> and \<^verbatim>\<open>global_macros.h\<close>. \<^verbatim>\<open>Matstp\<close>: the buffers of \<^verbatim>\<open>common/matstp.h\<close>, with an
  inductive relation of the reachable memory states, and the alignment of their elements.

  \<^bold>\<open>Labelling.\<close> \<^verbatim>\<open>Union_Find\<close>: the label equivalence array (\<open>find_root\<close>, \<open>set_root\<close>,
  \<open>set_union\<close>), an array of indices that is a forest; the recursion of \<open>find_root\<close> ends because labels fall.
  \<^verbatim>\<open>Labelling\<close>: the locale \<open>equivalence_table\<close> between a scan and such an array, interpreted by it.
  \<^verbatim>\<open>Ccl\<close>: \<open>labeling_8con\<close> and \<open>labeling_4con\<close>, slices, borders and the analysis of the labels.
  \<^verbatim>\<open>Ccl_View\<close>, \<^verbatim>\<open>Ccl_Scan\<close>, \<^verbatim>\<open>Ccl_Loops\<close>: the scan seen through one sign, its invariant, and the
  locale \<open>ccl_steps\<close>, the contract between the loops and the steps of one pixel; \<^verbatim>\<open>Ccl_Con4\<close> and
  \<^verbatim>\<open>Ccl_Con8\<close> interpret it for both connectivities. \<^verbatim>\<open>Ccl_Analysis\<close>: the renumbering, also by the source
  finder. \<^verbatim>\<open>Ccl_Correct\<close>, \<^verbatim>\<open>Ccl_Correct8\<close>: final labels are the connected components, for all slices, under the
  hypothesis \<open>labels_fit\<close> that no slice runs out of labels, with the images on which the code departs from that;
  \<^verbatim>\<open>Ccl_Capacity\<close> gives images that meet the hypothesis.

  \<^bold>\<open>Source finding.\<close> \<^verbatim>\<open>Statistics\<close>, \<^verbatim>\<open>Median\<close>, \<^verbatim>\<open>Binapprox\<close>, \<^verbatim>\<open>Binmedian\<close>: sums, deviations and the
  three medians of \<^verbatim>\<open>matrix_math.cpp\<close> (\<^verbatim>\<open>std::nth_element\<close> is the locale \<open>nth_selector\<close>); the loop of
  the successive binning is a \<open>partial_function\<close>, and the theorem on it says that it ends. \<^verbatim>\<open>Estimate_Rms\<close>:
  sigma clipping, refined by a specification on sets of elements. \<^verbatim>\<open>Detection\<close>, \<^verbatim>\<open>Detection_Loops\<close>,
  \<^verbatim>\<open>Detection_Correct\<close>: \<open>_label_detection_islands\<close>. \<^verbatim>\<open>Fitting\<close>: bounding boxes, the Gaussian, its constrained
  form, and the four cost functions. \<^verbatim>\<open>Source_Find\<close>: the constructor of \<open>SourceFindImage\<close>, the moments fit, and
  the composition of the stages above.

  \<^bold>\<open>Imaging.\<close> \<^verbatim>\<open>Matrix_Shift\<close> and \<^verbatim>\<open>Rotation\<close>: \<open>matrix_shift\<close>, \<open>fftshift\<close> and
  \<open>rotate_matrix\<close>. \<^verbatim>\<open>Gridder\<close>: the serial, parallel and exact gridding loops; one placement of a kernel is a
  \<open>grid_point\<close>, a pair of grids is the state. \<^verbatim>\<open>Gridder_Prep\<close> and \<^verbatim>\<open>Gridder_Planes\<close>: the functions of
  \<^verbatim>\<open>gridder.cpp\<close>. \<^verbatim>\<open>Conv_Func\<close>: kernel functions and caches. \<^verbatim>\<open>Convolve\<close> and \<^verbatim>\<open>Convolve_Exact\<close>: the
  preparation of the visibilities with the gridders, refining a sum of kernels on the torus of the whole plane.
  \<^verbatim>\<open>Fft\<close>: the FFTW wrappers with planner flags and errors, and the completion of a Hermitian matrix.
  \<^verbatim>\<open>Img_Dom_Kernel\<close>: \<open>ImgDomKernel\<close>. \<^verbatim>\<open>Band_Matrix\<close> and \<^verbatim>\<open>Spline\<close>: the LU decomposition of band matrices
  and the splines of \<^verbatim>\<open>spline.cpp\<close>. \<^verbatim>\<open>Wide_Field\<close>: the class \<open>WideFieldImaging\<close>;
  \<^verbatim>\<open>Wide_Symmetry\<close> and \<^verbatim>\<open>Wide_Hankel\<close>: its kernels are even, and the Hankel form agrees with the transform of two
  dimensions. \<^verbatim>\<open>Grid_Visibilities\<close>: \<open>convolve_to_grid\<close> as a whole, with and without W-projection.
  \<^verbatim>\<open>A_Projection\<close>, \<^verbatim>\<open>Aproj_Grid\<close>, \<^verbatim>\<open>Aproj_Run\<close>: the same with A-projection: time steps, A-kernels, rotated
  kernels, and every visibility in one plane and time step. \<^verbatim>\<open>Imager\<close>: \<open>ImageVisibilities\<close>, that it returns, and
  what its image is. \<^verbatim>\<open>Visibility\<close>: the simulated visibilities of \<^verbatim>\<open>visibility/visibility.cpp\<close>.
  \<^verbatim>\<open>Config\<close>: the JSON configuration of \<^verbatim>\<open>src/src/auxiliary\<close> and \<open>set_image_sizes\<close> of
  \<^verbatim>\<open>src/src/reduce\<close>.

  \<^bold>\<open>Conventions.\<close> Definitions have the names of the code where Isabelle allows it. A failed assertion, an exception and an
  access outside of an array are values (\<open>Inl\<close> of an error, or \<open>None\<close>). Arguments named \<open>mem\<close> or
  \<open>uninit\<close> are memory that is not initialised; the results must not depend on them. Loops are folds over index lists,
  or recursive functions with proved termination; no fuel is used. Where an unsigned index of the code may wrap around
  (\<open>trunc_loop\<close>) the result is \<open>None\<close>. Records that end in \<open>_env\<close> hold the schedules and the
  third-party functions of a component.

  \<^bold>\<open>Parameters and hypotheses.\<close> TBB, armadillo, FFTW, Ceres, RapidJSON, \<^verbatim>\<open>std::calloc\<close>, \<^verbatim>\<open>std::nth_element\<close> and the
  spherical harmonics are not code of the repository: they are arguments, and what is relied on is a predicate whose name
  ends in \<open>_documented\<close> or \<open>_ok\<close> (\<open>c2c_documented\<close>: FFTW computes the discrete transform;
  \<open>threads_ok\<close>, \<open>covers\<close>: a schedule runs every index once; \<open>linspace_documented\<close>;
  \<open>calloc_documented\<close>). Every property with such a hypothesis has a witness with concrete functions.
  \<^verbatim>\<open>real_t\<close> is modelled by the mathematical reals, so that rounding is not part of the model; the bits of doubles
  matter in \<^verbatim>\<open>Float_Bits\<close> only. Sizes are natural numbers except where the code relies on the width of a word
  (\<open>ispowerof2\<close>, pointers, the bits of doubles).

  \<^bold>\<open>Not modelled.\<close> The builds with \<^verbatim>\<open>USE_FLOAT\<close> (and \<^verbatim>\<open>besselj1\<close> for \<^verbatim>\<open>float\<close>), and the
  \<^verbatim>\<open>FFTSHIFT\<close> form of the imager: other precisions and orders of the same steps, of which the default build is
  modelled. \<^verbatim>\<open>common/spharmonics.cpp\<close> only compiles a third-party library. \<^verbatim>\<open>src/src/reduce\<close> (command
  lines, logging), the rest of \<^verbatim>\<open>src/src/auxiliary\<close> (NPZ and JSON files, fixtures of the tests) and
  \<^verbatim>\<open>src/src/stp-python\<close> (bindings) are input and output around the entry points. Benchmarks and tests only call
  the library, and \<^verbatim>\<open>src/src/third-party\<close> is not code of the repository. Time stamps and log messages are left out.
\<close>

end
